(* ===== verification/Prelude.thy ===== *)
theory Prelude
  imports Main "HOL-Library.Word" "HOL-Library.List_Lexorder" "HOL-Library.Monad_Syntax"
begin

text \<open>
  Shared vocabulary of the development: machine types of the Go source, the parts of the Go
  standard library the source calls (packages \<open>bytes\<close>, \<open>strings\<close>, \<open>encoding/binary\<close>), and the
  generic lemmas the component theories use.

  Conventions. A Go \<open>byte\<close> is an \<open>8 word\<close>; \<open>string\<close> and \<open>[]byte\<close> are byte lists (a Go string is a
  byte sequence). Fixed width integers are words, so \<open>+\<close> wraps as in Go. A \<open>float64\<close> is its IEEE
  754 bit pattern (\<open>math.Float64bits\<close> is then the identity). A function that may panic returns an
  \<open>option\<close>, with \<open>None\<close> for the panic; a function with an \<open>error\<close> result returns a sum with
  \<open>Inl\<close> for the error. An index result that is \<open>-1\<close> in Go is \<open>None\<close> here.
\<close>

unbundle bit_operations_syntax

type_synonym byte = "8 word"
type_synonym bytes = "byte list"
type_synonym uint16 = "16 word"
type_synonym uint32 = "32 word"
type_synonym uint64 = "64 word"
type_synonym float64 = "64 word"

named_theorems go_simps \<open>unfolding rules of the Go library model\<close>
named_theorems codec_simps \<open>encode/decode round trips\<close>

subsection \<open>Characters and string literals\<close>

abbreviation cNul :: byte where "cNul \<equiv> 0"
abbreviation cLF :: byte where "cLF \<equiv> 10"
abbreviation cCR :: byte where "cCR \<equiv> 13"
abbreviation cSpace :: byte where "cSpace \<equiv> 32"
abbreviation cPercent :: byte where "cPercent \<equiv> 37"
abbreviation cAmp :: byte where "cAmp \<equiv> 38"
abbreviation cStar :: byte where "cStar \<equiv> 42"
abbreviation cPlus :: byte where "cPlus \<equiv> 43"
abbreviation cComma :: byte where "cComma \<equiv> 44"
abbreviation cMinus :: byte where "cMinus \<equiv> 45"
abbreviation cDot :: byte where "cDot \<equiv> 46"
abbreviation cColon :: byte where "cColon \<equiv> 58"
abbreviation cSemi :: byte where "cSemi \<equiv> 59"
abbreviation cEq :: byte where "cEq \<equiv> 61"
abbreviation cQuest :: byte where "cQuest \<equiv> 63"

text \<open>A Go string literal.\<close>

definition str :: "string \<Rightarrow> bytes" where
  "str s = map of_char s"

lemma str_Nil [simp]: "str [] = []"
  and str_Cons [simp]: "str (c # cs) = of_char c # str cs"
  and length_str [simp]: "length (str s) = length s"
  by (simp_all add: str_def)

subsection \<open>Searching (packages bytes and strings)\<close>

text \<open>\<open>bytes.IndexByte\<close> and \<open>strings.IndexByte\<close>: the first position of a byte.\<close>

fun IndexByte :: "bytes \<Rightarrow> byte \<Rightarrow> nat option" where
  "IndexByte [] c = None"
| "IndexByte (x # xs) c = (if x = c then Some 0 else map_option Suc (IndexByte xs c))"

text \<open>\<open>bytes.LastIndexByte\<close>: the last position of a byte.\<close>

fun LastIndexByte :: "bytes \<Rightarrow> byte \<Rightarrow> nat option" where
  "LastIndexByte [] c = None"
| "LastIndexByte (x # xs) c =
     (case LastIndexByte xs c of
        Some i \<Rightarrow> Some (Suc i)
      | None \<Rightarrow> if x = c then Some 0 else None)"

lemma IndexByte_None: "IndexByte p c = None \<longleftrightarrow> c \<notin> set p"
  by (induction p) auto

lemma IndexByte_NoneI [simp]: "c \<notin> set p \<Longrightarrow> IndexByte p c = None"
  by (simp add: IndexByte_None)

lemma IndexByte_SomeD:
  "IndexByte p c = Some i \<Longrightarrow> i < length p \<and> p ! i = c \<and> c \<notin> set (take i p)"
  by (induction p arbitrary: i) (auto split: if_splits)

lemma IndexByte_append_first [simp]:
  "c \<notin> set xs \<Longrightarrow> IndexByte (xs @ c # ys) c = Some (length xs)"
  by (induction xs) auto

lemma IndexByte_split:
  assumes "IndexByte p c = Some i"
  shows "p = take i p @ c # drop (Suc i) p"
  using IndexByte_SomeD [OF assms] by (metis id_take_nth_drop)

lemma LastIndexByte_None: "LastIndexByte p c = None \<longleftrightarrow> c \<notin> set p"
  by (induction p) (auto split: option.splits)

lemma LastIndexByte_NoneI [simp]: "c \<notin> set p \<Longrightarrow> LastIndexByte p c = None"
  by (simp add: LastIndexByte_None)

lemma LastIndexByte_SomeD:
  "LastIndexByte p c = Some i \<Longrightarrow> i < length p \<and> p ! i = c \<and> c \<notin> set (drop (Suc i) p)"
proof (induction p arbitrary: i)
  case (Cons x xs)
  then show ?case
    by (cases "LastIndexByte xs c") (auto simp: LastIndexByte_None split: if_splits)
qed simp

lemma LastIndexByte_append_last [simp]:
  "c \<notin> set ys \<Longrightarrow> LastIndexByte (xs @ c # ys) c = Some (length xs)"
proof (induction xs)
  case Nil
  then show ?case by simp
qed simp

lemma LastIndexByte_split:
  assumes "LastIndexByte p c = Some i"
  shows "p = take i p @ c # drop (Suc i) p"
  using LastIndexByte_SomeD [OF assms] by (metis id_take_nth_drop)

subsection \<open>Splitting and joining\<close>

text \<open>\<open>strings.Split\<close> for a one-byte separator, and \<open>strings.Join\<close> with one.\<close>

fun splitOn :: "byte \<Rightarrow> bytes \<Rightarrow> bytes list" where
  "splitOn c [] = [[]]"
| "splitOn c (x # xs) =
     (if x = c then [] # splitOn c xs
      else (case splitOn c xs of [] \<Rightarrow> [[x]] | y # ys \<Rightarrow> (x # y) # ys))"

fun joinWith :: "bytes \<Rightarrow> bytes list \<Rightarrow> bytes" where
  "joinWith sep [] = []"
| "joinWith sep [x] = x"
| "joinWith sep (x # y # ys) = x @ sep @ joinWith sep (y # ys)"

lemma splitOn_not_Nil [simp]: "splitOn c s \<noteq> []"
  by (cases s) (auto split: list.splits)

lemma joinWith_Cons: "ys \<noteq> [] \<Longrightarrow> joinWith sep (x # ys) = x @ sep @ joinWith sep ys"
  by (cases ys) auto

lemma joinWith_snoc: "xs \<noteq> [] \<Longrightarrow> joinWith sep (xs @ [y]) = joinWith sep xs @ sep @ y"
  by (induction xs rule: induct_list012) (auto simp: joinWith_Cons)

lemma joinWith_splitOn [codec_simps]: "joinWith [c] (splitOn c s) = s"
proof (induction s)
  case (Cons x xs)
  then show ?case
    by (cases "splitOn c xs"; cases "tl (splitOn c xs)") (auto simp: joinWith_Cons)
qed simp

lemma splitOn_no_sep: "c \<notin> set s \<Longrightarrow> splitOn c s = [s]"
  by (induction s) auto

lemma splitOn_parts: "p \<in> set (splitOn c s) \<Longrightarrow> c \<notin> set p"
proof (induction s arbitrary: p)
  case (Cons x xs)
  then show ?case
    by (cases "splitOn c xs") (auto split: if_splits)
qed simp

lemma splitOn_append_sep:
  "splitOn c (s @ c # t) = splitOn c s @ splitOn c t"
proof (induction s)
  case (Cons x xs)
  then show ?case by (cases "splitOn c xs") auto
qed simp

lemma splitOn_joinWith [codec_simps]:
  assumes "xs \<noteq> []" and "\<forall>p \<in> set xs. c \<notin> set p"
  shows "splitOn c (joinWith [c] xs) = xs"
  using assms
  by (induction xs rule: induct_list012) (auto simp: splitOn_append_sep splitOn_no_sep)

lemma set_joinWith: "p \<in> set xs \<Longrightarrow> set p \<subseteq> set (joinWith sep xs)"
  by (induction xs rule: induct_list012) auto

lemma set_splitOn: "p \<in> set (splitOn c s) \<Longrightarrow> x \<in> set p \<Longrightarrow> x \<in> set s"
  using set_joinWith [of p "splitOn c s" "[c]"] by (auto simp: joinWith_splitOn)

lemma splitOn_IndexByte:
  "splitOn c s = (case IndexByte s c of None \<Rightarrow> [s] | Some i \<Rightarrow> take i s # splitOn c (drop (Suc i) s))"
proof (cases "IndexByte s c")
  case None
  then show ?thesis by (simp add: splitOn_no_sep IndexByte_None)
next
  case (Some i)
  with IndexByte_split [OF Some] IndexByte_SomeD [OF Some] show ?thesis
    by (metis (no_types, lifting) append_Cons append_Nil option.simps(5) splitOn_append_sep splitOn_no_sep)
qed

lemma length_splitOn: "length (splitOn c s) = Suc (count_list s c)"
proof (induction s)
  case (Cons x xs)
  then show ?case by (cases "splitOn c xs") auto
qed simp

lemma length_joinWith:
  "xs \<noteq> [] \<Longrightarrow> length (joinWith sep xs) = sum_list (map length xs) + length sep * (length xs - 1)"
  by (induction xs rule: induct_list012) auto

lemma last_take_nth: "0 < i \<Longrightarrow> i \<le> length xs \<Longrightarrow> last (take i xs) = xs ! (i - 1)"
  by (cases xs) (auto simp: last_conv_nth)

subsection \<open>Prefix and suffix tests\<close>

definition HasPrefix :: "bytes \<Rightarrow> bytes \<Rightarrow> bool" where
  "HasPrefix s p \<longleftrightarrow> take (length p) s = p"

definition HasSuffix :: "bytes \<Rightarrow> bytes \<Rightarrow> bool" where
  "HasSuffix s p \<longleftrightarrow> length p \<le> length s \<and> drop (length s - length p) s = p"

lemma HasPrefix_append [simp]: "HasPrefix (p @ s) p"
  by (simp add: HasPrefix_def)

lemma HasSuffix_append [simp]: "HasSuffix (s @ p) p"
  by (simp add: HasSuffix_def)

lemma HasPrefix_iff: "HasPrefix s p \<longleftrightarrow> (\<exists>t. s = p @ t)"
  unfolding HasPrefix_def by (metis append_eq_conv_conj)

lemma HasSuffix_iff: "HasSuffix s p \<longleftrightarrow> (\<exists>t. s = t @ p)"
  unfolding HasSuffix_def by (metis append_eq_conv_conj append_take_drop_id
      length_append le_add2 add_diff_cancel_right')

subsection \<open>Loops over a slice\<close>

text \<open>\<open>for _, x := range xs { step(x) }\<close> where the body may panic.\<close>

fun rangeLoop :: "('x \<Rightarrow> 's \<Rightarrow> 's option) \<Rightarrow> 'x list \<Rightarrow> 's \<Rightarrow> 's option" where
  "rangeLoop step [] s = Some s"
| "rangeLoop step (x # xs) s = (case step x s of None \<Rightarrow> None | Some s \<Rightarrow> rangeLoop step xs s)"

lemma rangeLoop_append:
  "rangeLoop step (xs @ ys) s = (case rangeLoop step xs s of None \<Rightarrow> None | Some s \<Rightarrow> rangeLoop step ys s)"
  by (induction xs arbitrary: s) (auto split: option.split)

lemma rangeLoop_map: "rangeLoop step (map f xs) s = rangeLoop (\<lambda>x. step (f x)) xs s"
  by (induction xs arbitrary: s) (simp_all split: option.split)

text \<open>Two loops whose steps keep a relation between their states.\<close>

lemma rangeLoop_rel:
  assumes "\<And>x s t. x \<in> set xs \<Longrightarrow> R s t \<Longrightarrow> rel_option R (f x s) (g x t)" "R s t"
  shows "rel_option R (rangeLoop f xs s) (rangeLoop g xs t)"
  using assms
proof (induction xs arbitrary: s t)
  case (Cons x xs)
  from Cons.prems(1) [of x s t] Cons.prems(2) have "rel_option R (f x s) (g x t)" by simp
  then show ?case using Cons.IH Cons.prems(1) by (cases rule: option.rel_cases) simp_all
qed simp

lemma rangeLoop_inv:
  assumes "I s" and "\<And>x s s'. x \<in> set xs \<Longrightarrow> I s \<Longrightarrow> step x s = Some s' \<Longrightarrow> I s'"
    and "rangeLoop step xs s = Some s'"
  shows "I s'"
  using assms by (induction xs arbitrary: s) (auto split: option.splits)

end
