(* ===== verification/Binary.thy ===== *)
theory Binary
  imports Prelude
begin

text \<open>
  The part of Go's \<open>encoding/binary\<close> that the source uses: little endian integers
  (\<open>LittleEndian.PutUintN\<close>, \<open>LittleEndian.UintN\<close>), big endian \<open>PutUint64\<close>, unsigned varints
  (\<open>PutUvarint\<close>, \<open>ReadUvarint\<close>), and \<open>io.ReadFull\<close>. The round trips are proved here once.
\<close>

subsection \<open>Little endian integers\<close>

fun lePut :: "nat \<Rightarrow> 'a::len word \<Rightarrow> bytes" where
  "lePut 0 w = []"
| "lePut (Suc n) w = ucast w # lePut n (drop_bit 8 w)"

fun leGet :: "bytes \<Rightarrow> 'a::len word" where
  "leGet [] = 0"
| "leGet (b # bs) = ucast b OR push_bit 8 (leGet bs)"

abbreviation putUint16 :: "uint16 \<Rightarrow> bytes" where "putUint16 \<equiv> lePut 2"
abbreviation putUint32 :: "uint32 \<Rightarrow> bytes" where "putUint32 \<equiv> lePut 4"
abbreviation putUint64 :: "uint64 \<Rightarrow> bytes" where "putUint64 \<equiv> lePut 8"

lemma length_lePut [simp]: "length (lePut n w) = n"
  by (induction n arbitrary: w) auto

lemma leGet_lePut: "leGet (lePut n w) = (take_bit (8 * n) w :: 'a::len word)"
proof (induction n arbitrary: w)
  case (Suc n)
  show ?case
    by (rule bit_eqI) (auto simp: Suc bit_simps)
qed simp

lemma leGet_putUint16 [codec_simps, simp]: "leGet (putUint16 w) = w"
  and leGet_putUint32 [codec_simps, simp]: "leGet (putUint32 v) = v"
  and leGet_putUint64 [codec_simps, simp]: "leGet (putUint64 u) = u"
  by (simp_all add: leGet_lePut take_bit_word_eq_self)

subsection \<open>Big endian\<close>

definition bePutUint64 :: "uint64 \<Rightarrow> bytes" where
  "bePutUint64 w = rev (putUint64 w)"

lemma bePutUint64_inject [simp]: "bePutUint64 v = bePutUint64 w \<longleftrightarrow> v = w"
  unfolding bePutUint64_def by (metis leGet_putUint64 rev_rev_ident)

subsection \<open>Unsigned varints\<close>

function putUvarint :: "uint64 \<Rightarrow> bytes" where
  "putUvarint x = (if x < 0x80 then [ucast x] else (ucast x OR 0x80) # putUvarint (drop_bit 7 x))"
  by pat_completeness auto

lemma unat_less_64: "unat (x :: uint64) < 2 ^ 64"
  using unsigned_less [of x] by simp

lemma unat_drop_bit_7: "unat (drop_bit 7 (x :: uint64)) = unat x div 128"
  by (simp add: drop_bit_eq_div unat_div)

termination putUvarint
proof (relation "measure unat")
  fix x :: uint64
  assume "\<not> x < 0x80"
  then have "0x80 \<le> unat x" by (simp add: word_less_nat_alt)
  then show "(drop_bit 7 x, x) \<in> measure unat"
    by (simp add: unat_drop_bit_7)
qed simp

declare putUvarint.simps [simp del]

lemma putUvarint_small: "x < 0x80 \<Longrightarrow> putUvarint x = [ucast x]"
  by (subst putUvarint.simps) simp

lemma putUvarint_big: "\<not> x < 0x80 \<Longrightarrow> putUvarint x = (ucast x OR 0x80) # putUvarint (drop_bit 7 x)"
  by (subst putUvarint.simps) simp

lemma putUvarint_not_Nil [simp]: "putUvarint x \<noteq> []"
  by (subst putUvarint.simps) simp

lemma length_putUvarint_pos [simp]: "0 < length (putUvarint x)"
  by simp

text \<open>A number of at most \<open>7 * n\<close> bits takes at most \<open>n\<close> bytes.\<close>

lemma length_putUvarint_le:
  "0 < n \<Longrightarrow> unat x < 2 ^ (7 * n) \<Longrightarrow> length (putUvarint x) \<le> n"
proof (induction n arbitrary: x)
  case (Suc n)
  show ?case
  proof (cases "x < 0x80")
    case True
    then show ?thesis by (simp add: putUvarint_small)
  next
    case False
    then have ge: "128 \<le> unat x" by (simp add: word_less_nat_alt)
    with Suc.prems have "0 < n" by (cases n) auto
    moreover have "unat (drop_bit 7 x) < 2 ^ (7 * n)"
      using Suc.prems by (simp add: unat_drop_bit_7 power_add less_mult_imp_div_less mult.commute)
    ultimately show ?thesis
      using Suc.IH [of "drop_bit 7 x"] False by (simp add: putUvarint_big)
  qed
qed simp

lemma length_putUvarint_max: "length (putUvarint x) \<le> 10"
  using length_putUvarint_le [of 10 x] unat_less_64 [of x] by simp

text \<open>
  \<open>binary.ReadUvarint\<close>: at most ten bytes, the tenth at most 1. The loop has read \<open>i\<close> bytes and
  accumulated \<open>x\<close>; \<open>s\<close> is the next shift.
\<close>

datatype varint_error = VarintEOF | VarintUnexpectedEOF | VarintOverflow

fun ReadUvarint_loop :: "nat \<Rightarrow> uint64 \<Rightarrow> nat \<Rightarrow> bytes \<Rightarrow> varint_error + uint64 \<times> bytes" where
  "ReadUvarint_loop i x s [] =
     Inl (if 10 \<le> i then VarintOverflow else if 0 < i then VarintUnexpectedEOF else VarintEOF)"
| "ReadUvarint_loop i x s (b # bs) =
     (if 10 \<le> i then Inl VarintOverflow
      else if b < 0x80 then
        (if i = 9 \<and> 1 < b then Inl VarintOverflow
         else Inr (x OR push_bit s (ucast b), bs))
      else ReadUvarint_loop (Suc i) (x OR push_bit s (ucast (b AND 0x7f))) (s + 7) bs)"

definition ReadUvarint :: "bytes \<Rightarrow> varint_error + uint64 \<times> bytes" where
  "ReadUvarint bs = ReadUvarint_loop 0 0 0 bs"

lemma ucast_low7: "(ucast ((ucast x OR 0x80 :: byte) AND 0x7f) :: uint64) = take_bit 7 (x :: uint64)"
proof (rule bit_eqI)
  fix n assume "possible_bit TYPE(uint64) n"
  show "bit (ucast ((ucast x OR 0x80 :: byte) AND 0x7f) :: uint64) n = bit (take_bit 7 x) n"
  proof (cases "n < 8")
    case True
    then have "n \<in> {0,1,2,3,4,5,6,7}" by auto
    then show ?thesis by (auto simp: bit_simps)
  qed (auto simp: bit_simps)
qed

lemma high_bit_set: "\<not> (ucast x OR 0x80 :: byte) < 0x80"
  by (metis le_word_or1 not_less)

lemma push_bit_split7:
  "push_bit s (x :: uint64) = push_bit s (take_bit 7 x) OR push_bit (s + 7) (drop_bit 7 x)"
proof (rule bit_eqI)
  fix n assume "possible_bit TYPE(uint64) n"
  then show "bit (push_bit s x) n
      = bit (push_bit s (take_bit 7 x) OR push_bit (s + 7) (drop_bit 7 x)) n"
    by (cases "n < s + 7") (auto simp: bit_simps)
qed

lemma ucast_ucast_small: "(y :: uint64) < 0x80 \<Longrightarrow> ucast (ucast y :: byte) = y"
  by (simp add: word_unat_eq_iff word_less_nat_alt unsigned_ucast_eq unsigned_take_bit_eq
      take_bit_nat_eq_self)

lemma unat_ucast_byte_small: "(y :: uint64) < 0x80 \<Longrightarrow> unat (ucast y :: byte) = unat y"
  by (simp add: word_less_nat_alt unsigned_ucast_eq take_bit_nat_eq_self)

lemma ReadUvarint_loop_put:
  assumes "i < 10" and "unat y < 2 ^ (64 - 7 * i)"
  shows "ReadUvarint_loop i x (7 * i) (putUvarint y @ rest) = Inr (x OR push_bit (7 * i) y, rest)"
  using assms
proof (induction y arbitrary: i x rule: putUvarint.induct)
  case (1 y)
  show ?case
  proof (cases "y < 0x80")
    case True
    have byte: "(ucast y :: byte) < 0x80"
      using True by (simp add: word_less_nat_alt unat_ucast_byte_small)
    have "\<not> (i = 9 \<and> 1 < (ucast y :: byte))"
      using "1.prems" True by (auto simp: word_less_nat_alt unat_ucast_byte_small)
    with True byte "1.prems" show ?thesis
      by (simp add: putUvarint_small ucast_ucast_small)
  next
    case False
    then have ge: "128 \<le> unat y" by (simp add: word_less_nat_alt)
    have i: "i < 9"
    proof (rule ccontr)
      assume "\<not> i < 9"
      with "1.prems" have "i = 9" by simp
      with "1.prems" ge show False by simp
    qed
    then obtain m where m: "64 - 7 * i = 7 + m" "64 - 7 * Suc i = m" by fastforce
    from "1.prems"(2) have "unat y < 2 ^ m * 128" by (simp only: m power_add) simp
    then have "unat (drop_bit 7 y) < 2 ^ (64 - 7 * Suc i)"
      unfolding unat_drop_bit_7 m(2) by (rule less_mult_imp_div_less)
    then have "ReadUvarint_loop (Suc i) (x OR push_bit (7 * i) (take_bit 7 y)) (7 * Suc i)
                 (putUvarint (drop_bit 7 y) @ rest)
               = Inr (x OR push_bit (7 * i) (take_bit 7 y) OR push_bit (7 * Suc i) (drop_bit 7 y), rest)"
      using "1.IH" [OF False, of "Suc i"] i by (simp add: or.assoc)
    moreover have "x OR push_bit (7 * i) y
        = x OR push_bit (7 * i) (take_bit 7 y) OR push_bit (7 * Suc i) (drop_bit 7 y)"
      by (subst push_bit_split7) (simp only: mult_Suc_right add.commute)
    moreover have "ReadUvarint_loop i x (7 * i) (putUvarint y @ rest)
        = ReadUvarint_loop (Suc i) (x OR push_bit (7 * i) (take_bit 7 y)) (7 * Suc i)
            (putUvarint (drop_bit 7 y) @ rest)"
      using i high_bit_set [of y]
      by (simp only: putUvarint_big [OF False] append_Cons ReadUvarint_loop.simps ucast_low7
          if_False mult_Suc_right add.commute) simp
    ultimately show ?thesis by (simp only:)
  qed
qed

theorem ReadUvarint_putUvarint [codec_simps, simp]:
  "ReadUvarint (putUvarint y @ rest) = Inr (y, rest)"
  using ReadUvarint_loop_put [of 0 y 0 rest] unat_less_64 [of y]
  by (simp add: ReadUvarint_def)

text \<open>Reading stops short of every proper prefix of an encoding.\<close>

lemma ReadUvarint_loop_prefix:
  assumes "i + k \<le> 9" and "k < length (putUvarint y)"
  shows "\<exists>e. ReadUvarint_loop i x s (take k (putUvarint y)) = Inl e"
  using assms
proof (induction y arbitrary: i x s k rule: putUvarint.induct)
  case (1 y)
  show ?case
  proof (cases "y < 0x80")
    case True
    with "1.prems" show ?thesis by (simp add: putUvarint_small)
  next
    case False
    show ?thesis
    proof (cases k)
      case (Suc m)
      with False "1.prems" have "m < length (putUvarint (drop_bit 7 y))"
        by (simp add: putUvarint_big)
      with Suc "1.prems" "1.IH" [OF False, of "Suc i" m] show ?thesis
        by (simp add: putUvarint_big [OF False] high_bit_set)
    qed simp
  qed
qed

lemma ReadUvarint_prefix:
  assumes "k < length (putUvarint y)"
  shows "\<exists>e. ReadUvarint (take k (putUvarint y)) = Inl e"
  using ReadUvarint_loop_prefix [of 0 k y 0 0] assms length_putUvarint_max [of y]
  by (simp add: ReadUvarint_def)

lemma ReadUvarint_loop_consumes:
  "ReadUvarint_loop i x s bs = Inr (y, rest) \<Longrightarrow> length rest < length bs"
proof (induction i x s bs rule: ReadUvarint_loop.induct)
  case (2 i x s b bs)
  then show ?case by (auto split: if_splits)
qed simp

lemma ReadUvarint_consumes: "ReadUvarint bs = Inr (y, rest) \<Longrightarrow> length rest < length bs"
  unfolding ReadUvarint_def by (rule ReadUvarint_loop_consumes)

subsection \<open>Reading exactly\<close>

text \<open>\<open>io.ReadFull\<close> of \<open>n\<close> bytes: the bytes and the rest, or \<open>None\<close> for an EOF error.\<close>

definition ReadFull :: "nat \<Rightarrow> bytes \<Rightarrow> (bytes \<times> bytes) option" where
  "ReadFull n bs = (if n \<le> length bs then Some (take n bs, drop n bs) else None)"

lemma ReadFull_append [codec_simps, simp]: "n = length xs \<Longrightarrow> ReadFull n (xs @ ys) = Some (xs, ys)"
  by (simp add: ReadFull_def)

lemma ReadFull_short: "length bs < n \<Longrightarrow> ReadFull n bs = None"
  by (simp add: ReadFull_def)

end
