(* ===== verification/RB_Buffer.thy ===== *)
theory RB_Buffer
  imports Binary
begin

text \<open>
  \<^verbatim>\<open>helper/RowBinary/write_buffer.go\<close>: the fixed-size output buffer in which receivers, the collector
  and the uploaders assemble ClickHouse RowBinary data.

  The Go struct has an array \<open>Body\<close> of \<open>WriteBufferSize\<close> bytes and the count \<open>Used\<close>. No operation
  reads the cells at and beyond \<open>Used\<close>, and every write goes to \<open>Body[Used:]\<close>, so the model keeps
  the live part \<open>Body[:Used]\<close>, and \<open>Used\<close> is its length. What the code does when the array is
  full is kept: \<open>copy\<close> truncates silently, \<open>PutUvarint\<close>, \<open>PutUintN\<close> and an index assignment
  panic (\<open>None\<close>).

  The wait group and the error channel of a confirmed write are shared between the buffers of one
  request, so they are addresses into a store.
\<close>

definition SIZE_INT64 :: nat where "SIZE_INT64 = 8"
definition SIZE_INT16 :: nat where "SIZE_INT16 = 2"
definition SIZE_INT32 :: nat where "SIZE_INT32 = 4"

definition WriteBufferSize :: nat where "WriteBufferSize = 524288"

record write_buffer =
  wbBody :: bytes
  wbWg :: "nat option"
  wbErrorChan :: "nat option"

definition wbUsed :: "write_buffer \<Rightarrow> nat" where
  "wbUsed wb = length (wbBody wb)"

text \<open>The invariant of the struct: \<open>Used\<close> never exceeds the array.\<close>

definition wb_ok :: "write_buffer \<Rightarrow> bool" where
  "wb_ok wb \<longleftrightarrow> wbUsed wb \<le> WriteBufferSize"

subsection \<open>Life cycle and confirmation\<close>

text \<open>The shared synchronisation objects: wait group counters and error channels.\<close>

record 'e sync_store =
  wgCount :: "nat \<Rightarrow> nat"
  chanBuf :: "nat \<Rightarrow> 'e list"
  chanCap :: "nat \<Rightarrow> nat"

text \<open>\<open>Reset\<close>: an empty buffer that needs no confirmation.\<close>

definition Reset :: "write_buffer \<Rightarrow> write_buffer" where
  "Reset wb = wb\<lparr>wbBody := [], wbWg := None, wbErrorChan := None\<rparr>"

text \<open>
  \<open>GetWriteBuffer\<close> takes any buffer from the pool, or a new one, and resets it: the argument is
  the buffer the pool returns.
\<close>

definition GetWriteBuffer :: "write_buffer \<Rightarrow> write_buffer" where
  "GetWriteBuffer pooled = Reset pooled"

definition newWriteBuffer :: write_buffer where
  "newWriteBuffer = \<lparr>wbBody = [], wbWg = None, wbErrorChan = None\<rparr>"

definition GetWriterBufferWithConfirm ::
    "nat option \<Rightarrow> nat option \<Rightarrow> 'e sync_store \<Rightarrow> write_buffer \<times> 'e sync_store" where
  "GetWriterBufferWithConfirm wg errorChan st =
     (let b = GetWriteBuffer newWriteBuffer;
          st' = (case wg of None \<Rightarrow> st
                 | Some g \<Rightarrow> st\<lparr>wgCount := (wgCount st)(g := wgCount st g + 1)\<rparr>)
      in (b\<lparr>wbWg := wg, wbErrorChan := errorChan\<rparr>, st'))"

definition ConfirmRequired :: "write_buffer \<Rightarrow> bool" where
  "ConfirmRequired wb \<longleftrightarrow> wbWg wb \<noteq> None"

text \<open>\<open>wg.Done()\<close>: a nil wait group or a negative counter panics.\<close>

definition wgDone :: "nat option \<Rightarrow> 'e sync_store \<Rightarrow> 'e sync_store option" where
  "wgDone wg st =
     (case wg of None \<Rightarrow> None
      | Some g \<Rightarrow> if wgCount st g = 0 then None
                  else Some (st\<lparr>wgCount := (wgCount st)(g := wgCount st g - 1)\<rparr>))"

text \<open>\<open>Fail\<close>: a non-blocking send of the error (dropped when the channel is nil or full), then \<open>Done\<close>.\<close>

definition Fail :: "'e \<Rightarrow> write_buffer \<Rightarrow> 'e sync_store \<Rightarrow> 'e sync_store option" where
  "Fail err wb st =
     wgDone (wbWg wb)
       (case wbErrorChan wb of
          None \<Rightarrow> st
        | Some c \<Rightarrow> if length (chanBuf st c) < chanCap st c
                    then st\<lparr>chanBuf := (chanBuf st)(c := chanBuf st c @ [err])\<rparr> else st)"

definition Confirm :: "write_buffer \<Rightarrow> 'e sync_store \<Rightarrow> 'e sync_store option" where
  "Confirm wb st = wgDone (wbWg wb) st"

definition FreeSize :: "write_buffer \<Rightarrow> nat" where
  "FreeSize wb = WriteBufferSize - wbUsed wb"

definition Empty :: "write_buffer \<Rightarrow> bool" where
  "Empty wb \<longleftrightarrow> wbUsed wb = 0"

definition Bytes :: "write_buffer \<Rightarrow> bytes" where
  "Bytes wb = wbBody wb"

subsection \<open>Writing\<close>

text \<open>\<open>wb.Used += copy(wb.Body[wb.Used:], p)\<close>\<close>

definition copyTo :: "bytes \<Rightarrow> write_buffer \<Rightarrow> write_buffer" where
  "copyTo p wb = wb\<lparr>wbBody := wbBody wb @ take (FreeSize wb) p\<rparr>"

text \<open>Writes that panic when the array has no room for all of \<open>p\<close>.\<close>

definition putTo :: "bytes \<Rightarrow> write_buffer \<Rightarrow> write_buffer option" where
  "putTo p wb = (if length p \<le> FreeSize wb then Some (wb\<lparr>wbBody := wbBody wb @ p\<rparr>) else None)"

definition WriteBytes :: "bytes \<Rightarrow> write_buffer \<Rightarrow> write_buffer option" where
  "WriteBytes p wb = do {
     wb \<leftarrow> putTo (putUvarint (of_nat (length p))) wb;
     Some (copyTo p wb) }"

definition taggedSep :: "nat \<Rightarrow> byte" where
  "taggedSep i = (if i = 1 then cQuest else if i mod 2 = 1 then cAmp else cEq)"

fun WriteTagged_loop :: "nat \<Rightarrow> bytes list \<Rightarrow> write_buffer \<Rightarrow> write_buffer option" where
  "WriteTagged_loop i [] wb = Some wb"
| "WriteTagged_loop i (t # ts) wb = do {
     wb \<leftarrow> (if 0 < i then putTo [taggedSep i] wb else Some wb);
     WriteTagged_loop (Suc i) ts (copyTo t wb) }"

definition WriteTagged :: "bytes list \<Rightarrow> write_buffer \<Rightarrow> write_buffer option" where
  "WriteTagged tagged wb =
     (if tagged = [] then Some wb
      else do {
        let l = length tagged - 1 + sum_list (map length tagged);
        wb \<leftarrow> putTo (putUvarint (of_nat l)) wb;
        WriteTagged_loop 0 tagged wb })"

definition WriteString :: "bytes \<Rightarrow> write_buffer \<Rightarrow> write_buffer option" where
  "WriteString s wb = do {
     wb \<leftarrow> putTo (putUvarint (of_nat (length s))) wb;
     Some (copyTo s wb) }"

definition WriteUVarint :: "uint64 \<Rightarrow> write_buffer \<Rightarrow> write_buffer option" where
  "WriteUVarint v wb = putTo (putUvarint v) wb"

function WriteReversePath_loop :: "bytes \<Rightarrow> write_buffer \<Rightarrow> write_buffer option" where
  "WriteReversePath_loop p wb =
     (case LastIndexByte p cDot of
        None \<Rightarrow> Some (copyTo p wb)
      | Some index \<Rightarrow> do {
          let wb = copyTo (drop (Suc index) p) wb;
          wb \<leftarrow> putTo [cDot] wb;
          WriteReversePath_loop (take index p) wb })"
  by pat_completeness auto
termination
  by (relation "measure (length \<circ> fst)") (auto dest: LastIndexByte_SomeD)

declare WriteReversePath_loop.simps [simp del]

definition WriteReversePath :: "bytes \<Rightarrow> write_buffer \<Rightarrow> write_buffer option" where
  "WriteReversePath p wb = do {
     wb \<leftarrow> putTo (putUvarint (of_nat (length p))) wb;
     WriteReversePath_loop p wb }"

definition WriteFloat64 :: "float64 \<Rightarrow> write_buffer \<Rightarrow> write_buffer option" where
  "WriteFloat64 value wb = putTo (putUint64 value) wb"

definition WriteUint16 :: "uint16 \<Rightarrow> write_buffer \<Rightarrow> write_buffer option" where
  "WriteUint16 value wb = putTo (putUint16 value) wb"

definition WriteUint32 :: "uint32 \<Rightarrow> write_buffer \<Rightarrow> write_buffer option" where
  "WriteUint32 value wb = putTo (putUint32 value) wb"

definition WriteUint64 :: "uint64 \<Rightarrow> write_buffer \<Rightarrow> write_buffer option" where
  "WriteUint64 value wb = putTo (putUint64 value) wb"

definition Write :: "bytes \<Rightarrow> write_buffer \<Rightarrow> write_buffer" where
  "Write p wb = copyTo p wb"

text \<open>The variable \<open>TimestampToDays\<close> of date.go is the argument \<open>days\<close>.\<close>

definition WriteGraphitePoint ::
    "(uint32 \<Rightarrow> uint16) \<Rightarrow> bytes \<Rightarrow> float64 \<Rightarrow> uint32 \<Rightarrow> uint32 \<Rightarrow> write_buffer \<Rightarrow> write_buffer option"
where
  "WriteGraphitePoint days name value timestamp version wb = do {
     wb \<leftarrow> WriteBytes name wb;
     wb \<leftarrow> WriteFloat64 value wb;
     wb \<leftarrow> WriteUint32 timestamp wb;
     wb \<leftarrow> WriteUint16 (days timestamp) wb;
     WriteUint32 version wb }"

definition WriteGraphitePointTagged ::
    "(uint32 \<Rightarrow> uint16) \<Rightarrow> bytes list \<Rightarrow> float64 \<Rightarrow> uint32 \<Rightarrow> uint32 \<Rightarrow> write_buffer \<Rightarrow> write_buffer option"
where
  "WriteGraphitePointTagged days labels value timestamp version wb = do {
     wb \<leftarrow> WriteTagged labels wb;
     wb \<leftarrow> WriteFloat64 value wb;
     wb \<leftarrow> WriteUint32 timestamp wb;
     wb \<leftarrow> WriteUint16 (days timestamp) wb;
     WriteUint32 version wb }"

definition CanWriteGraphitePoint :: "nat \<Rightarrow> write_buffer \<Rightarrow> bool" where
  "CanWriteGraphitePoint metricLen wb \<longleftrightarrow> int WriteBufferSize - int (wbUsed wb) > int metricLen + 23"

subsection \<open>Specification: the RowBinary encoding\<close>

text \<open>A length-prefixed string and a row of the points table, as byte sequences.\<close>

definition encString :: "bytes \<Rightarrow> bytes" where
  "encString s = putUvarint (of_nat (length s)) @ s"

record point =
  pName :: bytes
  pValue :: float64
  pTime :: uint32
  pVersion :: uint32

definition encPoint :: "(uint32 \<Rightarrow> uint16) \<Rightarrow> point \<Rightarrow> bytes" where
  "encPoint days p = encString (pName p) @ putUint64 (pValue p) @ putUint32 (pTime p)
     @ putUint16 (days (pTime p)) @ putUint32 (pVersion p)"

text \<open>The path a tagged metric \<open>[name, k1, v1, k2, v2, ...]\<close> stands for: \<open>name?k1=v1&k2=v2\<close>.\<close>

fun taggedPath_from :: "nat \<Rightarrow> bytes list \<Rightarrow> bytes" where
  "taggedPath_from i [] = []"
| "taggedPath_from i (t # ts) = (if 0 < i then [taggedSep i] else []) @ t @ taggedPath_from (Suc i) ts"

abbreviation taggedPath :: "bytes list \<Rightarrow> bytes" where "taggedPath \<equiv> taggedPath_from 0"

text \<open>The path with its dot-separated components in reverse order.\<close>

definition reversePath :: "bytes \<Rightarrow> bytes" where
  "reversePath p = joinWith [cDot] (rev (splitOn cDot p))"

subsection \<open>Room and appending\<close>

text \<open>\<open>appended p wb wb'\<close>: the write of \<open>p\<close> succeeded in full.\<close>

definition appendWb :: "bytes \<Rightarrow> write_buffer \<Rightarrow> write_buffer" where
  "appendWb p wb = wb\<lparr>wbBody := wbBody wb @ p\<rparr>"

lemma appendWb_simps [simp]:
  "wbBody (appendWb p wb) = wbBody wb @ p"
  "wbWg (appendWb p wb) = wbWg wb"
  "wbErrorChan (appendWb p wb) = wbErrorChan wb"
  "wbUsed (appendWb p wb) = wbUsed wb + length p"
  "FreeSize (appendWb p wb) = FreeSize wb - length p"
  "appendWb q (appendWb p wb) = appendWb (p @ q) wb"
  "appendWb [] wb = wb"
  by (simp_all add: appendWb_def wbUsed_def FreeSize_def)

lemma putTo_ok [go_simps]: "length p \<le> FreeSize wb \<Longrightarrow> putTo p wb = Some (appendWb p wb)"
  and putTo_panic [go_simps]: "FreeSize wb < length p \<Longrightarrow> putTo p wb = None"
  by (simp_all add: putTo_def appendWb_def)

lemma putTo_if: "putTo p wb = (if length p \<le> FreeSize wb then Some (appendWb p wb) else None)"
  by (simp add: putTo_def appendWb_def)

lemma copyTo_ok [go_simps]: "length p \<le> FreeSize wb \<Longrightarrow> copyTo p wb = appendWb p wb"
  by (simp add: copyTo_def appendWb_def)

lemma copyTo_appendWb: "copyTo p wb = appendWb (take (FreeSize wb) p) wb"
  by (simp add: copyTo_def appendWb_def)

lemmas write_defs = WriteUVarint_def WriteFloat64_def
  WriteUint16_def WriteUint32_def WriteUint64_def Write_def

text \<open>Every write keeps the invariant, whatever the room.\<close>

lemma copyTo_wb_ok: "wb_ok wb \<Longrightarrow> wb_ok (copyTo p wb)"
  by (simp add: wb_ok_def copyTo_def wbUsed_def FreeSize_def)

lemma putTo_wb_ok: "wb_ok wb \<Longrightarrow> putTo p wb = Some wb' \<Longrightarrow> wb_ok wb'"
  by (auto simp: wb_ok_def putTo_def wbUsed_def FreeSize_def split: if_splits)

lemma length_uvarint_buffer:
  assumes "n < WriteBufferSize + WriteBufferSize"
  shows "length (putUvarint (of_nat n)) \<le> 3"
  by (rule length_putUvarint_le)
    (use assms in \<open>simp_all add: WriteBufferSize_def unat_of_nat\<close>)

lemma length_encString: "length s < 2 * WriteBufferSize \<Longrightarrow> length (encString s) \<le> length s + 3"
  using length_uvarint_buffer [of "length s"] by (simp add: encString_def)

lemma length_encPoint:
  "length (pName p) < 2 * WriteBufferSize \<Longrightarrow> length (encPoint days p) \<le> length (pName p) + 21"
  using length_encString [of "pName p"] by (simp add: encPoint_def)

lemma WriteBytes_ok:
  "length (encString p) \<le> FreeSize wb \<Longrightarrow> WriteBytes p wb = Some (appendWb (encString p) wb)"
  by (simp add: WriteBytes_def encString_def go_simps)

lemma WriteString_ok:
  "length (encString p) \<le> FreeSize wb \<Longrightarrow> WriteString p wb = Some (appendWb (encString p) wb)"
  by (simp add: WriteString_def encString_def go_simps)

lemma WriteGraphitePoint_ok:
  assumes "length (encPoint days \<lparr>pName = name, pValue = v, pTime = t, pVersion = ver\<rparr>) \<le> FreeSize wb"
  shows "WriteGraphitePoint days name v t ver wb
           = Some (appendWb (encPoint days \<lparr>pName = name, pValue = v, pTime = t, pVersion = ver\<rparr>) wb)"
  using assms
  by (simp add: WriteGraphitePoint_def encPoint_def WriteBytes_ok WriteFloat64_def
      WriteUint32_def WriteUint16_def go_simps)

lemma FreeSize_copyTo [simp]: "FreeSize (copyTo p wb) = FreeSize wb - length p"
  by (simp add: copyTo_appendWb)

lemma putTo_bind_None:
  "FreeSize wb < length p \<Longrightarrow> putTo p wb \<bind> f = None"
  by (simp add: go_simps)

lemma WriteGraphitePoint_panic:
  assumes "FreeSize wb < length (encPoint days \<lparr>pName = name, pValue = v, pTime = t, pVersion = ver\<rparr>)"
  shows "WriteGraphitePoint days name v t ver wb = None"
proof (cases "length (putUvarint (of_nat (length name))) \<le> FreeSize wb")
  case True
  define wb1 where "wb1 = copyTo name (appendWb (putUvarint (of_nat (length name))) wb)"
  have w1: "WriteBytes name wb = Some wb1"
    using True by (simp add: WriteBytes_def wb1_def go_simps)
  have "FreeSize wb1 < 18"
    using assms True by (simp add: wb1_def encPoint_def encString_def)
  then show ?thesis
    by (simp add: WriteGraphitePoint_def w1 write_defs putTo_if)
next
  case False
  then show ?thesis
    by (simp add: WriteGraphitePoint_def WriteBytes_def go_simps)
qed

text \<open>\<open>CanWriteGraphitePoint\<close> is the guard the callers use.\<close>

lemma CanWriteGraphitePoint_room:
  assumes "CanWriteGraphitePoint (length name) wb"
  shows "length (encPoint days \<lparr>pName = name, pValue = v, pTime = t, pVersion = ver\<rparr>) \<le> FreeSize wb"
proof -
  have "length name + 23 < FreeSize wb"
    using assms by (auto simp: CanWriteGraphitePoint_def FreeSize_def)
  moreover from this have "length name < 2 * WriteBufferSize"
    by (simp add: FreeSize_def)
  ultimately show ?thesis
    using length_encPoint [of "\<lparr>pName = name, pValue = v, pTime = t, pVersion = ver\<rparr>" days]
    by simp
qed

subsection \<open>Tagged names and reversed paths\<close>

lemma length_taggedPath_from:
  "length (taggedPath_from i ts) =
     sum_list (map length ts) + (if i = 0 then length ts - 1 else length ts)"
  by (induction ts arbitrary: i) (auto simp: Suc_leI)

lemma WriteTagged_loop_ok:
  "length (taggedPath_from i ts) \<le> FreeSize wb \<Longrightarrow>
     WriteTagged_loop i ts wb = Some (appendWb (taggedPath_from i ts) wb)"
  by (induction ts arbitrary: i wb) (auto simp: go_simps)

lemma WriteTagged_ok:
  assumes "tagged \<noteq> []" and "length (encString (taggedPath tagged)) \<le> FreeSize wb"
  shows "WriteTagged tagged wb = Some (appendWb (encString (taggedPath tagged)) wb)"
proof -
  have l: "length tagged - 1 + sum_list (map length tagged) = length (taggedPath tagged)"
    by (simp add: length_taggedPath_from)
  show ?thesis
    using assms unfolding WriteTagged_def l Let_def
    by (simp add: encString_def WriteTagged_loop_ok go_simps)
qed

lemma WriteGraphitePointTagged_ok:
  assumes "labels \<noteq> []"
    and "length (encPoint days \<lparr>pName = taggedPath labels, pValue = v, pTime = t, pVersion = ver\<rparr>)
           \<le> FreeSize wb"
  shows "WriteGraphitePointTagged days labels v t ver wb
     = Some (appendWb (encPoint days
              \<lparr>pName = taggedPath labels, pValue = v, pTime = t, pVersion = ver\<rparr>) wb)"
  using assms
  by (simp add: WriteGraphitePointTagged_def encPoint_def WriteTagged_ok WriteFloat64_def
      WriteUint32_def WriteUint16_def go_simps)

lemma reversePath_no_dot: "cDot \<notin> set p \<Longrightarrow> reversePath p = p"
  by (simp add: reversePath_def splitOn_no_sep)

lemma reversePath_last:
  "cDot \<notin> set q \<Longrightarrow> reversePath (p @ cDot # q) = q @ cDot # reversePath p"
  by (simp add: reversePath_def splitOn_append_sep splitOn_no_sep joinWith_Cons)

lemma length_reversePath [simp]: "length (reversePath p) = length p"
proof -
  have "sum_list (map length (rev (splitOn cDot p))) = sum_list (map length (splitOn cDot p))"
    by (metis rev_map sum_list_rev)
  then have "length (joinWith [cDot] (rev (splitOn cDot p))) = length (joinWith [cDot] (splitOn cDot p))"
    by (simp add: length_joinWith)
  then show ?thesis
    by (simp add: reversePath_def joinWith_splitOn)
qed

lemma reversePath_involution [simp]: "reversePath (reversePath p) = p"
proof -
  have "splitOn cDot (joinWith [cDot] (rev (splitOn cDot p))) = rev (splitOn cDot p)"
    by (rule splitOn_joinWith) (auto dest: splitOn_parts)
  then show ?thesis
    by (simp add: reversePath_def joinWith_splitOn)
qed

lemma WriteReversePath_loop_ok:
  "length p \<le> FreeSize wb \<Longrightarrow> WriteReversePath_loop p wb = Some (appendWb (reversePath p) wb)"
proof (induction p wb rule: WriteReversePath_loop.induct)
  case (1 p wb)
  show ?case
  proof (cases "LastIndexByte p cDot")
    case None
    then have "cDot \<notin> set p" by (simp add: LastIndexByte_None)
    with "1.prems" show ?thesis
      by (simp add: WriteReversePath_loop.simps [of p] reversePath_no_dot go_simps)
  next
    case (Some i)
    note i = LastIndexByte_SomeD [OF Some]
    let ?wb = "appendWb (drop (Suc i) p @ [cDot]) wb"
    have "reversePath p = drop (Suc i) p @ cDot # reversePath (take i p)"
      using LastIndexByte_split [OF Some] reversePath_last i by metis
    moreover have "WriteReversePath_loop (take i p) ?wb = Some (appendWb (reversePath (take i p)) ?wb)"
      using "1.IH" [OF Some refl, of ?wb] "1.prems" i by (simp add: go_simps)
    ultimately show ?thesis
      using "1.prems" i Some by (simp add: WriteReversePath_loop.simps [of p] go_simps)
  qed
qed

lemma WriteReversePath_ok:
  "length (encString p) \<le> FreeSize wb \<Longrightarrow>
     WriteReversePath p wb = Some (appendWb (encString (reversePath p)) wb)"
  by (simp add: WriteReversePath_def encString_def WriteReversePath_loop_ok go_simps)

end
