(* ===== verification/RB_Writer.thy ===== *)
theory RB_Writer
  imports RB_Buffer
begin

text \<open>
  \<^verbatim>\<open>helper/RowBinary/writer.go\<close>: the point writer of the HTTP receivers, and the contract
  \<open>point_sink\<close> of every producer that packs points into write buffers and hands them to the
  writer's channel. A channel is the list of the buffers sent to it.
\<close>

subsection \<open>Free functions over an io.Writer\<close>

text \<open>An \<open>io.Writer\<close> that accepts at most \<open>skLimit\<close> more bytes and then fails (\<open>None\<close>: never fails).\<close>

record sink =
  skData :: bytes
  skLimit :: "nat option"

definition sinkWrite :: "bytes \<Rightarrow> sink \<Rightarrow> sink \<times> bool" where
  "sinkWrite p w =
     (case skLimit w of
        None \<Rightarrow> (w\<lparr>skData := skData w @ p\<rparr>, True)
      | Some n \<Rightarrow>
          if length p \<le> n then (w\<lparr>skData := skData w @ p, skLimit := Some (n - length p)\<rparr>, True)
          else (w\<lparr>skData := skData w @ take n p, skLimit := Some 0\<rparr>, False))"

text \<open>The second component is \<open>err == nil\<close>.\<close>

definition ioWriteUint16 :: "uint16 \<Rightarrow> sink \<Rightarrow> sink \<times> bool" where
  "ioWriteUint16 value w = sinkWrite (putUint16 value) w"

definition ioWriteUint32 :: "uint32 \<Rightarrow> sink \<Rightarrow> sink \<times> bool" where
  "ioWriteUint32 value w = sinkWrite (putUint32 value) w"

definition ioWriteBytes :: "bytes \<Rightarrow> sink \<Rightarrow> sink \<times> bool" where
  "ioWriteBytes p w =
     (let (w, ok) = sinkWrite (putUvarint (of_nat (length p))) w
      in if \<not> ok then (w, False) else sinkWrite p w)"

lemma sinkWrite_unlimited [simp]:
  "skLimit w = None \<Longrightarrow> sinkWrite p w = (w\<lparr>skData := skData w @ p\<rparr>, True)"
  by (simp add: sinkWrite_def)

lemma ioWriteBytes_unlimited [simp]:
  "skLimit w = None \<Longrightarrow> ioWriteBytes p w = (w\<lparr>skData := skData w @ encString p\<rparr>, True)"
  by (simp add: ioWriteBytes_def encString_def)

subsection \<open>The point writer\<close>

record writer =
  wChan :: "write_buffer list"
  wWb :: "write_buffer option"
  wPointsWritten :: uint32
  wWriteErrors :: uint32
  wNow :: uint32

definition NewWriter :: "uint32 \<Rightarrow> write_buffer list \<Rightarrow> writer" where
  "NewWriter now writeChan =
     \<lparr>wChan = writeChan, wWb = None, wPointsWritten = 0, wWriteErrors = 0, wNow = now\<rparr>"

text \<open>\<open>send\<close> is the branch the \<open>select\<close> takes: the channel (\<open>True\<close>) or \<open>ctx.Done()\<close>.\<close>

definition Flush :: "bool \<Rightarrow> writer \<Rightarrow> writer" where
  "Flush send w =
     (case wWb w of
        None \<Rightarrow> w
      | Some wb \<Rightarrow>
          (if Empty wb then w
           else if send then w\<lparr>wChan := wChan w @ [wb]\<rparr> else w)\<lparr>wWb := None\<rparr>)"

definition ensureBuffer :: "writer \<Rightarrow> writer" where
  "ensureBuffer w = (if wWb w = None then w\<lparr>wWb := Some (GetWriteBuffer newWriteBuffer)\<rparr> else w)"

text \<open>The timestamp is an \<open>int64\<close>, truncated to 32 bits.\<close>

definition WritePoint ::
    "(uint32 \<Rightarrow> uint16) \<Rightarrow> bool \<Rightarrow> bytes \<Rightarrow> float64 \<Rightarrow> uint64 \<Rightarrow> writer \<Rightarrow> writer option" where
  "WritePoint days send metric value timestamp w =
     (let w = ensureBuffer w in
      case (if \<not> CanWriteGraphitePoint (length metric) (the (wWb w)) then
              (let w = Flush send w in
               if length metric > WriteBufferSize - 50 then Inl (w\<lparr>wWriteErrors := wWriteErrors w + 1\<rparr>)
               else Inr (w\<lparr>wWb := Some (GetWriteBuffer newWriteBuffer)\<rparr>))
            else Inr w) of
        Inl w \<Rightarrow> Some w
      | Inr w \<Rightarrow> do {
          wb \<leftarrow> WriteGraphitePoint days metric value (ucast timestamp) (wNow w) (the (wWb w));
          Some (w\<lparr>wWb := Some wb, wPointsWritten := wPointsWritten w + 1\<rparr>) })"

definition WritePointTagged ::
    "(uint32 \<Rightarrow> uint16) \<Rightarrow> bool \<Rightarrow> bytes list \<Rightarrow> float64 \<Rightarrow> uint64 \<Rightarrow> writer \<Rightarrow> writer option" where
  "WritePointTagged days send metric value timestamp w =
     (let w = ensureBuffer w;
          l = int (length metric) - 1 + int (sum_list (map length metric))
      in
      case (if \<not> (int WriteBufferSize - int (wbUsed (the (wWb w))) > l + 23) then
              (let w = Flush send w in
               if l > int (WriteBufferSize - 50) then Inl (w\<lparr>wWriteErrors := wWriteErrors w + 1\<rparr>)
               else Inr (w\<lparr>wWb := Some (GetWriteBuffer newWriteBuffer)\<rparr>))
            else Inr w) of
        Inl w \<Rightarrow> Some w
      | Inr w \<Rightarrow> do {
          wb \<leftarrow> WriteGraphitePointTagged days metric value (ucast timestamp) (wNow w) (the (wWb w));
          Some (w\<lparr>wWb := Some wb, wPointsWritten := wPointsWritten w + 1\<rparr>) })"

subsection \<open>The contract of a point producer\<close>

text \<open>
  A producer keeps buffers already handed over (\<open>sent\<close>) and one being filled (\<open>cur\<close>). Its step on an
  item never fails, and appends the item's encoding or skips the item. Every buffer holds whole
  encodings, which is what makes it safe to close a data file between two buffers.
\<close>

definition whole :: "('x \<Rightarrow> bytes) \<Rightarrow> bytes \<Rightarrow> bool" where
  "whole enc c \<longleftrightarrow> (\<exists>xs. c = concat (map enc xs))"

lemma whole_Nil [simp]: "whole enc []"
  by (auto simp: whole_def intro: exI [of _ "[]"])

lemma whole_append: "whole enc c \<Longrightarrow> whole enc d \<Longrightarrow> whole enc (c @ d)"
  unfolding whole_def by (metis concat_append map_append)

lemma whole_enc [simp]: "whole enc (enc x)"
  by (auto simp: whole_def intro: exI [of _ "[x]"])

lemma whole_concat: "\<forall>c \<in> set cs. whole enc c \<Longrightarrow> whole enc (concat cs)"
  by (induction cs) (auto intro: whole_append)

locale point_sink =
  fixes step :: "'x \<Rightarrow> 's \<Rightarrow> 's option"
    and sent :: "'s \<Rightarrow> bytes list"
    and cur :: "'s \<Rightarrow> bytes"
    and inv :: "'s \<Rightarrow> bool"
    and valid :: "'x \<Rightarrow> bool"
    and out :: "'x \<Rightarrow> 'y list"
    and enc :: "'y \<Rightarrow> bytes"
    and cap :: nat
  assumes step_ok:
    "inv s \<Longrightarrow> valid x \<Longrightarrow> \<exists>s' chunks. step x s = Some s' \<and> inv s' \<and> sent s' = sent s @ chunks
       \<and> concat chunks @ cur s' = cur s @ concat (map enc (out x))
       \<and> (\<forall>c \<in> set (cur s' # chunks). whole enc c)"
    and inv_cap: "inv s \<Longrightarrow> length (cur s) \<le> cap \<and> (\<forall>c \<in> set (sent s). length c \<le> cap)"
    and inv_whole: "inv s \<Longrightarrow> whole enc (cur s)"
begin

lemma steps_ok:
  assumes "inv s" "\<forall>x \<in> set xs. valid x"
  shows "\<exists>s' chunks. rangeLoop step xs s = Some s' \<and> inv s' \<and> sent s' = sent s @ chunks
     \<and> concat chunks @ cur s' = cur s @ concat (map enc (concat (map out xs)))
     \<and> (\<forall>c \<in> set (cur s' # chunks). whole enc c)"
  using assms
proof (induction xs arbitrary: s)
  case Nil
  then show ?case by (auto intro!: exI [of _ "[]"] dest: inv_whole)
next
  case (Cons x xs)
  from step_ok [OF Cons.prems(1), of x] Cons.prems(2) obtain s1 c1 where s1: "step x s = Some s1" "inv s1"
    "sent s1 = sent s @ c1" "concat c1 @ cur s1 = cur s @ concat (map enc (out x))"
    "\<forall>c \<in> set (cur s1 # c1). whole enc c" by auto
  from Cons.IH [OF s1(2)] Cons.prems(2) obtain s2 c2 where s2: "rangeLoop step xs s1 = Some s2" "inv s2"
    "sent s2 = sent s1 @ c2" "concat c2 @ cur s2 = cur s1 @ concat (map enc (concat (map out xs)))"
    "\<forall>c \<in> set (cur s2 # c2). whole enc c" by auto
  show ?case
    using s1 s2 by (intro exI [of _ s2] exI [of _ "c1 @ c2"]) auto
qed

text \<open>The bytes handed over and still held are exactly the encodings, in order.\<close>

lemma stream_preserved:
  assumes "inv s" "\<forall>x \<in> set xs. valid x" "rangeLoop step xs s = Some s'"
  shows "concat (sent s') @ cur s' = concat (sent s) @ cur s @ concat (map enc (concat (map out xs)))"
  using steps_ok [OF assms(1,2)] assms(3) by auto

end

subsection \<open>WritePoint is a point producer\<close>

definition wholeBuffer :: "(uint32 \<Rightarrow> uint16) \<Rightarrow> write_buffer \<Rightarrow> bool" where
  "wholeBuffer days wb \<longleftrightarrow> wbUsed wb \<le> WriteBufferSize \<and> whole (encPoint days) (wbBody wb)"

definition writerSent :: "writer \<Rightarrow> bytes list" where
  "writerSent w = map wbBody (wChan w)"

definition writerCur :: "writer \<Rightarrow> bytes" where
  "writerCur w = (case wWb w of None \<Rightarrow> [] | Some wb \<Rightarrow> wbBody wb)"

definition writerInv :: "(uint32 \<Rightarrow> uint16) \<Rightarrow> uint32 \<Rightarrow> writer \<Rightarrow> bool" where
  "writerInv days now w \<longleftrightarrow> wNow w = now
     \<and> length (writerCur w) \<le> WriteBufferSize \<and> whole (encPoint days) (writerCur w)
     \<and> (\<forall>c \<in> set (writerSent w). length c \<le> WriteBufferSize \<and> whole (encPoint days) c)"

definition acceptsName :: "nat \<Rightarrow> bool" where
  "acceptsName n \<longleftrightarrow> n \<le> WriteBufferSize - 50"

text \<open>
  Between the two limits of the code a name is accepted only by an empty buffer; the statements below
  leave these 26 lengths out.
\<close>

definition nameLenOk :: "nat \<Rightarrow> bool" where
  "nameLenOk n \<longleftrightarrow> n \<le> WriteBufferSize - 50 \<or> WriteBufferSize \<le> n + 23"

lemma GetWriteBuffer_new [simp]: "GetWriteBuffer wb = newWriteBuffer"
  by (simp add: GetWriteBuffer_def Reset_def newWriteBuffer_def)

lemma newWriteBuffer_simps [simp]:
  "wbBody newWriteBuffer = []" "wbUsed newWriteBuffer = 0" "FreeSize newWriteBuffer = WriteBufferSize"
  by (simp_all add: newWriteBuffer_def wbUsed_def FreeSize_def)

lemma CanWrite_fresh: "n \<le> WriteBufferSize - 50 \<Longrightarrow> CanWriteGraphitePoint n newWriteBuffer"
  by (simp add: CanWriteGraphitePoint_def WriteBufferSize_def)

lemma Flush_writer [simp]:
  "wWb (Flush send w) = None" "wNow (Flush send w) = wNow w"
  by (auto simp: Flush_def split: option.split)

lemma Flush_sent:
  "wWb w = Some wb \<Longrightarrow>
     writerSent (Flush True w) = writerSent w @ (if wbBody wb = [] then [] else [wbBody wb])"
  by (simp add: Flush_def writerSent_def Empty_def wbUsed_def)

text \<open>The item a call hands to the writer: name, value and timestamp.\<close>

type_synonym item = "bytes \<times> float64 \<times> uint64"

definition itemPoint :: "uint32 \<Rightarrow> item \<Rightarrow> point" where
  "itemPoint now x = (case x of (name, v, t) \<Rightarrow>
     \<lparr>pName = name, pValue = v, pTime = ucast t, pVersion = now\<rparr>)"

definition itemOut :: "uint32 \<Rightarrow> item \<Rightarrow> point list" where
  "itemOut now x = (if acceptsName (length (fst x)) then [itemPoint now x] else [])"

lemma WritePoint_cases:
  fixes days name v t w now
  defines "p \<equiv> itemPoint now (name, v, t)"
  assumes inv: "writerInv days now w" and valid: "nameLenOk (length name)"
  shows "\<exists>w' chunks. WritePoint days True name v t w = Some w' \<and> writerInv days now w'
     \<and> writerSent w' = writerSent w @ chunks
     \<and> concat chunks @ writerCur w' = writerCur w @ concat (map (encPoint days) (itemOut now (name, v, t)))
     \<and> (\<forall>c \<in> set (writerCur w' # chunks). whole (encPoint days) c)"
proof -
  define w0 where "w0 = ensureBuffer w"
  obtain wb where wb: "wWb w0 = Some wb" "wbBody wb = writerCur w" "writerSent w0 = writerSent w" "wNow w0 = now"
    using inv by (cases "wWb w") (auto simp: w0_def ensureBuffer_def writerCur_def writerSent_def writerInv_def)
  have cap: "length (encPoint days p) \<le> FreeSize b" if "CanWriteGraphitePoint (length name) b" for b
    using CanWriteGraphitePoint_room [OF that] by (simp add: p_def itemPoint_def)
  have put: "WriteGraphitePoint days name v (ucast t) now b = Some (appendWb (encPoint days p) b)"
    if "CanWriteGraphitePoint (length name) b" for b
    using WriteGraphitePoint_ok [OF CanWriteGraphitePoint_room [OF that]] by (simp add: p_def itemPoint_def)
  let ?room = "CanWriteGraphitePoint (length name) wb"
  show ?thesis
  proof (cases ?room)
    case True
    then have acc: "acceptsName (length name)"
      using valid by (auto simp: nameLenOk_def acceptsName_def CanWriteGraphitePoint_def)
    let ?w' = "w0\<lparr>wWb := Some (appendWb (encPoint days p) wb), wPointsWritten := wPointsWritten w0 + 1\<rparr>"
    have "WritePoint days True name v t w = Some ?w'"
      using True wb put [OF True] by (simp add: WritePoint_def w0_def [symmetric])
    then show ?thesis
      using inv wb cap [OF True] acc
      by (intro exI [of _ ?w'] exI [of _ "[]"])
        (auto simp: writerInv_def writerCur_def writerSent_def itemOut_def p_def FreeSize_def wbUsed_def
          intro: whole_append)
  next
    case False
    let ?c = "if wbBody wb = [] then [] else [wbBody wb]"
    show ?thesis
    proof (cases "acceptsName (length name)")
      case True
      let ?w' = "(Flush True w0)\<lparr>wWb := Some (appendWb (encPoint days p) newWriteBuffer),
        wPointsWritten := wPointsWritten (Flush True w0) + 1\<rparr>"
      have fresh: "CanWriteGraphitePoint (length name) newWriteBuffer"
        using True by (intro CanWrite_fresh) (simp add: acceptsName_def)
      have "WritePoint days True name v t w = Some ?w'"
        using True False wb put [OF fresh] by (simp add: WritePoint_def w0_def [symmetric] acceptsName_def)
      then show ?thesis
        using inv wb cap [OF fresh] True Flush_sent [OF wb(1)]
        by (intro exI [of _ ?w'] exI [of _ ?c])
          (auto simp: writerInv_def writerCur_def itemOut_def p_def writerSent_def split: if_splits)
    next
      case no: False
      let ?w' = "(Flush True w0)\<lparr>wWriteErrors := wWriteErrors (Flush True w0) + 1\<rparr>"
      have "WritePoint days True name v t w = Some ?w'"
        using no False wb by (simp add: WritePoint_def w0_def [symmetric] acceptsName_def Let_def)
      then show ?thesis
        using inv wb no Flush_sent [OF wb(1)]
        by (intro exI [of _ ?w'] exI [of _ ?c])
          (auto simp: writerInv_def writerCur_def itemOut_def writerSent_def split: if_splits)
    qed
  qed
qed

lemma writerInv_new: "list_all (wholeBuffer days) ch \<Longrightarrow> writerInv days now (NewWriter now ch)"
  by (auto simp: writerInv_def NewWriter_def writerCur_def writerSent_def wholeBuffer_def wbUsed_def list_all_iff)

lemma writerInv_Flush: "writerInv days now w \<Longrightarrow> list_all (wholeBuffer days) (wChan (Flush True w))"
  by (cases "wWb w") (auto simp: Flush_def writerInv_def writerSent_def writerCur_def wholeBuffer_def wbUsed_def list_all_iff)

interpretation wp: point_sink
  "\<lambda>(name, v, t). WritePoint days True name v t" writerSent writerCur "writerInv days now"
  "\<lambda>x. nameLenOk (length (fst x))" "itemOut now" "encPoint days" WriteBufferSize
  for days now
proof unfold_locales
  fix s and x :: item
  assume "writerInv days now s" "nameLenOk (length (fst x))"
  then show "\<exists>s' chunks. (case x of (name, v, t) \<Rightarrow> WritePoint days True name v t) s = Some s'
     \<and> writerInv days now s' \<and> writerSent s' = writerSent s @ chunks
     \<and> concat chunks @ writerCur s' = writerCur s @ concat (map (encPoint days) (itemOut now x))
     \<and> (\<forall>c \<in> set (writerCur s' # chunks). whole (encPoint days) c)"
    using WritePoint_cases by (cases x) auto
qed (simp_all add: writerInv_def)

subsection \<open>Tagged points\<close>

lemma tagged_point_eq:
  assumes "labels \<noteq> []" "CanWriteGraphitePoint (length (taggedPath labels)) wb"
  shows "WriteGraphitePointTagged days labels v t ver wb = WriteGraphitePoint days (taggedPath labels) v t ver wb"
  using assms CanWriteGraphitePoint_room [OF assms(2)]
  by (simp add: WriteGraphitePointTagged_ok WriteGraphitePoint_ok)

lemma WritePointTagged_eq:
  assumes "metric \<noteq> []"
  shows "WritePointTagged days send metric v t w = WritePoint days send (taggedPath metric) v t w"
proof -
  have l: "int (length metric) - 1 + int (sum_list (map length metric)) = int (length (taggedPath metric))"
    using assms by (cases metric) (simp_all add: length_taggedPath_from)
  have room: "int WriteBufferSize - int (wbUsed b) > int (length (taggedPath metric)) + 23
      \<longleftrightarrow> CanWriteGraphitePoint (length (taggedPath metric)) b" for b
    by (simp add: CanWriteGraphitePoint_def)
  show ?thesis
    unfolding WritePointTagged_def WritePoint_def l room Let_def
    using assms by (auto simp: tagged_point_eq CanWrite_fresh)
qed

text \<open>
  C8. However the points are split over write buffers, the buffers the point writer sends, in
  order, are the encodings of the accepted points; every buffer is at most WriteBufferSize long
  and holds whole records.
\<close>

theorem write_points_stream:
  assumes "\<forall>x \<in> set xs. nameLenOk (length (fst x))"
  shows "\<exists>w. rangeLoop (\<lambda>(name, v, t). WritePoint days True name v t) xs (NewWriter now []) = Some w
     \<and> concat (writerSent (Flush True w)) = concat (map (encPoint days) (concat (map (itemOut now) xs)))
     \<and> (\<forall>c \<in> set (writerSent (Flush True w)). length c \<le> WriteBufferSize \<and> whole (encPoint days) c)"
proof -
  have init: "writerInv days now (NewWriter now [])"
    by (simp add: writerInv_def NewWriter_def writerCur_def writerSent_def)
  from wp.steps_ok [OF this assms] obtain w cs where w: "rangeLoop (\<lambda>(name, v, t). WritePoint days True name v t) xs (NewWriter now []) = Some w"
    "writerInv days now w" "writerSent w = cs"
    "concat cs @ writerCur w = concat (map (encPoint days) (concat (map (itemOut now) xs)))"
    "\<forall>c \<in> set (writerCur w # cs). whole (encPoint days) c"
    by (auto simp: NewWriter_def writerSent_def writerCur_def)
  show ?thesis
  proof (cases "wWb w")
    case None
    then have "Flush True w = w" by (simp add: Flush_def)
    with None w show ?thesis by (intro exI [of _ w]) (auto simp: writerInv_def writerCur_def)
  next
    case (Some wb)
    with w Flush_sent [OF Some] show ?thesis
      by (intro exI [of _ w]) (auto simp: writerInv_def writerCur_def)
  qed
qed

theorem write_points_stream_witness:
  "\<exists>w. rangeLoop (\<lambda>(name, v, t). WritePoint (\<lambda>_. 1) True name v t) [(str ''a'', 5, 6), (str ''b'', 7, 8)] (NewWriter 9 []) = Some w
     \<and> concat (writerSent (Flush True w)) =
         concat (map (encPoint (\<lambda>_. 1)) (concat (map (itemOut 9) [(str ''a'', 5, 6), (str ''b'', 7, 8)])))
     \<and> (\<forall>c \<in> set (writerSent (Flush True w)). length c \<le> WriteBufferSize \<and> whole (encPoint (\<lambda>_. 1)) c)"
  by (rule write_points_stream) (simp add: nameLenOk_def WriteBufferSize_def)

subsection \<open>Buffers without confirmation\<close>

definition quietWriter :: "writer \<Rightarrow> bool" where
  "quietWriter w \<longleftrightarrow> list_all (\<lambda>wb. wbWg wb = None) (wChan w) \<and> (\<forall>wb. wWb w = Some wb \<longrightarrow> wbWg wb = None)"

lemma WriteGraphitePoint_wg: "WriteGraphitePoint days name v t version wb = Some wb' \<Longrightarrow> wbWg wb' = wbWg wb"
  by (auto simp: WriteGraphitePoint_def WriteBytes_def WriteFloat64_def WriteUint64_def WriteUint32_def WriteUint16_def putTo_def copyTo_def
      bind_eq_Some_conv split: if_splits)

lemma quiet_ensure: "quietWriter w \<Longrightarrow> quietWriter (ensureBuffer w)"
  by (auto simp: quietWriter_def ensureBuffer_def newWriteBuffer_def)

lemma quiet_Flush: "quietWriter w \<Longrightarrow> quietWriter (Flush True w)"
  by (cases "wWb w") (auto simp: quietWriter_def Flush_def)

lemma WritePoint_quiet:
  assumes "WritePoint days True name v t w = Some w'" "quietWriter w"
  shows "quietWriter w'"
proof -
  note q = quiet_ensure [OF assms(2)]
  obtain wb where "wWb (ensureBuffer w) = Some wb" by (cases "wWb w") (auto simp: ensureBuffer_def)
  with assms(1) q quiet_Flush [OF q] show ?thesis
    by (auto simp: WritePoint_def Let_def quietWriter_def newWriteBuffer_def bind_eq_Some_conv dest!: WriteGraphitePoint_wg split: if_splits)
qed

end
