(* ===== verification/Lz4.thy ===== *)
theory Lz4
  imports RB_Writer
begin

text \<open>
  The LZ4 frame format as the vendored package \<^verbatim>\<open>github.com/pierrec/lz4\<close> writes and reads it: the
  compressor of the writer's files and the decompressor of the file reader. The block
  functions (\<^verbatim>\<open>block.go\<close>) and the checksum (\<^verbatim>\<open>xxh32\<close>) are parameters, collected in
  \<open>lz4_env\<close>. The main lemma is the round trip of a whole frame.
\<close>

subsection \<open>Header\<close>

definition frameMagic :: uint32 where "frameMagic = 0x184D2204"
definition frameSkipMagic :: uint32 where "frameSkipMagic = 0x184D2A50"
definition compressedBlockFlag :: uint32 where "compressedBlockFlag = push_bit 31 1"
definition blockSize4M :: nat where "blockSize4M = 2 ^ 22"

text \<open>
  \<open>lzCompress level blocks data\<close> is what \<open>CompressBlock\<close> or \<open>CompressBlockHC\<close> leaves in the destination; the
  hash table they share between blocks is a function of the blocks before. \<open>lzUncompress n data\<close>
  is \<open>UncompressBlock\<close> into \<open>n\<close> bytes.
\<close>

record lz4_env =
  lzCompress :: "int \<Rightarrow> bytes list \<Rightarrow> bytes \<Rightarrow> bytes"
  lzUncompress :: "nat \<Rightarrow> bytes \<Rightarrow> bytes option"
  lzXxh :: "bytes \<Rightarrow> uint32"

text \<open>What the program relies on: a block that got smaller can be decompressed.\<close>

definition blockCodec :: "lz4_env \<Rightarrow> bool" where
  "blockCodec E \<longleftrightarrow> (\<forall>level hist d n. length d \<le> blockSize4M \<and> length d \<le> n \<and> lzCompress E level hist d \<noteq> []
     \<and> length (lzCompress E level hist d) < length d \<longrightarrow> lzUncompress E n (lzCompress E level hist d) = Some d)"

record lz4_header =
  hdBlockChecksum :: bool
  hdNoChecksum :: bool
  hdBlockMaxSize :: nat
  hdSize :: uint64
  hdLevel :: int
  hdDone :: bool

definition zeroHeader :: lz4_header where
  "zeroHeader = \<lparr>hdBlockChecksum = False, hdNoChecksum = False, hdBlockMaxSize = 0, hdSize = 0, hdLevel = 0, hdDone = False\<rparr>"

fun onesCount :: "nat \<Rightarrow> nat" where
  "onesCount n = (if n = 0 then 0 else n mod 2 + onesCount (n div 2))"

fun trailingZeros :: "nat \<Rightarrow> nat" where
  "trailingZeros n = (if n = 0 then 64 else if odd n then 0 else Suc (trailingZeros (n div 2)))"

declare onesCount.simps [simp del] trailingZeros.simps [simp del]

definition isValidBlockSize :: "nat \<Rightarrow> bool" where
  "isValidBlockSize n \<longleftrightarrow> n AND (2 ^ 16 + 2 ^ 18 + 2 ^ 20 + 2 ^ 22) > 0 \<and> onesCount n = 1"

definition blockSizeValueToIndex :: "nat \<Rightarrow> byte" where
  "blockSizeValueToIndex n = 4 + of_nat (trailingZeros (drop_bit 16 n) div 2)"

definition blockSizeIndexToValue :: "byte \<Rightarrow> nat" where
  "blockSizeIndexToValue i = 2 ^ (16 + 2 * unat i)"

lemma trailingZeros_step: "n > 0 \<Longrightarrow> trailingZeros (2 * n) = Suc (trailingZeros n)"
  by (subst trailingZeros.simps) simp

lemma trailingZeros_power: "trailingZeros (2 ^ k) = k"
proof (induction k)
  case 0
  then show ?case by (simp add: trailingZeros.simps [of "Suc 0"])
next
  case (Suc k)
  then show ?case using trailingZeros_step [of "2 ^ k"] by simp
qed

lemma onesCount_power: "onesCount (2 ^ k) = 1"
proof (induction k)
  case 0
  then show ?case by (simp add: onesCount.simps [of "Suc 0"] onesCount.simps [of 0])
next
  case (Suc k)
  then show ?case by (simp add: onesCount.simps [of "2 * 2 ^ k"])
qed

lemma blockSize4M_pos [simp]: "0 < blockSize4M" by (simp add: blockSize4M_def)

lemma valid_4M: "isValidBlockSize blockSize4M"
  unfolding isValidBlockSize_def blockSize4M_def onesCount_power by simp

lemma index_4M: "blockSizeValueToIndex blockSize4M = 7"
proof -
  have "drop_bit 16 (2 ^ 22 :: nat) = 2 ^ 6" by (simp add: drop_bit_eq_div)
  then show ?thesis unfolding blockSizeValueToIndex_def blockSize4M_def by (simp only: trailingZeros_power) simp
qed

lemma value_7: "blockSizeIndexToValue 3 = blockSize4M"
  by (simp add: blockSizeIndexToValue_def blockSize4M_def)

subsection \<open>Writer\<close>

text \<open>
  \<open>lzBlocks\<close> are the blocks the checksum and the compressor have seen, \<open>lzData\<close> is \<open>data[:idx]\<close>. The destination is
  the sink passed to every operation; concurrency is not switched on.
\<close>

record lz4_writer =
  lzHeader :: lz4_header
  lzBlocks :: "bytes list"
  lzData :: bytes

definition newLz4Writer :: "lz4_header \<Rightarrow> lz4_writer" where
  "newLz4Writer h = \<lparr>lzHeader = h, lzBlocks = [], lzData = []\<rparr>"

definition headerFlags :: "lz4_header \<Rightarrow> byte" where
  "headerFlags h = push_bit 6 1 OR push_bit 5 1 OR (if hdBlockChecksum h then push_bit 4 1 else 0)
     OR (if hdSize h > 0 then push_bit 3 1 else 0) OR (if hdNoChecksum h then 0 else push_bit 2 1)"

definition headerBytes :: "lz4_env \<Rightarrow> lz4_header \<Rightarrow> bytes" where
  "headerBytes E h =
     (let desc = [headerFlags h, push_bit 4 (blockSizeValueToIndex (hdBlockMaxSize h))] @ (if hdSize h > 0 then putUint64 (hdSize h) else [])
      in putUint32 frameMagic @ desc @ [ucast (drop_bit 8 (lzXxh E desc))])"

definition writeHeader :: "lz4_env \<Rightarrow> lz4_writer \<Rightarrow> sink \<Rightarrow> lz4_writer \<times> sink \<times> bool" where
  "writeHeader E z out =
     (let h = (if hdBlockMaxSize (lzHeader z) = 0 then (lzHeader z)\<lparr>hdBlockMaxSize := blockSize4M\<rparr> else lzHeader z)
      in if \<not> isValidBlockSize (hdBlockMaxSize h) then (z\<lparr>lzHeader := h\<rparr>, out, False)
         else (case sinkWrite (headerBytes E h) out of
             (out, False) \<Rightarrow> (z\<lparr>lzHeader := h, lzBlocks := [], lzData := []\<rparr>, out, False)
           | (out, True) \<Rightarrow> (z\<lparr>lzHeader := h\<lparr>hdDone := True\<rparr>, lzBlocks := [], lzData := []\<rparr>, out, True)))"

text \<open>The length word and the bytes of a block: stored when compression does not help.\<close>

definition blockWord :: "lz4_env \<Rightarrow> int \<Rightarrow> bytes list \<Rightarrow> bytes \<Rightarrow> uint32 \<times> bytes" where
  "blockWord E level hist d =
     (let zd = lzCompress E level hist d
      in if length zd > 0 \<and> length zd < length d then (of_nat (length zd), zd)
         else (of_nat (length d) OR compressedBlockFlag, d))"

definition compressBlock :: "lz4_env \<Rightarrow> bytes \<Rightarrow> lz4_writer \<Rightarrow> sink \<Rightarrow> lz4_writer \<times> sink \<times> bool" where
  "compressBlock E d z out =
     (let (bLen, zd) = blockWord E (hdLevel (lzHeader z)) (lzBlocks z) d;
          z = z\<lparr>lzBlocks := lzBlocks z @ [d]\<rparr>;
          (out, ok) = sinkWrite (putUint32 bLen) out
      in if \<not> ok then (z, out, False)
         else (let (out, ok) = sinkWrite zd out
               in if \<not> ok then (z, out, False)
                  else if \<not> hdBlockChecksum (lzHeader z) then (z, out, True)
                  else (let (out, ok) = sinkWrite (putUint32 (lzXxh E zd)) out in (z, out, ok))))"

lemma compressBlock_data:
  "compressBlock E d z out = (z', out', ok) \<Longrightarrow> lzData z' = lzData z \<and> lzHeader z' = lzHeader z"
  by (auto simp: compressBlock_def Let_def split: prod.splits if_splits)

text \<open>
  The loop of \<open>Write\<close> with the number of bytes taken so far; \<open>writeHeader\<close> leaves only valid block sizes, so \<open>zn\<close> is not 0.
\<close>

function lz4WriteLoop :: "lz4_env \<Rightarrow> nat \<Rightarrow> bytes \<Rightarrow> nat \<Rightarrow> lz4_writer \<Rightarrow> sink \<Rightarrow> lz4_writer \<times> sink \<times> nat \<times> bool" where
  "lz4WriteLoop E zn buf n z out =
     (if buf = [] \<or> zn = 0 then (z, out, n, True)
      else if lzData z = [] \<and> length buf \<ge> zn then
        (case compressBlock E (take zn buf) z out of
           (z, out, False) \<Rightarrow> (z, out, n, False)
         | (z, out, True) \<Rightarrow> lz4WriteLoop E zn (drop zn buf) (n + zn) z out)
      else
        (let m = min (zn - length (lzData z)) (length buf);
             z = z\<lparr>lzData := lzData z @ take m buf\<rparr>
         in if length (lzData z) < zn then (z, out, n + m, True)
            else (case compressBlock E (lzData z) z out of
                (z, out, False) \<Rightarrow> (z, out, n + m, False)
              | (z, out, True) \<Rightarrow> lz4WriteLoop E zn (drop m buf) (n + m) (z\<lparr>lzData := []\<rparr>) out)))"
  by pat_completeness auto
termination
proof (relation "measure (\<lambda>(E, zn, buf, n, z, out). length buf + length (lzData z))", goal_cases)
  case 2
  then show ?case by (auto dest!: compressBlock_data [OF sym])
next
  case 3
  then show ?case by (auto simp: neq_Nil_conv min_def split: if_splits)
qed simp

declare lz4WriteLoop.simps [simp del]

definition lz4Write :: "lz4_env \<Rightarrow> bytes \<Rightarrow> lz4_writer \<Rightarrow> sink \<Rightarrow> lz4_writer \<times> sink \<times> nat \<times> bool" where
  "lz4Write E buf z out =
     (let (z, out, ok) = (if hdDone (lzHeader z) then (z, out, True) else writeHeader E z out)
      in if \<not> ok then (z, out, 0, False) else lz4WriteLoop E (hdBlockMaxSize (lzHeader z)) buf 0 z out)"

definition lz4Flush :: "lz4_env \<Rightarrow> lz4_writer \<Rightarrow> sink \<Rightarrow> lz4_writer \<times> sink \<times> bool" where
  "lz4Flush E z out = (if lzData z = [] then (z, out, True) else compressBlock E (lzData z) (z\<lparr>lzData := []\<rparr>) out)"

definition lz4Close :: "lz4_env \<Rightarrow> lz4_writer \<Rightarrow> sink \<Rightarrow> sink \<times> bool" where
  "lz4Close E z out =
     (let (z, out, ok) = (if hdDone (lzHeader z) then (z, out, True) else writeHeader E z out)
      in if \<not> ok then (out, False)
         else (let (z, out, ok) = lz4Flush E z out
               in if \<not> ok then (out, False)
                  else (let (out, ok) = sinkWrite (putUint32 0) out
                        in if \<not> ok then (out, False)
                           else if hdNoChecksum (lzHeader z) then (out, True)
                           else sinkWrite (putUint32 (lzXxh E (concat (lzBlocks z)))) out)))"

subsection \<open>Reader\<close>

datatype lz4_error = LzEOF | LzUnexpectedEOF | LzInvalid | LzVersion | LzBlockDependency | LzBlockMaxSize | LzHeaderChecksum
  | LzBlockSize | LzBlockChecksum | LzFrameChecksum | LzCorrupt

definition lzReadFull :: "nat \<Rightarrow> bytes \<Rightarrow> lz4_error + bytes \<times> bytes" where
  "lzReadFull n inp =
     (if n \<le> length inp then Inr (take n inp, drop n inp) else Inl (if inp = [] then LzEOF else LzUnexpectedEOF))"

definition readUint32 :: "bytes \<Rightarrow> lz4_error + uint32 \<times> bytes" where
  "readUint32 inp = map_sum id (apfst leGet) (lzReadFull 4 inp)"

lemma readUint32_consumes: "readUint32 inp = Inr (x, rest) \<Longrightarrow> length rest < length inp"
  by (auto simp: readUint32_def lzReadFull_def split: if_splits)

text \<open>The loop of \<open>readHeader\<close> over skippable frames.\<close>

function readMagic :: "bool \<Rightarrow> bytes \<Rightarrow> lz4_error + bytes" where
  "readMagic first inp =
     (case readUint32 inp of
        Inl e \<Rightarrow> Inl (if \<not> first \<and> e = LzUnexpectedEOF then LzEOF else e)
      | Inr (magic, rest) \<Rightarrow>
          if magic = frameMagic then Inr rest
          else if drop_bit 8 magic \<noteq> drop_bit 8 frameSkipMagic then Inl LzInvalid
          else (case readUint32 rest of
              Inl e \<Rightarrow> Inl e
            | Inr (skip, rest) \<Rightarrow> if unat skip \<le> length rest then readMagic first (drop (unat skip) rest) else Inl LzEOF))"
  by pat_completeness auto
termination by (relation "measure (\<lambda>(first, inp). length inp)") (auto dest!: readUint32_consumes)

declare readMagic.simps [simp del]

definition readDescriptor :: "lz4_env \<Rightarrow> bytes \<Rightarrow> lz4_error + lz4_header \<times> bytes" where
  "readDescriptor E inp =
     (case lzReadFull 2 inp of
        Inl e \<Rightarrow> Inl e
      | Inr (buf, rest) \<Rightarrow>
          (let b = buf ! 0; bmsID = drop_bit 4 (buf ! 1) AND 7 in
           if drop_bit 6 b \<noteq> 1 then Inl LzVersion
           else if drop_bit 5 b AND 1 = 0 then Inl LzBlockDependency
           else if bmsID < 4 \<or> bmsID > 7 then Inl LzBlockMaxSize
           else (let h = zeroHeader\<lparr>hdBlockChecksum := (drop_bit 4 b AND 1 > 0), hdNoChecksum := (drop_bit 2 b AND 1 = 0),
                      hdBlockMaxSize := blockSizeIndexToValue (bmsID - 4), hdDone := True\<rparr>
             in case (if drop_bit 3 b AND 1 > 0 then lzReadFull 8 rest else Inr ([], rest)) of
                  Inl e \<Rightarrow> Inl e
                | Inr (sz, rest) \<Rightarrow>
                    (case lzReadFull 1 rest of
                       Inl e \<Rightarrow> Inl e
                     | Inr (c, rest) \<Rightarrow>
                         if ucast (drop_bit 8 (lzXxh E (buf @ sz))) \<noteq> c ! 0 then Inl LzHeaderChecksum
                         else Inr (h\<lparr>hdSize := leGet sz\<rparr>, rest)))))"

definition readHeader :: "lz4_env \<Rightarrow> bool \<Rightarrow> bytes \<Rightarrow> lz4_error + lz4_header \<times> bytes" where
  "readHeader E first inp = (case readMagic first inp of Inl e \<Rightarrow> Inl e | Inr rest \<Rightarrow> readDescriptor E rest)"

text \<open>A block with the length word \<open>bLen\<close> in buffers with room for \<open>n\<close> bytes of data.\<close>

definition readBlock :: "lz4_env \<Rightarrow> nat \<Rightarrow> lz4_header \<Rightarrow> uint32 \<Rightarrow> bytes \<Rightarrow> lz4_error + bytes \<times> bytes" where
  "readBlock E n h bLen inp =
     (let stored = bLen AND compressedBlockFlag > 0;
          size = (if stored then bLen AND (compressedBlockFlag - 1) else bLen)
      in if unat size > n then Inl LzBlockSize
         else case lzReadFull (unat size) inp of
           Inl e \<Rightarrow> Inl e
         | Inr (zd, rest) \<Rightarrow>
             (case (if hdBlockChecksum h then readUint32 rest else Inr (lzXxh E zd, rest)) of
                Inl e \<Rightarrow> Inl e
              | Inr (c, rest) \<Rightarrow>
                  if lzXxh E zd \<noteq> c then Inl LzBlockChecksum
                  else if stored then Inr (zd, rest)
                  else (case lzUncompress E n zd of None \<Rightarrow> Inl LzCorrupt | Some d \<Rightarrow> Inr (d, rest))))"

lemma lzReadFull_consumes: "lzReadFull n inp = Inr (x, rest) \<Longrightarrow> length rest \<le> length inp"
  by (auto simp: lzReadFull_def split: if_splits)

lemma readBlock_consumes: "readBlock E n h bLen inp = Inr (d, rest) \<Longrightarrow> length rest \<le> length inp"
  by (auto simp: readBlock_def Let_def split: sum.splits if_splits option.splits dest!: readUint32_consumes lzReadFull_consumes)

lemma readMagic_consumes: "readMagic first inp = Inr rest \<Longrightarrow> length rest < length inp"
proof (induction first inp arbitrary: rest rule: readMagic.induct)
  case (1 first inp)
  from "1.prems" obtain magic r1 where m: "readUint32 inp = Inr (magic, r1)"
    by (auto simp: readMagic.simps [of first inp] split: sum.splits)
  note c = readUint32_consumes [OF m]
  show ?case
  proof (cases "magic = frameMagic")
    case True
    with m c "1.prems" show ?thesis by (simp add: readMagic.simps [of first inp])
  next
    case False
    with m "1.prems" obtain skip r2 where s: "drop_bit 8 magic = drop_bit 8 frameSkipMagic" "readUint32 r1 = Inr (skip, r2)"
      "unat skip \<le> length r2" "readMagic first (drop (unat skip) r2) = Inr rest"
      by (auto simp: readMagic.simps [of first inp] split: sum.splits if_splits)
    from "1.IH" [OF m refl False _ s(2) refl s(3,4)] s(1) have "length rest < length (drop (unat skip) r2)" by simp
    with readUint32_consumes [OF s(2)] c show ?thesis by simp
  qed
qed

lemma readHeader_consumes: "readHeader E first inp = Inr (h, rest) \<Longrightarrow> length rest < length inp"
  by (auto simp: readHeader_def readDescriptor_def Let_def split: sum.splits if_splits
      dest!: readMagic_consumes lzReadFull_consumes)

text \<open>
  The data that successive calls of \<open>Read\<close> deliver from a frame, and the error at their end: \<open>cap\<close> is the capacity of the
  reader's buffers, \<open>sum\<close> the data of the frame so far.
\<close>

function lz4Blocks :: "lz4_env \<Rightarrow> nat \<Rightarrow> lz4_header \<Rightarrow> bytes \<Rightarrow> bytes \<Rightarrow> bytes \<times> lz4_error" where
  "lz4Blocks E cap h hashed inp =
     (case readUint32 inp of
        Inl e \<Rightarrow> ([], e)
      | Inr (bLen, rest) \<Rightarrow>
          if bLen = 0 then
            (case (if hdNoChecksum h then Inr (lzXxh E hashed, rest) else readUint32 rest) of
               Inl e \<Rightarrow> ([], e)
             | Inr (c, rest) \<Rightarrow>
                 if c \<noteq> lzXxh E hashed then ([], LzFrameChecksum)
                 else (case readHeader E False rest of
                     Inl e \<Rightarrow> ([], e)
                   | Inr (h, rest) \<Rightarrow> lz4Blocks E (max cap (2 * hdBlockMaxSize h)) h [] rest))
          else
            (case readBlock E (cap - hdBlockMaxSize h) h bLen rest of
               Inl e \<Rightarrow> ([], e)
             | Inr (d, rest) \<Rightarrow> apfst ((@) d) (lz4Blocks E cap h (hashed @ d) rest)))"
  by pat_completeness auto
termination
  by (relation "measure (\<lambda>(E, cap, h, hashed, inp). length inp)")
    (auto split: if_splits dest!: readUint32_consumes readHeader_consumes readBlock_consumes)

declare lz4Blocks.simps [simp del]

definition lz4ReadAll :: "lz4_env \<Rightarrow> bytes \<Rightarrow> bytes \<times> lz4_error" where
  "lz4ReadAll E inp =
     (case readHeader E True inp of Inl e \<Rightarrow> ([], e) | Inr (h, rest) \<Rightarrow> lz4Blocks E (2 * hdBlockMaxSize h) h [] rest)"

subsection \<open>Frames of the writer\<close>

text \<open>The header that \<open>writer.New\<close> prepares.\<close>

definition lz4Header :: "int \<Rightarrow> lz4_header" where
  "lz4Header level = zeroHeader\<lparr>hdBlockMaxSize := blockSize4M, hdLevel := level\<rparr>"

definition encBlock :: "lz4_env \<Rightarrow> int \<Rightarrow> bytes list \<Rightarrow> bytes \<Rightarrow> bytes" where
  "encBlock E level hist d = putUint32 (fst (blockWord E level hist d)) @ snd (blockWord E level hist d)"

fun encBlocks :: "lz4_env \<Rightarrow> int \<Rightarrow> bytes list \<Rightarrow> bytes list \<Rightarrow> bytes" where
  "encBlocks E level hist [] = []"
| "encBlocks E level hist (d # ds) = encBlock E level hist d @ encBlocks E level (hist @ [d]) ds"

lemma encBlocks_snoc: "encBlocks E level hist (ds @ [d]) = encBlocks E level hist ds @ encBlock E level (hist @ ds) d"
  by (induction ds arbitrary: hist) simp_all

definition frame :: "lz4_env \<Rightarrow> int \<Rightarrow> bytes list \<Rightarrow> bytes" where
  "frame E level ds = headerBytes E (lz4Header level) @ encBlocks E level [] ds @ putUint32 0 @ putUint32 (lzXxh E (concat ds))"

definition goodBlock :: "bytes \<Rightarrow> bool" where
  "goodBlock d \<longleftrightarrow> d \<noteq> [] \<and> length d \<le> blockSize4M"

text \<open>A compressor over a file that works: what is in the file, and what is still in memory.\<close>

definition lzInv :: "lz4_env \<Rightarrow> int \<Rightarrow> lz4_writer \<Rightarrow> sink \<Rightarrow> bool" where
  "lzInv E level z out \<longleftrightarrow> skLimit out = None \<and> length (lzData z) < blockSize4M \<and> list_all goodBlock (lzBlocks z)
     \<and> (if hdDone (lzHeader z) then lzHeader z = (lz4Header level)\<lparr>hdDone := True\<rparr>
          \<and> skData out = headerBytes E (lz4Header level) @ encBlocks E level [] (lzBlocks z)
        else lzHeader z = lz4Header level \<and> lzBlocks z = [] \<and> lzData z = [] \<and> skData out = [])"

definition lzTaken :: "lz4_writer \<Rightarrow> bytes" where
  "lzTaken z = concat (lzBlocks z) @ lzData z"

lemma lzInv_new: "skLimit out = None \<Longrightarrow> skData out = [] \<Longrightarrow> lzInv E level (newLz4Writer (lz4Header level)) out"
  by (simp add: lzInv_def newLz4Writer_def lz4Header_def zeroHeader_def)

lemma lzTaken_new [simp]: "lzTaken (newLz4Writer h) = []"
  by (simp add: lzTaken_def newLz4Writer_def)

lemma headerBytes_done [simp]: "headerBytes E (h\<lparr>hdDone := d\<rparr>) = headerBytes E h"
  by (simp add: headerBytes_def headerFlags_def)

lemma ensure_header:
  assumes "lzInv E level z out" "(if hdDone (lzHeader z) then (z, out, True) else writeHeader E z out) = (z', out', ok)"
  shows "ok \<and> lzInv E level z' out' \<and> hdDone (lzHeader z') \<and> lzBlocks z' = lzBlocks z \<and> lzData z' = lzData z"
proof (cases "hdDone (lzHeader z)")
  case True
  with assms show ?thesis by auto
next
  case False
  with assms(1) have z: "lzHeader z = lz4Header level" "lzBlocks z = []" "lzData z = []" "skData out = []" "skLimit out = None"
    by (simp_all add: lzInv_def)
  have h: "hdBlockMaxSize (lz4Header level) = blockSize4M" "blockSize4M \<noteq> 0" by (simp_all add: lz4Header_def)
  have "writeHeader E z out = (z\<lparr>lzHeader := (lz4Header level)\<lparr>hdDone := True\<rparr>, lzBlocks := [], lzData := []\<rparr>,
      out\<lparr>skData := headerBytes E (lz4Header level)\<rparr>, True)"
    using z valid_4M by (simp add: writeHeader_def Let_def h)
  with assms(2) False z show ?thesis by (auto simp: lzInv_def)
qed

lemma compressBlock_inv:
  assumes "lzInv E level z out" "hdDone (lzHeader z)" "goodBlock d"
  shows "\<exists>out'. compressBlock E d z out = (z\<lparr>lzBlocks := lzBlocks z @ [d]\<rparr>, out', True) \<and> lzInv E level (z\<lparr>lzBlocks := lzBlocks z @ [d]\<rparr>) out'"
proof -
  have h: "lzHeader z = (lz4Header level)\<lparr>hdDone := True\<rparr>" using assms(1,2) by (simp add: lzInv_def)
  then have hb: "\<not> hdBlockChecksum (lzHeader z)" "hdLevel (lzHeader z) = level" by (simp_all add: lz4Header_def zeroHeader_def)
  let ?out = "out\<lparr>skData := skData out @ encBlock E level (lzBlocks z) d\<rparr>"
  have "compressBlock E d z out = (z\<lparr>lzBlocks := lzBlocks z @ [d]\<rparr>, ?out, True)"
    using assms(1) hb by (simp add: compressBlock_def Let_def lzInv_def encBlock_def split_beta)
  moreover have "lzInv E level (z\<lparr>lzBlocks := lzBlocks z @ [d]\<rparr>) ?out"
    using assms by (simp add: lzInv_def encBlocks_snoc)
  ultimately show ?thesis by blast
qed

lemma compressBlock_data_irrelevant:
  "compressBlock E d (z\<lparr>lzData := x\<rparr>) out = apfst (\<lambda>z. z\<lparr>lzData := x\<rparr>) (compressBlock E d z out)"
  by (simp add: compressBlock_def Let_def split: prod.split)

text \<open>The loop takes all bytes; below the size of a block nothing reaches the file.\<close>

lemma lz4WriteLoop_inv:
  assumes "lzInv E level z out" "hdDone (lzHeader z)" "zn = blockSize4M"
  shows "\<exists>z' out'. lz4WriteLoop E zn buf n z out = (z', out', n + length buf, True) \<and> lzInv E level z' out' \<and> hdDone (lzHeader z')
     \<and> lzTaken z' = lzTaken z @ buf \<and> (length (lzData z @ buf) < blockSize4M \<longrightarrow> lzBlocks z' = lzBlocks z \<and> out' = out)"
  using assms
proof (induction E zn buf n z out rule: lz4WriteLoop.induct)
  case (1 E zn buf n z out)
  note inv = "1.prems"(1) and hdone = "1.prems"(2) and zn = "1.prems"(3)
  have len: "length (lzData z) < zn" using inv zn by (simp add: lzInv_def)
  consider (empty) "buf = []" | (direct) "buf \<noteq> []" "lzData z = []" "length buf \<ge> zn"
    | (part) "buf \<noteq> []" "length (lzData z @ buf) < zn" | (full) "buf \<noteq> []" "lzData z \<noteq> []" "length (lzData z @ buf) \<ge> zn"
    by (cases "buf = []"; cases "lzData z = []") fastforce+
  then show ?case
  proof cases
    case empty
    with inv hdone show ?thesis by (simp add: lz4WriteLoop.simps [of E zn])
  next
    case direct
    have "goodBlock (take zn buf)" using direct zn by (auto simp: goodBlock_def)
    from compressBlock_inv [OF inv hdone this] obtain out1 where
      c: "compressBlock E (take zn buf) z out = (z\<lparr>lzBlocks := lzBlocks z @ [take zn buf]\<rparr>, out1, True)"
      "lzInv E level (z\<lparr>lzBlocks := lzBlocks z @ [take zn buf]\<rparr>) out1" by blast
    have cond: "\<not> (buf = [] \<or> zn = 0)" "lzData z = [] \<and> zn \<le> length buf" using direct zn by simp_all
    have step: "lz4WriteLoop E zn buf n z out = lz4WriteLoop E zn (drop zn buf) (n + zn) (z\<lparr>lzBlocks := lzBlocks z @ [take zn buf]\<rparr>) out1"
      using cond c(1) by (simp add: lz4WriteLoop.simps [of E zn buf])
    from "1.IH"(1) [OF cond c(1) [symmetric] refl _ c(2)] hdone zn obtain z' out' where
      "lz4WriteLoop E zn (drop zn buf) (n + zn) (z\<lparr>lzBlocks := lzBlocks z @ [take zn buf]\<rparr>) out1 = (z', out', n + zn + length (drop zn buf), True)"
      "lzInv E level z' out'" "hdDone (lzHeader z')" "lzTaken z' = lzTaken (z\<lparr>lzBlocks := lzBlocks z @ [take zn buf]\<rparr>) @ drop zn buf" by auto
    with step direct zn show ?thesis by (auto simp: lzTaken_def)
  next
    case part
    then have "lz4WriteLoop E zn buf n z out = (z\<lparr>lzData := lzData z @ buf\<rparr>, out, n + length buf, True)"
      by (simp add: lz4WriteLoop.simps [of E zn buf] min_def Let_def)
    moreover have "lzInv E level (z\<lparr>lzData := lzData z @ buf\<rparr>) out" using inv hdone part zn by (simp add: lzInv_def)
    ultimately show ?thesis using hdone by (simp add: lzTaken_def)
  next
    case full
    let ?m = "min (zn - length (lzData z)) (length buf)"
    let ?z = "z\<lparr>lzData := lzData z @ take ?m buf\<rparr>"
    have m: "?m = zn - length (lzData z)" using full by simp
    have l: "length (lzData ?z) = zn" using full len by (simp add: m)
    have good: "goodBlock (lzData ?z)" using full l zn by (simp add: goodBlock_def)
    have inv0: "lzInv E level (z\<lparr>lzData := []\<rparr>) out" using inv hdone by (simp add: lzInv_def)
    let ?z1 = "?z\<lparr>lzBlocks := lzBlocks z @ [lzData ?z]\<rparr>\<lparr>lzData := []\<rparr>"
    have z1: "z\<lparr>lzData := []\<rparr>\<lparr>lzBlocks := lzBlocks z @ [lzData ?z]\<rparr> = ?z1" by (rule lz4_writer.equality) simp_all
    from compressBlock_inv [OF inv0 _ good] hdone obtain out1 where
      "compressBlock E (lzData ?z) (z\<lparr>lzData := []\<rparr>) out = (z\<lparr>lzData := []\<rparr>\<lparr>lzBlocks := lzBlocks z @ [lzData ?z]\<rparr>, out1, True)"
      and inv1: "lzInv E level ?z1 out1" unfolding z1 [symmetric] by auto
    then have c: "compressBlock E (lzData ?z) ?z out = (?z\<lparr>lzBlocks := lzBlocks z @ [lzData ?z]\<rparr>, out1, True)"
      using compressBlock_data_irrelevant [where z = "z\<lparr>lzData := []\<rparr>" and x = "lzData ?z" and d = "lzData ?z" and E = E and out = out] by simp
    have cond: "\<not> (buf = [] \<or> zn = 0)" "\<not> (lzData z = [] \<and> zn \<le> length buf)" "\<not> length (lzData ?z) < zn" using full len l by simp_all
    have step: "lz4WriteLoop E zn buf n z out = lz4WriteLoop E zn (drop ?m buf) (n + ?m) ?z1 out1"
      by (subst lz4WriteLoop.simps) (simp only: Let_def if_not_P [OF cond(1)] if_not_P [OF cond(2)] if_not_P [OF cond(3)] c prod.case bool.case)
    from "1.IH"(2) [OF cond(1,2) refl refl cond(3) c [symmetric] refl] hdone zn inv1 obtain z' out' where
      r: "lz4WriteLoop E zn (drop ?m buf) (n + ?m) ?z1 out1 = (z', out', n + ?m + length (drop ?m buf), True)"
      "lzInv E level z' out'" "hdDone (lzHeader z')" "lzTaken z' = lzTaken ?z1 @ drop ?m buf" by auto
    have "lzTaken ?z1 @ drop ?m buf = lzTaken z @ buf" by (simp add: lzTaken_def)
    with step r full zn show ?thesis by (auto simp: m)
  qed
qed

lemma lz4Write_inv:
  assumes "lzInv E level z out"
  shows "\<exists>z' out'. lz4Write E buf z out = (z', out', length buf, True) \<and> lzInv E level z' out' \<and> hdDone (lzHeader z')
     \<and> lzTaken z' = lzTaken z @ buf \<and> (length (lzData z @ buf) < blockSize4M \<longrightarrow> lzBlocks z' = lzBlocks z)"
proof -
  obtain z1 out1 ok where h: "(if hdDone (lzHeader z) then (z, out, True) else writeHeader E z out) = (z1, out1, ok)" by (rule prod_cases3)
  from ensure_header [OF assms h] have z1: ok "lzInv E level z1 out1" "hdDone (lzHeader z1)" "lzBlocks z1 = lzBlocks z" "lzData z1 = lzData z" by simp_all
  then have "hdBlockMaxSize (lzHeader z1) = blockSize4M" by (simp add: lzInv_def lz4Header_def)
  with lz4WriteLoop_inv [OF z1(2,3) refl, of buf 0] z1 show ?thesis by (auto simp: lz4Write_def h lzTaken_def)
qed

lemma lz4Flush_inv:
  assumes "lzInv E level z out"
  shows "\<exists>z' out'. lz4Flush E z out = (z', out', True) \<and> lzInv E level z' out' \<and> lzHeader z' = lzHeader z
     \<and> lzTaken z' = lzTaken z \<and> lzData z' = []"
proof (cases "lzData z = []")
  case True
  with assms show ?thesis by (simp add: lz4Flush_def)
next
  case False
  then have d: "hdDone (lzHeader z)" "goodBlock (lzData z)" using assms by (auto simp: lzInv_def goodBlock_def split: if_splits)
  have "lzInv E level (z\<lparr>lzData := []\<rparr>) out" using assms d by (simp add: lzInv_def)
  from compressBlock_inv [OF this _ d(2)] d(1) False show ?thesis by (auto simp: lz4Flush_def lzTaken_def)
qed

text \<open>The file of a closed compressor is a frame of the bytes written, whatever the flushes between.\<close>

lemma lz4Close_frame:
  assumes "lzInv E level z out"
  shows "\<exists>ds out'. lz4Close E z out = (out', True) \<and> skData out' = frame E level ds \<and> list_all goodBlock ds \<and> concat ds = lzTaken z"
proof -
  obtain z1 out1 ok where h: "(if hdDone (lzHeader z) then (z, out, True) else writeHeader E z out) = (z1, out1, ok)" by (rule prod_cases3)
  from ensure_header [OF assms h] have z1: ok "lzInv E level z1 out1" "hdDone (lzHeader z1)" "lzTaken z1 = lzTaken z" by (simp_all add: lzTaken_def)
  from lz4Flush_inv [OF z1(2)] obtain z2 out2 where z2: "lz4Flush E z1 out1 = (z2, out2, True)" "lzInv E level z2 out2"
    "lzHeader z2 = lzHeader z1" "lzTaken z2 = lzTaken z1" "lzData z2 = []" by blast
  from z1(3) z2(2,3) have h2: "lzHeader z2 = (lz4Header level)\<lparr>hdDone := True\<rparr>" "skLimit out2 = None" "list_all goodBlock (lzBlocks z2)"
    "skData out2 = headerBytes E (lz4Header level) @ encBlocks E level [] (lzBlocks z2)" by (simp_all add: lzInv_def)
  have "lz4Close E z out = (out2\<lparr>skData := frame E level (lzBlocks z2)\<rparr>, True)"
    using z1(1) z2(1) h2 by (simp add: lz4Close_def h frame_def lz4Header_def zeroHeader_def)
  with h2(3) z2(4,5) z1(4) show ?thesis by (auto simp: lzTaken_def)
qed

lemma lzReadFull_append [simp]: "n = length xs \<Longrightarrow> lzReadFull n (xs @ ys) = Inr (xs, ys)"
  by (simp add: lzReadFull_def)

lemma readUint32_append [simp]: "readUint32 (putUint32 w @ ys) = Inr (w, ys)"
  by (simp add: readUint32_def)

lemma readUint32_exact [simp]: "readUint32 (putUint32 w) = Inr (w, [])"
  using readUint32_append [of w "[]"] by (simp only: append_Nil2)

lemma readHeader_writer:
  "readHeader E first (headerBytes E (lz4Header level) @ rest) = Inr ((lz4Header 0)\<lparr>hdDone := True\<rparr>, rest)"
proof -
  let ?desc = "[0x64, 0x70] :: bytes"
  have hb: "headerBytes E (lz4Header level) = putUint32 frameMagic @ ?desc @ [ucast (drop_bit 8 (lzXxh E ?desc))]"
    by (simp add: headerBytes_def headerFlags_def lz4Header_def zeroHeader_def index_4M)
  have d: "lzReadFull 2 (?desc @ xs) = Inr (?desc, xs)" for xs by (rule lzReadFull_append) simp
  have c: "lzReadFull 1 ([x] @ rest) = Inr ([x], rest)" for x by (rule lzReadFull_append) simp
  have "readDescriptor E (?desc @ [ucast (drop_bit 8 (lzXxh E ?desc))] @ rest) = Inr ((lz4Header 0)\<lparr>hdDone := True\<rparr>, rest)"
    by (simp only: readDescriptor_def d sum.case prod.case Let_def) (simp add: c [simplified] lz4Header_def zeroHeader_def value_7)
  then show ?thesis
    unfolding hb readHeader_def append_assoc by (subst readMagic.simps) simp
qed

subsection \<open>Round trip\<close>

lemma lenWord_bits:
  assumes "k \<le> blockSize4M"
  shows "unat (of_nat k :: uint32) = k" and "\<not> bit (of_nat k :: uint32) 31"
proof -
  have k: "k < 2 ^ 31" using assms by (simp add: blockSize4M_def)
  then show "unat (of_nat k :: uint32) = k" by (simp add: unsigned_of_nat take_bit_nat_eq_self)
  show "\<not> bit (of_nat k :: uint32) 31" using k by (simp add: bit_simps bit_nat_def)
qed

lemma storedWord:
  assumes "\<not> bit (w :: uint32) 31"
  shows "(w OR compressedBlockFlag) AND compressedBlockFlag > 0" "(w OR compressedBlockFlag) AND (compressedBlockFlag - 1) = w"
    "w AND compressedBlockFlag = 0"
proof -
  have flag: "bit compressedBlockFlag n \<longleftrightarrow> n = 31" for n unfolding compressedBlockFlag_def bit_push_bit_iff by (auto simp: bit_1_iff)
  have "compressedBlockFlag - 1 = mask 31" by (simp add: compressedBlockFlag_def mask_eq_exp_minus_1)
  moreover have "bit ((w OR compressedBlockFlag) AND compressedBlockFlag) 31" by (simp add: bit_simps flag)
  then have "(w OR compressedBlockFlag) AND compressedBlockFlag \<noteq> 0" by (metis bit_0_eq bot_apply bot_bool_def)
  then show "(w OR compressedBlockFlag) AND compressedBlockFlag > 0" by (simp add: word_neq_0_conv)
  show "w AND compressedBlockFlag = 0" using assms by (auto intro: bit_eqI simp: bit_simps flag)
  have "bit w n \<Longrightarrow> n < 31" for n using assms bit_imp_le_length [of w n] by (cases "n = 31") auto
  with calculation show "(w OR compressedBlockFlag) AND (compressedBlockFlag - 1) = w"
    by (auto intro!: bit_eqI simp: bit_simps flag)
qed

lemma readBlock_encBlock:
  assumes "blockCodec E" "goodBlock d" "blockWord E level hist d = (w, zd)" "\<not> hdBlockChecksum h" "blockSize4M \<le> n"
  shows "w \<noteq> 0 \<and> readBlock E n h w (zd @ rest) = Inr (d, rest)"
proof (cases "length (lzCompress E level hist d) > 0 \<and> length (lzCompress E level hist d) < length d")
  case True
  let ?z = "lzCompress E level hist d"
  from True assms(3) have w: "w = of_nat (length ?z)" "zd = ?z" by (auto simp: blockWord_def Let_def)
  have len: "length ?z \<le> blockSize4M" "length d \<le> blockSize4M" using True assms(2) by (simp_all add: goodBlock_def)
  note lw = lenWord_bits [OF len(1)]
  have "lzUncompress E n ?z = Some d" using True assms(1,5) len(2) by (simp add: blockCodec_def)
  moreover have "w \<noteq> 0" using lw(1) True unfolding w by (metis less_nat_zero_code unat_0)
  ultimately show ?thesis using assms(4,5) len lw storedWord(3) [OF lw(2)] by (simp add: readBlock_def w Let_def)
next
  case False
  with assms(3) have w: "w = of_nat (length d) OR compressedBlockFlag" "zd = d" by (auto simp: blockWord_def Let_def)
  have len: "length d \<le> blockSize4M" using assms(2) by (simp add: goodBlock_def)
  note lw = lenWord_bits [OF len] and sw = storedWord [OF lenWord_bits(2) [OF len]]
  have "w \<noteq> 0" using sw(1) unfolding w by (metis less_irrefl zero_and_eq)
  then show ?thesis using assms(4,5) len lw sw by (simp add: readBlock_def w Let_def)
qed

lemma lz4Blocks_frame:
  assumes "blockCodec E" "list_all goodBlock ds" "h = (lz4Header 0)\<lparr>hdDone := True\<rparr>"
  shows "lz4Blocks E (2 * blockSize4M) h hashed (encBlocks E level hist ds @ putUint32 0 @ putUint32 (lzXxh E (hashed @ concat ds)))
     = (concat ds, LzEOF)"
  using assms(2)
proof (induction ds arbitrary: hist hashed)
  case Nil
  have "readHeader E False [] = Inl LzEOF" by (simp add: readHeader_def readMagic.simps [of False "[]"] readUint32_def lzReadFull_def)
  then show ?case by (subst lz4Blocks.simps) (simp add: assms(3) lz4Header_def zeroHeader_def)
next
  case (Cons d ds)
  obtain w zd where w: "blockWord E level hist d = (w, zd)" by fastforce
  let ?tail = "encBlocks E level (hist @ [d]) ds @ putUint32 0 @ putUint32 (lzXxh E ((hashed @ d) @ concat ds))"
  have h: "\<not> hdBlockChecksum h" "hdBlockMaxSize h = blockSize4M" by (simp_all add: assms(3) lz4Header_def zeroHeader_def)
  have r: "w \<noteq> 0" "readBlock E (2 * blockSize4M - hdBlockMaxSize h) h w (zd @ ?tail) = Inr (d, ?tail)"
    using readBlock_encBlock [OF assms(1) _ w h(1), of blockSize4M ?tail] Cons.prems by (simp_all add: h(2))
  have inp: "encBlocks E level hist (d # ds) @ putUint32 0 @ putUint32 (lzXxh E (hashed @ concat (d # ds))) = putUint32 w @ zd @ ?tail"
    by (simp add: encBlock_def w)
  have ih: "lz4Blocks E (2 * blockSize4M) h (hashed @ d) ?tail = (concat ds, LzEOF)" by (rule Cons.IH) (use Cons.prems in simp)
  show ?case
    unfolding inp by (subst lz4Blocks.simps) (simp only: readUint32_append sum.case prod.case if_not_P [OF r(1)] r(2) ih apfst_conv concat.simps)
qed

lemma lz4_frame_read:
  assumes "blockCodec E" "list_all goodBlock ds"
  shows "lz4ReadAll E (frame E level ds) = (concat ds, LzEOF)"
  using lz4Blocks_frame [OF assms refl, of "[]" level "[]"]
  by (simp add: lz4ReadAll_def frame_def readHeader_writer) (simp add: lz4Header_def)

text \<open>A compressor used as an \<open>io.Writer\<close>: writes and flushes in any order, then \<open>Close\<close>. \<open>None\<close>: an operation failed.\<close>

datatype lz4_op = LzWrite bytes | LzFlush

fun lz4Ops :: "lz4_env \<Rightarrow> lz4_op list \<Rightarrow> lz4_writer \<Rightarrow> sink \<Rightarrow> (lz4_writer \<times> sink) option" where
  "lz4Ops E [] z out = Some (z, out)"
| "lz4Ops E (LzWrite p # ops) z out =
     (case lz4Write E p z out of (z, out, n, ok) \<Rightarrow> if ok \<and> n = length p then lz4Ops E ops z out else None)"
| "lz4Ops E (LzFlush # ops) z out = (case lz4Flush E z out of (z, out, ok) \<Rightarrow> if ok then lz4Ops E ops z out else None)"

fun opData :: "lz4_op list \<Rightarrow> bytes" where
  "opData [] = []"
| "opData (LzWrite p # ops) = p @ opData ops"
| "opData (LzFlush # ops) = opData ops"

definition lz4File :: "lz4_env \<Rightarrow> int \<Rightarrow> lz4_op list \<Rightarrow> bytes option" where
  "lz4File E level ops =
     (case lz4Ops E ops (newLz4Writer (lz4Header level)) \<lparr>skData = [], skLimit = None\<rparr> of
        None \<Rightarrow> None
      | Some (z, out) \<Rightarrow> (case lz4Close E z out of (out, ok) \<Rightarrow> if ok then Some (skData out) else None))"

lemma lz4Ops_inv:
  assumes "lzInv E level z out"
  shows "\<exists>z' out'. lz4Ops E ops z out = Some (z', out') \<and> lzInv E level z' out' \<and> lzTaken z' = lzTaken z @ opData ops"
  using assms
proof (induction ops arbitrary: z out)
  case (Cons op ops)
  show ?case
  proof (cases op)
    case (LzWrite p)
    from lz4Write_inv [OF Cons.prems, of p] obtain z1 out1 where
      "lz4Write E p z out = (z1, out1, length p, True)" "lzInv E level z1 out1" "lzTaken z1 = lzTaken z @ p" by blast
    with Cons.IH [of z1 out1] LzWrite show ?thesis by auto
  next
    case LzFlush
    from lz4Flush_inv [OF Cons.prems] obtain z1 out1 where
      "lz4Flush E z out = (z1, out1, True)" "lzInv E level z1 out1" "lzTaken z1 = lzTaken z" by blast
    with Cons.IH [of z1 out1] LzFlush show ?thesis by auto
  qed
qed simp

text \<open>
  C39. The LZ4 frames that the compressor of the writer produces are read back in full: after
  any writes and flushes, of any sizes and with any blocks left uncompressed, the closed file
  decodes to exactly the bytes written and ends there without an error.
\<close>

theorem lz4_file_roundtrip:
  assumes "blockCodec E"
  shows "\<exists>content. lz4File E level ops = Some content \<and> lz4ReadAll E content = (opData ops, LzEOF)"
proof -
  let ?out = "\<lparr>skData = [], skLimit = None\<rparr> :: sink"
  have "lzInv E level (newLz4Writer (lz4Header level)) ?out" by (rule lzInv_new) simp_all
  from lz4Ops_inv [OF this, of ops] obtain z out where
    z: "lz4Ops E ops (newLz4Writer (lz4Header level)) ?out = Some (z, out)" "lzInv E level z out" "lzTaken z = opData ops" by auto
  from lz4Close_frame [OF z(2)] z(1,3) lz4_frame_read [OF assms] show ?thesis by (auto simp: lz4File_def)
qed

text \<open>A block codec that knows one block.\<close>

definition exampleLz4 :: lz4_env where
  "exampleLz4 = \<lparr>lzCompress = (\<lambda>_ _ d. if d = [0, 0, 0] then [1] else []),
     lzUncompress = (\<lambda>n z. if z = [1] \<and> 3 \<le> n then Some ([0, 0, 0]) else None), lzXxh = (\<lambda>d. of_nat (length d))\<rparr>"

lemma exampleLz4_codec: "blockCodec exampleLz4"
  by (simp add: blockCodec_def exampleLz4_def)

theorem lz4_file_roundtrip_witness:
  "\<exists>content. lz4File exampleLz4 9 [LzWrite [0, 0], LzWrite [0], LzFlush, LzWrite [5]] = Some content
     \<and> lz4ReadAll exampleLz4 content = (opData [LzWrite [0, 0], LzWrite [0], LzFlush, LzWrite [5]], LzEOF)"
  by (rule lz4_file_roundtrip) (rule exampleLz4_codec)

text \<open>The same frame byte by byte: the header, the compressed block, the stored block, the end mark and the checksum.\<close>

lemma putUint32_bytes: "putUint32 w = [ucast w, ucast (drop_bit 8 w), ucast (drop_bit 16 w), ucast (drop_bit 24 w)]"
proof -
  have "(4 :: nat) = Suc (Suc (Suc (Suc 0)))" by simp
  then show ?thesis by (simp only: lePut.simps drop_bit_drop_bit) simp
qed

lemma exampleFrame:
  "frame exampleLz4 9 [[0, 0, 0], [5]]
     = [4, 0x22, 0x4D, 0x18, 0x64, 0x70, 0, 1, 0, 0, 0, 1, 1, 0, 0, 0x80, 5, 0, 0, 0, 0, 4, 0, 0, 0]"
  by (simp add: frame_def headerBytes_def headerFlags_def lz4Header_def zeroHeader_def index_4M frameMagic_def exampleLz4_def
      encBlock_def blockWord_def compressedBlockFlag_def putUint32_bytes)

end
