(* ===== verification/Strconv.thy ===== *)
theory Strconv
  imports Prelude
begin

text \<open>
  The parts of package \<open>strconv\<close> that the source calls: decimal output and \<open>ParseInt\<close>.
\<close>

text \<open>\<open>strconv.Itoa\<close> of a non-negative number.\<close>

definition digit :: "nat \<Rightarrow> byte" where
  "digit d = of_nat (48 + d)"

fun itoa :: "nat \<Rightarrow> bytes" where
  "itoa n = (if n < 10 then [digit n] else itoa (n div 10) @ [digit (n mod 10)])"

declare itoa.simps [simp del]

text \<open>\<open>%d\<close> of a signed number.\<close>

definition showInt :: "int \<Rightarrow> bytes" where
  "showInt i = (if i < 0 then cMinus # itoa (nat (- i)) else itoa (nat i))"

datatype num_error = ErrSyntax | ErrRange

definition isDigit :: "byte \<Rightarrow> bool" where
  "isDigit c \<longleftrightarrow> 48 \<le> unat c \<and> unat c \<le> 57"

text \<open>\<open>ParseUint(s, 10, 64)\<close> from \<open>n\<close> on: the value and the error, both returned.\<close>

fun ParseUint_loop :: "bytes \<Rightarrow> nat \<Rightarrow> nat \<times> num_error option" where
  "ParseUint_loop [] n = (n, None)"
| "ParseUint_loop (c # s) n =
     (if \<not> isDigit c then (0, Some ErrSyntax)
      else if 2 ^ 64 div 10 + 1 \<le> n then (2 ^ 64 - 1, Some ErrRange)
      else (let n1 = n * 10 + (unat c - 48)
            in if 2 ^ 64 \<le> n1 then (2 ^ 64 - 1, Some ErrRange) else ParseUint_loop s n1))"

definition ParseUint :: "bytes \<Rightarrow> nat \<times> num_error option" where
  "ParseUint s = (if s = [] then (0, Some ErrSyntax) else ParseUint_loop s 0)"

text \<open>\<open>ParseInt(s, 10, 64)\<close>; \<open>Atoi\<close> gives the same results.\<close>

definition ParseInt :: "bytes \<Rightarrow> int \<times> num_error option" where
  "ParseInt s =
     (if s = [] then (0, Some ErrSyntax)
      else
        (let neg = (hd s = cMinus);
             (un, err) = ParseUint (if hd s = cPlus \<or> hd s = cMinus then tl s else s)
         in if err = Some ErrSyntax then (0, err)
            else if \<not> neg \<and> 2 ^ 63 \<le> un then (2 ^ 63 - 1, Some ErrRange)
            else if neg \<and> 2 ^ 63 < un then (- (2 ^ 63), Some ErrRange)
            else (if neg then - int un else int un, None)))"

subsection \<open>Decimal output\<close>

lemma digit_byte: "n < 10 \<Longrightarrow> unat (digit n) = 48 + n"
  unfolding digit_def unsigned_of_nat using take_bit_nat_eq_self [of "48 + n" 8] by simp

lemma digit_inj:
  assumes "m < 10" "n < 10" "digit m = digit n"
  shows "m = n"
proof -
  have "48 + m = 48 + n" using digit_byte [OF assms(1)] digit_byte [OF assms(2)] assms(3) by argo
  then show ?thesis by simp
qed

lemma unat_colon: "unat cColon = 48 + 10"
  by simp

lemma digit_colon: "n < 10 \<Longrightarrow> digit n \<noteq> cColon"
  using digit_byte [of n] by (metis nat_neq_iff unat_colon add_less_cancel_left)

lemma itoa_not_Nil [simp]: "itoa n \<noteq> []"
  by (subst itoa.simps) simp

lemma itoa_inj: "itoa m = itoa n \<Longrightarrow> m = n"
proof (induction m arbitrary: n rule: itoa.induct)
  case (1 m)
  show ?case
  proof (cases "m < 10")
    case True
    then have m: "itoa m = [digit m]" by (simp add: itoa.simps)
    have "n < 10"
    proof (rule ccontr)
      assume "\<not> n < 10"
      then have "itoa n = itoa (n div 10) @ [digit (n mod 10)]" by (simp add: itoa.simps [of n])
      with m "1.prems" show False by simp
    qed
    with True m "1.prems" show ?thesis using digit_inj [of m n] by (simp add: itoa.simps [of n])
  next
    case False
    then have m: "itoa m = itoa (m div 10) @ [digit (m mod 10)]" by (simp add: itoa.simps [of m])
    have n10: "\<not> n < 10"
    proof
      assume "n < 10"
      then have "itoa n = [digit n]" by (simp add: itoa.simps)
      with m "1.prems" have "itoa (m div 10) = []" by simp
      then show False by simp
    qed
    then have n: "itoa n = itoa (n div 10) @ [digit (n mod 10)]" by (simp add: itoa.simps [of n])
    from m n "1.prems" have "itoa (m div 10) = itoa (n div 10)" "digit (m mod 10) = digit (n mod 10)"
      by simp_all
    with 1(1) [OF False] digit_inj [of "m mod 10" "n mod 10"] have "m div 10 = n div 10" "m mod 10 = n mod 10" by simp_all
    then show ?thesis by (metis div_mult_mod_eq)
  qed
qed

lemma itoa_no_colon: "cColon \<notin> set (itoa n)"
proof (induction n rule: itoa.induct)
  case (1 n)
  then show ?case
    using digit_colon [of n] digit_colon [of "n mod 10"] by (subst itoa.simps) auto
qed

lemma isDigit_digit: "n < 10 \<Longrightarrow> isDigit (digit n)"
  by (simp add: isDigit_def digit_byte)

lemma itoa_digits: "c \<in> set (itoa n) \<Longrightarrow> isDigit c"
proof (induction n rule: itoa.induct)
  case (1 n)
  then show ?case by (subst (asm) itoa.simps) (auto simp: isDigit_digit split: if_splits)
qed

lemma isDigit_not [simp]: "\<not> isDigit cPlus" "\<not> isDigit cMinus" "\<not> isDigit cComma" "\<not> isDigit cColon" "\<not> isDigit cSpace"
  by (simp_all add: isDigit_def)

subsection \<open>Reading back\<close>

lemma ParseUint_loop_itoa: "n < 2 ^ 64 \<Longrightarrow> ParseUint_loop (itoa n @ s) 0 = ParseUint_loop s n"
proof (induction n arbitrary: s rule: itoa.induct)
  case (1 n)
  show ?case
  proof (cases "n < 10")
    case True
    then show ?thesis by (subst itoa.simps) (simp add: isDigit_digit digit_byte Let_def)
  next
    case False
    let ?m = "n div 10" and ?d = "digit (n mod 10)"
    have "?m < 2 ^ 64" using "1.prems" by simp
    from 1(1) [OF False this] have "ParseUint_loop (itoa ?m @ ?d # s) 0 = ParseUint_loop (?d # s) ?m" by simp
    also have "\<dots> = ParseUint_loop s n"
    proof -
      have "\<not> 2 ^ 64 div 10 + 1 \<le> ?m" using div_le_mono [of n "2 ^ 64 - 1" 10] "1.prems" by simp
      then show ?thesis using "1.prems" by (simp add: isDigit_digit digit_byte Let_def del: power_numeral)
    qed
    finally show ?thesis using False by (subst itoa.simps) simp
  qed
qed

lemma hd_itoa: "hd (itoa n) \<noteq> cPlus" "hd (itoa n) \<noteq> cMinus"
  using itoa_digits [OF hd_in_set [OF itoa_not_Nil], of n] by auto

lemma ParseInt_itoa: "n < 2 ^ 63 \<Longrightarrow> ParseInt (itoa n) = (int n, None)"
  using hd_itoa [of n] ParseUint_loop_itoa [of n "[]"] by (simp add: ParseInt_def ParseUint_def Let_def)

lemma ParseInt_showInt: "- (2 ^ 63) \<le> i \<Longrightarrow> i < 2 ^ 63 \<Longrightarrow> ParseInt (showInt i) = (i, None)"
proof (cases "i < 0")
  case True
  assume "- (2 ^ 63) \<le> i"
  with True show ?thesis
    using ParseUint_loop_itoa [of "nat (- i)" "[]"] by (auto simp: showInt_def ParseInt_def ParseUint_def Let_def)
next
  case False
  assume "i < 2 ^ 63"
  with False show ?thesis using ParseInt_itoa [of "nat i"] by (simp add: showInt_def nat_less_iff)
qed

end
