(* ===== verification/Conf.thy ===== *)
theory Conf
  imports Strconv "HOL-Library.Multiset"
begin

text \<open>
  \<^verbatim>\<open>helper/config\<close>: the values of the configuration file. Text is ASCII here (\<open>strings.ToLower\<close> and
  \<open>strings.TrimSpace\<close>). Durations are nanoseconds; \<open>time.ParseDuration\<close> and \<open>Duration.String\<close> are
  arguments of the definitions that use them.
\<close>

subsection \<open>Sizes\<close>

definition ToLower :: "bytes \<Rightarrow> bytes" where
  "ToLower s = map (\<lambda>c. if 65 \<le> unat c \<and> unat c \<le> 90 then c + 32 else c) s"

datatype size_error = NotANumber num_error | NegativeSize

definition int64 :: "int \<Rightarrow> 64 word" where "int64 i = word_of_int i"

text \<open>
  \<open>Size.UnmarshalText\<close>: the stored value and the error; the product wraps. Indexing the last byte
  of an empty text panics.
\<close>

definition sizeUnmarshal :: "bytes \<Rightarrow> (64 word \<times> size_error option) option" where
  "sizeUnmarshal text =
     (let value = ToLower text in
      if value = [] then None
      else
        (let suffix = last value; number = butlast value;
             (s, err) =
               (if suffix = 107 then (case ParseInt number of (s, e) \<Rightarrow> (int64 s * 1024, e))
                else if suffix = 109 then (case ParseInt number of (s, e) \<Rightarrow> (int64 s * (1024 * 1024), e))
                else if suffix = 103 then (case ParseInt number of (s, e) \<Rightarrow> (int64 s * (1024 * 1024 * 1024), e))
                else (case ParseInt value of (s, e) \<Rightarrow> (int64 s, e)))
         in Some (s, if sint s < 0 then Some NegativeSize else map_option NotANumber err)))"

definition sizeValue :: "64 word \<Rightarrow> int" where "sizeValue s = sint s"

subsection \<open>Chunk intervals\<close>

type_synonym rule = "int \<times> int"

record chunk_interval =
  ciRules :: "rule list"
  ciDefault :: int

definition NewChunkAutoInterval :: chunk_interval where
  "NewChunkAutoInterval = \<lparr>ciRules = [], ciDefault = 0\<rparr>"

definition SetDefault :: "int \<Rightarrow> chunk_interval \<Rightarrow> chunk_interval" where
  "SetDefault v c = c\<lparr>ciDefault := v\<rparr>"

definition isSpace :: "byte \<Rightarrow> bool" where
  "isSpace c \<longleftrightarrow> c \<in> {9, 10, 11, 12, 13, 32}"

definition TrimSpace :: "bytes \<Rightarrow> bytes" where
  "TrimSpace s = rev (dropWhile isSpace (rev (dropWhile isSpace s)))"

definition parseRule :: "(bytes \<Rightarrow> int option) \<Rightarrow> bytes \<Rightarrow> rule option" where
  "parseRule parseDuration a =
     (case splitOn cColon (TrimSpace a) of
        [k, v] \<Rightarrow>
          (case ParseInt k of
             (k, None) \<Rightarrow> map_option (Pair k) (parseDuration v)
           | (_, Some _) \<Rightarrow> None)
      | _ \<Rightarrow> None)"

fun parseRules :: "(bytes \<Rightarrow> int option) \<Rightarrow> bytes list \<Rightarrow> rule list \<Rightarrow> rule list \<times> bool" where
  "parseRules parseDuration [] rules = (rules, True)"
| "parseRules parseDuration (a # as) rules =
     (case parseRule parseDuration a of None \<Rightarrow> (rules, False) | Some r \<Rightarrow> parseRules parseDuration as (rules @ [r]))"

text \<open>\<open>UnmarshalText\<close>: the receiver and whether there was no error.\<close>

definition chunkUnmarshal :: "(bytes \<Rightarrow> int option) \<Rightarrow> bytes \<Rightarrow> chunk_interval \<Rightarrow> chunk_interval \<times> bool" where
  "chunkUnmarshal parseDuration p c =
     (let s = TrimSpace p; c = c\<lparr>ciRules := []\<rparr> in
      if s = [] then (c, True)
      else (case parseRules parseDuration (splitOn cComma s) [] of
          (rules, False) \<Rightarrow> (c\<lparr>ciRules := rules\<rparr>, False)
        | (rules, True) \<Rightarrow> (c\<lparr>ciRules := sort_key fst rules\<rparr>, True)))"

definition showRule :: "(int \<Rightarrow> bytes) \<Rightarrow> rule \<Rightarrow> bytes" where
  "showRule showDuration r = showInt (fst r) @ cColon # showDuration (snd r)"

definition chunkMarshal :: "(int \<Rightarrow> bytes) \<Rightarrow> chunk_interval \<Rightarrow> bytes" where
  "chunkMarshal showDuration c = joinWith [cComma] (map (showRule showDuration) (ciRules c))"

text \<open>The index at which the loop of \<open>GetInterval\<close> stops.\<close>

fun intervalIndex :: "int \<Rightarrow> rule list \<Rightarrow> nat" where
  "intervalIndex u [] = 0"
| "intervalIndex u (r # rs) = (if u < fst r then 0 else Suc (intervalIndex u rs))"

definition GetInterval :: "chunk_interval \<Rightarrow> int \<Rightarrow> int" where
  "GetInterval c unhandledCount =
     (let i = intervalIndex unhandledCount (ciRules c)
      in if i > 0 then snd (ciRules c ! (i - 1)) else ciDefault c)"

definition GetDefault :: "chunk_interval \<Rightarrow> int" where "GetDefault c = ciDefault c"

subsection \<open>Compression and durations\<close>

datatype comp_algo = CompAlgoNone | CompAlgoLZ4

definition compressionMap :: "(bytes \<times> comp_algo) list" where
  "compressionMap = [(str ''none'', CompAlgoNone), (str ''lz4'', CompAlgoLZ4)]"

definition compressionMapReversed :: "(comp_algo \<times> bytes) list" where
  "compressionMapReversed = map (\<lambda>(k, v). (v, k)) compressionMap"

definition compUnmarshal :: "bytes \<Rightarrow> bytes + comp_algo" where
  "compUnmarshal text = (case map_of compressionMap text of None \<Rightarrow> Inl text | Some algo \<Rightarrow> Inr algo)"

definition compMarshal :: "comp_algo \<Rightarrow> bytes" where
  "compMarshal algo = (case map_of compressionMapReversed algo of None \<Rightarrow> [] | Some k \<Rightarrow> k)"

text \<open>\<open>Duration.Value\<close> accepts a nil receiver.\<close>

definition durationValue :: "int option \<Rightarrow> int" where
  "durationValue d = (case d of None \<Rightarrow> 0 | Some v \<Rightarrow> v)"

subsection \<open>TLS\<close>

record tls_conf =
  tcCertificates :: "(bytes \<times> bytes) list"
  tcCACertFiles :: "bytes list"
  tcClientAuth :: bytes
  tcServerName :: bytes
  tcMinVersion :: bytes
  tcMaxVersion :: bytes
  tcInsecureSkipVerify :: bool
  tcCurves :: "bytes list"
  tcCipherSuites :: "bytes list"

text \<open>\<open>strings.NewReplacer("Version", "", ".", "", " ", "")\<close>\<close>

function stripVersion :: "bytes \<Rightarrow> bytes" where
  "stripVersion [] = []"
| "stripVersion (c # s) =
     (if HasPrefix (c # s) (str ''Version'') then stripVersion (drop 6 s)
      else if c = cDot \<or> c = cSpace then stripVersion s else c # stripVersion s)"
  by pat_completeness auto
termination
  by (relation "measure length") auto

definition ParseTLSVersion :: "bytes \<Rightarrow> uint16 option" where
  "ParseTLSVersion version =
     (let v = stripVersion version in
      if v = str ''TLS10'' then Some 0x0301 else if v = str ''TLS11'' then Some 0x0302
      else if v = str ''TLS12'' then Some 0x0303 else if v = str ''TLS13'' \<or> v = [] then Some 0x0304 else None)"

definition supportedCurveIDs :: "(bytes \<times> uint16) list" where
  "supportedCurveIDs = [(str ''CurveP256'', 23), (str ''CurveP384'', 24), (str ''CurveP521'', 25), (str ''X25519'', 29)]"

fun curveIDs :: "bytes list \<Rightarrow> uint16 list \<Rightarrow> bytes + uint16 list" where
  "curveIDs [] res = Inr res"
| "curveIDs (n # ns) res = (case map_of supportedCurveIDs n of None \<Rightarrow> Inl n | Some c \<Rightarrow> curveIDs ns (res @ [c]))"

text \<open>\<open>iter\<close> is the order in which Go ranges over the map of the names.\<close>

definition ParseCurves :: "(bytes set \<Rightarrow> bytes list) \<Rightarrow> bytes list \<Rightarrow> bytes + uint16 list" where
  "ParseCurves iter curveNames = curveIDs (iter (set curveNames)) []"

definition supportedClientAuths :: "(bytes \<times> nat) list" where
  "supportedClientAuths = [(str ''NoClientCert'', 0), (str ''RequestClientCert'', 1), (str ''RequireAnyClientCert'', 2),
     (str ''VerifyClientCertIfGiven'', 3), (str ''RequireAndVerifyClientCert'', 4)]"

definition ParseClientAuthType :: "bytes \<Rightarrow> bytes + nat" where
  "ParseClientAuthType clientAuth =
     (if clientAuth = [] then Inr 0
      else (case map_of supportedClientAuths clientAuth of None \<Rightarrow> Inl clientAuth | Some i \<Rightarrow> Inr i))"

text \<open>\<open>tls.CipherSuites()\<close> is the list of names, numbers and insecure flags.\<close>

fun cipherIDs :: "(bytes \<times> uint16 \<times> bool) list \<Rightarrow> bytes list \<Rightarrow> uint16 list \<Rightarrow> bytes + uint16 list" where
  "cipherIDs suites [] res = Inr res"
| "cipherIDs suites (c # cs) res =
     (case map_of (rev (map (\<lambda>(n, i, _). (n, i)) suites)) c of None \<Rightarrow> Inl c | Some i \<Rightarrow> cipherIDs suites cs (res @ [i]))"

definition CipherSuitesToUint16 ::
  "(bytes \<times> uint16 \<times> bool) list \<Rightarrow> bytes list \<Rightarrow> bytes + uint16 list \<times> bytes list" where
  "CipherSuitesToUint16 suites ciphers =
     (case cipherIDs suites ciphers [] of
        Inl c \<Rightarrow> Inl c
      | Inr res \<Rightarrow> Inr (res, map fst (filter (\<lambda>(_, _, insecure). insecure) suites)))"

datatype 'e tls_error = NoCertificates | FileError 'e | UnknownVersion | BadCurve bytes | UnknownCipher bytes

record ('c, 'p) tls_config =
  tlRootCAs :: "'p list"
  tlCertificates :: "'c list"
  tlServerName :: bytes
  tlMinVersion :: uint16
  tlMaxVersion :: uint16
  tlInsecureSkipVerify :: bool
  tlCipherSuites :: "uint16 list"
  tlCurvePreferences :: "uint16 list"

fun readAll :: "('x \<Rightarrow> 'e + 'y) \<Rightarrow> 'x list \<Rightarrow> 'e + 'y list" where
  "readAll f [] = Inr []"
| "readAll f (x # xs) = (case f x of Inl e \<Rightarrow> Inl e | Inr y \<Rightarrow> (case readAll f xs of Inl e \<Rightarrow> Inl e | Inr ys \<Rightarrow> Inr (y # ys)))"

definition ParseClientTLSConfig ::
  "(bytes \<Rightarrow> 'e + 'p) \<Rightarrow> (bytes \<times> bytes \<Rightarrow> 'e + 'c) \<Rightarrow> (bytes set \<Rightarrow> bytes list) \<Rightarrow> (bytes \<times> uint16 \<times> bool) list \<Rightarrow>
   tls_conf \<Rightarrow> 'e tls_error + ('c, 'p) tls_config \<times> bytes list" where
  "ParseClientTLSConfig readFile loadPair iter suites config =
     (if tcCertificates config = [] then Inl NoCertificates
      else
        (case readAll readFile (tcCACertFiles config) of
           Inl e \<Rightarrow> Inl (FileError e)
         | Inr cas \<Rightarrow>
        (case readAll loadPair (tcCertificates config) of
           Inl e \<Rightarrow> Inl (FileError e)
         | Inr certs \<Rightarrow>
        (case ParseTLSVersion (tcMinVersion config) of
           None \<Rightarrow> Inl UnknownVersion
         | Some minV \<Rightarrow>
        (case ParseTLSVersion (tcMaxVersion config) of
           None \<Rightarrow> Inl UnknownVersion
         | Some maxV \<Rightarrow>
        (case ParseCurves iter (tcCurves config) of
           Inl n \<Rightarrow> Inl (BadCurve n)
         | Inr curves \<Rightarrow>
        (case CipherSuitesToUint16 suites (tcCipherSuites config) of
           Inl c \<Rightarrow> Inl (UnknownCipher c)
         | Inr (ciphers, warns) \<Rightarrow>
             Inr (\<lparr>tlRootCAs = cas, tlCertificates = certs, tlServerName = tcServerName config, tlMinVersion = minV, tlMaxVersion = maxV,
                   tlInsecureSkipVerify = tcInsecureSkipVerify config, tlCipherSuites = ciphers, tlCurvePreferences = curves\<rparr>,
                  warns @ (if tcInsecureSkipVerify config
                           then [str ''InsecureSkipVerify is set to true, it's not recommended to use that in production''] else [])))))))))"

subsection \<open>Sizes are read exactly while they fit\<close>

definition sizeUnits :: "(bytes \<times> nat) list" where
  "sizeUnits = [([], 1), (str ''k'', 1024), (str ''K'', 1024), (str ''m'', 1024 * 1024), (str ''M'', 1024 * 1024),
     (str ''g'', 1024 * 1024 * 1024), (str ''G'', 1024 * 1024 * 1024)]"

lemma ToLower_itoa: "ToLower (itoa n @ u) = itoa n @ ToLower u"
proof -
  have "map (\<lambda>c. if 65 \<le> unat c \<and> unat c \<le> 90 then c + 32 else c) (itoa n) = itoa n"
    by (rule map_idI) (use itoa_digits [of _ n] in \<open>auto simp: isDigit_def dest!: itoa_digits\<close>)
  then show ?thesis by (simp add: ToLower_def)
qed

lemma ToLower_unit [simp]:
  "ToLower [] = []" "ToLower [107] = [107]" "ToLower [75] = [107]" "ToLower [109] = [109]" "ToLower [77] = [109]"
  "ToLower [103] = [103]" "ToLower [71] = [103]"
  by (simp_all add: ToLower_def)

lemma last_itoa: "isDigit (last (itoa n))"
  by (rule itoa_digits [OF last_in_set]) simp

lemma sint_of_nat_word: "n < 2 ^ 63 \<Longrightarrow> sint (of_nat n :: 64 word) = int n"
  by (simp add: sint_uint uint_nat unat_of_nat signed_take_bit_int_eq_self)

text \<open>
  A decimal size with an optional unit is read as the exact number of bytes as long as the
  product fits into 63 bits.
\<close>

theorem size_units:
  assumes "(u, m) \<in> set sizeUnits" "n * m < 2 ^ 63"
  shows "sizeUnmarshal (itoa n @ u) = Some (of_nat (n * m), None)"
proof -
  have m: "0 < m" using assms(1) by (auto simp: sizeUnits_def)
  then have "n \<le> n * m" by simp
  then have n: "n < 2 ^ 63" using assms(2) by linarith
  have w: "int64 (int k) = of_nat k" for k by (simp add: int64_def)
  have s: "\<not> sint (of_nat (n * m) :: 64 word) < 0" using sint_of_nat_word [OF assms(2)] by linarith
  have digit: "last (itoa n) \<noteq> 107" "last (itoa n) \<noteq> 109" "last (itoa n) \<noteq> 103"
    using last_itoa [of n] by (auto simp: isDigit_def)
  consider "ToLower u = []" "m = 1" | "ToLower u = [107]" "m = 1024" | "ToLower u = [109]" "m = 1024 * 1024"
    | "ToLower u = [103]" "m = 1024 * 1024 * 1024"
    using assms(1) by (auto simp: sizeUnits_def)
  then show ?thesis
    using s digit by cases (simp_all add: sizeUnmarshal_def ToLower_itoa ParseInt_itoa [OF n] w Let_def mult.commute)
qed

theorem size_units_witness: "sizeUnmarshal (itoa 16 @ str ''M'') = Some (of_nat (16 * (1024 * 1024)), None)"
  by (rule size_units) (simp_all add: sizeUnits_def)

text \<open>The product is taken before any range check: a size beyond the range may be read as a small one.\<close>

lemma size_overflow: "sizeUnmarshal (str ''18014398509481985k'') = Some (1024, None)"
proof -
  have n: "str ''18014398509481985k'' = itoa 18014398509481985 @ [107]"
    by (simp add: itoa.simps digit_def)
  have "sizeUnmarshal (itoa 18014398509481985 @ [107]) = Some (1024, None)"
    using ParseInt_itoa [of 18014398509481985]
    by (simp add: sizeUnmarshal_def ToLower_itoa int64_def Let_def)
  then show ?thesis by (simp only: n)
qed

lemma size_empty: "sizeUnmarshal [] = None"
  by (simp add: sizeUnmarshal_def ToLower_def)

subsection \<open>The interval in force\<close>

lemma intervalIndex_sorted:
  assumes "sorted (map fst rs)"
  shows "filter (\<lambda>r. fst r \<le> u) rs = take (intervalIndex u rs) rs"
  using assms
proof (induction rs)
  case (Cons r rs)
  show ?case
  proof (cases "u < fst r")
    case True
    then have "filter (\<lambda>r. fst r \<le> u) rs = []" using Cons.prems by (fastforce simp: filter_empty_conv)
    with True show ?thesis by simp
  next
    case False
    with Cons show ?thesis by simp
  qed
qed simp

lemma intervalIndex_le: "intervalIndex u rs \<le> length rs"
  by (induction rs) auto

text \<open>
  The chunk interval in force is that of the last rule whose threshold does not exceed the
  number of unhandled files, or the default.
\<close>

theorem chunk_interval_rule:
  assumes "chunkUnmarshal parseDuration p c0 = (c, True)"
  shows "GetInterval c u = (case filter (\<lambda>r. fst r \<le> u) (ciRules c) of [] \<Rightarrow> ciDefault c0 | rs \<Rightarrow> snd (last rs))"
proof -
  have srt: "sorted (map fst (ciRules c))" and dft: "ciDefault c = ciDefault c0"
    using assms by (auto simp: chunkUnmarshal_def Let_def split: if_splits prod.splits bool.splits)
  let ?i = "intervalIndex u (ciRules c)"
  show ?thesis
  proof (cases ?i)
    case 0
    then show ?thesis by (simp add: GetInterval_def intervalIndex_sorted [OF srt] dft)
  next
    case (Suc i)
    then have ne: "take ?i (ciRules c) \<noteq> []" "i < length (ciRules c)" using intervalIndex_le [of u "ciRules c"] by auto
    then have "last (take ?i (ciRules c)) = ciRules c ! i" using Suc by (simp add: take_Suc_conv_app_nth)
    with ne(1) Suc show ?thesis
      unfolding intervalIndex_sorted [OF srt] by (cases "take ?i (ciRules c)") (simp_all add: GetInterval_def)
  qed
qed

theorem chunk_interval_rule_witness:
  "GetInterval (fst (chunkUnmarshal (\<lambda>_. Some 9) (str ''5:1m,10:2m'') (SetDefault 3 NewChunkAutoInterval))) 7
     = (case filter (\<lambda>r. fst r \<le> 7) (ciRules (fst (chunkUnmarshal (\<lambda>_. Some 9) (str ''5:1m,10:2m'') (SetDefault 3 NewChunkAutoInterval)))) of
          [] \<Rightarrow> ciDefault (SetDefault 3 NewChunkAutoInterval) | rs \<Rightarrow> snd (last rs))"
  by (rule chunk_interval_rule [of "\<lambda>_. Some 9" "str ''5:1m,10:2m''"])
    (simp add: chunkUnmarshal_def TrimSpace_def isSpace_def parseRule_def ParseInt_def ParseUint_def isDigit_def Let_def prod_eq_iff)

subsection \<open>Round trips\<close>

text \<open>What the development relies on of \<open>time.ParseDuration\<close> and \<open>Duration.String\<close> for a duration.\<close>

definition durationText :: "(bytes \<Rightarrow> int option) \<Rightarrow> (int \<Rightarrow> bytes) \<Rightarrow> int \<Rightarrow> bool" where
  "durationText parseDuration showDuration d \<longleftrightarrow> parseDuration (showDuration d) = Some d \<and> showDuration d \<noteq> []
     \<and> cComma \<notin> set (showDuration d) \<and> cColon \<notin> set (showDuration d) \<and> (\<forall>c \<in> set (showDuration d). \<not> isSpace c)"

definition ruleOk :: "(bytes \<Rightarrow> int option) \<Rightarrow> (int \<Rightarrow> bytes) \<Rightarrow> rule \<Rightarrow> bool" where
  "ruleOk parseDuration showDuration r \<longleftrightarrow> - (2 ^ 63) \<le> fst r \<and> fst r < 2 ^ 63 \<and> durationText parseDuration showDuration (snd r)"

lemma TrimSpace_id: "\<forall>c \<in> set s. \<not> isSpace c \<Longrightarrow> TrimSpace s = s"
proof -
  have dw: "dropWhile isSpace s = s" if "\<forall>c \<in> set s. \<not> isSpace c" for s using that by (cases s) auto
  show "\<forall>c \<in> set s. \<not> isSpace c \<Longrightarrow> TrimSpace s = s" by (simp add: TrimSpace_def dw)
qed

lemma digit_not_space: "isDigit c \<Longrightarrow> \<not> isSpace c"
  by (auto simp: isDigit_def isSpace_def)

lemma showInt_chars: "c \<in> set (showInt i) \<Longrightarrow> isDigit c \<or> c = cMinus"
  by (auto simp: showInt_def dest: itoa_digits split: if_splits)

lemma showRule_chars:
  assumes "ruleOk parseDuration showDuration r" "c \<in> set (showRule showDuration r)"
  shows "\<not> isSpace c" and "c \<noteq> cComma"
proof -
  have "\<not> isSpace c \<and> c \<noteq> cComma"
  proof (cases "c \<in> set (showInt (fst r))")
    case True
    from showInt_chars [OF this] show ?thesis
    proof
      assume "isDigit c"
      then show ?thesis using digit_not_space [of c] by auto
    qed (simp add: isSpace_def)
  next
    case False
    then consider "c = cColon" | "c \<in> set (showDuration (snd r))" using assms(2) by (auto simp: showRule_def)
    then show ?thesis
    proof cases
      case 2
      with assms(1) show ?thesis unfolding ruleOk_def durationText_def by blast
    qed (simp add: isSpace_def)
  qed
  then show "\<not> isSpace c" and "c \<noteq> cComma" by simp_all
qed

lemma parseRule_show:
  assumes "ruleOk parseDuration showDuration r"
  shows "parseRule parseDuration (showRule showDuration r) = Some r"
proof -
  have "TrimSpace (showRule showDuration r) = showRule showDuration r"
    using showRule_chars(1) [OF assms] by (intro TrimSpace_id) blast
  moreover have "cColon \<notin> set (showInt (fst r))" using showInt_chars [of cColon "fst r"] by auto
  then have "splitOn cColon (showRule showDuration r) = [showInt (fst r), showDuration (snd r)]"
    using assms by (simp add: showRule_def splitOn_append_sep splitOn_no_sep ruleOk_def durationText_def)
  ultimately show ?thesis
    using assms ParseInt_showInt [of "fst r"] by (simp add: parseRule_def ruleOk_def durationText_def)
qed

lemma parseRules_show:
  "\<forall>r \<in> set rs. ruleOk parseDuration showDuration r \<Longrightarrow>
     parseRules parseDuration (map (showRule showDuration) rs) acc = (acc @ rs, True)"
  by (induction rs arbitrary: acc) (simp_all add: parseRule_show)

text \<open>
  Reading the printed form of a sorted list of chunk interval rules gives the rules back.
\<close>

theorem chunk_roundtrip:
  assumes "sorted (map fst (ciRules c))" "\<forall>r \<in> set (ciRules c). ruleOk parseDuration showDuration r"
  shows "chunkUnmarshal parseDuration (chunkMarshal showDuration c) c0 = (c0\<lparr>ciRules := ciRules c\<rparr>, True)"
proof (cases "ciRules c")
  case Nil
  then show ?thesis by (simp add: chunkUnmarshal_def chunkMarshal_def TrimSpace_def)
next
  case (Cons r rs)
  let ?parts = "map (showRule showDuration) (ciRules c)"
  have "x \<in> set (joinWith [cComma] ps) \<Longrightarrow> x = cComma \<or> (\<exists>p \<in> set ps. x \<in> set p)" for x ps
    by (induction ps rule: induct_list012) auto
  then have "\<not> isSpace x" if "x \<in> set (joinWith [cComma] ?parts)" for x
    using that assms(2) showRule_chars(1) by (fastforce simp: isSpace_def)
  then have trim: "TrimSpace (joinWith [cComma] ?parts) = joinWith [cComma] ?parts" by (intro TrimSpace_id) blast
  have split: "splitOn cComma (joinWith [cComma] ?parts) = ?parts"
    by (rule splitOn_joinWith) (use assms(2) Cons in \<open>auto dest: showRule_chars(2)\<close>)
  have "joinWith [cComma] ?parts \<noteq> []" using Cons by (cases rs) (simp_all add: showRule_def)
  with assms(1) trim split show ?thesis
    by (simp add: chunkUnmarshal_def chunkMarshal_def parseRules_show [OF assms(2)] Let_def sorted_sort_id sort_key_id_if_sorted)
qed

theorem chunk_roundtrip_witness:
  "chunkUnmarshal (\<lambda>_. Some 60) (chunkMarshal (\<lambda>_. str ''1m0s'') \<lparr>ciRules = [(-1, 60), (5, 60)], ciDefault = 7\<rparr>) NewChunkAutoInterval
     = (NewChunkAutoInterval\<lparr>ciRules := ciRules \<lparr>ciRules = [(-1, 60), (5, 60)], ciDefault = 7\<rparr>\<rparr>, True)"
  by (rule chunk_roundtrip) (simp_all add: ruleOk_def durationText_def isSpace_def)

lemma compression_roundtrip: "compUnmarshal (compMarshal a) = Inr a"
  by (cases a) (simp_all add: compUnmarshal_def compMarshal_def compressionMap_def compressionMapReversed_def)

subsection \<open>Curves and ciphers\<close>

lemma curveIDs_eq:
  "curveIDs ns res = (case find (\<lambda>n. map_of supportedCurveIDs n = None) ns of
     Some n \<Rightarrow> Inl n | None \<Rightarrow> Inr (res @ map (\<lambda>n. the (map_of supportedCurveIDs n)) ns))"
  by (induction ns arbitrary: res) (auto split: option.splits)

lemma curve_inj: "inj_on (\<lambda>n. the (map_of supportedCurveIDs n)) {n. map_of supportedCurveIDs n \<noteq> None}"
  by (auto simp: inj_on_def supportedCurveIDs_def split: if_splits)

text \<open>The curves do not depend on the order of the map but for the order of the result, and every curve is given once.\<close>

lemma ParseCurves_ok:
  assumes "set (iter (set names)) = set names" "distinct (iter (set names))" "\<forall>n \<in> set names. map_of supportedCurveIDs n \<noteq> None"
  shows "\<exists>res. ParseCurves iter names = Inr res \<and> distinct res \<and> set res = (\<lambda>n. the (map_of supportedCurveIDs n)) ` set names"
proof -
  have "find (\<lambda>n. map_of supportedCurveIDs n = None) (iter (set names)) = None"
    using assms(1,3) by (simp add: find_None_iff)
  moreover have "inj_on (\<lambda>n. the (map_of supportedCurveIDs n)) (set (iter (set names)))"
    by (rule inj_on_subset [OF curve_inj]) (use assms(1,3) in auto)
  ultimately show ?thesis using assms(1,2) by (simp add: ParseCurves_def curveIDs_eq distinct_map)
qed

text \<open>The list of insecure ciphers does not depend on the ciphers asked for.\<close>

lemma insecure_ciphers_constant:
  "CipherSuitesToUint16 suites cs = Inr (ids, warns) \<Longrightarrow> CipherSuitesToUint16 suites cs' = Inr (ids', warns') \<Longrightarrow> warns = warns'"
  by (auto simp: CipherSuitesToUint16_def split: sum.splits)

end
