(* ===== verification/Wr_Worker.thy ===== *)
theory Wr_Worker
  imports Lz4 Conf
begin

text \<open>
  \<^verbatim>\<open>writer/writer.go\<close>: the goroutine that appends the buffers of all receivers to the current data file
  and switches files. The files are sinks; a file that was closed is kept in \<open>wkClosed\<close> with its
  content. With LZ4 the bytes pass a compressor (\<open>Lz4\<close>) on their way to the file.
\<close>

subsection \<open>Destinations\<close>

text \<open>
  The file with the compressor before it: \<open>cwr\<close> is nil for plain files. A write gives the number of bytes taken and
  \<open>err == nil\<close>.
\<close>

record dest =
  dsCwr :: "lz4_writer option"
  dsOut :: sink

definition destWrite :: "lz4_env \<Rightarrow> bytes \<Rightarrow> dest \<Rightarrow> dest \<times> nat \<times> bool" where
  "destWrite E p d =
     (case dsCwr d of
        None \<Rightarrow> (case sinkWrite p (dsOut d) of (out, ok) \<Rightarrow> (d\<lparr>dsOut := out\<rparr>, length (skData out) - length (skData (dsOut d)), ok))
      | Some z \<Rightarrow> (case lz4Write E p z (dsOut d) of (z, out, n, ok) \<Rightarrow> (d\<lparr>dsCwr := Some z, dsOut := out\<rparr>, n, ok)))"

text \<open>\<open>cwr.Flush()\<close>, whose error is only logged.\<close>

definition cwrFlush :: "lz4_env \<Rightarrow> dest \<Rightarrow> dest" where
  "cwrFlush E d =
     (case dsCwr d of
        None \<Rightarrow> d
      | Some z \<Rightarrow> (case lz4Flush E z (dsOut d) of (z, out, _) \<Rightarrow> d\<lparr>dsCwr := Some z, dsOut := out\<rparr>))"

text \<open>\<open>cwrClose\<close>: what is in the file then.\<close>

definition cwrClose :: "lz4_env \<Rightarrow> dest \<Rightarrow> sink" where
  "cwrClose E d = (case dsCwr d of None \<Rightarrow> dsOut d | Some z \<Rightarrow> fst (lz4Close E z (dsOut d)))"

subsection \<open>Package bufio\<close>

definition outBufSize :: nat where "outBufSize = 1024 * 1024"

record bufw =
  bwBuf :: bytes
  bwErr :: bool

text \<open>\<open>Flush\<close>: the error is kept, and so is what a short write left.\<close>

definition bufFlush :: "lz4_env \<Rightarrow> bufw \<Rightarrow> dest \<Rightarrow> bufw \<times> dest \<times> bool" where
  "bufFlush E b d =
     (if bwErr b then (b, d, False)
      else if bwBuf b = [] then (b, d, True)
      else (case destWrite E (bwBuf b) d of
          (d, _, True) \<Rightarrow> (b\<lparr>bwBuf := []\<rparr>, d, True)
        | (d, n, False) \<Rightarrow> (\<lparr>bwBuf = drop n (bwBuf b), bwErr = True\<rparr>, d, False)))"

lemma bufFlush_result:
  assumes "bufFlush E b w = (b', w', ok)" "\<not> bwErr b'"
  shows "bwBuf b' = []"
  using assms by (auto simp: bufFlush_def split: if_splits prod.splits bool.splits)

function bufWrite :: "lz4_env \<Rightarrow> bytes \<Rightarrow> bufw \<Rightarrow> dest \<Rightarrow> bufw \<times> dest \<times> bool" where
  "bufWrite E p b d =
     (if outBufSize - length (bwBuf b) < length p \<and> \<not> bwErr b then
        (if bwBuf b = [] then
           (case destWrite E p d of
              (d, _, True) \<Rightarrow> bufWrite E [] b d
            | (d, n, False) \<Rightarrow> bufWrite E (drop n p) (b\<lparr>bwErr := True\<rparr>) d)
         else
           (let n = outBufSize - length (bwBuf b)
            in case bufFlush E (b\<lparr>bwBuf := bwBuf b @ take n p\<rparr>) d of (b, d, _) \<Rightarrow> bufWrite E (drop n p) b d))
      else if bwErr b then (b, d, False)
      else (b\<lparr>bwBuf := bwBuf b @ p\<rparr>, d, True))"
  by pat_completeness auto
termination
  by (relation "measure (\<lambda>(E, p, b, d). if bwErr b then 0 else Suc (2 * length p + (if bwBuf b = [] then 0 else 1)))")
    (auto dest: bufFlush_result [OF sym])

declare bufWrite.simps [simp del]

subsection \<open>State\<close>

record worker =
  wkOut :: "dest option"
  wkBuf :: "bufw option"
  wkFn :: bytes
  wkSize :: "64 word"
  wkStart :: int
  wkInProgress :: "bytes list"
  wkFinish :: "bytes list"
  wkClosed :: "(bytes \<times> bytes) list"
  wkWritten :: uint32
  wkChunkInterval :: uint32

record worker_conf =
  wcMaxSize :: int
  wcInterval :: chunk_interval
  wcAlgo :: comp_algo
  wcLevel :: int
  wcLz4 :: lz4_env

definition newWorker :: worker where
  "newWorker = \<lparr>wkOut = None, wkBuf = None, wkFn = [], wkSize = 0, wkStart = 0, wkInProgress = [], wkFinish = [], wkClosed = [],
     wkWritten = 0, wkChunkInterval = 0\<rparr>"

definition IsInProgress :: "worker \<Rightarrow> bytes \<Rightarrow> bool" where
  "IsInProgress w filename \<longleftrightarrow> filename \<in> set (wkInProgress w)"

subsection \<open>Switching files\<close>

definition fileExtension :: "comp_algo \<Rightarrow> bytes" where
  "fileExtension algo = (case algo of CompAlgoNone \<Rightarrow> [] | CompAlgoLZ4 \<Rightarrow> str ''.lz4'')"

definition chunkName :: "comp_algo \<Rightarrow> int \<Rightarrow> bytes" where
  "chunkName algo nano = str ''default.'' @ showInt nano @ fileExtension algo"

text \<open>\<open>outBuf.Flush(); cwrClose(); out.Close()\<close>\<close>

definition closeFile :: "worker_conf \<Rightarrow> worker \<Rightarrow> worker option" where
  "closeFile c w =
     (case (wkOut w, wkBuf w) of
        (Some out, Some b) \<Rightarrow> 
          (case bufFlush (wcLz4 c) b out of
             (_, out, _) \<Rightarrow> Some (w\<lparr>wkClosed := wkClosed w @ [(wkFn w, skData (cwrClose (wcLz4 c) out))]\<rparr>))
      | _ \<Rightarrow> None)"

text \<open>
  An attempt of \<open>OpenLoop\<close>: the clock, the opened file (\<open>None\<close>: an error), whether the callback of the
  previous file has just stored its own error in the shared variable \<open>err\<close>, and whether the
  context is done.
\<close>

record open_try =
  otNano :: int
  otFile :: "sink option"
  otRaced :: bool
  otDone :: bool

text \<open>The writer put before a new file.\<close>

definition newCwr :: "worker_conf \<Rightarrow> lz4_writer option" where
  "newCwr c = (case wcAlgo c of CompAlgoNone \<Rightarrow> None | CompAlgoLZ4 \<Rightarrow> Some (newLz4Writer (lz4Header (wcLevel c))))"

text \<open>\<open>None\<close>: the loop is still trying after the given attempts.\<close>

fun openLoop :: "worker_conf \<Rightarrow> open_try list \<Rightarrow> worker \<Rightarrow> worker option" where
  "openLoop c [] w = None"
| "openLoop c (a # as) w =
     (let w = w\<lparr>wkFinish := (if wkFn w = [] then wkFinish w else wkFinish w @ [wkFn w])\<rparr>;
          fn = chunkName (wcAlgo c) (otNano a);
          w = w\<lparr>wkInProgress := fn # removeAll fn (removeAll (wkFn w) (wkInProgress w)), wkFn := fn,
                wkOut := map_option (\<lambda>f. \<lparr>dsCwr = None, dsOut = f\<rparr>) (otFile a), wkStart := otNano a\<rparr>
      in if otFile a = None \<or> otRaced a then (if otDone a then Some w else openLoop c as w)
         else Some (w\<lparr>wkOut := map_option (\<lambda>f. \<lparr>dsCwr = newCwr c, dsOut = f\<rparr>) (otFile a), wkBuf := Some \<lparr>bwBuf = [], bwErr = False\<rparr>\<rparr>))"

definition secondNs :: int where "secondNs = 1000000000"

text \<open>Whether \<open>rotateCheck\<close> keeps the current file, and the statistics it stores.\<close>

definition keepsFile :: "worker_conf \<Rightarrow> uint32 \<Rightarrow> int \<Rightarrow> worker \<Rightarrow> bool \<times> worker" where
  "keepsFile c unhandled now w =
     (if wcMaxSize c = 0 \<or> sint (wkSize w) < wcMaxSize c then
        (let interval = GetInterval (wcInterval c) (uint unhandled);
             w = (if interval \<noteq> GetDefault (wcInterval c) then w\<lparr>wkChunkInterval := word_of_int (interval div secondNs)\<rparr> else w)
         in (now - wkStart w < interval, w))
      else (False, w))"

definition rotateCheck :: "worker_conf \<Rightarrow> uint32 \<Rightarrow> int \<Rightarrow> open_try list \<Rightarrow> worker \<Rightarrow> worker option" where
  "rotateCheck c unhandled now tries w =
     (if wkOut w = None then openLoop c tries w
      else (case keepsFile c unhandled now w of
          (True, w) \<Rightarrow> Some w
        | (False, w) \<Rightarrow>
            (case closeFile c w of
               None \<Rightarrow> None
             | Some w \<Rightarrow> openLoop c tries (w\<lparr>wkOut := None, wkBuf := None, wkSize := 0\<rparr>))))"

subsection \<open>Writing\<close>

datatype io_error = WriteFailed | FlushFailed

text \<open>\<open>write(b)\<close>; a nil \<open>outBuf\<close> panics.\<close>

definition workerWrite :: "worker_conf \<Rightarrow> write_buffer \<Rightarrow> worker \<Rightarrow> io_error sync_store \<Rightarrow> (worker \<times> io_error sync_store) option" where
  "workerWrite c b w st =
     (case (wkBuf w, wkOut w) of
        (Some ob, Some out) \<Rightarrow>
          (case bufWrite (wcLz4 c) (wbBody b) ob out of
             (ob, out, ok) \<Rightarrow>
               (let (ob, out, st) =
                  (if ConfirmRequired b then
                     (if \<not> ok then (ob, out, Fail WriteFailed b st)
                      else (case bufFlush (wcLz4 c) ob out of
                          (ob, out, flushed) \<Rightarrow> (ob, out, if flushed then Confirm b st else Fail FlushFailed b st)))
                   else (ob, out, Some st))
                in case st of
                     None \<Rightarrow> None
                   | Some st \<Rightarrow>
                       Some (w\<lparr>wkBuf := Some ob, wkOut := Some out, wkSize := wkSize w + of_nat (wbUsed b),
                               wkWritten := wkWritten w + of_nat (wbUsed b)\<rparr>, st)))
      | _ \<Rightarrow> None)"

text \<open>The branch taken when nothing was received: \<open>outBuf.Flush()\<close> and \<open>cwr.Flush()\<close>.\<close>

definition workerIdle :: "worker_conf \<Rightarrow> worker \<Rightarrow> worker option" where
  "workerIdle c w =
     (case (wkBuf w, wkOut w) of
        (Some ob, Some out) \<Rightarrow> 
          (case bufFlush (wcLz4 c) ob out of (ob, out, _) \<Rightarrow> Some (w\<lparr>wkBuf := Some ob, wkOut := Some (cwrFlush (wcLz4 c) out)\<rparr>))
      | _ \<Rightarrow> None)"

text \<open>The deferred function: the last file is flushed and closed.\<close>

definition workerExit :: "worker_conf \<Rightarrow> worker \<Rightarrow> worker option" where
  "workerExit c w = (if wkOut w = None then Some w else map_option (\<lambda>w. w\<lparr>wkOut := None\<rparr>) (closeFile c w))"

subsection \<open>The loop\<close>

datatype wk_event = Recv write_buffer | Tick uint32 int "open_try list" | IdleFlush

fun workerStep :: "worker_conf \<Rightarrow> wk_event \<Rightarrow> worker \<times> io_error sync_store \<Rightarrow> (worker \<times> io_error sync_store) option" where
  "workerStep c (Recv b) (w, st) = workerWrite c b w st"
| "workerStep c (Tick unhandled now tries) (w, st) = map_option (\<lambda>w. (w, st)) (rotateCheck c unhandled now tries w)"
| "workerStep c IdleFlush (w, st) = map_option (\<lambda>w. (w, st)) (workerIdle c w)"

text \<open>\<open>worker\<close>: the first file, the events and the exit.\<close>

definition workerRun ::
  "worker_conf \<Rightarrow> int \<Rightarrow> open_try list \<Rightarrow> wk_event list \<Rightarrow> io_error sync_store \<Rightarrow> (worker \<times> io_error sync_store) option" where
  "workerRun c now tries evs st =
     (case rotateCheck c 0 now tries newWorker of
        None \<Rightarrow> None
      | Some w \<Rightarrow>
          (case rangeLoop (workerStep c) evs (w, st) of
             None \<Rightarrow> None
           | Some (w, st) \<Rightarrow> map_option (\<lambda>w. (w, st)) (workerExit c w)))"

text \<open>\<open>Writer.Stat\<close>\<close>

definition writerStat :: "uint32 \<Rightarrow> worker \<Rightarrow> (string \<times> int) list \<times> worker" where
  "writerStat unhandled w =
     ([(''writtenBytes'', uint (wkWritten w)), (''unhandled'', uint unhandled), (''chunkInterval_s'', uint (wkChunkInterval w))],
      w\<lparr>wkWritten := wkWritten w - wkWritten w\<rparr>)"

subsection \<open>Healthy files\<close>

text \<open>A file that works, with the compressor of the configuration, and the bytes it was given.\<close>

definition destOk :: "worker_conf \<Rightarrow> dest \<Rightarrow> bool" where
  "destOk c d \<longleftrightarrow>
     (case dsCwr d of
        None \<Rightarrow> wcAlgo c = CompAlgoNone \<and> skLimit (dsOut d) = None
      | Some z \<Rightarrow> wcAlgo c = CompAlgoLZ4 \<and> lzInv (wcLz4 c) (wcLevel c) z (dsOut d))"

definition accepted :: "dest \<Rightarrow> bytes" where
  "accepted d = (case dsCwr d of None \<Rightarrow> skData (dsOut d) | Some z \<Rightarrow> lzTaken z)"

text \<open>A closed file holds the given bytes, as they are or in a frame.\<close>

definition closedAs :: "worker_conf \<Rightarrow> bytes \<Rightarrow> bytes \<Rightarrow> bool" where
  "closedAs c content plain \<longleftrightarrow>
     (case wcAlgo c of
        CompAlgoNone \<Rightarrow> content = plain
      | CompAlgoLZ4 \<Rightarrow> \<exists>ds. content = frame (wcLz4 c) (wcLevel c) ds \<and> list_all goodBlock ds \<and> concat ds = plain)"

definition emptySink :: sink where "emptySink = \<lparr>skData = [], skLimit = None\<rparr>"

lemma newCwr_ok: "destOk c \<lparr>dsCwr = newCwr c, dsOut = emptySink\<rparr>" "accepted \<lparr>dsCwr = newCwr c, dsOut = emptySink\<rparr> = []"
  by (cases "wcAlgo c"; simp add: destOk_def newCwr_def accepted_def emptySink_def lzInv_new)+

lemma destWrite_ok:
  assumes "destOk c d"
  shows "\<exists>d' n. destWrite (wcLz4 c) p d = (d', n, True) \<and> destOk c d' \<and> accepted d' = accepted d @ p"
proof (cases "dsCwr d")
  case None
  with assms show ?thesis by (auto simp: destOk_def destWrite_def accepted_def)
next
  case (Some z)
  then have "lzInv (wcLz4 c) (wcLevel c) z (dsOut d)" using assms by (simp add: destOk_def)
  from lz4Write_inv [OF this, of p] Some assms show ?thesis by (auto simp: destOk_def destWrite_def accepted_def)
qed

lemma cwrFlush_ok:
  assumes "destOk c d"
  shows "destOk c (cwrFlush (wcLz4 c) d) \<and> accepted (cwrFlush (wcLz4 c) d) = accepted d"
proof (cases "dsCwr d")
  case (Some z)
  then have "lzInv (wcLz4 c) (wcLevel c) z (dsOut d)" using assms by (simp add: destOk_def)
  from lz4Flush_inv [OF this] Some assms show ?thesis by (auto simp: destOk_def cwrFlush_def accepted_def)
qed (use assms in \<open>simp add: cwrFlush_def\<close>)

lemma cwrClose_ok:
  assumes "destOk c d"
  shows "closedAs c (skData (cwrClose (wcLz4 c) d)) (accepted d)"
proof (cases "dsCwr d")
  case None
  with assms show ?thesis by (simp add: destOk_def cwrClose_def accepted_def closedAs_def)
next
  case (Some z)
  then have "lzInv (wcLz4 c) (wcLevel c) z (dsOut d)" using assms by (simp add: destOk_def)
  from lz4Close_frame [OF this] Some assms show ?thesis by (auto simp: destOk_def cwrClose_def accepted_def closedAs_def)
qed

definition healthy :: "worker_conf \<Rightarrow> bufw \<Rightarrow> dest \<Rightarrow> bool" where
  "healthy c b d \<longleftrightarrow> destOk c d \<and> \<not> bwErr b \<and> length (bwBuf b) \<le> outBufSize"

lemma bufFlush_healthy:
  assumes "healthy c b d"
  shows "\<exists>d'. bufFlush (wcLz4 c) b d = (b\<lparr>bwBuf := []\<rparr>, d', True) \<and> healthy c (b\<lparr>bwBuf := []\<rparr>) d' \<and> accepted d' = accepted d @ bwBuf b"
proof (cases "bwBuf b = []")
  case True
  then have "b\<lparr>bwBuf := []\<rparr> = b" by (cases b) simp
  with True assms show ?thesis by (simp add: bufFlush_def healthy_def)
next
  case False
  from destWrite_ok [of c d "bwBuf b"] assms False show ?thesis by (auto simp: bufFlush_def healthy_def)
qed

lemma bufWrite_fits:
  "\<not> bwErr b \<Longrightarrow> length p \<le> outBufSize - length (bwBuf b) \<Longrightarrow> bufWrite E p b w = (b\<lparr>bwBuf := bwBuf b @ p\<rparr>, w, True)"
  by (simp add: bufWrite.simps [of E p b])

lemma bufWrite_healthy:
  assumes "healthy c b d"
  shows "\<exists>b' d'. bufWrite (wcLz4 c) p b d = (b', d', True) \<and> healthy c b' d' \<and> accepted d' @ bwBuf b' = accepted d @ bwBuf b @ p"
proof -
  have empty: "\<exists>b' d'. bufWrite (wcLz4 c) p b d = (b', d', True) \<and> healthy c b' d' \<and> accepted d' @ bwBuf b' = accepted d @ p"
    if "healthy c b d" "bwBuf b = []" for p b d
  proof (cases "length p \<le> outBufSize")
    case True
    with that show ?thesis by (simp add: bufWrite_fits healthy_def)
  next
    case False
    from that(1) destWrite_ok [of c d p] obtain d1 n where
      d1: "destWrite (wcLz4 c) p d = (d1, n, True)" "destOk c d1" "accepted d1 = accepted d @ p" by (auto simp: healthy_def)
    with False that have "bufWrite (wcLz4 c) p b d = bufWrite (wcLz4 c) [] b d1"
      by (simp add: bufWrite.simps [of _ p b] healthy_def)
    with that d1 show ?thesis by (simp add: bufWrite_fits healthy_def)
  qed
  show ?thesis
  proof (cases "bwBuf b = [] \<or> length p \<le> outBufSize - length (bwBuf b)")
    case True
    then show ?thesis
    proof
      assume "bwBuf b = []"
      with empty [OF assms] show ?thesis by simp
    next
      assume "length p \<le> outBufSize - length (bwBuf b)"
      with assms show ?thesis by (auto simp: bufWrite_fits healthy_def)
    qed
  next
    case False
    let ?n = "outBufSize - length (bwBuf b)"
    let ?b = "b\<lparr>bwBuf := bwBuf b @ take ?n p\<rparr>"
    have "healthy c ?b d" using assms by (auto simp: healthy_def)
    from bufFlush_healthy [OF this] obtain d1 where d1: "bufFlush (wcLz4 c) ?b d = (b\<lparr>bwBuf := []\<rparr>, d1, True)"
      "healthy c (b\<lparr>bwBuf := []\<rparr>) d1" "accepted d1 = accepted d @ bwBuf b @ take ?n p" by auto
    with False assms have "bufWrite (wcLz4 c) p b d = bufWrite (wcLz4 c) (drop ?n p) (b\<lparr>bwBuf := []\<rparr>) d1"
      by (simp add: bufWrite.simps [of _ p b] healthy_def Let_def)
    with empty [OF d1(2), of "drop ?n p"] d1(3) show ?thesis by auto
  qed
qed

text \<open>Attempts of which one gives a new file before the context is done.\<close>

fun goodTries :: "open_try list \<Rightarrow> bool" where
  "goodTries [] \<longleftrightarrow> False"
| "goodTries (a # as) \<longleftrightarrow>
     (if otFile a = None \<or> otRaced a then \<not> otDone a \<and> goodTries as else otFile a = Some emptySink)"

definition chunkNamed :: "worker_conf \<Rightarrow> bytes \<Rightarrow> bool" where
  "chunkNamed c fn \<longleftrightarrow> (\<exists>nano. fn = chunkName (wcAlgo c) nano)"

lemma openLoop_good:
  assumes "goodTries tries" "wkBuf w = None" "set (map fst (wkClosed w)) \<subseteq> insert (wkFn w) (set (wkFinish w))" "[] \<notin> set (map fst (wkClosed w))"
  shows "\<exists>w'. openLoop c tries w = Some w' \<and> wkOut w' = Some \<lparr>dsCwr = newCwr c, dsOut = emptySink\<rparr> \<and> wkBuf w' = Some \<lparr>bwBuf = [], bwErr = False\<rparr>
     \<and> wkClosed w' = wkClosed w \<and> set (map fst (wkClosed w)) \<subseteq> set (wkFinish w') \<and> chunkNamed c (wkFn w')"
  using assms
proof (induction tries arbitrary: w)
  case (Cons a as)
  define w1 where "w1 = w\<lparr>wkFinish := (if wkFn w = [] then wkFinish w else wkFinish w @ [wkFn w]),
     wkInProgress := chunkName (wcAlgo c) (otNano a) # removeAll (chunkName (wcAlgo c) (otNano a)) (removeAll (wkFn w) (wkInProgress w)),
     wkFn := chunkName (wcAlgo c) (otNano a), wkOut := map_option (\<lambda>f. \<lparr>dsCwr = None, dsOut = f\<rparr>) (otFile a), wkStart := otNano a\<rparr>"
  have step: "openLoop c (a # as) w = (if otFile a = None \<or> otRaced a then (if otDone a then Some w1 else openLoop c as w1)
      else Some (w1\<lparr>wkOut := map_option (\<lambda>f. \<lparr>dsCwr = newCwr c, dsOut = f\<rparr>) (otFile a), wkBuf := Some \<lparr>bwBuf = [], bwErr = False\<rparr>\<rparr>))"
    by (simp add: w1_def Let_def)
  have "x \<in> set (wkFinish w1)" if x: "x \<in> set (map fst (wkClosed w))" for x
  proof -
    from subsetD [OF Cons.prems(3) x] consider "x = wkFn w" | "x \<in> set (wkFinish w)" by blast
    then show ?thesis
    proof cases
      case 1
      then have "wkFn w \<noteq> []" using x Cons.prems(4) by metis
      with 1 show ?thesis by (simp add: w1_def)
    qed (simp add: w1_def)
  qed
  then have "set (map fst (wkClosed w)) \<subseteq> set (wkFinish w1)" by blast
  then have w1: "wkBuf w1 = None" "wkClosed w1 = wkClosed w" "set (map fst (wkClosed w)) \<subseteq> set (wkFinish w1)" "chunkNamed c (wkFn w1)"
    using Cons.prems(2) by (auto simp: w1_def chunkNamed_def)
  show ?case
  proof (cases "otFile a = None \<or> otRaced a")
    case True
    then have "goodTries as" "\<not> otDone a" using Cons.prems(1) by auto
    with Cons.IH [of w1] Cons.prems(4) w1 True step show ?thesis by auto
  next
    case False
    with Cons.prems(1) w1 step show ?thesis by auto
  qed
qed simp

subsection \<open>The stream\<close>

fun received :: "wk_event list \<Rightarrow> write_buffer list" where
  "received [] = []"
| "received (Recv b # evs) = b # received evs"
| "received (_ # evs) = received evs"

fun goodEvent :: "wk_event \<Rightarrow> bool" where
  "goodEvent (Tick _ _ tries) \<longleftrightarrow> goodTries tries"
| "goodEvent _ \<longleftrightarrow> True"

definition bodies :: "write_buffer list \<Rightarrow> bytes" where
  "bodies bs = concat (map wbBody bs)"

definition confirmOne :: "write_buffer \<Rightarrow> 'e sync_store \<Rightarrow> 'e sync_store" where
  "confirmOne b st = (case wbWg b of None \<Rightarrow> st | Some g \<Rightarrow> st\<lparr>wgCount := (wgCount st)(g := wgCount st g - 1)\<rparr>)"

definition confirmsOk :: "write_buffer list \<Rightarrow> 'e sync_store \<Rightarrow> bool" where
  "confirmsOk bs st \<longleftrightarrow> (\<forall>g. length (filter (\<lambda>b. wbWg b = Some g) bs) \<le> wgCount st g)"

text \<open>The closed files hold the given groups of buffers, the current file and its buffer the rest.\<close>

definition holdsGroup :: "worker_conf \<Rightarrow> bytes \<times> bytes \<Rightarrow> write_buffer list \<Rightarrow> bool" where
  "holdsGroup c f bs \<longleftrightarrow> chunkNamed c (fst f) \<and> closedAs c (snd f) (bodies bs)"

definition wkInv :: "worker_conf \<Rightarrow> worker \<Rightarrow> write_buffer list list \<Rightarrow> write_buffer list \<Rightarrow> bool" where
  "wkInv c w groups cur \<longleftrightarrow> (\<exists>out b. wkOut w = Some out \<and> wkBuf w = Some b \<and> healthy c b out \<and> accepted out @ bwBuf b = bodies cur)
     \<and> list_all2 (holdsGroup c) (wkClosed w) groups
     \<and> set (map fst (wkClosed w)) \<subseteq> set (wkFinish w) \<and> chunkNamed c (wkFn w)"

lemma chunkNamed_not_empty: "chunkNamed c fn \<Longrightarrow> fn \<noteq> []"
  by (auto simp: chunkNamed_def chunkName_def)

lemma wkInv_names: "wkInv c w groups cur \<Longrightarrow> [] \<notin> set (map fst (wkClosed w))"
  by (auto simp: wkInv_def list_all2_conv_all_nth in_set_conv_nth holdsGroup_def) (metis chunkNamed_not_empty fst_conv)

lemma confirmsOk_Cons:
  assumes "confirmsOk (b # bs) st"
  shows "confirmsOk bs (confirmOne b st)" and "ConfirmRequired b \<Longrightarrow> Confirm b st = Some (confirmOne b st)"
proof -
  have c: "length (filter (\<lambda>b. wbWg b = Some g) (b # bs)) \<le> wgCount st g" for g using assms by (simp add: confirmsOk_def)
  show "confirmsOk bs (confirmOne b st)"
    unfolding confirmsOk_def
  proof
    fix g
    show "length (filter (\<lambda>b. wbWg b = Some g) bs) \<le> wgCount (confirmOne b st) g"
      using c [of g] by (cases "wbWg b") (auto simp: confirmOne_def split: if_splits)
  qed
  show "Confirm b st = Some (confirmOne b st)" if "ConfirmRequired b"
    using that c [of "the (wbWg b)"] by (auto simp: ConfirmRequired_def Confirm_def wgDone_def confirmOne_def)
qed

lemma write_step:
  assumes "wkInv c w groups cur" "confirmsOk (b # bs) st"
  shows "\<exists>w'. workerWrite c b w st = Some (w', confirmOne b st) \<and> wkInv c w' groups (cur @ [b])"
proof -
  obtain out ob where o: "wkOut w = Some out" "wkBuf w = Some ob" "healthy c ob out" "accepted out @ bwBuf ob = bodies cur"
    using assms(1) by (auto simp: wkInv_def)
  obtain ob1 out1 where w1: "bufWrite (wcLz4 c) (wbBody b) ob out = (ob1, out1, True)" "healthy c ob1 out1"
      "accepted out1 @ bwBuf ob1 = accepted out @ bwBuf ob @ wbBody b" using bufWrite_healthy [OF o(3)] by blast
  have data: "accepted out1 @ bwBuf ob1 = bodies (cur @ [b])" using w1(3) o(4) by (simp add: bodies_def flip: append_assoc)
  show ?thesis
  proof (cases "ConfirmRequired b")
    case True
    with assms o w1 data bufFlush_healthy [OF w1(2)] confirmsOk_Cons(2) [OF assms(2) True] show ?thesis
      by (auto simp: workerWrite_def wkInv_def)
  next
    case False
    then have "confirmOne b st = st" by (simp add: ConfirmRequired_def confirmOne_def)
    with False assms o w1 data show ?thesis by (simp add: workerWrite_def wkInv_def)
  qed
qed

lemma close_step:
  assumes "wkInv c w groups cur"
  shows "\<exists>w' x. closeFile c w = Some w' \<and> wkClosed w' = wkClosed w @ [(wkFn w, x)] \<and> holdsGroup c (wkFn w, x) cur
     \<and> wkFinish w' = wkFinish w \<and> wkFn w' = wkFn w"
proof -
  obtain out ob where o: "wkOut w = Some out" "wkBuf w = Some ob" "healthy c ob out" "accepted out @ bwBuf ob = bodies cur" "chunkNamed c (wkFn w)"
    using assms by (auto simp: wkInv_def)
  from bufFlush_healthy [OF o(3)] o(4) obtain d where d: "bufFlush (wcLz4 c) ob out = (ob\<lparr>bwBuf := []\<rparr>, d, True)" "destOk c d" "accepted d = bodies cur"
    by (auto simp: healthy_def)
  with cwrClose_ok [OF d(2)] o show ?thesis by (simp add: closeFile_def holdsGroup_def)
qed

text \<open>A file is kept while it is small and young.\<close>

definition keepCondition :: "worker_conf \<Rightarrow> uint32 \<Rightarrow> int \<Rightarrow> worker \<Rightarrow> bool" where
  "keepCondition c unhandled now w \<longleftrightarrow>
     (wcMaxSize c = 0 \<or> sint (wkSize w) < wcMaxSize c) \<and> now - wkStart w < GetInterval (wcInterval c) (uint unhandled)"

lemma rotate_step:
  assumes "wkInv c w groups cur" "goodTries tries"
  shows "\<exists>w' groups' cur' new. rotateCheck c unhandled now tries w = Some w' \<and> wkInv c w' groups' cur' \<and> concat groups' @ cur' = concat groups @ cur
     \<and> wkClosed w' = wkClosed w @ new \<and> (if keepCondition c unhandled now w then new = [] else map fst new = [wkFn w] \<and> list_all (\<lambda>f. holdsGroup c f cur) new)"
proof -
  obtain keep w1 where k: "keepsFile c unhandled now w = (keep, w1)" by fastforce
  then have keep: "keep = keepCondition c unhandled now w"
    by (auto simp: keepsFile_def keepCondition_def Let_def split: if_splits)
  have upd: "w1 = w \<or> (\<exists>x. w1 = w\<lparr>wkChunkInterval := x\<rparr>)" using k by (auto simp: keepsFile_def Let_def split: if_splits)
  then have fn: "wkFn w1 = wkFn w" "wkOut w1 = wkOut w" "wkClosed w1 = wkClosed w" "wkBuf w1 = wkBuf w" "wkFinish w1 = wkFinish w" by auto
  then have i1: "wkInv c w1 groups cur" using assms(1) unfolding wkInv_def by simp
  obtain o1 where out: "wkOut w = Some o1" using assms(1) by (auto simp: wkInv_def)
  show ?thesis
  proof (cases keep)
    case True
    with k out i1 keep fn(3) show ?thesis by (auto simp: rotateCheck_def)
  next
    case False
    obtain w2 x where w2: "closeFile c w1 = Some w2" "wkClosed w2 = wkClosed w1 @ [(wkFn w1, x)]" "holdsGroup c (wkFn w1, x) cur"
      "wkFinish w2 = wkFinish w1" "wkFn w2 = wkFn w1" using close_step [OF i1] by blast
    let ?w = "w2\<lparr>wkOut := None, wkBuf := None, wkSize := 0\<rparr>"
    have "wkFn w1 \<noteq> []" using i1 by (auto simp: wkInv_def dest: chunkNamed_not_empty)
    then have names: "set (map fst (wkClosed ?w)) \<subseteq> insert (wkFn ?w) (set (wkFinish ?w))" "[] \<notin> set (map fst (wkClosed ?w))"
      using i1 w2(2,4,5) wkInv_names [OF i1] by (auto simp: wkInv_def)
    from openLoop_good [OF assms(2) _ names, of c] obtain w3 where
      w3: "openLoop c tries ?w = Some w3" "wkOut w3 = Some \<lparr>dsCwr = newCwr c, dsOut = emptySink\<rparr>" "wkBuf w3 = Some \<lparr>bwBuf = [], bwErr = False\<rparr>"
        "wkClosed w3 = wkClosed ?w" "set (map fst (wkClosed ?w)) \<subseteq> set (wkFinish w3)" "chunkNamed c (wkFn w3)" by auto
    have "wkInv c w3 (groups @ [cur]) []"
      using i1 w2(2,3) w3(2-6) newCwr_ok [of c] by (simp add: wkInv_def healthy_def bodies_def list_all2_appendI)
    with w3(1,4) w2(1-3) k out False keep fn show ?thesis
      by (intro exI [of _ w3] exI [of _ "groups @ [cur]"] exI [of _ "[]"] exI [of _ "[(wkFn w, x)]"]) (simp add: rotateCheck_def)
  qed
qed

lemma idle_step:
  assumes "wkInv c w groups cur"
  shows "\<exists>w'. workerIdle c w = Some w' \<and> wkInv c w' groups cur"
proof -
  obtain out ob where o: "wkOut w = Some out" "wkBuf w = Some ob" "healthy c ob out" "accepted out @ bwBuf ob = bodies cur"
    using assms by (auto simp: wkInv_def)
  from bufFlush_healthy [OF o(3)] o(4) obtain d where d: "bufFlush (wcLz4 c) ob out = (ob\<lparr>bwBuf := []\<rparr>, d, True)"
    "healthy c (ob\<lparr>bwBuf := []\<rparr>) d" "accepted d = bodies cur" by auto
  moreover have "healthy c (ob\<lparr>bwBuf := []\<rparr>) (cwrFlush (wcLz4 c) d)" "accepted (cwrFlush (wcLz4 c) d) = bodies cur"
    using d(2,3) cwrFlush_ok [of c d] by (simp_all add: healthy_def)
  ultimately show ?thesis using o assms by (simp add: workerIdle_def wkInv_def)
qed

lemma events_run:
  assumes "wkInv c w groups cur" "\<forall>ev \<in> set evs. goodEvent ev" "confirmsOk (received evs) st"
  shows "\<exists>w' groups' cur'. rangeLoop (workerStep c) evs (w, st) = Some (w', fold confirmOne (received evs) st)
     \<and> wkInv c w' groups' cur' \<and> concat groups' @ cur' = concat groups @ cur @ received evs"
  using assms
proof (induction evs arbitrary: w st groups cur)
  case Nil
  then show ?case by auto
next
  case (Cons ev evs)
  have good: "\<forall>ev \<in> set evs. goodEvent ev" using Cons.prems(2) by simp
  show ?case
  proof (cases ev)
    case (Recv b)
    have c: "confirmsOk (b # received evs) st" using Cons.prems(3) Recv by simp
    from write_step [OF Cons.prems(1) c] obtain w1 where
      "workerWrite c b w st = Some (w1, confirmOne b st)" "wkInv c w1 groups (cur @ [b])" by blast
    with Cons.IH [OF _ good confirmsOk_Cons(1) [OF c]] Recv show ?thesis by fastforce
  next
    case (Tick u now tries)
    then have "goodTries tries" "confirmsOk (received evs) st" using Cons.prems(2,3) by simp_all
    with rotate_step [OF Cons.prems(1), of tries u now] obtain w1 g1 c1 where
      "rotateCheck c u now tries w = Some w1" "wkInv c w1 g1 c1" "concat g1 @ c1 = concat groups @ cur" by blast
    with Cons.IH [OF _ good \<open>confirmsOk (received evs) st\<close>, of w1 g1 c1] Tick show ?thesis
      by (auto simp flip: append_assoc)
  next
    case IdleFlush
    then have "confirmsOk (received evs) st" using Cons.prems(3) by simp
    moreover obtain w1 where "workerIdle c w = Some w1" "wkInv c w1 groups cur" using idle_step [OF Cons.prems(1)] by blast
    ultimately show ?thesis using Cons.IH [OF _ good, of w1 groups cur st] IdleFlush by simp
  qed
qed

text \<open>What a reader of a closed file gets.\<close>

definition plainContent :: "worker_conf \<Rightarrow> bytes \<Rightarrow> bytes" where
  "plainContent c content = (case wcAlgo c of CompAlgoNone \<Rightarrow> content | CompAlgoLZ4 \<Rightarrow> fst (lz4ReadAll (wcLz4 c) content))"

lemma closedAs_plain: "blockCodec (wcLz4 c) \<Longrightarrow> closedAs c content plain \<Longrightarrow> plainContent c content = plain"
  by (auto simp: closedAs_def plainContent_def lz4_frame_read split: comp_algo.splits)

lemma holdsGroups_plain:
  assumes "blockCodec (wcLz4 c)" "list_all2 (holdsGroup c) fs groups"
  shows "map (plainContent c \<circ> snd) fs = map bodies groups"
  using assms(2) by (induction rule: list_all2_induct) (auto simp: holdsGroup_def closedAs_plain [OF assms(1)])

lemma workerRun_groups:
  assumes "goodTries tries" "\<forall>ev \<in> set evs. goodEvent ev" "confirmsOk (received evs) st"
  shows "\<exists>w groups. workerRun c now tries evs st = Some (w, fold confirmOne (received evs) st) \<and> concat groups = received evs
     \<and> list_all2 (holdsGroup c) (wkClosed w) groups \<and> set (map fst (butlast (wkClosed w))) \<subseteq> set (wkFinish w)"
proof -
  from openLoop_good [OF assms(1), of newWorker c] obtain w0 where
    w0: "openLoop c tries newWorker = Some w0" "wkOut w0 = Some \<lparr>dsCwr = newCwr c, dsOut = emptySink\<rparr>"
      "wkBuf w0 = Some \<lparr>bwBuf = [], bwErr = False\<rparr>" "wkClosed w0 = []" "chunkNamed c (wkFn w0)" by (auto simp: newWorker_def)
  have "wkInv c w0 [] []" using w0(2-5) newCwr_ok [of c] by (simp add: wkInv_def healthy_def bodies_def)
  from events_run [OF this assms(2,3)] obtain w1 groups cur where
    w1: "rangeLoop (workerStep c) evs (w0, st) = Some (w1, fold confirmOne (received evs) st)" "wkInv c w1 groups cur"
      "concat groups @ cur = received evs" by auto
  obtain w2 x where w2: "closeFile c w1 = Some w2" "wkClosed w2 = wkClosed w1 @ [(wkFn w1, x)]" "holdsGroup c (wkFn w1, x) cur" "wkFinish w2 = wkFinish w1"
    using close_step [OF w1(2)] by blast
  obtain out where "wkOut w1 = Some out" using w1(2) by (auto simp: wkInv_def)
  then have "workerRun c now tries evs st = Some (w2\<lparr>wkOut := None\<rparr>, fold confirmOne (received evs) st)"
    using w0(1) w1(1) w2(1) by (simp add: workerRun_def rotateCheck_def newWorker_def workerExit_def)
  moreover have "list_all2 (holdsGroup c) (wkClosed w2) (groups @ [cur])" "set (map fst (butlast (wkClosed w2))) \<subseteq> set (wkFinish w2)"
    using w1(2) w2(2-4) by (simp_all add: wkInv_def list_all2_appendI)
  ultimately show ?thesis using w1(3) by (intro exI [of _ "w2\<lparr>wkOut := None\<rparr>"] exI [of _ "groups @ [cur]"]) simp
qed

text \<open>
  C3. Over any sequence of received buffers, ticks and idle flushes with working files, plain or
  LZ4, the files the writer closes, read back, hold the received buffers in order, each in one
  file as a whole; every file but the last is handed to the link callback, and every buffer that
  asks for it is confirmed.
\<close>

theorem writer_stream:
  assumes "goodTries tries" "\<forall>ev \<in> set evs. goodEvent ev" "confirmsOk (received evs) st" "blockCodec (wcLz4 c)"
  shows "\<exists>w groups. workerRun c now tries evs st = Some (w, fold confirmOne (received evs) st) \<and> concat groups = received evs
     \<and> map (plainContent c \<circ> snd) (wkClosed w) = map bodies groups \<and> set (map fst (butlast (wkClosed w))) \<subseteq> set (wkFinish w)"
  using workerRun_groups [OF assms(1-3), of c now] holdsGroups_plain [OF assms(4)] by blast

definition exampleTry :: "int \<Rightarrow> open_try" where
  "exampleTry nano = \<lparr>otNano = nano, otFile = Some emptySink, otRaced = False, otDone = False\<rparr>"

abbreviation exampleWkConf :: "int \<Rightarrow> comp_algo \<Rightarrow> worker_conf" where
  "exampleWkConf maxSize algo \<equiv>
     \<lparr>wcMaxSize = maxSize, wcInterval = NewChunkAutoInterval, wcAlgo = algo, wcLevel = 0, wcLz4 = exampleLz4\<rparr>"

definition exampleStore :: "io_error sync_store" where
  "exampleStore = \<lparr>wgCount = (\<lambda>g. if g = 3 then 1 else 0), chanBuf = (\<lambda>_. []), chanCap = (\<lambda>_. 1)\<rparr>"

definition exampleEvents :: "wk_event list" where
  "exampleEvents = [Recv \<lparr>wbBody = [1, 2], wbWg = Some 3, wbErrorChan = None\<rparr>,
     Tick 0 99 [(exampleTry 5)\<lparr>otFile := None\<rparr>, exampleTry 6], Recv \<lparr>wbBody = [7], wbWg = None, wbErrorChan = None\<rparr>, IdleFlush]"

theorem writer_stream_witness:
  "\<exists>w groups. workerRun (exampleWkConf 1 CompAlgoLZ4) 0 [exampleTry 1] exampleEvents exampleStore
       = Some (w, fold confirmOne (received exampleEvents) exampleStore) \<and> concat groups = received exampleEvents
     \<and> map (plainContent (exampleWkConf 1 CompAlgoLZ4) \<circ> snd) (wkClosed w) = map bodies groups \<and> set (map fst (butlast (wkClosed w))) \<subseteq> set (wkFinish w)"
  by (rule writer_stream) (auto simp: exampleTry_def exampleEvents_def exampleStore_def confirmsOk_def exampleLz4_codec)

subsection \<open>Confirmation and rotation\<close>

text \<open>
  A buffer of a plain file is confirmed only after it and all bytes before it were written to the file.
\<close>

lemma confirmed_is_written:
  assumes "ConfirmRequired b" "wkOut w = Some out" "wkBuf w = Some ob" "healthy c ob out" "wcAlgo c = CompAlgoNone"
    and "workerWrite c b w st = Some (w', st')"
  shows "Confirm b st = Some st' \<and> map_option (skData \<circ> dsOut) (wkOut w') = Some (skData (dsOut out) @ bwBuf ob @ wbBody b)"
proof -
  have plain: "accepted d = skData (dsOut d)" if "healthy c ob d" for ob d
    using that assms(5) by (auto simp: healthy_def destOk_def accepted_def split: option.splits)
  obtain ob1 out1 where w1: "bufWrite (wcLz4 c) (wbBody b) ob out = (ob1, out1, True)" "healthy c ob1 out1"
      "accepted out1 @ bwBuf ob1 = accepted out @ bwBuf ob @ wbBody b" using bufWrite_healthy [OF assms(4)] by blast
  from bufFlush_healthy [OF w1(2)] obtain out2 where w2: "bufFlush (wcLz4 c) ob1 out1 = (ob1\<lparr>bwBuf := []\<rparr>, out2, True)"
      "healthy c (ob1\<lparr>bwBuf := []\<rparr>) out2" "accepted out2 = accepted out1 @ bwBuf ob1" by blast
  from w1(3) w2(3) have "skData (dsOut out2) = skData (dsOut out) @ bwBuf ob @ wbBody b"
    by (simp add: plain [OF w2(2)] plain [OF assms(4)])
  with assms w1(1) w2(1) show ?thesis by (auto simp: workerWrite_def split: option.splits)
qed

text \<open>
  In a compressed file it is not: until the compressor has a whole block, or an idle moment flushes it, the file has only the
  header of the frame, and yet the buffer is confirmed.
\<close>

lemma confirmed_in_compressor:
  assumes "ConfirmRequired b" "wkOut w = Some \<lparr>dsCwr = newCwr c, dsOut = emptySink\<rparr>" "wkBuf w = Some \<lparr>bwBuf = [], bwErr = False\<rparr>"
    and "wcAlgo c = CompAlgoLZ4" "wbBody b \<noteq> []" "length (wbBody b) \<le> outBufSize" "workerWrite c b w st = Some (w', st')"
  shows "Confirm b st = Some st' \<and> map_option (skData \<circ> dsOut) (wkOut w') = Some (headerBytes (wcLz4 c) (lz4Header (wcLevel c)))"
proof -
  let ?z = "newLz4Writer (lz4Header (wcLevel c))"
  have new: "newCwr c = Some ?z" by (simp add: newCwr_def assms(4))
  have len: "length (lzData ?z @ wbBody b) < blockSize4M" using assms(6) by (simp add: newLz4Writer_def outBufSize_def blockSize4M_def)
  have "lzInv (wcLz4 c) (wcLevel c) ?z emptySink" by (rule lzInv_new) (simp_all add: emptySink_def)
  from lz4Write_inv [OF this, of "wbBody b"] len obtain z out where
    z: "lz4Write (wcLz4 c) (wbBody b) ?z emptySink = (z, out, length (wbBody b), True)" "lzInv (wcLz4 c) (wcLevel c) z out"
      "hdDone (lzHeader z)" "lzBlocks z = []" by (auto simp: newLz4Writer_def)
  then have "skData out = headerBytes (wcLz4 c) (lz4Header (wcLevel c))" by (simp add: lzInv_def)
  with z(1) assms new show ?thesis
    by (auto simp: workerWrite_def bufWrite_fits bufFlush_def destWrite_def split: option.splits)
qed

text \<open>A failed write is reported: the request gets an error and is not confirmed.\<close>

lemma failed_write_reported:
  assumes "ConfirmRequired b" "wkOut w = Some out" "wkBuf w = Some ob" "bwErr ob"
  shows "workerWrite c b w st = map_option (\<lambda>st'. (w\<lparr>wkBuf := Some ob, wkOut := Some out, wkSize := wkSize w + of_nat (wbUsed b),
       wkWritten := wkWritten w + of_nat (wbUsed b)\<rparr>, st')) (Fail WriteFailed b st)"
  using assms by (simp add: workerWrite_def bufWrite.simps [of _ "wbBody b" ob] option.case_eq_if map_option_case)

text \<open>After the attempts failed and the context is done, the worker has no buffer: a further write panics.\<close>

lemma write_after_failed_open:
  assumes "openLoop c [a] (w\<lparr>wkOut := None, wkBuf := None\<rparr>) = Some w'" "otFile a = None"
  shows "workerWrite c b w' st = None"
  using assms by (auto simp: workerWrite_def Let_def split: if_splits)

lemma rotate_condition:
  assumes "wkInv c w groups cur" "goodTries tries" "rotateCheck c unhandled now tries w = Some w'"
  shows "map fst (wkClosed w') = map fst (wkClosed w) @ (if keepCondition c unhandled now w then [] else [wkFn w])"
  using rotate_step [OF assms(1,2), of unhandled now] assms(3) by (auto split: if_splits)

end
