(* ===== verification/PB.thy ===== *)
theory PB
  imports Binary
begin

text \<open>
  \<^verbatim>\<open>helper/pb/pb.go\<close>: the allocation-free protobuf reader of the Prometheus receiver. A call returns
  \<open>None\<close> when it panics, \<open>Inl\<close> an error, or the value and the rest of the input. On an error the
  callers never use the returned slice, so it is not part of the result.
\<close>

datatype pb_error = ErrorTruncated | ErrorUnknownWireType

fun skipVarintBytes :: "bytes \<Rightarrow> bytes option" where
  "skipVarintBytes [] = None"
| "skipVarintBytes (b # p) = (if b AND 0x80 = 0 then Some p else skipVarintBytes p)"

definition WireType :: "bytes \<Rightarrow> pb_error + byte \<times> bytes" where
  "WireType p = (case skipVarintBytes p of None \<Rightarrow> Inl ErrorTruncated | Some rest \<Rightarrow> Inr (hd p AND 0x07, rest))"

fun Uint64_loop :: "nat \<Rightarrow> uint64 \<Rightarrow> bytes \<Rightarrow> pb_error + uint64 \<times> bytes" where
  "Uint64_loop i ret [] = Inl ErrorTruncated"
| "Uint64_loop i ret (b # p) =
     (let ret = ret + push_bit (7 * i) (ucast (b AND 0x7f)) in
      if b AND 0x80 = 0 then Inr (ret, p) else Uint64_loop (i + 1) ret p)"

definition Uint64 :: "bytes \<Rightarrow> pb_error + uint64 \<times> bytes" where
  "Uint64 p = Uint64_loop 0 0 p"

text \<open>\<open>int64\<close> has the same bits.\<close>

definition Int64 :: "bytes \<Rightarrow> pb_error + uint64 \<times> bytes" where
  "Int64 p = Uint64_loop 0 0 p"

definition Double :: "bytes \<Rightarrow> pb_error + float64 \<times> bytes" where
  "Double p =
     (if length p < 8 then Inl ErrorTruncated
      else Inr (ucast (p ! 0) OR push_bit 8 (ucast (p ! 1)) OR push_bit 16 (ucast (p ! 2))
        OR push_bit 24 (ucast (p ! 3)) OR push_bit 32 (ucast (p ! 4)) OR push_bit 40 (ucast (p ! 5))
        OR push_bit 48 (ucast (p ! 6)) OR push_bit 56 (ucast (p ! 7)), drop 8 p))"

definition SkipVarint :: "bytes \<Rightarrow> pb_error + bytes" where
  "SkipVarint p = (case skipVarintBytes p of None \<Rightarrow> Inl ErrorTruncated | Some rest \<Rightarrow> Inr rest)"

text \<open>\<open>int(l64)\<close> is negative from \<open>2 ^ 63\<close> on; the length test passes and the slice panics.\<close>

definition pbBytes :: "bytes \<Rightarrow> (pb_error + bytes \<times> bytes) option" where
  "pbBytes p =
     (if length p < 1 then Some (Inl ErrorTruncated)
      else if hd p < 128 then
        (let l = unat (hd p); p = drop 1 p in
         if length p < l then Some (Inl ErrorTruncated) else Some (Inr (take l p, drop l p)))
      else
        (case Uint64 p of
           Inl e \<Rightarrow> Some (Inl e)
         | Inr (l64, p) \<Rightarrow>
             (let l = sint l64 in
              if int (length p) < l then Some (Inl ErrorTruncated)
              else if l < 0 then None
              else Some (Inr (take (nat l) p, drop (nat l) p)))))"

definition Skip :: "bytes \<Rightarrow> (pb_error + bytes) option" where
  "Skip p =
     (case WireType p of
        Inl e \<Rightarrow> Some (Inl e)
      | Inr (wt, p) \<Rightarrow>
          if wt = 0 then Some (SkipVarint p)
          else if wt = 1 then Some (if length p < 8 then Inl ErrorTruncated else Inr (drop 8 p))
          else if wt = 2 then map_option (\<lambda>r. case r of Inl e \<Rightarrow> Inl e | Inr (_, p) \<Rightarrow> Inr p) (pbBytes p)
          else if wt = 5 then Some (if length p < 4 then Inl ErrorTruncated else Inr (drop 4 p))
          else Some (Inl ErrorUnknownWireType))"

subsection \<open>Progress: every successful call consumes input\<close>

lemma skipVarintBytes_less: "skipVarintBytes p = Some r \<Longrightarrow> length r < length p"
  by (induction p arbitrary: r) (auto split: if_splits simp: less_Suc_eq)

lemma Uint64_loop_less: "Uint64_loop i ret p = Inr (v, r) \<Longrightarrow> length r < length p"
  by (induction i ret p rule: Uint64_loop.induct) (auto simp: Let_def split: if_splits simp: less_Suc_eq)

lemma Int64_less: "Int64 p = Inr (v, r) \<Longrightarrow> length r < length p"
  by (simp add: Int64_def Uint64_loop_less)

lemma Double_less: "Double p = Inr (v, r) \<Longrightarrow> length r < length p"
  by (auto simp: Double_def split: if_splits)

lemma pbBytes_less: "pbBytes p = Some (Inr (x, r)) \<Longrightarrow> length x + length r < length p"
proof -
  assume a: "pbBytes p = Some (Inr (x, r))"
  show ?thesis
  proof (cases "hd p < 128")
    case True
    with a show ?thesis by (cases p) (auto simp: pbBytes_def Let_def split: if_splits)
  next
    case False
    with a obtain v q where "Uint64 p = Inr (v, q)" "x = take (nat (sint v)) q" "r = drop (nat (sint v)) q"
      by (auto simp: pbBytes_def Let_def split: if_splits sum.splits)
    with Uint64_loop_less [of 0 0 p v q] show ?thesis by (auto simp: Uint64_def)
  qed
qed

lemma Skip_less:
  assumes "Skip p = Some (Inr r)"
  shows "length r < length p"
proof -
  from assms obtain wt q where w: "WireType p = Inr (wt, q)" by (auto simp: Skip_def split: sum.splits)
  then have q: "length q < length p" by (auto simp: WireType_def split: option.splits dest: skipVarintBytes_less)
  have "length r \<le> length q"
  proof (cases "wt = 2")
    case True
    with assms w obtain x where "pbBytes q = Some (Inr (x, r))"
      by (cases "pbBytes q") (auto simp: Skip_def split: sum.splits)
    then show ?thesis using pbBytes_less by fastforce
  next
    case False
    with assms w show ?thesis
      by (auto simp: Skip_def SkipVarint_def split: if_splits option.splits dest: skipVarintBytes_less)
  qed
  with q show ?thesis by simp
qed

subsection \<open>Round trips\<close>

lemma byte_low: "(b :: byte) < 0x80 \<Longrightarrow> b AND 0x80 = 0 \<and> b AND 0x7f = b"
proof -
  assume "b < 0x80"
  then have b7: "\<not> bit b 7" by (simp add: bit_iff_odd div_word_less)
  have n: "n \<in> {0,1,2,3,4,5,6,7}" if "possible_bit TYPE(byte) n" for n
    using that by auto
  have "b AND 0x80 = 0" by (rule bit_eqI) (use b7 n in \<open>fastforce simp: bit_simps\<close>)
  moreover have "b AND 0x7f = b" by (rule bit_eqI) (use b7 n in \<open>fastforce simp: bit_simps\<close>)
  ultimately show ?thesis by simp
qed

lemma byte_high: "(b OR 0x80 :: byte) AND 0x80 \<noteq> 0"
proof
  assume "(b OR 0x80) AND 0x80 = 0"
  then have "bit ((b OR 0x80) AND 0x80) 7 = bit (0 :: byte) 7" by simp
  then show False by (simp add: bit_simps)
qed

lemma Uint64_loop_put:
  "Uint64_loop i ret (putUvarint y @ rest) = Inr (ret + push_bit (7 * i) y, rest)"
proof (induction y arbitrary: i ret rule: putUvarint.induct)
  case (1 y)
  show ?case
  proof (cases "y < 0x80")
    case True
    have "(ucast y :: byte) < 0x80"
      using True by (simp add: word_less_nat_alt unat_ucast_byte_small)
    from byte_low [OF this] ucast_ucast_small [OF True]
    have b: "(ucast y :: byte) AND 0x80 = 0" "(ucast ((ucast y :: byte) AND 0x7f) :: uint64) = y" by simp_all
    with True show ?thesis by (simp add: putUvarint_small)
  next
    case False
    note b = byte_high [of "ucast y"]
    have "push_bit (7 * i) (take_bit 7 y) + push_bit (7 * (i + 1)) (drop_bit 7 y) = push_bit (7 * i) y"
    proof -
      have "push_bit (7 * (i + 1)) (drop_bit 7 y) = push_bit (7 * i) (push_bit 7 (drop_bit 7 y))"
        by (simp add: add.commute)
      then have "push_bit (7 * i) (take_bit 7 y) + push_bit (7 * (i + 1)) (drop_bit 7 y)
          = push_bit (7 * i) (take_bit 7 y + push_bit 7 (drop_bit 7 y))"
        by (simp add: push_bit_add)
      also have "take_bit 7 y + push_bit 7 (drop_bit 7 y) = y"
        using bits_ident [of 7 y] by (simp add: add.commute)
      finally show ?thesis .
    qed
    then show ?thesis
      using 1 [OF False, of "i + 1"] b False
      by (simp add: putUvarint_big ucast_low7 Let_def add.assoc)
  qed
qed

lemma Uint64_putUvarint [codec_simps, simp]: "Uint64 (putUvarint v @ rest) = Inr (v, rest)"
  and Int64_putUvarint [codec_simps, simp]: "Int64 (putUvarint v @ rest) = Inr (v, rest)"
  by (simp_all add: Uint64_def Int64_def Uint64_loop_put)

text \<open>A length-prefixed field.\<close>

definition lenPrefixed :: "bytes \<Rightarrow> bytes" where
  "lenPrefixed x = putUvarint (of_nat (length x)) @ x"

lemma sint_of_nat_small: "n < 2 ^ 63 \<Longrightarrow> sint (of_nat n :: uint64) = int n"
  by (simp add: signed_of_nat signed_take_bit_int_eq_self)

lemma pbBytes_lenPrefixed [codec_simps, simp]:
  assumes "length x < 2 ^ 63"
  shows "pbBytes (lenPrefixed x @ rest) = Some (Inr (x, rest))"
proof (cases "(of_nat (length x) :: uint64) < 0x80")
  case True
  then have "unat (of_nat (length x) :: uint64) < 128" by (simp add: word_less_nat_alt)
  moreover have n: "unat (of_nat (length x) :: uint64) = length x" using assms by (simp add: unat_of_nat)
  ultimately have "unat (ucast (of_nat (length x) :: uint64) :: byte) = length x"
    using unat_ucast_byte_small [OF True] by simp
  moreover from this have "(ucast (of_nat (length x) :: uint64) :: byte) < 128"
    using \<open>unat _ < 128\<close> n by (simp add: word_less_nat_alt)
  ultimately show ?thesis
    by (simp add: pbBytes_def lenPrefixed_def putUvarint_small [OF True])
next
  case False
  then have "\<not> hd (putUvarint (of_nat (length x))) < 128"
    by (simp add: putUvarint_big high_bit_set)
  then show ?thesis
    using assms by (simp add: pbBytes_def lenPrefixed_def sint_of_nat_small)
qed

lemma Double_leGet: "Double ([b0, b1, b2, b3, b4, b5, b6, b7] @ rest) = Inr (leGet [b0, b1, b2, b3, b4, b5, b6, b7], rest)"
  by (simp add: Double_def or.assoc)

lemma Double_putUint64 [codec_simps, simp]: "Double (putUint64 v @ rest) = Inr (v, rest)"
proof -
  have "\<exists>b0 b1 b2 b3 b4 b5 b6 b7. q = [b0, b1, b2, b3, b4, b5, b6, b7]" if "length q = 8" for q :: bytes
    using that by (auto simp: numeral_eq_Suc length_Suc_conv)
  from this [of "putUint64 v"] show ?thesis
    using leGet_putUint64 [of v] Double_leGet by (metis length_lePut)
qed

end
