(* ===== verification/Protobuf.thy ===== *)
theory Protobuf
  imports PB
begin

text \<open>
  The code that the protocol-buffer compiler generated into \<^verbatim>\<open>helper/prompb/types.pb.go\<close>,
  \<^verbatim>\<open>helper/prompb/remote.pb.go\<close> and \<^verbatim>\<open>grpc/carbon.pb.go\<close>: the parts that every message has. The three files hold
  the same text for them (\<open>encodeVarintTypes\<close>, \<open>encodeVarintRemote\<close>, \<open>encodeVarintCarbon\<close>, and so on). A decoder returns
  \<open>None\<close> when it panics. Data is what is left of the slice \<open>dAtA\<close>, so the index \<open>iNdEx\<close> is the length of
  the slice less the length of the data.
\<close>

datatype proto_error =
    IntOverflow | UnexpectedEOF | InvalidLength | EndGroup
  | IllegalTag int | WrongWireType nat | IllegalWireType nat

subsection \<open>Writing\<close>

function encodeVarint :: "uint64 \<Rightarrow> bytes" where
  "encodeVarint v =
     (if 0x80 \<le> v then ucast (v AND 0x7f OR 0x80) # encodeVarint (drop_bit 7 v) else [ucast v])"
  by pat_completeness auto
termination
proof (relation "measure unat")
  fix v :: uint64
  assume "0x80 \<le> v"
  then have "0x80 \<le> unat v" by (simp add: word_le_nat_alt)
  then show "(drop_bit 7 v, v) \<in> measure unat" by (simp add: unat_drop_bit_7)
qed simp

declare encodeVarint.simps [simp del]

function sov :: "uint64 \<Rightarrow> nat" where
  "sov x = (if drop_bit 7 x = 0 then 1 else 1 + sov (drop_bit 7 x))"
  by pat_completeness auto
termination
proof (relation "measure unat")
  fix x :: uint64
  assume "drop_bit 7 x \<noteq> 0"
  then have "unat (drop_bit 7 x) \<noteq> 0" by (simp add: unat_eq_0)
  then show "(drop_bit 7 x, x) \<in> measure unat" by (simp add: unat_drop_bit_7)
qed simp

declare sov.simps [simp del]

text \<open>
  \<open>Marshal\<close>: a slice of the computed size, filled by \<open>MarshalTo\<close>, which panics when it writes past the end.
\<close>

definition marshal :: "('m \<Rightarrow> nat) \<Rightarrow> ('m \<Rightarrow> bytes) \<Rightarrow> 'm \<Rightarrow> bytes option" where
  "marshal sz marshalTo m = (if length (marshalTo m) \<le> sz m then Some (marshalTo m) else None)"

text \<open>A field that holds a string, and one that holds a message with its size.\<close>

definition stringField :: "byte \<Rightarrow> bytes \<Rightarrow> bytes" where
  "stringField tag s = (if 0 < length s then tag # encodeVarint (of_nat (length s)) @ s else [])"

definition messageField :: "byte \<Rightarrow> ('m \<Rightarrow> nat) \<Rightarrow> ('m \<Rightarrow> bytes) \<Rightarrow> 'm \<Rightarrow> bytes" where
  "messageField tag sz marshalTo m = tag # encodeVarint (of_nat (sz m)) @ marshalTo m"

definition lenSize :: "nat \<Rightarrow> nat" where
  "lenSize l = 1 + l + sov (of_nat l)"

definition stringSize :: "bytes \<Rightarrow> nat" where
  "stringSize s = (if 0 < length s then lenSize (length s) else 0)"

text \<open>The comparison \<open>m.Value != 0\<close> of floats holds for neither zero.\<close>

definition floatZero :: "float64 \<Rightarrow> bool" where
  "floatZero v \<longleftrightarrow> v = 0 \<or> v = 0x8000000000000000"

subsection \<open>Reading\<close>

text \<open>
  The loop that reads a variable-length integer into a variable of any width: \<open>i\<close> bytes have been read, so the
  shift is \<open>7 * i\<close>. The guard \<open>shift >= 64\<close> is that of ten bytes.
\<close>

fun varintLoop :: "nat \<Rightarrow> 'w::len word \<Rightarrow> bytes \<Rightarrow> proto_error + 'w word \<times> bytes" where
  "varintLoop i x [] = Inl (if 64 \<le> 7 * i then IntOverflow else UnexpectedEOF)"
| "varintLoop i x (b # bs) =
     (if 64 \<le> 7 * i then Inl IntOverflow
      else
        (let x = x OR push_bit (7 * i) (ucast b AND 0x7f) in
         if b < 0x80 then Inr (x, bs) else varintLoop (i + 1) x bs))"

abbreviation varint :: "bytes \<Rightarrow> proto_error + 'w::len word \<times> bytes" where
  "varint \<equiv> varintLoop 0 0"

fun skipVarintLoop :: "nat \<Rightarrow> bytes \<Rightarrow> proto_error + bytes" where
  "skipVarintLoop i [] = Inl (if 64 \<le> 7 * i then IntOverflow else UnexpectedEOF)"
| "skipVarintLoop i (b # bs) =
     (if 64 \<le> 7 * i then Inl IntOverflow else if b < 0x80 then Inr bs else skipVarintLoop (i + 1) bs)"

text \<open>Sums of indices are 64-bit integers.\<close>

definition wrap64 :: "int \<Rightarrow> int" where
  "wrap64 x = sint (word_of_int x :: uint64)"

lemma varintLoop_less: "varintLoop i x bs = Inr (v, r) \<Longrightarrow> length r < length bs"
  by (induction i x bs rule: varintLoop.induct) (auto simp: Let_def split: if_splits simp: less_Suc_eq)

lemma skipVarintLoop_less: "skipVarintLoop i bs = Inr r \<Longrightarrow> length r < length bs"
  by (induction i bs rule: skipVarintLoop.induct) (auto split: if_splits simp: less_Suc_eq)

text \<open>
  \<open>skipTypes\<close>: the number of bytes of the field that starts the data, which may be more than there are; a sum that
  overflows is negative. \<open>skipGroup\<close> is the loop over the fields of a group of data of length \<open>l\<close>: a
  negative index panics. A field has at least one byte (\<open>skipWire_nonzero\<close>), so the loop goes forward.
\<close>

function skipWire :: "bytes \<Rightarrow> (proto_error + int) option"
  and skipGroup :: "nat \<Rightarrow> bytes \<Rightarrow> (proto_error + int) option" where
  "skipWire bs =
     (if bs = [] then None
      else
        (case varint bs of
           Inl e \<Rightarrow> Some (Inl e)
         | Inr (wire, r) \<Rightarrow>
             (let i = int (length bs - length r); wireType = unat (wire AND 7 :: uint64) in
              if wireType = 0 then
                Some (case skipVarintLoop 0 r of Inl e \<Rightarrow> Inl e | Inr r \<Rightarrow> Inr (int (length bs - length r)))
              else if wireType = 1 then Some (Inr (i + 8))
              else if wireType = 2 then
                Some (case varint r of
                    Inl e \<Rightarrow> Inl e
                  | Inr (len, r) \<Rightarrow>
                      (if sint (len :: uint64) < 0 then Inl InvalidLength
                       else Inr (wrap64 (int (length bs - length r) + sint len))))
              else if wireType = 3 then skipGroup (length bs) r
              else if wireType = 4 then Some (Inr i)
              else if wireType = 5 then Some (Inr (i + 4))
              else Some (Inl (IllegalWireType wireType)))))"
| "skipGroup l r =
     (case varint r of
        Inl e \<Rightarrow> Some (Inl e)
      | Inr (innerWire, r') \<Rightarrow>
          if unat (innerWire AND 7 :: uint64) = 4 then Some (Inr (int (l - length r')))
          else
            (case skipWire r of
               None \<Rightarrow> None
             | Some (Inl e) \<Rightarrow> Some (Inl e)
             | Some (Inr n) \<Rightarrow>
                 if n \<le> 0 \<or> wrap64 (int (l - length r) + n) < 0 then None
                 else skipGroup l (drop (nat n) r)))"
  by pat_completeness auto
termination
  by (relation "measure (\<lambda>x. case x of Inl bs \<Rightarrow> 2 * length bs | Inr (l, r) \<Rightarrow> 2 * length r + 1)")
    (auto dest!: varintLoop_less)

declare skipWire.simps [simp del] skipGroup.simps [simp del]

lemma varintLoop_bytes: "varintLoop i x bs = Inr (v, r) \<Longrightarrow> length bs - length r \<le> 10 - i"
proof (induction i x bs rule: varintLoop.induct)
  case (2 i x b bs)
  show ?case
  proof (cases "b < 0x80")
    case True
    with "2.prems" show ?thesis by (auto simp: Let_def split: if_splits)
  next
    case False
    with "2.prems" have "\<not> 64 \<le> 7 * i" by (auto split: if_splits)
    with 2 False have "length bs - length r \<le> 10 - (i + 1)" "length r < length bs"
      by (auto simp: Let_def dest: varintLoop_less)
    moreover have "i < 10" using \<open>\<not> 64 \<le> 7 * i\<close> by simp
    ultimately show ?thesis by simp
  qed
qed simp

lemma wrap64_id: "- (2 ^ 63) \<le> x \<Longrightarrow> x < 2 ^ 63 \<Longrightarrow> wrap64 x = x"
  by (simp add: wrap64_def signed_of_int signed_take_bit_int_eq_self)

lemma wrap64_neg: "2 ^ 63 \<le> x \<Longrightarrow> x < 2 ^ 64 \<Longrightarrow> wrap64 x < 0"
proof -
  assume x: "2 ^ 63 \<le> x" "x < 2 ^ 64"
  have "(word_of_int (x - 2 ^ 64) :: uint64) = word_of_int x"
    unfolding word_of_int_eq_iff take_bit_eq_mod by simp
  then have "wrap64 x = wrap64 (x - 2 ^ 64)" by (simp only: wrap64_def)
  also have "\<dots> = x - 2 ^ 64" using x by (intro wrap64_id) simp_all
  finally show ?thesis using x by simp
qed

lemma sint_64_less: "sint (w :: uint64) < 2 ^ 63"
  using sint_lt [of w] by simp

lemma skipLen_nonzero:
  assumes "varint bs = Inr (wire :: uint64, r)" "varint r = Inr (len :: uint64, r')" "0 \<le> sint len"
  shows "wrap64 (int (length bs - length r') + sint len) \<noteq> 0"
proof -
  let ?x = "int (length bs - length r') + sint len"
  have "length bs - length r \<le> 10" "length r - length r' \<le> 10" "length r < length bs" "length r' < length r"
    using varintLoop_bytes [OF assms(1)] varintLoop_bytes [OF assms(2)] varintLoop_less [OF assms(1)]
      varintLoop_less [OF assms(2)] by simp_all
  then have "1 \<le> int (length bs - length r')" "int (length bs - length r') \<le> 20" by linarith+
  then have "0 < ?x" "?x < 2 ^ 64" using assms(3) sint_64_less [of len] by simp_all
  then show ?thesis using wrap64_id [of ?x] wrap64_neg [of ?x] by (cases "?x < 2 ^ 63") auto
qed

lemma skipGroup_pos: "length r < l \<Longrightarrow> skipGroup l r = Some (Inr n) \<Longrightarrow> 0 < n"
proof (induction "length r" arbitrary: r rule: less_induct)
  case less
  from less.prems(2) obtain w r' where w: "varint r = Inr (w :: uint64, r')"
    unfolding skipGroup.simps [of l r] by (auto split: sum.splits)
  show ?case
  proof (cases "unat (w AND 7) = 4")
    case True
    with less.prems w varintLoop_less [OF w] show ?thesis unfolding skipGroup.simps [of l r] by auto
  next
    case False
    with less.prems(2) w obtain k where "0 < k" "skipGroup l (drop (nat k) r) = Some (Inr n)"
      unfolding skipGroup.simps [of l r] by (auto simp: not_le split: option.splits sum.splits if_splits)
    with less.hyps [of "drop (nat k) r"] less.prems(1) varintLoop_less [OF w] show ?thesis by simp
  qed
qed

lemma skipWire_nonzero: "skipWire bs = Some (Inr n) \<Longrightarrow> n \<noteq> 0"
proof -
  assume a: "skipWire bs = Some (Inr n)"
  then obtain w r where w: "varint bs = Inr (w :: uint64, r)" and bs: "bs \<noteq> []"
    by (subst (asm) skipWire.simps) (auto split: sum.splits if_splits)
  note r = varintLoop_less [OF w]
  consider (len) "unat (w AND 7) = 2" | (group) "unat (w AND 7) = 3" | (other) "unat (w AND 7) \<notin> {2, 3}" by auto
  then show ?thesis
  proof cases
    case len
    with a w bs obtain len r' where "varint r = Inr (len :: uint64, r')" "0 \<le> sint len"
      "n = wrap64 (int (length bs - length r') + sint len)"
      by (subst (asm) skipWire.simps) (auto split: sum.splits if_splits)
    with skipLen_nonzero [OF w] show ?thesis by simp
  next
    case group
    with a w bs have "skipGroup (length bs) r = Some (Inr n)" by (subst (asm) skipWire.simps) simp
    with skipGroup_pos [OF r] show ?thesis by fastforce
  next
    case other
    with a w bs r show ?thesis
      by (subst (asm) skipWire.simps) (auto simp: Let_def split: sum.splits if_splits dest!: skipVarintLoop_less)
  qed
qed

subsection \<open>The loop over the fields of a message\<close>

text \<open>What the code of a known field does: it fails, panics, or changes the message and consumes bytes.\<close>

datatype 'm field_result = UnknownField | FieldPanic | FieldError proto_error | FieldOk 'm nat

text \<open>The handler gets the field number, the wire type, the length of the slice, the data and the message.\<close>

type_synonym 'm field_handler = "int \<Rightarrow> nat \<Rightarrow> nat \<Rightarrow> bytes \<Rightarrow> 'm \<Rightarrow> 'm field_result"

definition fieldNumber :: "uint64 \<Rightarrow> int" where
  "fieldNumber wire = sint (ucast (drop_bit 3 wire) :: uint32)"

function decodeLoop :: "'m field_handler \<Rightarrow> nat \<Rightarrow> 'm \<Rightarrow> bytes \<Rightarrow> (proto_error + 'm) option" where
  "decodeLoop h l m bs =
     (if bs = [] then Some (Inr m)
      else
        (case varint bs of
           Inl e \<Rightarrow> Some (Inl e)
         | Inr (wire, r) \<Rightarrow>
             (let fieldNum = fieldNumber wire; wireType = unat (wire AND 7) in
              if wireType = 4 then Some (Inl EndGroup)
              else if fieldNum \<le> 0 then Some (Inl (IllegalTag fieldNum))
              else
                (case h fieldNum wireType l r m of
                   FieldPanic \<Rightarrow> None
                 | FieldError e \<Rightarrow> Some (Inl e)
                 | FieldOk m n \<Rightarrow> decodeLoop h l m (drop n r)
                 | UnknownField \<Rightarrow>
                     (case skipWire bs of
                        None \<Rightarrow> None
                      | Some (Inl e) \<Rightarrow> Some (Inl e)
                      | Some (Inr skippy) \<Rightarrow>
                          (let iNdEx = wrap64 (int (l - length bs) + skippy) in
                           if skippy < 0 then Some (Inl InvalidLength)
                           else if int l < iNdEx then Some (Inl UnexpectedEOF)
                           else if iNdEx < 0 then None
                           else decodeLoop h l m (drop (nat skippy) bs)))))))"
  by pat_completeness auto
termination
  by (relation "measure (\<lambda>(h, l, m, bs). length bs)") (auto dest!: varintLoop_less skipWire_nonzero)

declare decodeLoop.simps [simp del]

definition decodeMessage :: "'m field_handler \<Rightarrow> 'm \<Rightarrow> bytes \<Rightarrow> (proto_error + 'm) option" where
  "decodeMessage h m bs = decodeLoop h (length bs) m bs"

text \<open>The kinds of fields: an integer, a float, and data with a length, which \<open>use\<close> turns into the new message.\<close>

definition varintField :: "nat \<Rightarrow> bytes \<Rightarrow> ('w::len word \<Rightarrow> 'm) \<Rightarrow> 'm field_result" where
  "varintField wireType r upd =
     (if wireType \<noteq> 0 then FieldError (WrongWireType wireType)
      else (case varint r of Inl e \<Rightarrow> FieldError e | Inr (v, r') \<Rightarrow> FieldOk (upd v) (length r - length r')))"

definition doubleField :: "nat \<Rightarrow> bytes \<Rightarrow> (float64 \<Rightarrow> 'm) \<Rightarrow> 'm field_result" where
  "doubleField wireType r upd =
     (if wireType \<noteq> 1 then FieldError (WrongWireType wireType)
      else if length r < 8 then FieldError UnexpectedEOF
      else FieldOk (upd (leGet (take 8 r))) 8)"

definition lenField :: "nat \<Rightarrow> nat \<Rightarrow> bytes \<Rightarrow> (bytes \<Rightarrow> (proto_error + 'm) option) \<Rightarrow> 'm field_result" where
  "lenField wireType l r use =
     (if wireType \<noteq> 2 then FieldError (WrongWireType wireType)
      else
        (case varint r of
           Inl e \<Rightarrow> FieldError e
         | Inr (len, r') \<Rightarrow>
             (let n = sint (len :: uint64); postIndex = wrap64 (int (l - length r') + n) in
              if n < 0 then FieldError InvalidLength
              else if int l < postIndex then FieldError UnexpectedEOF
              else if postIndex < 0 then FieldPanic
              else
                (case use (take (nat n) r') of
                   None \<Rightarrow> FieldPanic
                 | Some (Inl e) \<Rightarrow> FieldError e
                 | Some (Inr m) \<Rightarrow> FieldOk m (length r - length r' + nat n)))))"

subsection \<open>Sizes and numbers\<close>

lemma encodeVarint_eq: "encodeVarint v = putUvarint v"
proof (induction v rule: encodeVarint.induct)
  case (1 v)
  have "(ucast (v AND 0x7f OR 0x80) :: byte) = ucast v OR 0x80"
  proof (rule bit_eqI)
    fix n assume "possible_bit TYPE(byte) n"
    then have "n \<in> {0,1,2,3,4,5,6,7}" by auto
    then show "bit (ucast (v AND 0x7f OR 0x80) :: byte) n = bit (ucast v OR 0x80 :: byte) n"
      by (auto simp: bit_simps)
  qed
  with 1 show ?case
    by (subst encodeVarint.simps) (simp add: putUvarint_small putUvarint_big not_le [symmetric])
qed

lemma sov_eq: "sov x = length (putUvarint x)"
proof (induction x rule: sov.induct)
  case (1 x)
  have "drop_bit 7 x = 0 \<longleftrightarrow> x < 0x80"
  proof -
    have "drop_bit 7 x = 0 \<longleftrightarrow> unat x div 128 = 0" by (metis unat_drop_bit_7 unat_eq_0)
    then show ?thesis by (simp add: word_less_nat_alt div_eq_0_iff)
  qed
  with 1 show ?case by (subst sov.simps) (simp add: putUvarint_small putUvarint_big)
qed

lemma stringSize_eq: "stringSize s = length (stringField tag s)"
  by (simp add: stringSize_def stringField_def lenSize_def sov_eq encodeVarint_eq)

lemma lenSize_eq: "sz m = length (enc m) \<Longrightarrow> lenSize (sz m) = length (messageField tag sz enc m)"
  by (simp add: messageField_def lenSize_def sov_eq encodeVarint_eq)

text \<open>A marshalled message fills the slice.\<close>

lemma marshal_total: "sz m = length (enc m) \<Longrightarrow> marshal sz enc m = Some (enc m)"
  by (simp add: marshal_def)

lemma ucast_and7f: "(ucast (b :: byte) AND 0x7f :: 'w::len word) = ucast (b AND 0x7f)"
  by (rule bit_eqI) (auto simp: bit_simps dest: bit_imp_le_length)

lemma ucast_byte_64: "(ucast (ucast (b :: byte) :: uint64) :: 'w::len word) = ucast b"
  by (rule bit_eqI) (auto simp: bit_simps dest: bit_imp_le_length)

lemma push_ucast_split7:
  "push_bit s (ucast (y :: uint64) :: 'w::len word)
     = push_bit s (ucast (take_bit 7 y)) OR push_bit (s + 7) (ucast (drop_bit 7 y))"
proof (rule bit_eqI)
  fix n assume "possible_bit TYPE('w word) n"
  then show "bit (push_bit s (ucast y :: 'w word)) n
      = bit (push_bit s (ucast (take_bit 7 y) :: 'w word) OR push_bit (s + 7) (ucast (drop_bit 7 y))) n"
    by (cases "n < s + 7") (auto simp: bit_simps)
qed

lemma varintLoop_put:
  assumes "i < 10" "unat y < 2 ^ (64 - 7 * i)"
  shows "varintLoop i x (putUvarint y @ rest) = Inr (x OR push_bit (7 * i) (ucast y :: 'w::len word), rest)"
  using assms
proof (induction y arbitrary: i x rule: putUvarint.induct)
  case (1 y)
  show ?case
  proof (cases "y < 0x80")
    case True
    have byte: "(ucast y :: byte) < 0x80"
      using True by (simp add: word_less_nat_alt unat_ucast_byte_small)
    moreover have "(ucast (ucast y :: byte) AND 0x7f :: 'w word) = ucast y"
      using ucast_ucast_small [OF True] byte_low [OF byte] by (metis ucast_byte_64 ucast_and7f)
    ultimately show ?thesis
      using True "1.prems"(1) by (simp add: putUvarint_small)
  next
    case False
    then have ge: "128 \<le> unat y" by (simp add: word_less_nat_alt)
    have i: "i < 9"
    proof (rule ccontr)
      assume "\<not> i < 9"
      with "1.prems" have "i = 9" by simp
      with "1.prems" ge show False by simp
    qed
    have low: "(ucast ((ucast y OR 0x80 :: byte) AND 0x7f) :: 'w word) = ucast (take_bit 7 y)"
      by (metis ucast_byte_64 ucast_low7)
    from i obtain m where m: "64 - 7 * i = 7 + m" "64 - 7 * Suc i = m" by fastforce
    from "1.prems"(2) have "unat y < 2 ^ m * 128" by (simp only: m power_add) simp
    then have "unat (drop_bit 7 y) < 2 ^ (64 - 7 * Suc i)"
      unfolding unat_drop_bit_7 m(2) by (rule less_mult_imp_div_less)
    then have "varintLoop (Suc i) (x OR push_bit (7 * i) (ucast (take_bit 7 y))) (putUvarint (drop_bit 7 y) @ rest)
               = Inr (x OR push_bit (7 * i) (ucast y), rest)"
      using "1.IH" [OF False, of "Suc i"] i by (subst push_ucast_split7) (simp add: or.assoc add.commute)
    then show ?thesis
      using i high_bit_set [of y] low by (simp add: putUvarint_big [OF False] ucast_and7f)
  qed
qed

lemma varint_put [codec_simps, simp]: "varint (putUvarint y @ rest) = Inr (ucast y, rest)"
  using varintLoop_put [of 0 y 0 rest] unat_less_64 [of y] by simp

subsection \<open>Reading what was written\<close>

lemma decodeLoop_Nil [simp]: "decodeLoop h l m [] = Some (Inr m)"
  by (subst decodeLoop.simps) simp

text \<open>A tag of one byte: its field number and its wire type.\<close>

definition tagOf :: "byte \<Rightarrow> int \<Rightarrow> nat \<Rightarrow> bool" where
  "tagOf b f wt \<longleftrightarrow> b < 0x80 \<and> 0 < f \<and> wt \<noteq> 4 \<and> fieldNumber (ucast b AND 0x7f) = f \<and> unat ((ucast b AND 0x7f) AND 7 :: uint64) = wt"

lemma tagOf_used [simp]:
  "tagOf 0x08 1 0" "tagOf 0x09 1 (Suc 0)" "tagOf 0x0a 1 2" "tagOf 0x10 2 0" "tagOf 0x11 2 (Suc 0)" "tagOf 0x12 2 2"
  by (simp_all add: tagOf_def fieldNumber_def)

lemma decodeLoop_field:
  assumes "tagOf b f wt" "h f wt l r m = FieldOk m' n"
  shows "decodeLoop h l m (b # r) = decodeLoop h l m' (drop n r)"
  using assms by (subst decodeLoop.simps) (simp add: tagOf_def Let_def)

lemma lenField_put:
  assumes "length x < 2 ^ 63" "l < 2 ^ 63" "length x + length rest \<le> l" "use x = Some (Inr m)"
  shows "lenField 2 l (putUvarint (of_nat (length x)) @ x @ rest) use = FieldOk m (length (putUvarint (of_nat (length x))) + length x)"
proof -
  have "int (l - length (x @ rest)) + int (length x) = int (l - length rest)" using assms(3) by simp
  then have "wrap64 (int (l - length (x @ rest)) + int (length x)) = int (l - length rest)"
    using wrap64_id [of "int (l - length rest)"] assms(2) by simp
  then show ?thesis using assms(1,4) by (simp add: lenField_def sint_of_nat_small Let_def)
qed

lemma decodeLoop_len:
  assumes "tagOf tag f 2" "h f 2 l (putUvarint (of_nat (length x)) @ x @ rest) m
      = lenField 2 l (putUvarint (of_nat (length x)) @ x @ rest) use"
    and "l < 2 ^ 63" "length x + length rest \<le> l" "use x = Some (Inr m')"
  shows "decodeLoop h l m (tag # putUvarint (of_nat (length x)) @ x @ rest) = decodeLoop h l m' rest"
proof -
  have "length x < 2 ^ 63" using assms(3,4) by simp
  from lenField_put [OF this assms(3,4), of use] assms(5) show ?thesis by (simp add: decodeLoop_field [OF assms(1)] assms(2))
qed

lemma decodeLoop_string:
  assumes "tagOf tag f 2" "\<And>r m. h f 2 l r m = lenField 2 l r (\<lambda>bs. Some (Inr (upd bs m)))"
    and "l < 2 ^ 63" "length (stringField tag s @ rest) \<le> l"
  shows "decodeLoop h l m (stringField tag s @ rest) = decodeLoop h l (if s = [] then m else upd s m) rest"
proof (cases "s = []")
  case False
  then have "length s + length rest \<le> l" using assms(4) by (simp add: stringField_def)
  from decodeLoop_len [where h = h, OF assms(1) assms(2,3) this] show ?thesis
    using False by (simp add: stringField_def encodeVarint_eq)
qed (simp add: stringField_def)

lemma decodeLoop_double:
  assumes "tagOf tag f 1" "h f 1 l (putUint64 v @ rest) m = doubleField 1 (putUint64 v @ rest) upd"
  shows "decodeLoop h l m (tag # putUint64 v @ rest) = decodeLoop h l (upd v) rest"
  using assms by (simp add: decodeLoop_field [OF assms(1)] doubleField_def)

lemma decodeLoop_varint:
  assumes "tagOf tag f 0" "h f 0 l (putUvarint v @ rest) m = varintField 0 (putUvarint v @ rest) upd"
  shows "decodeLoop h l m (tag # putUvarint v @ rest) = decodeLoop h l (upd (ucast v)) rest"
  using assms by (simp add: decodeLoop_field [OF assms(1)] varintField_def)

text \<open>
  The contract of a message type: \<open>Size\<close> is the number of bytes that \<open>MarshalTo\<close> writes, and \<open>Unmarshal\<close> gives
  the message back. From it follows the same for a field in which such messages repeat.
\<close>

locale message_codec =
  fixes msgSize :: "'m \<Rightarrow> nat" and enc :: "'m \<Rightarrow> bytes"
    and dec :: "bytes \<Rightarrow> (proto_error + 'm) option" and ok :: "'m \<Rightarrow> bool"
  assumes size_enc: "msgSize m = length (enc m)"
    and dec_enc: "ok m \<Longrightarrow> length (enc m) < 2 ^ 63 \<Longrightarrow> dec (enc m) = Some (Inr m)"
begin

lemma field_size: "lenSize (msgSize m) = length (messageField tag msgSize enc m)"
  by (rule lenSize_eq) (rule size_enc)

lemma fields_size: "sum_list (map (lenSize \<circ> msgSize) ms) = length (concat (map (messageField tag msgSize enc) ms))"
  by (induction ms) (simp_all add: field_size [where tag = tag])

lemma repeated:
  assumes "tagOf tag f 2" "\<And>r acc. h f 2 l r acc = lenField 2 l r (\<lambda>bs. map_option (map_sum id (\<lambda>m. add m acc)) (dec bs))"
    and "l < 2 ^ 63" "\<forall>m \<in> set ms. ok m" "length (concat (map (messageField tag msgSize enc) ms) @ rest) \<le> l"
  shows "decodeLoop h l acc (concat (map (messageField tag msgSize enc) ms) @ rest) = decodeLoop h l (fold add ms acc) rest"
  using assms(4,5)
proof (induction ms arbitrary: acc)
  case (Cons m ms)
  let ?rest = "concat (map (messageField tag msgSize enc) ms) @ rest"
  have len: "length (enc m) + length ?rest \<le> l" "length (enc m) < 2 ^ 63"
    using Cons.prems(2) assms(3) by (simp_all add: messageField_def [of _ _ _ m])
  have "decodeLoop h l acc (messageField tag msgSize enc m @ ?rest) = decodeLoop h l (add m acc) ?rest"
    using decodeLoop_len [where h = h, OF assms(1) assms(2,3) len(1)] dec_enc [OF _ len(2)] Cons.prems(1)
    by (simp add: messageField_def [of _ _ _ m] encodeVarint_eq size_enc)
  with Cons show ?case by simp
qed simp

lemma marshalled: "marshal msgSize enc m = Some (enc m)"
  by (rule marshal_total) (rule size_enc)

lemma roundtrip: "ok m \<Longrightarrow> msgSize m < 2 ^ 63 \<Longrightarrow> Option.bind (marshal msgSize enc m) dec = Some (Inr m)"
  by (simp add: marshalled dec_enc size_enc)

end

end
