(* ===== verification/Escape.thy ===== *)
theory Escape
  imports Prelude
begin

text \<open>
  \<^verbatim>\<open>helper/escape\<close>: percent encoding of metric names and tags (\<open>escape.go\<close>, \<open>url.go\<close>) and the tolerant
  decoder used by the tagged uploader (\<open>unescape.go\<close>). Builders are the bytes written to them.
\<close>

subsection \<open>Encoding (url.go, escape.go)\<close>

datatype encoding = encodePath | encodePathSegment | encodeHost | encodeZone
  | encodeUserPassword | encodeQueryComponent | encodeFragment

definition isAlnum :: "byte \<Rightarrow> bool" where
  "isAlnum c \<longleftrightarrow> 97 \<le> c \<and> c \<le> 122 \<or> 65 \<le> c \<and> c \<le> 90 \<or> 48 \<le> c \<and> c \<le> 57"

definition shouldEscape :: "byte \<Rightarrow> encoding \<Rightarrow> bool" where
  "shouldEscape c mode =
     (if isAlnum c then False
      else if (mode = encodeHost \<or> mode = encodeZone)
              \<and> c \<in> set (str ''!$&'' @ [39] @ str ''()*+,;=:[]<>'' @ [34]) then False
      else if c \<in> set (str ''-_.~'') then False
      else if c \<in> set (str ''$&+,/:;=?@'') \<and> mode = encodePath then c = cQuest
      else if c \<in> set (str ''$&+,/:;=?@'') \<and> mode = encodePathSegment
        then c \<in> set (str ''/;,?'')
      else if c \<in> set (str ''$&+,/:;=?@'') \<and> mode = encodeUserPassword
        then c \<in> set (str ''@/?:'')
      else if c \<in> set (str ''$&+,/:;=?@'') \<and> mode = encodeQueryComponent then True
      else if c \<in> set (str ''$&+,/:;=?@'') \<and> mode = encodeFragment then False
      else if mode = encodeFragment \<and> c \<in> set (str ''!()*'') then False
      else True)"

definition upperhex :: "byte \<Rightarrow> byte" where
  "upperhex d = (if d < 10 then 48 + d else 55 + d)"

text \<open>\<open>'%', "0123456789ABCDEF"[c>>4], "0123456789ABCDEF"[c&15]\<close>\<close>

definition percentByte :: "byte \<Rightarrow> bytes" where
  "percentByte c = [cPercent, upperhex (drop_bit 4 c), upperhex (c AND 15)]"

definition spaceCount :: "bytes \<Rightarrow> encoding \<Rightarrow> nat" where
  "spaceCount s mode = length (filter (\<lambda>c. shouldEscape c mode \<and> c = cSpace \<and> mode = encodeQueryComponent) s)"

definition hexCount :: "bytes \<Rightarrow> encoding \<Rightarrow> nat" where
  "hexCount s mode = length (filter (\<lambda>c. shouldEscape c mode \<and> \<not> (c = cSpace \<and> mode = encodeQueryComponent)) s)"

fun escape_loop :: "encoding \<Rightarrow> bytes \<Rightarrow> bytes" where
  "escape_loop mode [] = []"
| "escape_loop mode (c # s) =
     (if c = cSpace \<and> mode = encodeQueryComponent then [cPlus]
      else if shouldEscape c mode then percentByte c
      else [c]) @ escape_loop mode s"

definition escape :: "bytes \<Rightarrow> encoding \<Rightarrow> bytes" where
  "escape s mode =
     (if spaceCount s mode = 0 \<and> hexCount s mode = 0 then s
      else if hexCount s mode = 0 then map (\<lambda>c. if c = cSpace then cPlus else c) s
      else escape_loop mode s)"

text \<open>\<open>escapeTo\<close>: \<open>pos\<close> is the start of the part of \<open>s\<close> not yet written, \<open>i\<close> the scan position.\<close>

function escapeTo_loop :: "bytes \<Rightarrow> encoding \<Rightarrow> nat \<Rightarrow> nat \<Rightarrow> bytes \<Rightarrow> nat \<times> bytes" where
  "escapeTo_loop s mode i pos sb =
     (if i < length s then
        (let c = s ! i in
         if shouldEscape c mode then
           (let sb = sb @ take (i - pos) (drop pos s);
                sb = (if c = cSpace \<and> mode = encodeQueryComponent then sb @ [cPlus]
                      else sb @ percentByte c)
            in escapeTo_loop s mode (i + 1) (i + 1) sb)
         else escapeTo_loop s mode (i + 1) pos sb)
      else (pos, sb))"
  by pat_completeness auto
termination by (relation "measure (\<lambda>(s, mode, i, pos, sb). length s - i)") auto

declare escapeTo_loop.simps [simp del]

definition escapeTo :: "bytes \<Rightarrow> encoding \<Rightarrow> bytes \<Rightarrow> bytes" where
  "escapeTo s mode sb0 =
     (let (pos, sb) = escapeTo_loop s mode 0 0 sb0 in
      if pos = 0 then sb @ s
      else if int pos < int (length s) - 1 then sb @ drop pos s
      else sb)"

definition Path :: "bytes \<Rightarrow> bytes" where "Path s = escape s encodePath"
definition PathTo :: "bytes \<Rightarrow> bytes \<Rightarrow> bytes" where "PathTo s sb = escapeTo s encodePath sb"
definition Query :: "bytes \<Rightarrow> bytes" where "Query s = escape s encodeQueryComponent"
definition QueryTo :: "bytes \<Rightarrow> bytes \<Rightarrow> bytes" where "QueryTo s sb = escapeTo s encodeQueryComponent sb"

subsection \<open>Decoding (unescape.go)\<close>

definition ishex :: "byte \<Rightarrow> bool" where
  "ishex c \<longleftrightarrow> 48 \<le> c \<and> c \<le> 57 \<or> 97 \<le> c \<and> c \<le> 102 \<or> 65 \<le> c \<and> c \<le> 70"

definition unhex :: "byte \<Rightarrow> byte" where
  "unhex c =
     (if 48 \<le> c \<and> c \<le> 57 then c - 48
      else if 97 \<le> c \<and> c \<le> 102 then c - 97 + 10
      else if 65 \<le> c \<and> c \<le> 70 then c - 65 + 10
      else 0)"

text \<open>The loop from \<open>s[i:]\<close> on; the second argument is what the builder holds.\<close>

fun unescape_loop :: "bytes \<Rightarrow> bytes \<Rightarrow> bytes" where
  "unescape_loop [] sb = sb"
| "unescape_loop (c # rest) sb =
     (if c = cPercent then
        (case rest of
           a # b # rest' \<Rightarrow>
             unescape_loop rest'
               (sb @ (if ishex a \<and> ishex b then [push_bit 4 (unhex a) OR unhex b] else [c, a, b]))
         | _ \<Rightarrow> sb @ c # rest)
      else if c = cPlus then unescape_loop rest (sb @ [cSpace])
      else unescape_loop rest (sb @ [c]))"

text \<open>\<open>unescape(s, first, sb)\<close>: the returned string and the builder.\<close>

definition unescape :: "bytes \<Rightarrow> nat \<Rightarrow> bytes \<Rightarrow> bytes \<times> bytes" where
  "unescape s first sb =
     (let pos = length sb; sb = unescape_loop (drop first s) (sb @ take first s)
      in (drop pos sb, sb))"

text \<open>\<open>strings.IndexAny(s, "%+")\<close>\<close>

fun indexPercentPlus :: "bytes \<Rightarrow> nat option" where
  "indexPercentPlus [] = None"
| "indexPercentPlus (c # s) =
     (if c = cPercent \<or> c = cPlus then Some 0 else map_option Suc (indexPercentPlus s))"

definition UnescapeTo :: "bytes \<Rightarrow> bytes \<Rightarrow> bytes \<times> bytes" where
  "UnescapeTo s sb =
     (case indexPercentPlus s of None \<Rightarrow> (s, sb) | Some first \<Rightarrow> unescape s first sb)"

definition Unescape :: "bytes \<Rightarrow> bytes" where
  "Unescape s = fst (UnescapeTo s [])"

text \<open>\<open>UnescapeNameTo\<close>: the name, the \<open>__name__\<close> tag and the builder.\<close>

definition UnescapeNameTo :: "bytes \<Rightarrow> bytes \<Rightarrow> bytes \<times> bytes \<times> bytes" where
  "UnescapeNameTo s sb =
     (case indexPercentPlus s of
        None \<Rightarrow>
          (let pos = length sb; sb = sb @ str ''__name__=''; end_pos = length sb; sb = sb @ s
           in (drop end_pos sb, drop pos sb, sb))
      | Some first \<Rightarrow>
          (let pos = length sb; sb = sb @ str ''__name__=''; (name, sb) = unescape s first sb
           in (name, drop pos sb, sb)))"

subsection \<open>Encoding is byte by byte\<close>

definition encByte :: "encoding \<Rightarrow> byte \<Rightarrow> bytes" where
  "encByte mode c =
     (if shouldEscape c mode then
        (if c = cSpace \<and> mode = encodeQueryComponent then [cPlus] else percentByte c)
      else [c])"

abbreviation encBytes :: "encoding \<Rightarrow> bytes \<Rightarrow> bytes" where
  "encBytes mode s \<equiv> concat (map (encByte mode) s)"

lemma shouldEscape_space [simp]: "shouldEscape cSpace encodeQueryComponent"
  by (simp add: shouldEscape_def isAlnum_def)

lemma escape_loop_eq: "escape_loop mode s = encBytes mode s"
  by (induction s) (auto simp: encByte_def)

lemma encBytes_plain: "\<forall>c \<in> set s. \<not> shouldEscape c mode \<Longrightarrow> encBytes mode s = s"
  by (induction s) (auto simp: encByte_def)

lemma encBytes_spaces:
  "\<forall>c \<in> set s. shouldEscape c encodeQueryComponent \<longrightarrow> c = cSpace \<Longrightarrow>
     encBytes encodeQueryComponent s = map (\<lambda>c. if c = cSpace then cPlus else c) s"
proof (induction s)
  case (Cons c s)
  have "encByte encodeQueryComponent c = [if c = cSpace then cPlus else c]"
  proof (cases "c = cSpace")
    case False
    with Cons.prems have "\<not> shouldEscape c encodeQueryComponent" by auto
    with False show ?thesis by (simp add: encByte_def)
  qed (simp add: encByte_def)
  with Cons show ?case by simp
qed simp

lemma escape_eq: "escape s mode = encBytes mode s"
proof (cases "hexCount s mode = 0")
  case True
  then have hex: "shouldEscape c mode \<Longrightarrow> c = cSpace \<and> mode = encodeQueryComponent" if "c \<in> set s" for c
    using that unfolding hexCount_def by (auto simp: filter_empty_conv)
  show ?thesis
  proof (cases "spaceCount s mode = 0")
    case none: True
    have "\<forall>c \<in> set s. \<not> shouldEscape c mode"
    proof
      fix c assume "c \<in> set s"
      with none hex [of c] show "\<not> shouldEscape c mode"
        unfolding spaceCount_def by (metis (mono_tags, lifting) filter_empty_conv length_0_conv)
    qed
    then have "encBytes mode s = s" by (rule encBytes_plain)
    with True none show ?thesis by (simp add: escape_def)
  next
    case some: False
    then have "mode = encodeQueryComponent"
      unfolding spaceCount_def by (metis (mono_tags, lifting) filter_False length_0_conv)
    with True some hex show ?thesis by (simp add: escape_def encBytes_spaces)
  qed
next
  case False
  then show ?thesis by (simp add: escape_def escape_loop_eq)
qed

lemma length_escape: "length (escape s mode) = length s + 2 * hexCount s mode"
  unfolding escape_eq hexCount_def
  by (induction s) (auto simp: encByte_def percentByte_def)

subsection \<open>Decoding inverts query encoding\<close>

lemma unescape_loop_acc: "unescape_loop s (sb @ t) = sb @ unescape_loop s t"
proof (induction s t arbitrary: sb rule: unescape_loop.induct)
  case (2 c rest t)
  show ?case
    using 2 by (auto split: list.splits simp: append_assoc [symmetric] simp del: append_assoc)
qed simp

lemma unescape_first:
  assumes "indexPercentPlus s = Some first"
  shows "unescape_loop s sb = unescape_loop (drop first s) (sb @ take first s)"
  using assms
  by (induction s arbitrary: first sb) (auto split: if_splits)

lemma unescape_plain: "indexPercentPlus s = None \<Longrightarrow> unescape_loop s sb = sb @ s"
  by (induction s arbitrary: sb) (auto split: if_splits)

lemma unescape_eq:
  assumes "indexPercentPlus s = Some first"
  shows "unescape s first sb = (unescape_loop s [], sb @ unescape_loop s [])"
  using unescape_first [OF assms, of sb] unescape_loop_acc [of s sb "[]"]
  by (simp add: unescape_def Let_def flip: unescape_first [OF assms])

lemma UnescapeTo_eq:
  "UnescapeTo s sb =
     (unescape_loop s [], case indexPercentPlus s of None \<Rightarrow> sb | Some _ \<Rightarrow> sb @ unescape_loop s [])"
  using unescape_plain [of s "[]"]
  by (auto simp: UnescapeTo_def unescape_eq split: option.split)

lemma Unescape_eq: "Unescape s = unescape_loop s []"
  by (simp add: Unescape_def UnescapeTo_eq)

text \<open>A tag and its builder never interfere: the name is the decoded text, the tag is \<open>__name__=\<close> and it.\<close>

lemma UnescapeNameTo_eq:
  "fst (UnescapeNameTo s sb) = Unescape s"
  "fst (snd (UnescapeNameTo s sb)) = str ''__name__='' @ Unescape s"
  using unescape_plain [of s "[]"]
  by (auto simp: UnescapeNameTo_def unescape_eq Let_def Unescape_eq split: option.split)

lemma hex_digits_all:
  "\<forall>d \<in> set [0, 1, 2, 3, 4, 5, 6, 7, 8, 9, 10, 11, 12, 13, 14, 15 :: byte].
     ishex (upperhex d) \<and> unhex (upperhex d) = d"
  by code_simp

lemma byte_below_16:
  assumes "d < (16 :: byte)"
  shows "d \<in> set [0, 1, 2, 3, 4, 5, 6, 7, 8, 9, 10, 11, 12, 13, 14, 15]"
proof -
  have n: "unat d < 16" using assms by (simp add: word_less_nat_alt)
  then have "(of_nat (unat d) :: byte) \<in> of_nat ` set [0..<16]" by (intro imageI) simp
  moreover have "[0..<16] = [0, 1, 2, 3, 4, 5, 6, 7, 8, 9, 10, 11, 12, 13, 14, 15 :: nat]"
    by (simp add: upt_conv_Cons)
  ultimately show ?thesis by simp
qed

lemma hex_digit:
  assumes "d < (16 :: byte)"
  shows "ishex (upperhex d)" and "unhex (upperhex d) = d"
  using hex_digits_all byte_below_16 [OF assms] by blast+

lemma nibbles:
  "drop_bit 4 c < (16 :: byte)" "c AND 15 < (16 :: byte)"
  "push_bit 4 (drop_bit 4 c) OR (c AND 15) = (c :: byte)"
proof -
  have c: "unat c < 256" using unsigned_less [of c] by simp
  have "unat (drop_bit 4 c) = unat c div 16" by (simp add: drop_bit_eq_div unat_div)
  with c show "drop_bit 4 c < (16 :: byte)" by (simp add: word_less_nat_alt)
  have m: "(15 :: byte) = mask 4" by (simp add: mask_eq_exp_minus_1)
  show "c AND 15 < (16 :: byte)"
    using and_mask_less' [of 4 c] unfolding m by simp
  show "push_bit 4 (drop_bit 4 c) OR (c AND 15) = c"
    unfolding m by (rule bit_eqI) (auto simp: bit_simps)
qed

lemma unescape_percentByte: "unescape_loop (percentByte c @ s) sb = unescape_loop s (sb @ [c])"
  by (simp add: percentByte_def hex_digit nibbles)

lemma unescape_encByte:
  "unescape_loop (encByte encodeQueryComponent c @ s) sb = unescape_loop s (sb @ [c])"
proof (cases "shouldEscape c encodeQueryComponent")
  case True
  then show ?thesis by (simp add: encByte_def unescape_percentByte)
next
  case False
  then have "c \<noteq> cPercent" and "c \<noteq> cPlus" by (auto simp: shouldEscape_def isAlnum_def)
  with False show ?thesis by (simp add: encByte_def)
qed

lemma unescape_encBytes:
  "unescape_loop (encBytes encodeQueryComponent s @ t) sb = unescape_loop t (sb @ s)"
  by (induction s arbitrary: sb) (simp_all add: unescape_encByte)

lemma Unescape_Query: "Unescape (Query s) = s"
  using unescape_encBytes [of s "[]" "[]"] by (simp add: Unescape_eq Query_def escape_eq)

subsection \<open>What an encoded name can contain\<close>

definition sepFree :: "bytes \<Rightarrow> bool" where
  "sepFree s \<longleftrightarrow> cQuest \<notin> set s \<and> cAmp \<notin> set s \<and> cEq \<notin> set s"

lemma upperhex_alnum:
  assumes "d < (16 :: byte)"
  shows "isAlnum (upperhex d)"
proof -
  have "\<forall>d \<in> set [0, 1, 2, 3, 4, 5, 6, 7, 8, 9, 10, 11, 12, 13, 14, 15 :: byte]. isAlnum (upperhex d)"
    by code_simp
  with byte_below_16 [OF assms] show ?thesis by blast
qed

lemma set_encByte:
  assumes "x \<in> set (encByte mode c)"
  shows "x = c \<and> \<not> shouldEscape c mode \<or> x = cPlus \<or> x = cPercent \<or> isAlnum x"
  using assms upperhex_alnum [OF nibbles(1)] upperhex_alnum [OF nibbles(2)]
  by (auto simp: encByte_def percentByte_def split: if_splits)

lemma Query_sepFree: "sepFree (Query s)"
proof -
  have "x \<notin> {cQuest, cAmp, cEq}" if "x \<in> set (encByte encodeQueryComponent c)" for x c
    using set_encByte [OF that] by (auto simp: shouldEscape_def isAlnum_def)
  then show ?thesis unfolding sepFree_def Query_def escape_eq by fastforce
qed

lemma Path_no_quest: "cQuest \<notin> set (Path s)"
proof -
  have "x \<noteq> cQuest" if "x \<in> set (encByte encodePath c)" for x c
    using set_encByte [OF that] by (auto simp: shouldEscape_def isAlnum_def)
  then show ?thesis unfolding Path_def escape_eq by fastforce
qed

subsection \<open>escapeTo against escape\<close>

text \<open>The inputs on which \<open>escapeTo\<close> loses the last byte: the last byte that is escaped stands just
  before a last byte that is not.\<close>

definition dropsLast :: "bytes \<Rightarrow> encoding \<Rightarrow> bool" where
  "dropsLast s mode \<longleftrightarrow>
     2 \<le> length s \<and> shouldEscape (s ! (length s - 2)) mode \<and> \<not> shouldEscape (last s) mode"

lemma take_drop_split:
  assumes "pos \<le> i" "i < p" "p \<le> length s"
  shows "take (p - pos) (drop pos s) = take (i - pos) (drop pos s) @ s ! i # take (p - (i + 1)) (drop (i + 1) s)"
proof -
  have "drop pos s = take (i - pos) (drop pos s) @ s ! i # drop (i + 1) s"
    using assms id_take_nth_drop [of "i - pos" "drop pos s"] by (simp add: add.commute)
  moreover have "p - pos = (i - pos) + Suc (p - (i + 1))" using assms by simp
  ultimately show ?thesis
    by (metis append_take_drop_id same_append_eq take_Suc_Cons take_add drop_drop)
qed

lemma escapeTo_loop_spec:
  assumes "escapeTo_loop s mode i pos sb = (p, sb')" and "pos \<le> i" "i \<le> length s"
    and "\<forall>j. pos \<le> j \<and> j < i \<longrightarrow> \<not> shouldEscape (s ! j) mode"
  shows "pos \<le> p \<and> p \<le> length s \<and> sb' = sb @ encBytes mode (take (p - pos) (drop pos s))
    \<and> (\<forall>j. p \<le> j \<and> j < length s \<longrightarrow> \<not> shouldEscape (s ! j) mode)
    \<and> (p \<noteq> pos \<longrightarrow> shouldEscape (s ! (p - 1)) mode)"
  using assms
proof (induction s mode i pos sb arbitrary: p sb' rule: escapeTo_loop.induct)
  case (1 s mode i pos sb)
  show ?case
  proof (cases "i < length s \<and> shouldEscape (s ! i) mode")
    case True
    let ?mid = "take (i - pos) (drop pos s)"
    have mid: "encBytes mode ?mid = ?mid"
      using 1(6) True by (intro encBytes_plain) (auto simp: in_set_conv_nth)
    have step: "escapeTo_loop s mode (i + 1) (i + 1) (sb @ ?mid @ encByte mode (s ! i)) = (p, sb')"
      using 1(3) True by (subst (asm) escapeTo_loop.simps) (auto simp: Let_def encByte_def)
    have IH: "i + 1 \<le> p \<and> p \<le> length s
        \<and> sb' = (sb @ ?mid @ encByte mode (s ! i)) @ encBytes mode (take (p - (i + 1)) (drop (i + 1) s))
        \<and> (\<forall>j. p \<le> j \<and> j < length s \<longrightarrow> \<not> shouldEscape (s ! j) mode)
        \<and> (p \<noteq> i + 1 \<longrightarrow> shouldEscape (s ! (p - 1)) mode)"
      using True step by (intro 1(1)) (auto simp: encByte_def)
    moreover from IH 1(4) have "take (p - pos) (drop pos s) = ?mid @ s ! i # take (p - (i + 1)) (drop (i + 1) s)"
      using True by (intro take_drop_split) auto
    ultimately show ?thesis using True mid 1(4) by auto
  next
    case False
    show ?thesis
    proof (cases "i < length s")
      case True
      with False 1(3) have "escapeTo_loop s mode (i + 1) pos sb = (p, sb')"
        by (subst (asm) escapeTo_loop.simps) (simp add: Let_def)
      then show ?thesis
        using True False 1(4-6) by (intro 1(2)) (auto simp: less_Suc_eq)
    next
      case stop: False
      with 1(3) have "p = pos" "sb' = sb" by (simp_all add: escapeTo_loop.simps)
      with stop 1(4-6) show ?thesis by auto
    qed
  qed
qed

lemma escapeTo_exact:
  "escapeTo s mode sb = sb @ encBytes mode (if dropsLast s mode then butlast s else s)"
proof -
  obtain p sb' where loop: "escapeTo_loop s mode 0 0 sb = (p, sb')" by fastforce
  from escapeTo_loop_spec [OF this]
  have p: "p \<le> length s" "sb' = sb @ encBytes mode (take p s)"
    and rest: "\<And>j. p \<le> j \<Longrightarrow> j < length s \<Longrightarrow> \<not> shouldEscape (s ! j) mode"
    and last: "p \<noteq> 0 \<Longrightarrow> shouldEscape (s ! (p - 1)) mode" by auto
  have tail: "encBytes mode (drop p s) = drop p s"
    using rest by (intro encBytes_plain) (auto simp: in_set_conv_nth)
  have all: "encBytes mode s = encBytes mode (take p s) @ drop p s"
    by (metis append_take_drop_id concat_append map_append tail)
  consider "p = 0" | "p \<noteq> 0" "p + 1 < length s" | "p \<noteq> 0" "p + 1 = length s" | "p \<noteq> 0" "p = length s"
    using p(1) by linarith
  then show ?thesis
  proof cases
    case 1
    then have "\<not> dropsLast s mode" using rest by (auto simp: dropsLast_def)
    with 1 loop p all show ?thesis by (simp add: escapeTo_def)
  next
    case 2
    then have "\<not> dropsLast s mode" using rest by (auto simp: dropsLast_def)
    with 2 loop p all show ?thesis by (simp add: escapeTo_def)
  next
    case 3
    then have "s \<noteq> []" "p = length s - 1" by auto
    then have "length s - 2 = p - 1" "last s = s ! p" by (simp_all add: last_conv_nth)
    with 3 last rest [of p] have "dropsLast s mode" by (auto simp: dropsLast_def)
    moreover from \<open>p = length s - 1\<close> have "butlast s = take p s" by (simp add: butlast_conv_take)
    ultimately show ?thesis using 3 loop p by (simp add: escapeTo_def)
  next
    case 4
    with last have "\<not> dropsLast s mode" by (auto simp: dropsLast_def last_conv_nth)
    with 4 loop p show ?thesis by (simp add: escapeTo_def)
  qed
qed

lemma escapeTo_escape: "\<not> dropsLast s mode \<Longrightarrow> escapeTo s mode sb = sb @ escape s mode"
  by (simp add: escapeTo_exact escape_eq)

lemma escapeTo_drops: "dropsLast s mode \<Longrightarrow> escapeTo s mode sb = sb @ escape (butlast s) mode"
  by (simp add: escapeTo_exact escape_eq)

end
