(* ===== verification/GraphiteTags.thy ===== *)
theory GraphiteTags
  imports Escape "HOL-Library.AList" "HOL-Library.Multiset"
begin

text \<open>
  \<^verbatim>\<open>helper/tags\<close>: the canonical form \<open>name?key=value&...\<close> of tagged metrics (\<open>graphite.go\<close>,
  \<open>prometheus.go\<close>). A Go map is an association list with distinct keys; the order in which
  \<open>range\<close> visits it is not specified, so every loop over a map goes through a parameter \<open>iter\<close>
  that may permute the entries. \<open>regexp.Compile\<close> is a parameter (\<open>None\<close>: the pattern is invalid).
\<close>

type_synonym kv = "bytes \<times> bytes"
type_synonym gomap = "kv list"

datatype tag_error =
    EmptySegment bytes
  | InvalidSegment bytes bytes
  | NoMetricFound bytes
  | WrongTemplateFormat

record graphite_buf =
  gbKV :: "kv list"
  gbB :: bytes

subsection \<open>Parsing the tags (kvParse)\<close>

text \<open>The loop; \<open>path\<close> is kept for the messages.\<close>

function kvParse_loop :: "bytes \<Rightarrow> bytes \<Rightarrow> kv list \<Rightarrow> kv list \<times> (tag_error + kv list)" where
  "kvParse_loop path s KV =
     (let pos = IndexByte s cSemi in
      if pos = Some 0 then (KV, Inl (EmptySegment path))
      else
        (let seg = (case pos of Some p \<Rightarrow> take p s | None \<Rightarrow> s) in
         case IndexByte seg cEq of
           None \<Rightarrow> (KV, Inl (InvalidSegment path seg))
         | Some kpos \<Rightarrow>
             if kpos < 1 then (KV, Inl (InvalidSegment path seg))
             else
               (let KV = KV @ [(take kpos seg, drop (kpos + 1) seg)] in
                case pos of
                  None \<Rightarrow> (KV, Inr KV)
                | Some p \<Rightarrow> kvParse_loop path (drop (p + 1) s) KV)))"
  by pat_completeness auto
termination
  by (relation "measure (\<lambda>(path, s, KV). length s)") (auto dest: IndexByte_SomeD [OF sym])

declare kvParse_loop.simps [simp del]

definition kvParse :: "bytes \<Rightarrow> graphite_buf \<Rightarrow> graphite_buf \<times> (tag_error + kv list)" where
  "kvParse s buf = (let (KV, r) = kvParse_loop s s [] in (buf\<lparr>gbKV := KV\<rparr>, r))"

subsection \<open>Removing duplicate keys (the uniq loop)\<close>

function uniq_loop :: "kv list \<Rightarrow> nat \<Rightarrow> nat \<Rightarrow> bytes \<Rightarrow> kv list \<times> nat" where
  "uniq_loop arr i toDel prevKey =
     (if i < length arr then
        (let (toDel, prevKey) =
               (if fst (arr ! i) = prevKey then (toDel + 1, prevKey) else (toDel, fst (arr ! i)));
             arr = (if toDel > 0 then arr[i - toDel := arr ! i] else arr)
         in uniq_loop arr (i + 1) toDel prevKey)
      else (arr, toDel))"
  by pat_completeness auto
termination
  by (relation "measure (\<lambda>(arr, i, toDel, prevKey). length arr - i)") (auto split: if_splits)

declare uniq_loop.simps [simp del]

definition uniq :: "kv list \<Rightarrow> kv list" where
  "uniq arr = (let (arr, toDel) = uniq_loop arr 0 0 [] in take (length arr - toDel) arr)"

text \<open>Writing \<open>key=value\<close> pairs into the builder, from index \<open>i\<close> on.\<close>

fun writeTags :: "nat \<Rightarrow> kv list \<Rightarrow> bytes \<Rightarrow> bytes" where
  "writeTags i [] B = B"
| "writeTags i ((k, v) # arr) B =
     (let B = (if i > 0 then B @ [cAmp] else B);
          B = QueryTo k B;
          B = B @ [cEq];
          B = QueryTo v B
      in writeTags (i + 1) arr B)"

subsection \<open>Template configuration\<close>

record template_desc =
  Filter :: "bytes \<Rightarrow> bool"
  Template :: "bytes list"
  ExtraTags :: gomap

record tag_config =
  Enabled :: bool
  Separator :: bytes
  Tags :: "bytes list"
  TagMap :: gomap
  Templates :: "bytes list"
  TemplateDescs :: "template_desc list"

definition DisabledTagConfig :: tag_config where
  "DisabledTagConfig = \<lparr>Enabled = False, Separator = [], Tags = [], TagMap = [], Templates = [],
     TemplateDescs = []\<rparr>"

text \<open>\<open>strings.Replace(s, old, new, -1)\<close> for a one-byte \<open>old\<close>.\<close>

definition replaceByte :: "byte \<Rightarrow> bytes \<Rightarrow> bytes \<Rightarrow> bytes" where
  "replaceByte old new s = concat (map (\<lambda>c. if c = old then new else [c]) s)"

definition makeRegexp :: "(bytes \<Rightarrow> (bytes \<Rightarrow> bool) option) \<Rightarrow> bytes \<Rightarrow> (bytes \<Rightarrow> bool) option" where
  "makeRegexp compile filt =
     (if filt = [] then compile (str ''[.]^*'')
      else
        (let (beg, filt) = (if HasPrefix filt [cStar] then ([], drop 1 filt) else (str ''^'', filt));
             (end_s, filt) = (if HasSuffix filt [cStar] then ([], take (length filt - 1) filt)
                              else (str ''$'', filt))
         in compile (beg @ replaceByte cStar (str ''[^'' @ [92] @ str ''.]*'')
                        (replaceByte cDot [92, cDot] filt) @ end_s)))"

text \<open>\<open>makeTagMap\<close>: a tag without \<open>=\<close> makes \<open>keyValue[1]\<close> panic.\<close>

fun makeTagMap_loop :: "gomap \<Rightarrow> bytes list \<Rightarrow> gomap option" where
  "makeTagMap_loop m [] = Some m"
| "makeTagMap_loop m (tag # tags) =
     (case splitOn cEq tag of
        k # v # _ \<Rightarrow> makeTagMap_loop (AList.update k v m) tags
      | _ \<Rightarrow> None)"

definition makeTagMap :: "gomap \<Rightarrow> bytes list \<Rightarrow> gomap option" where
  "makeTagMap m tags = (if tags = [] \<or> hd tags = [] then Some m else makeTagMap_loop m tags)"

text \<open>\<open>strings.TrimSpace\<close>: the UTF-8 encodings of the characters with \<open>unicode.IsSpace\<close>.\<close>

definition spaceEncodings :: "bytes list" where
  "spaceEncodings =
     [[9], [10], [11], [12], [13], [32], [0xC2, 0x85], [0xC2, 0xA0], [0xE1, 0x9A, 0x80]]
     @ map (\<lambda>i. [0xE2, 0x80, 0x80 + of_nat i]) [0..<11]
     @ [[0xE2, 0x80, 0xA8], [0xE2, 0x80, 0xA9], [0xE2, 0x80, 0xAF], [0xE2, 0x81, 0x9F],
        [0xE3, 0x80, 0x80]]"

function trimLeft :: "bytes list \<Rightarrow> bytes \<Rightarrow> bytes" where
  "trimLeft encs s =
     (case find (\<lambda>e. e \<noteq> [] \<and> HasPrefix s e) encs of
        None \<Rightarrow> s
      | Some e \<Rightarrow> trimLeft encs (drop (length e) s))"
  by pat_completeness auto
termination
  by (relation "measure (\<lambda>(encs, s). length s)") (auto simp: find_Some_iff HasPrefix_iff)

declare trimLeft.simps [simp del]

definition TrimSpace :: "bytes \<Rightarrow> bytes" where
  "TrimSpace s = rev (trimLeft (map rev spaceEncodings) (rev (trimLeft spaceEncodings s)))"

text \<open>The body of the loop over \<open>cfg.Templates\<close>.\<close>

definition configureTemplate ::
  "(bytes \<Rightarrow> (bytes \<Rightarrow> bool) option) \<Rightarrow> bytes \<Rightarrow> (tag_error + template_desc) option" where
  "configureTemplate compile s =
     (let tokens = filter (\<lambda>t. t \<noteq> []) (map TrimSpace (splitOn cSpace s)) in
      if length tokens > 3 then Some (Inl WrongTemplateFormat)
      else if tokens = [] then None
      else
        (let (filt, template, tags) =
               (if length tokens = 2 then
                  (if cEq \<in> set (tokens ! 1) then ([], tokens ! 0, tokens ! 1)
                   else (tokens ! 0, tokens ! 1, []))
                else if length tokens = 3 then (tokens ! 0, tokens ! 1, tokens ! 2)
                else ([], tokens ! 0, []))
         in case makeRegexp compile filt of
              None \<Rightarrow> None
            | Some f \<Rightarrow>
                (case makeTagMap [] (splitOn cComma tags) of
                   None \<Rightarrow> None
                 | Some extra \<Rightarrow>
                     Some (Inr \<lparr>Filter = f, Template = splitOn cDot template, ExtraTags = extra\<rparr>))))"

fun configure_loop ::
  "(bytes \<Rightarrow> (bytes \<Rightarrow> bool) option) \<Rightarrow> bytes list \<Rightarrow> tag_config \<Rightarrow> (tag_config \<times> tag_error option) option" where
  "configure_loop compile [] cfg = Some (cfg, None)"
| "configure_loop compile (s # ss) cfg =
     (case configureTemplate compile s of
        None \<Rightarrow> None
      | Some (Inl e) \<Rightarrow> Some (cfg, Some e)
      | Some (Inr desc) \<Rightarrow>
          configure_loop compile ss (cfg\<lparr>TemplateDescs := TemplateDescs cfg @ [desc]\<rparr>))"

definition Configure ::
  "(bytes \<Rightarrow> (bytes \<Rightarrow> bool) option) \<Rightarrow> tag_config \<Rightarrow> (tag_config \<times> tag_error option) option" where
  "Configure compile cfg =
     (case makeTagMap [] (Tags cfg) of
        None \<Rightarrow> None
      | Some m \<Rightarrow> configure_loop compile (Templates cfg) (cfg\<lparr>TagMap := m\<rparr>))"

subsection \<open>Plain names to tagged names (toGraphiteTagged)\<close>

text \<open>\<open>for k, v := range src { dst[k] = v }\<close>\<close>

definition mapCopy :: "(gomap \<Rightarrow> gomap) \<Rightarrow> gomap \<Rightarrow> gomap \<Rightarrow> gomap" where
  "mapCopy iter src dst = foldl (\<lambda>m (k, v). AList.update k v m) dst (iter src)"

text \<open>The loop \<open>Metric:\<close> over \<open>names[i:]\<close>; \<open>desc.Template[i]\<close> panics when out of range.\<close>

fun template_loop ::
  "bytes \<Rightarrow> bytes list \<Rightarrow> nat \<Rightarrow> bytes list \<Rightarrow> bytes \<Rightarrow> gomap \<Rightarrow> (bytes \<times> gomap) option" where
  "template_loop sep tmpl i [] measurement tagMap = Some (measurement, tagMap)"
| "template_loop sep tmpl i (name # names) measurement tagMap =
     (if i < length tmpl then
        (let t = tmpl ! i in
         if t = [] then template_loop sep tmpl (i + 1) names measurement tagMap
         else if t = str ''measurement'' then
           template_loop sep tmpl (i + 1) names (measurement @ name @ sep) tagMap
         else if t = str ''measurement*'' then
           Some (measurement @ joinWith sep (name # names), tagMap)
         else
           template_loop sep tmpl (i + 1) names measurement
             (case map_of tagMap t of
                Some prefix \<Rightarrow> AList.update t (prefix @ sep @ name) tagMap
              | None \<Rightarrow> AList.update t name tagMap))
      else None)"

definition tagText :: "gomap \<Rightarrow> bytes" where
  "tagText m = concat (map (\<lambda>(k, v). cSemi # k @ cEq # v) m)"

fun toGraphiteTagged_loop ::
  "(gomap \<Rightarrow> gomap) \<Rightarrow> tag_config \<Rightarrow> bytes \<Rightarrow> template_desc list \<Rightarrow> bytes option" where
  "toGraphiteTagged_loop iter cfg s [] = Some []"
| "toGraphiteTagged_loop iter cfg s (desc # descs) =
     (if \<not> Filter desc s then toGraphiteTagged_loop iter cfg s descs
      else
        (let tagMap = mapCopy iter (ExtraTags desc) (mapCopy iter (TagMap cfg) []);
             names = splitOn cDot s;
             tmpl = Template desc
         in
         if tmpl = [] then None
         else if length names \<noteq> length tmpl \<and> \<not> HasSuffix (last tmpl) [cStar]
            \<or> length names < length tmpl
         then toGraphiteTagged_loop iter cfg s descs
         else
           (case template_loop (Separator cfg) tmpl 0 names [] tagMap of
              None \<Rightarrow> None
            | Some (measurement, tagMap) \<Rightarrow>
                (let measurement = (if HasSuffix measurement (str ''_'')
                                    then take (length measurement - 1) measurement else measurement)
                 in Some (measurement @ tagText (iter tagMap))))))"

definition toGraphiteTagged :: "(gomap \<Rightarrow> gomap) \<Rightarrow> tag_config \<Rightarrow> bytes \<Rightarrow> bytes option" where
  "toGraphiteTagged iter cfg s = toGraphiteTagged_loop iter cfg s (TemplateDescs cfg)"

subsection \<open>Graphite and GraphiteBuffered\<close>

text \<open>\<open>None\<close>: the call panics. \<open>Graphite\<close> uses a fresh buffer, \<open>GraphiteBuffered\<close> the caller's.\<close>

definition Graphite ::
  "(gomap \<Rightarrow> gomap) \<Rightarrow> tag_config \<Rightarrow> bytes \<Rightarrow> (tag_error + bytes) option" where
  "Graphite iter config s =
     (case (if Enabled config \<and> IndexByte s cSemi = None then toGraphiteTagged iter config s
            else Some s) of
        None \<Rightarrow> None
      | Some s \<Rightarrow>
          (case IndexByte s cSemi of
             None \<Rightarrow> Some (Inr s)
           | Some pos \<Rightarrow>
               if pos = 0 then Some (Inl (NoMetricFound s))
               else
                 (let name = take pos s in
                  case kvParse (drop (pos + 1) s) \<lparr>gbKV = [], gbB = []\<rparr> of
                    (tagBuf, Inl e) \<Rightarrow> Some (Inl e)
                  | (tagBuf, Inr arr) \<Rightarrow>
                      (let arr = uniq (sort_key fst arr);
                           B = PathTo name (gbB tagBuf);
                           B = B @ [cQuest];
                           B = writeTags 0 arr B
                       in Some (Inr B)))))"

definition GraphiteBuffered ::
  "(gomap \<Rightarrow> gomap) \<Rightarrow> tag_config \<Rightarrow> bytes \<Rightarrow> graphite_buf \<Rightarrow>
   (graphite_buf \<times> (tag_error + bytes)) option" where
  "GraphiteBuffered iter config s tagBuf =
     (case (if Enabled config \<and> IndexByte s cSemi = None then toGraphiteTagged iter config s
            else Some s) of
        None \<Rightarrow> None
      | Some s \<Rightarrow>
          (case IndexByte s cSemi of
             None \<Rightarrow> Some (tagBuf, Inr s)
           | Some pos \<Rightarrow>
               if pos = 0 then Some (tagBuf, Inl (NoMetricFound s))
               else
                 (let name = take pos s in
                  case kvParse (drop (pos + 1) s) tagBuf of
                    (tagBuf, Inl e) \<Rightarrow> Some (tagBuf, Inl e)
                  | (tagBuf, Inr arr) \<Rightarrow>
                      (let tagBuf = tagBuf\<lparr>gbB := []\<rparr>;
                           (KV, toDel) = uniq_loop (sort_key fst arr) 0 0 [];
                           arr = take (length KV - toDel) KV;
                           B = PathTo name (gbB tagBuf);
                           B = B @ [cQuest];
                           B = writeTags 0 arr B
                       in Some (tagBuf\<lparr>gbKV := KV, gbB := B\<rparr>, Inr B)))))"

subsection \<open>What kvParse accepts\<close>

definition parseSeg :: "bytes \<Rightarrow> kv option" where
  "parseSeg seg =
     (case IndexByte seg cEq of
        None \<Rightarrow> None
      | Some k \<Rightarrow> if k < 1 then None else Some (take k seg, drop (k + 1) seg))"

lemma parseSeg_Nil [simp]: "parseSeg [] = None"
  by (simp add: parseSeg_def)

lemma parseSeg_key_value [simp]:
  "k \<noteq> [] \<Longrightarrow> cEq \<notin> set k \<Longrightarrow> parseSeg (k @ cEq # v) = Some (k, v)"
  by (auto simp: parseSeg_def)

lemma parseSeg_key: "parseSeg seg = Some (k, v) \<Longrightarrow> k \<noteq> []"
  by (auto simp: parseSeg_def split: option.splits if_splits dest: IndexByte_SomeD)

lemma kvParse_loop_ok:
  "\<forall>seg \<in> set (splitOn cSemi s). parseSeg seg \<noteq> None \<Longrightarrow>
     snd (kvParse_loop path s KV) = Inr (KV @ map (the \<circ> parseSeg) (splitOn cSemi s))"
proof (induction path s KV rule: kvParse_loop.induct)
  case (1 path s KV)
  show ?case
  proof (cases "IndexByte s cSemi")
    case None
    with 1(2) show ?thesis
      by (subst kvParse_loop.simps)
        (auto simp: splitOn_IndexByte [of _ s] parseSeg_def Let_def split: option.splits if_splits)
  next
    case (Some p)
    then have split: "splitOn cSemi s = take p s # splitOn cSemi (drop (Suc p) s)"
      by (simp add: splitOn_IndexByte [of _ s])
    then have seg: "parseSeg (take p s) \<noteq> None" and rest: "\<forall>seg \<in> set (splitOn cSemi (drop (p + 1) s)). parseSeg seg \<noteq> None"
      using 1(2) by auto
    then obtain k where k: "IndexByte (take p s) cEq = Some k" "\<not> k < 1"
      and kv: "parseSeg (take p s) = Some (take k (take p s), drop (k + 1) (take p s))"
      by (auto simp: parseSeg_def split: option.splits if_splits)
    have "p \<noteq> 0" using seg by (cases p) auto
    have "snd (kvParse_loop path (drop (p + 1) s) (KV @ [(take k (take p s), drop (k + 1) (take p s))]))
        = Inr ((KV @ [(take k (take p s), drop (k + 1) (take p s))]) @ map (the \<circ> parseSeg) (splitOn cSemi (drop (p + 1) s)))"
      using Some k \<open>p \<noteq> 0\<close> rest by (intro 1(1)) auto
    with Some k \<open>p \<noteq> 0\<close> split kv show ?thesis
      by (subst kvParse_loop.simps) (simp add: Let_def)
  qed
qed

lemma kvParse_loop_error:
  "\<exists>seg \<in> set (splitOn cSemi s). parseSeg seg = None \<Longrightarrow> \<exists>e. snd (kvParse_loop path s KV) = Inl e"
proof (induction path s KV rule: kvParse_loop.induct)
  case (1 path s KV)
  show ?case
  proof (cases "IndexByte s cSemi")
    case None
    with 1(2) show ?thesis
      by (subst kvParse_loop.simps)
        (auto simp: splitOn_IndexByte [of _ s] parseSeg_def Let_def split: option.splits if_splits)
  next
    case (Some p)
    then have split: "splitOn cSemi s = take p s # splitOn cSemi (drop (Suc p) s)"
      by (simp add: splitOn_IndexByte [of _ s])
    show ?thesis
    proof (cases "parseSeg (take p s)")
      case None
      with Some show ?thesis
        by (subst kvParse_loop.simps) (auto simp: parseSeg_def Let_def split: option.splits if_splits)
    next
      case seg: (Some kv)
      then obtain k where k: "IndexByte (take p s) cEq = Some k" "\<not> k < 1"
        by (auto simp: parseSeg_def split: option.splits if_splits)
      have "p \<noteq> 0" using seg by (cases p) auto
      have "\<exists>e. snd (kvParse_loop path (drop (p + 1) s) (KV @ [(take k (take p s), drop (k + 1) (take p s))])) = Inl e"
        using Some k \<open>p \<noteq> 0\<close> 1(2) split seg by (intro 1(1)) auto
      with Some k \<open>p \<noteq> 0\<close> show ?thesis
        by (subst kvParse_loop.simps) (simp add: Let_def)
    qed
  qed
qed

text \<open>What the caller sees of \<open>kvParse\<close>, free of the buffer.\<close>

definition tagsOf :: "bytes \<Rightarrow> kv list option" where
  "tagsOf s =
     (if \<forall>seg \<in> set (splitOn cSemi s). parseSeg seg \<noteq> None
      then Some (map (the \<circ> parseSeg) (splitOn cSemi s)) else None)"

lemma kvParse_result:
  "(case tagsOf s of Some arr \<Rightarrow> snd (kvParse s buf) = Inr arr | None \<Rightarrow> \<exists>e. snd (kvParse s buf) = Inl e)"
  using kvParse_loop_ok [of s s "[]"] kvParse_loop_error [of s s "[]"]
  by (cases "\<forall>seg \<in> set (splitOn cSemi s). parseSeg seg \<noteq> None")
    (auto simp: tagsOf_def kvParse_def simp del: not_None_eq split: prod.split)

lemma kvParse_buffer_free:
  "snd (kvParse s buf) = snd (kvParse s buf')" "gbB (fst (kvParse s buf)) = gbB buf"
  by (simp_all add: kvParse_def split: prod.split)

lemma tagsOf_keys:
  assumes "tagsOf s = Some arr" "(k, v) \<in> set arr"
  shows "k \<noteq> []"
proof -
  from assms(1) have ok: "\<forall>seg \<in> set (splitOn cSemi s). parseSeg seg \<noteq> None"
    and arr: "arr = map (the \<circ> parseSeg) (splitOn cSemi s)"
    unfolding tagsOf_def by (simp_all split: if_splits del: not_None_eq)
  from assms(2) obtain seg where "seg \<in> set (splitOn cSemi s)" "the (parseSeg seg) = (k, v)"
    unfolding arr by auto
  with ok have "parseSeg seg \<noteq> None" "the (parseSeg seg) = (k, v)" by blast+
  then show ?thesis by (cases "parseSeg seg") (auto dest: parseSeg_key)
qed

subsection \<open>The uniq loop keeps the last pair of every key\<close>

fun uniqLast :: "kv list \<Rightarrow> kv list" where
  "uniqLast [] = []"
| "uniqLast [x] = [x]"
| "uniqLast (x # y # xs) = (if fst x = fst y then uniqLast (y # xs) else x # uniqLast (y # xs))"

lemma uniqLast_Nil_iff [simp]: "uniqLast xs = [] \<longleftrightarrow> xs = []"
  by (induction xs rule: uniqLast.induct) auto

lemma uniqLast_last: "xs \<noteq> [] \<Longrightarrow> last (uniqLast xs) = last xs"
  by (induction xs rule: uniqLast.induct) auto

lemma uniqLast_snoc:
  "uniqLast (xs @ [y]) =
     (if xs \<noteq> [] \<and> fst (last xs) = fst y then butlast (uniqLast xs) @ [y] else uniqLast xs @ [y])"
  by (induction xs rule: uniqLast.induct) auto

lemma set_uniqLast: "set (uniqLast xs) \<subseteq> set xs"
  by (induction xs rule: uniqLast.induct) auto

lemma hd_uniqLast: "xs \<noteq> [] \<Longrightarrow> fst (hd (uniqLast xs)) = fst (hd xs)"
  by (induction xs rule: uniqLast.induct) auto

lemma sorted_uniqLast:
  "sorted (map fst xs) \<Longrightarrow> sorted_wrt (<) (map fst (uniqLast xs))"
proof (induction xs rule: uniqLast.induct)
  case (3 x y xs)
  show ?case
  proof (cases "fst x = fst y")
    case False
    have IH: "sorted_wrt (<) (map fst (uniqLast (y # xs)))" using 3 False by simp
    have "fst x < fst z" if "z \<in> set (uniqLast (y # xs))" for z
    proof -
      from that set_uniqLast have "z \<in> set (y # xs)" by blast
      with 3(3) False show ?thesis by (auto simp: less_le)
    qed
    with IH False show ?thesis by auto
  qed (use 3 in simp)
qed auto

lemma map_of_uniqLast:
  "sorted (map fst xs) \<Longrightarrow> map_of (uniqLast xs) k = map_of (rev xs) k"
proof (induction xs rule: uniqLast.induct)
  case (3 x y xs)
  show ?case
  proof (cases "fst x = fst y")
    case True
    then have "map_of (rev (y # xs)) (fst x) \<noteq> None"
      by (metis list.set_intros(1) map_of_eq_None_iff set_rev image_eqI)
    with True 3 show ?thesis by (auto simp: map_add_def split: option.splits)
  next
    case False
    with 3(3) have "fst x \<notin> fst ` set (y # xs)" by auto
    then have "map_of (rev (y # xs)) (fst x) = None"
      by (simp only: map_of_eq_None_iff set_rev not_False_eq_True)
    with False 3 show ?thesis by (cases x) (auto simp: map_add_def split: option.splits)
  qed
qed auto

lemma update_last: "ys \<noteq> [] \<Longrightarrow> ys[length ys - 1 := x] = butlast ys @ [x]"
  by (cases ys rule: rev_cases) auto

lemma uniq_loop_spec:
  assumes "uniq_loop arr i toDel prevKey = (arr', d)"
    and "toDel \<le> i" "i \<le> length A" "length arr = length A"
    and "take (i - toDel) arr = uniqLast (take i A)" "drop i arr = drop i A"
    and "prevKey = (if i = 0 then [] else fst (A ! (i - 1)))"
    and "\<forall>x \<in> set A. fst x \<noteq> []"
  shows "length arr' = length A \<and> d \<le> length A \<and> take (length A - d) arr' = uniqLast A"
  using assms
proof (induction arr i toDel prevKey arbitrary: arr' d rule: uniq_loop.induct)
  case (1 arr i toDel prevKey)
  show ?case
  proof (cases "i < length arr")
    case False
    with 1(2-) show ?thesis by (simp add: uniq_loop.simps)
  next
    case True
    then have i: "i < length A" and Ai: "arr ! i = A ! i"
      using 1(5,7) by (metis, metis Cons_nth_drop_Suc nth_via_drop)
    have snoc: "take (i + 1) A = take i A @ [A ! i]" using i by (simp add: take_Suc_conv_app_nth)
    have lasti: "last (take i A) = A ! (i - 1)" "take i A \<noteq> []" if "i \<noteq> 0"
    proof -
      show "take i A \<noteq> []" using i that by auto
      then show "last (take i A) = A ! (i - 1)" using i that by (simp add: last_conv_nth)
    qed
    have dropS: "drop (i + 1) arr = drop (i + 1) A"
      using 1(7) by (metis drop_drop add.commute)
    show ?thesis
    proof (cases "fst (arr ! i) = prevKey")
      case dup: True
      have "i \<noteq> 0" using dup Ai 1(8,9) i by (auto split: if_splits)
      let ?arr = "if 0 < toDel + 1 then arr[i - (toDel + 1) := arr ! i] else arr"
      have step: "uniq_loop ?arr (i + 1) (toDel + 1) prevKey = (arr', d)"
        using 1(2) True dup by (subst (asm) uniq_loop.simps) simp
      have "take (i - toDel) arr \<noteq> []" using 1(6) lasti \<open>i \<noteq> 0\<close> by simp
      then have lt: "toDel < i" by (cases "toDel < i") auto
      have "take (i - toDel) ?arr = butlast (take (i - toDel) arr) @ [arr ! i]"
        using i lt 1(5) update_last [OF \<open>take (i - toDel) arr \<noteq> []\<close>, of "arr ! i"]
        by (simp add: take_update_swap)
      then have pre: "take (i - toDel) ?arr = uniqLast (take (i + 1) A)"
        using dup lasti \<open>i \<noteq> 0\<close> 1(6,8) by (simp only: snoc uniqLast_snoc Ai if_True) simp
      show ?thesis
        by (rule 1(1) [OF True refl _ refl step]) (use dup pre lt i dropS 1(3-9) in \<open>auto simp: Ai\<close>)
    next
      case new: False
      let ?arr = "if 0 < toDel then arr[i - toDel := arr ! i] else arr"
      have step: "uniq_loop ?arr (i + 1) toDel (fst (arr ! i)) = (arr', d)"
        using 1(2) True new by (subst (asm) uniq_loop.simps) simp
      have "take (i + 1 - toDel) ?arr = take (i - toDel) arr @ [arr ! i]"
        using i 1(3,5) by (simp add: Suc_diff_le take_Suc_conv_app_nth)
      then have pre: "take (i + 1 - toDel) ?arr = uniqLast (take (i + 1) A)"
        using new lasti 1(6,8) by (simp only: snoc uniqLast_snoc Ai) auto
      show ?thesis
        by (rule 1(1) [OF True refl _ refl step]) (use new pre i dropS 1(3-9) in \<open>auto simp: Ai\<close>)
    qed
  qed
qed

lemma uniq_eq: "\<forall>x \<in> set A. fst x \<noteq> [] \<Longrightarrow> uniq A = uniqLast A"
  using uniq_loop_spec [of A 0 0 "[]" "fst (uniq_loop A 0 0 [])" "snd (uniq_loop A 0 0 [])" A]
  by (simp add: uniq_def prod.case_eq_if)

subsection \<open>The canonical form\<close>

definition tagPair :: "kv \<Rightarrow> bytes" where
  "tagPair p = QueryTo (fst p) [] @ cEq # QueryTo (snd p) []"

definition taggedName :: "bytes \<Rightarrow> kv list \<Rightarrow> bytes" where
  "taggedName name arr = PathTo name [] @ cQuest # joinWith [cAmp] (map tagPair arr)"

lemma QueryTo_append: "QueryTo s sb = sb @ QueryTo s []"
  and PathTo_append: "PathTo s sb = sb @ PathTo s []"
  by (simp_all add: QueryTo_def PathTo_def escapeTo_exact)

lemma writeTags_later:
  "0 < i \<Longrightarrow> writeTags i arr B = B @ concat (map (\<lambda>p. cAmp # tagPair p) arr)"
proof (induction i arr B rule: writeTags.induct)
  case (2 i k v arr B)
  then show ?case
    by (simp add: tagPair_def QueryTo_append [of k "B @ [cAmp]"] QueryTo_append [of v "_ @ _"] Let_def)
qed simp

lemma joinWith_concat: "joinWith sep (x # xs) = x @ concat (map (\<lambda>y. sep @ y) xs)"
  by (induction xs arbitrary: x) auto

lemma writeTags_eq: "writeTags 0 arr B = B @ joinWith [cAmp] (map tagPair arr)"
proof (cases arr)
  case (Cons p ps)
  then show ?thesis
    by (cases p) (simp add: joinWith_concat writeTags_later tagPair_def Let_def comp_def
        QueryTo_append [of _ B] QueryTo_append [of _ "_ @ _"])
qed simp

lemma finish_eq: "writeTags 0 arr (PathTo name B @ [cQuest]) = B @ taggedName name arr"
  by (simp add: writeTags_eq taggedName_def PathTo_append [of name B])

lemma sort_key_keys: "tagsOf s = Some arr \<Longrightarrow> \<forall>x \<in> set (sort_key fst arr). fst x \<noteq> []"
  using tagsOf_keys by (auto simp del: split_paired_All)

lemma map_of_filter_key: "map_of (filter (\<lambda>p. fst p = k) xs) k = map_of xs k"
  by (induction xs) auto

lemma Graphite_tagged:
  assumes "IndexByte s cSemi = Some pos" "pos \<noteq> 0" "tagsOf (drop (pos + 1) s) = Some arr"
  shows "Graphite iter cfg s = Some (Inr (taggedName (take pos s) (uniqLast (sort_key fst arr))))"
proof -
  have "snd (kvParse (drop (pos + 1) s) \<lparr>gbKV = [], gbB = []\<rparr>) = Inr arr"
    using kvParse_result [of "drop (pos + 1) s"] assms(3) by simp
  moreover have "gbB (fst (kvParse (drop (pos + 1) s) \<lparr>gbKV = [], gbB = []\<rparr>)) = []"
    by (simp add: kvParse_buffer_free)
  ultimately show ?thesis
    using assms(1,2) finish_eq [of _ _ "[]"] uniq_eq [OF sort_key_keys [OF assms(3)]]
    by (simp add: Graphite_def Let_def prod.case_eq_if)
qed

lemma Graphite_tagged_error:
  assumes "IndexByte s cSemi = Some pos" "pos = 0 \<or> tagsOf (drop (pos + 1) s) = None"
  shows "\<exists>e. Graphite iter cfg s = Some (Inl e)"
  using assms kvParse_result [of "drop (pos + 1) s" "\<lparr>gbKV = [], gbB = []\<rparr>"]
  by (cases "pos = 0") (auto simp: Graphite_def Let_def split: prod.split)

lemma Graphite_plain:
  "\<not> Enabled cfg \<Longrightarrow> cSemi \<notin> set s \<Longrightarrow> Graphite iter cfg s = Some (Inr s)"
  by (simp add: Graphite_def)

text \<open>
  C14. A tagged metric gets a canonical name: the tags sorted by key without duplicates, the
  last value given for a key wins.
\<close>

theorem graphite_canonical:
  assumes "name \<noteq> []" "cSemi \<notin> set name" "tagsOf tags = Some arr"
  shows "\<exists>sorted_tags. Graphite iter cfg (name @ cSemi # tags) = Some (Inr (taggedName name sorted_tags))
     \<and> sorted_wrt (<) (map fst sorted_tags) \<and> map_of sorted_tags = map_of (rev arr)"
proof (intro exI conjI)
  show "Graphite iter cfg (name @ cSemi # tags) =
      Some (Inr (taggedName name (uniqLast (sort_key fst arr))))"
    using assms Graphite_tagged [of "name @ cSemi # tags" "length name" arr] by simp
  show "sorted_wrt (<) (map fst (uniqLast (sort_key fst arr)))"
    by (rule sorted_uniqLast) simp
  show "map_of (uniqLast (sort_key fst arr)) = map_of (rev arr)"
  proof
    fix k
    have "filter (\<lambda>p. fst p = k) (sort_key fst arr) = filter (\<lambda>p. fst p = k) arr"
      by (simp add: sort_key_stable)
    then have "map_of (rev (sort_key fst arr)) k = map_of (rev arr) k"
      by (metis map_of_filter_key rev_filter)
    then show "map_of (uniqLast (sort_key fst arr)) k = map_of (rev arr) k"
      by (simp add: map_of_uniqLast)
  qed
qed

theorem graphite_canonical_witness:
  "\<exists>sorted_tags. Graphite id DisabledTagConfig (str ''cpu'' @ cSemi # str ''host=b;dc=x;host=a'')
       = Some (Inr (taggedName (str ''cpu'') sorted_tags))
     \<and> sorted_wrt (<) (map fst sorted_tags)
     \<and> map_of sorted_tags = map_of (rev [(str ''host'', str ''b''), (str ''dc'', str ''x''), (str ''host'', str ''a'')])"
  by (rule graphite_canonical) (simp_all add: tagsOf_def parseSeg_def)

lemma GraphiteBuffered_result:
  "map_option snd (GraphiteBuffered iter cfg s tagBuf) = Graphite iter cfg s"
proof -
  have r: "snd (kvParse p buf) = snd (kvParse p tagBuf)" for p buf
    by (rule kvParse_buffer_free)
  show ?thesis
    by (auto simp: Graphite_def GraphiteBuffered_def uniq_def Let_def prod.case_eq_if
        kvParse_buffer_free r [of _ "\<lparr>gbKV = [], gbB = []\<rparr>"] split: option.split sum.split)
qed

text \<open>
  C15. GraphiteBuffered returns what Graphite returns, whatever an earlier call left in the
  shared buffer.
\<close>

theorem graphite_buffered_equiv:
  "map_option snd (GraphiteBuffered iter cfg s tagBuf) = Graphite iter cfg s"
  by (rule GraphiteBuffered_result)

subsection \<open>The order in which Go visits a map does not matter\<close>

definition tagOk :: "kv \<Rightarrow> bool" where
  "tagOk p \<longleftrightarrow> fst p \<noteq> [] \<and> cSemi \<notin> set (fst p) \<and> cEq \<notin> set (fst p) \<and> cSemi \<notin> set (snd p)"

definition mapOk :: "gomap \<Rightarrow> bool" where
  "mapOk m \<longleftrightarrow> distinct (map fst m) \<and> (\<forall>p \<in> set m. tagOk p)"

definition configOk :: "tag_config \<Rightarrow> bool" where
  "configOk cfg \<longleftrightarrow> cSemi \<notin> set (Separator cfg) \<and> mapOk (TagMap cfg)
     \<and> (\<forall>desc \<in> set (TemplateDescs cfg). mapOk (ExtraTags desc)
          \<and> (\<forall>t \<in> set (Template desc). t \<noteq> [] \<longrightarrow> tagOk (t, [])))"

definition goRange :: "(gomap \<Rightarrow> gomap) \<Rightarrow> bool" where
  "goRange iter \<longleftrightarrow> (\<forall>m. mset (iter m) = mset m)"

lemma goRange_set [simp]: "goRange iter \<Longrightarrow> set (iter m) = set m"
  by (metis goRange_def set_mset_mset)

lemma goRange_distinct [simp]: "goRange iter \<Longrightarrow> distinct (map fst (iter m)) = distinct (map fst m)"
proof -
  assume "goRange iter"
  then have "mset (map fst (iter m)) = mset (map fst m)" by (simp add: goRange_def)
  then show ?thesis by (rule mset_eq_imp_distinct_iff)
qed

lemma goRange_mapOk [simp]: "goRange iter \<Longrightarrow> mapOk (iter m) = mapOk m"
  by (simp add: mapOk_def)

lemma goRange_map_of [simp]: "goRange iter \<Longrightarrow> mapOk m \<Longrightarrow> map_of (iter m) = map_of m"
  by (simp add: mapOk_def map_of_inject_set)

lemma mapOk_update: "mapOk m \<Longrightarrow> tagOk (k, v) \<Longrightarrow> mapOk (AList.update k v m)"
proof -
  assume m: "mapOk m" and kv: "tagOk (k, v)"
  have d: "distinct (map fst (AList.update k v m))"
    using m by (simp add: mapOk_def distinct_update)
  have "tagOk p" if "p \<in> set (AList.update k v m)" for p
  proof -
    from that d have "map_of (AList.update k v m) (fst p) = Some (snd p)" by simp
    with m kv show ?thesis
      by (cases p) (auto simp: update_conv' mapOk_def split: if_splits dest: map_of_SomeD)
  qed
  with d show ?thesis by (simp add: mapOk_def)
qed

text \<open>Two representations of the same map.\<close>

definition mapEq :: "gomap \<Rightarrow> gomap \<Rightarrow> bool" where
  "mapEq m m' \<longleftrightarrow> mapOk m \<and> mapOk m' \<and> map_of m = map_of m'"

lemma mapEq_update: "mapEq m m' \<Longrightarrow> tagOk (k, v) \<Longrightarrow> mapEq (AList.update k v m) (AList.update k v m')"
  by (simp add: mapEq_def mapOk_update update_conv')

lemma mapEq_mset: "mapEq m m' \<Longrightarrow> mset m = mset m'"
proof -
  assume "mapEq m m'"
  then have "set m = set m'" "distinct m" "distinct m'"
    by (auto simp: mapEq_def mapOk_def map_of_inject_set distinct_map)
  then show ?thesis by (simp add: set_eq_iff_mset_eq_distinct)
qed

lemma foldl_update:
  "mapOk dst \<Longrightarrow> \<forall>p \<in> set l. tagOk p \<Longrightarrow>
     mapOk (foldl (\<lambda>m (k, v). AList.update k v m) dst l)
     \<and> map_of (foldl (\<lambda>m (k, v). AList.update k v m) dst l) = map_of dst ++ map_of (rev l)"
  by (induction l arbitrary: dst) (auto simp: mapOk_update update_conv')

lemma mapEq_copy:
  assumes "goRange iter" "goRange iter'" "mapOk src" "mapEq dst dst'"
  shows "mapEq (mapCopy iter src dst) (mapCopy iter' src dst')"
proof -
  have "map_of (rev (iter src)) = map_of src" "map_of (rev (iter' src)) = map_of src"
    using assms by (simp_all add: mapOk_def map_of_inject_set rev_map [symmetric])
  with assms foldl_update [of dst "iter src"] foldl_update [of dst' "iter' src"] show ?thesis
    by (simp add: mapEq_def mapCopy_def mapOk_def)
qed

lemma template_loop_order:
  assumes "mapEq m m'" "cSemi \<notin> set sep" "cSemi \<notin> set ms" "\<forall>n \<in> set names. cSemi \<notin> set n"
    and "\<forall>t \<in> set tmpl. t \<noteq> [] \<longrightarrow> tagOk (t, [])"
  shows "rel_option (\<lambda>(a, x) (b, y). a = b \<and> cSemi \<notin> set a \<and> mapEq x y)
           (template_loop sep tmpl i names ms m) (template_loop sep tmpl i names ms m')"
  using assms
proof (induction sep tmpl i names ms m arbitrary: m' rule: template_loop.induct)
  case (2 sep tmpl i name names ms m)
  consider "\<not> i < length tmpl" | "i < length tmpl" "tmpl ! i = []"
    | "i < length tmpl" "tmpl ! i = str ''measurement''"
    | "i < length tmpl" "tmpl ! i = str ''measurement*''"
    | "i < length tmpl" "tmpl ! i \<noteq> []" "tmpl ! i \<noteq> str ''measurement''"
        "tmpl ! i \<noteq> str ''measurement*''"
    by blast
  then show ?case
  proof cases
    case 4
    have "cSemi \<notin> set (joinWith sep (name # names))"
      using 2(5,7) by (auto simp: joinWith_concat)
    with 4 2(4-8) show ?thesis by simp
  next
    case 5
    then have t: "tmpl ! i \<in> set tmpl" by simp
    let ?v = "\<lambda>m. (case map_of m (tmpl ! i) of Some prefix \<Rightarrow> prefix @ sep @ name | None \<Rightarrow> name)"
    have upd: "(case map_of x (tmpl ! i) of Some prefix \<Rightarrow> AList.update (tmpl ! i) (prefix @ sep @ name) x
       | None \<Rightarrow> AList.update (tmpl ! i) name x) = AList.update (tmpl ! i) (?v x) x" for x
      by (simp split: option.split)
    have "cSemi \<notin> set (?v m)"
      using 2(4,5,7) by (auto simp: mapEq_def mapOk_def tagOk_def split: option.split dest: map_of_SomeD)
    then have "tagOk (tmpl ! i, ?v m)" using 2(8) t 5 by (auto simp: tagOk_def)
    moreover have "?v m = ?v m'" using 2(4) by (simp add: mapEq_def)
    ultimately have "mapEq (AList.update (tmpl ! i) (?v m) m) (AList.update (tmpl ! i) (?v m') m')"
      using mapEq_update [OF 2(4)] by simp
    then have "rel_option (\<lambda>(a, x) (b, y). a = b \<and> cSemi \<notin> set a \<and> mapEq x y)
       (template_loop sep tmpl (i + 1) names ms (AList.update (tmpl ! i) (?v m) m))
       (template_loop sep tmpl (i + 1) names ms (AList.update (tmpl ! i) (?v m') m'))"
      using 2(3) [OF 5(1) refl 5(2-4)] 2(5-8) unfolding upd by simp
    with 5 show ?thesis by (simp add: upd Let_def)
  qed (use 2 in \<open>simp_all add: Let_def\<close>)
qed simp

lemma tagsOf_tagText:
  assumes "\<forall>p \<in> set l. tagOk p" "l \<noteq> []"
  shows "\<exists>t. tagText l = cSemi # t \<and> tagsOf t = Some l"
proof -
  let ?seg = "\<lambda>(k, v). k @ cEq # v"
  have "tagText l = cSemi # joinWith [cSemi] (map ?seg l)"
    using assms(2) by (cases l) (auto simp: tagText_def joinWith_concat comp_def intro!: arg_cong [where f = concat])
  moreover have split: "splitOn cSemi (joinWith [cSemi] (map ?seg l)) = map ?seg l"
    using assms by (intro splitOn_joinWith) (auto simp: tagOk_def)
  have seg: "parseSeg (?seg p) = Some p" if "p \<in> set l" for p
    using assms(1) that by (cases p) (auto simp: tagOk_def)
  then have "tagsOf (joinWith [cSemi] (map ?seg l)) = Some l"
    unfolding tagsOf_def split by (auto intro!: map_idI)
  ultimately show ?thesis by blast
qed

lemma Graphite_of_tagText:
  assumes "\<forall>p \<in> set l. tagOk p" "l \<noteq> []" "cSemi \<notin> set ms" "ms \<noteq> []"
  shows "Graphite iter DisabledTagConfig (ms @ tagText l) = Some (Inr (taggedName ms (uniqLast (sort_key fst l))))"
proof -
  from tagsOf_tagText [OF assms(1,2)] obtain t where "tagText l = cSemi # t" "tagsOf t = Some l" by blast
  with assms show ?thesis
    using Graphite_tagged [of "ms @ cSemi # t" "length ms" l] by simp
qed

lemma Graphite_tagText_order:
  assumes "mapEq m m'" "goRange iter" "goRange iter'" "cSemi \<notin> set ms"
    and "Graphite it DisabledTagConfig (ms @ tagText (iter m)) = Some (Inr p)"
  shows "Graphite it DisabledTagConfig (ms @ tagText (iter' m')) = Some (Inr p)"
proof (cases "m = []")
  case True
  with assms(1) have "m' = []" using mapEq_mset by fastforce
  moreover have "iter [] = []" "iter' [] = []" using assms(2,3) by (metis goRange_set set_empty)+
  ultimately show ?thesis using assms(5) True by simp
next
  case False
  have "mset m = mset m'" using assms(1) by (rule mapEq_mset)
  then have mset: "mset (iter m) = mset (iter' m')" using assms(2,3) by (simp add: goRange_def)
  have d: "distinct (map fst (iter m))" using assms(1,2) by (simp add: mapEq_def mapOk_def)
  have ok: "\<forall>p \<in> set (iter m). tagOk p" "\<forall>p \<in> set (iter' m'). tagOk p"
    using assms(1-3) by (simp_all add: mapEq_def mapOk_def)
  have ne: "iter m \<noteq> []" "iter' m' \<noteq> []" using False mset assms(2) by (metis goRange_set set_empty, metis goRange_set mset.simps(1) mset_zero_iff set_empty)
  have ms: "ms \<noteq> []"
  proof
    assume "ms = []"
    with tagsOf_tagText [OF ok(1) ne(1)] assms(5) show False by (auto simp: Graphite_def DisabledTagConfig_def)
  qed
  have "sort_key fst (iter m) = sort_key fst (iter' m')"
    using d mset by (intro sort_key_inj_key_eq) (simp_all add: distinct_map)
  with Graphite_of_tagText [OF ok(1) ne(1) assms(4) ms] Graphite_of_tagText [OF ok(2) ne(2) assms(4) ms] assms(5)
  show ?thesis by simp
qed

lemma Graphite_enabled:
  "Graphite iter cfg s =
     (case (if Enabled cfg \<and> IndexByte s cSemi = None then toGraphiteTagged iter cfg s else Some s) of
        None \<Rightarrow> None | Some s \<Rightarrow> Graphite it DisabledTagConfig s)"
  unfolding Graphite_def DisabledTagConfig_def by (simp split: option.split)

lemma tagged_loop_order:
  assumes "configOk cfg" "goRange iter" "goRange iter'" "cSemi \<notin> set s"
    and "set descs \<subseteq> set (TemplateDescs cfg)"
    and "toGraphiteTagged_loop iter cfg s descs = Some t" "Graphite it DisabledTagConfig t = Some (Inr p)"
  shows "\<exists>t'. toGraphiteTagged_loop iter' cfg s descs = Some t' \<and> Graphite it DisabledTagConfig t' = Some (Inr p)"
  using assms(5,6)
proof (induction descs)
  case Nil
  with assms(7) show ?case by simp
next
  case (Cons desc descs)
  let ?m = "\<lambda>iter. mapCopy iter (ExtraTags desc) (mapCopy iter (TagMap cfg) [])"
  have desc: "mapOk (ExtraTags desc)" "\<forall>t \<in> set (Template desc). t \<noteq> [] \<longrightarrow> tagOk (t, [])"
    "mapOk (TagMap cfg)" "cSemi \<notin> set (Separator cfg)"
    using assms(1) Cons(2) by (auto simp: configOk_def)
  have m: "mapEq (?m iter) (?m iter')"
    using desc assms(2,3) by (intro mapEq_copy) (simp_all add: mapEq_def mapOk_def)
  have names: "\<forall>n \<in> set (splitOn cDot s). cSemi \<notin> set n"
    using assms(4) set_splitOn by blast
  have rel: "rel_option (\<lambda>(a, x) (b, y). a = b \<and> cSemi \<notin> set a \<and> mapEq x y)
      (template_loop (Separator cfg) (Template desc) 0 (splitOn cDot s) [] (?m iter))
      (template_loop (Separator cfg) (Template desc) 0 (splitOn cDot s) [] (?m iter'))"
    using m desc names by (intro template_loop_order) simp_all
  show ?case
  proof (cases "template_loop (Separator cfg) (Template desc) 0 (splitOn cDot s) [] (?m iter)")
    case None
    with rel Cons show ?thesis by (auto simp: Let_def split: if_splits)
  next
    case (Some r)
    obtain a x where r: "r = (a, x)" by fastforce
    with Some rel obtain y where y: "mapEq x y" "cSemi \<notin> set a"
      "template_loop (Separator cfg) (Template desc) 0 (splitOn cDot s) [] (?m iter') = Some (a, y)"
      by (auto simp: option_rel_Some1)
    let ?a = "if HasSuffix a (str ''_'') then take (length a - 1) a else a"
    have a: "cSemi \<notin> set ?a" using y(2) by (auto dest: in_set_takeD)
    show ?thesis
      using Cons Some r y(3) Graphite_tagText_order [OF y(1) assms(2,3) a, of it p] assms(7)
      by (auto simp: Let_def split: if_splits)
  qed
qed

text \<open>
  C16. The canonical name built from a template does not depend on the order in which Go
  iterates over the tag map.
\<close>

theorem graphite_map_order:
  assumes "configOk cfg" "goRange iter" "goRange iter'"
  shows "Graphite iter cfg s = Some (Inr p) \<longleftrightarrow> Graphite iter' cfg s = Some (Inr p)"
proof -
  have "Graphite iter2 cfg s = Some (Inr p)"
    if it: "Graphite iter1 cfg s = Some (Inr p)" "goRange iter1" "goRange iter2" for iter1 iter2
  proof (cases "Enabled cfg \<and> IndexByte s cSemi = None")
    case True
    with that(1) obtain t where "toGraphiteTagged_loop iter1 cfg s (TemplateDescs cfg) = Some t"
      "Graphite iter1 DisabledTagConfig t = Some (Inr p)"
      unfolding Graphite_enabled [of iter1 cfg s iter1] toGraphiteTagged_def
      by (auto split: option.splits)
    then obtain t' where "toGraphiteTagged_loop iter2 cfg s (TemplateDescs cfg) = Some t'"
      "Graphite iter1 DisabledTagConfig t' = Some (Inr p)"
      using tagged_loop_order [OF assms(1) it(2,3), of s "TemplateDescs cfg" t iter1 p] True
      by (auto simp: IndexByte_None)
    with True show ?thesis
      unfolding Graphite_enabled [of iter2 cfg s iter1] toGraphiteTagged_def by simp
  next
    case False
    with that show ?thesis
      unfolding Graphite_enabled [of iter1 cfg s iter1] Graphite_enabled [of iter2 cfg s iter1]
      by auto
  qed
  with assms show ?thesis by blast
qed

definition exampleConfig :: tag_config where
  "exampleConfig = \<lparr>Enabled = True, Separator = str ''_'', Tags = [], TagMap = [(str ''dc'', str ''eu''), (str ''env'', str ''p'')],
     Templates = [], TemplateDescs = [\<lparr>Filter = (\<lambda>_. True), Template = [str ''host'', str ''measurement*''], ExtraTags = []\<rparr>]\<rparr>"

theorem graphite_map_order_witness:
  "Graphite id exampleConfig (str ''web.cpu.load'') = Some (Inr (str ''cpu_load?dc=eu&env=p&host=web''))
   \<longleftrightarrow> Graphite rev exampleConfig (str ''web.cpu.load'') = Some (Inr (str ''cpu_load?dc=eu&env=p&host=web''))"
  by (rule graphite_map_order)
    (simp_all add: configOk_def exampleConfig_def mapOk_def tagOk_def goRange_def)

subsection \<open>Templates that run past their end\<close>

lemma template_loop_panics:
  "i \<le> length tmpl \<Longrightarrow> template_loop sep tmpl i names ms m = None \<longleftrightarrow>
     length tmpl < i + length names \<and> str ''measurement*'' \<notin> set (drop i tmpl)"
proof (induction sep tmpl i names ms m rule: template_loop.induct)
  case (2 sep tmpl i name names ms m)
  show ?case
  proof (cases "i < length tmpl")
    case True
    then have "drop i tmpl = tmpl ! i # drop (i + 1) tmpl" by (simp add: Cons_nth_drop_Suc)
    with True 2 show ?thesis by (auto simp: Let_def)
  next
    case False
    with 2(4) show ?thesis by simp
  qed
qed simp

text \<open>
  A template whose last element ends with a star but is not the measurement star makes a
  longer metric name index past the template, which panics.
\<close>

theorem template_star_panic:
  assumes "TemplateDescs cfg = desc # descs" "Filter desc s" "Enabled cfg" "cSemi \<notin> set s"
    and "HasSuffix (last (Template desc)) [cStar]" "str ''measurement*'' \<notin> set (Template desc)"
    and "length (Template desc) < length (splitOn cDot s)"
  shows "Graphite iter cfg s = None"
proof -
  have "Template desc = [] \<or> template_loop (Separator cfg) (Template desc) 0 (splitOn cDot s) []
     (mapCopy iter (ExtraTags desc) (mapCopy iter (TagMap cfg) [])) = None"
    using assms(6,7) by (subst template_loop_panics) auto
  then have "toGraphiteTagged iter cfg s = None"
    using assms by (auto simp: toGraphiteTagged_def Let_def)
  with assms show ?thesis by (simp add: Graphite_def)
qed

definition starConfig :: tag_config where
  "starConfig = \<lparr>Enabled = True, Separator = str ''.'', Tags = [], TagMap = [], Templates = [],
     TemplateDescs = [\<lparr>Filter = (\<lambda>_. True), Template = [str ''measurement'', str ''host*''], ExtraTags = []\<rparr>]\<rparr>"

theorem template_star_panic_witness:
  "Graphite id starConfig (str ''cpu.web.eu'') = None"
  by (rule template_star_panic [where desc = "\<lparr>Filter = (\<lambda>_. True), Template = [str ''measurement'', str ''host*''], ExtraTags = []\<rparr>"
        and descs = "[]"])
    (simp_all add: starConfig_def HasSuffix_def)

subsection \<open>Prometheus labels (prometheus.go)\<close>

type_synonym label = "bytes \<times> bytes"

fun nameIndex :: "label list \<Rightarrow> nat option" where
  "nameIndex [] = None"
| "nameIndex ((n, v) # ls) = (if n = str ''__name__'' then Some 0 else map_option Suc (nameIndex ls))"

fun writeLabels :: "nat \<Rightarrow> label list \<Rightarrow> bytes \<Rightarrow> bytes" where
  "writeLabels i [] res = res"
| "writeLabels i ((n, v) # ls) res =
     writeLabels (i + 1) ls ((if i > 1 then res @ [cAmp] else res) @ Query n @ [cEq] @ Query v)"

definition swapFirst :: "nat \<Rightarrow> label list \<Rightarrow> label list" where
  "swapFirst i ls = (if i \<noteq> 0 then ls[0 := ls ! i, i := ls ! 0] else ls)"

definition Prometheus :: "label list \<Rightarrow> bytes" where
  "Prometheus labels =
     (let (labels, nameOffset) =
            (case nameIndex labels of
               None \<Rightarrow> (labels, 0)
             | Some i \<Rightarrow> (swapFirst i labels, 1));
          labels = take nameOffset labels @ sort_key fst (drop nameOffset labels);
          res = (if nameOffset > 0 then Path (snd (labels ! 0)) else []) @ [cQuest]
      in writeLabels 1 (drop 1 labels) res)"

definition labelPair :: "label \<Rightarrow> bytes" where
  "labelPair p = Query (fst p) @ cEq # Query (snd p)"

lemma writeLabels_later:
  "1 < i \<Longrightarrow> writeLabels i ls res = res @ concat (map (\<lambda>p. cAmp # labelPair p) ls)"
  by (induction i ls res rule: writeLabels.induct) (simp_all add: labelPair_def)

lemma writeLabels_eq: "writeLabels 1 ls res = res @ joinWith [cAmp] (map labelPair ls)"
  by (cases ls) (auto simp: joinWith_concat writeLabels_later labelPair_def comp_def)

lemma nameIndex_SomeD:
  "nameIndex ls = Some i \<Longrightarrow> i < length ls \<and> fst (ls ! i) = str ''__name__''"
  by (induction ls arbitrary: i) (auto split: if_splits)

lemma swapFirst_tail:
  assumes "i < length ls"
  shows "swapFirst i ls = ls ! i # drop 1 (swapFirst i ls)"
    and "add_mset (ls ! i) (mset (drop 1 (swapFirst i ls))) = mset ls"
proof -
  show hd: "swapFirst i ls = ls ! i # drop 1 (swapFirst i ls)"
    using assms by (cases ls; cases i) (auto simp: swapFirst_def)
  have "mset (swapFirst i ls) = mset ls"
    using assms mset_swap [of i ls 0] by (cases ls; cases i) (auto simp: swapFirst_def)
  with hd show "add_mset (ls ! i) (mset (drop 1 (swapFirst i ls))) = mset ls"
    by (metis mset.simps(2))
qed

lemma filter_other_keys:
  "distinct (map fst (xs @ y # ys)) \<Longrightarrow> filter (\<lambda>p. fst p \<noteq> fst y) (xs @ y # ys) = xs @ ys"
proof -
  assume "distinct (map fst (xs @ y # ys))"
  then have "fst y \<notin> fst ` set xs" "fst y \<notin> fst ` set ys" by auto
  then have "\<forall>p \<in> set xs. fst p \<noteq> fst y" "\<forall>p \<in> set ys. fst p \<noteq> fst y" by (metis imageI)+
  then have "filter (\<lambda>p. fst p \<noteq> fst y) xs = xs" "filter (\<lambda>p. fst p \<noteq> fst y) ys = ys"
    by (simp_all only: filter_True)
  then show ?thesis by simp
qed

lemma Prometheus_index:
  assumes "nameIndex labels = Some i"
  shows "Prometheus labels = Path (snd (labels ! i)) @ cQuest #
     joinWith [cAmp] (map labelPair (sort_key fst (drop 1 (swapFirst i labels))))"
proof -
  obtain l where "swapFirst i labels = labels ! i # l"
    using swapFirst_tail(1) [of i labels] nameIndex_SomeD [OF assms] by metis
  with assms show ?thesis
    by (simp add: Prometheus_def writeLabels_eq [simplified] Let_def)
qed

text \<open>
  Prometheus labels with distinct names become the escaped metric name followed by the
  other labels sorted by name.
\<close>

theorem prometheus_canonical:
  assumes "distinct (map fst labels)" "(str ''__name__'', value) \<in> set labels"
  shows "Prometheus labels = Path value @ cQuest #
     joinWith [cAmp] (map labelPair (sort_key fst (filter (\<lambda>p. fst p \<noteq> str ''__name__'') labels)))"
proof -
  let ?n = "str ''__name__''"
  have "nameIndex labels \<noteq> None"
    using assms(2) by (induction labels rule: nameIndex.induct) auto
  then obtain i where i: "nameIndex labels = Some i" by auto
  then have len: "i < length labels" and fi: "fst (labels ! i) = ?n" using nameIndex_SomeD by auto
  have li: "labels ! i = (?n, value)"
    using assms len fi by (metis eq_key_imp_eq_value nth_mem prod.collapse)
  let ?o = "filter (\<lambda>p. fst p \<noteq> ?n) labels" and ?t = "drop 1 (swapFirst i labels)"
  have parts: "labels = take i labels @ labels ! i # drop (Suc i) labels" using len by (rule id_take_nth_drop)
  then have "?o = take i labels @ drop (Suc i) labels"
    using filter_other_keys [of "take i labels" "labels ! i" "drop (Suc i) labels"] assms(1) fi by simp
  then have "add_mset (labels ! i) (mset ?o) = mset labels"
    by (subst (2) parts) simp
  with swapFirst_tail(2) [OF len] have m: "mset ?t = mset ?o" by (metis add_mset_add_mset_same_iff)
  have "inj_on fst (set ?t)"
    using assms(1) mset_eq_setD [OF m] inj_on_subset [of fst "set labels"] by (auto simp: distinct_map)
  then have "sort_key fst ?t = sort_key fst ?o"
    using m by (intro sort_key_inj_key_eq) simp_all
  with Prometheus_index [OF i] li show ?thesis by simp
qed

theorem prometheus_canonical_witness:
  "Prometheus [(str ''job'', str ''a''), (str ''__name__'', str ''up''), (str ''dc'', str ''eu'')]
     = Path (str ''up'') @ cQuest # joinWith [cAmp] (map labelPair (sort_key fst
         (filter (\<lambda>p. fst p \<noteq> str ''__name__'') [(str ''job'', str ''a''), (str ''__name__'', str ''up''), (str ''dc'', str ''eu'')])))"
  by (rule prometheus_canonical) simp_all

end
