(* ===== verification/Proto_Prom.thy ===== *)
theory Proto_Prom
  imports Protobuf GraphiteTags
begin

text \<open>
  The messages of a Prometheus remote-write request, from \<^verbatim>\<open>helper/prompb/types.pb.go\<close> and
  \<^verbatim>\<open>helper/prompb/remote.pb.go\<close>: \<open>Sample\<close>, \<open>Label\<close>, \<open>TimeSeries\<close> and \<open>WriteRequest\<close>, each with its size, its encoder and its
  decoder. A message is the tuple of its fields; the pointers in a repeated field are not nil. The messages of
  remote reads, which the program does not use, are not here.
\<close>

type_synonym prom_sample = "float64 \<times> uint64"
type_synonym prom_series = "label list \<times> prom_sample list"

subsection \<open>Encoding\<close>

definition sampleSize :: "prom_sample \<Rightarrow> nat" where
  "sampleSize s = (if floatZero (fst s) then 0 else 9) + (if snd s = 0 then 0 else 1 + sov (snd s))"

definition sampleTo :: "prom_sample \<Rightarrow> bytes" where
  "sampleTo s = (if floatZero (fst s) then [] else 0x09 # putUint64 (fst s))
     @ (if snd s = 0 then [] else 0x10 # encodeVarint (snd s))"

definition labelSize :: "label \<Rightarrow> nat" where
  "labelSize l = stringSize (fst l) + stringSize (snd l)"

definition labelTo :: "label \<Rightarrow> bytes" where
  "labelTo l = stringField 0x0a (fst l) @ stringField 0x12 (snd l)"

definition timeSeriesSize :: "prom_series \<Rightarrow> nat" where
  "timeSeriesSize x = sum_list (map (lenSize \<circ> labelSize) (fst x)) + sum_list (map (lenSize \<circ> sampleSize) (snd x))"

definition timeSeriesTo :: "prom_series \<Rightarrow> bytes" where
  "timeSeriesTo x = concat (map (messageField 0x0a labelSize labelTo) (fst x))
     @ concat (map (messageField 0x12 sampleSize sampleTo) (snd x))"

definition writeRequestSize :: "prom_series list \<Rightarrow> nat" where
  "writeRequestSize xs = sum_list (map (lenSize \<circ> timeSeriesSize) xs)"

definition writeRequestTo :: "prom_series list \<Rightarrow> bytes" where
  "writeRequestTo xs = concat (map (messageField 0x0a timeSeriesSize timeSeriesTo) xs)"

definition marshalWriteRequest :: "prom_series list \<Rightarrow> bytes option" where
  "marshalWriteRequest = marshal writeRequestSize writeRequestTo"

subsection \<open>Decoding\<close>

definition sampleField :: "prom_sample field_handler" where
  "sampleField f wt l r m =
     (if f = 1 then doubleField wt r (\<lambda>v. (v, snd m))
      else if f = 2 then varintField wt r (\<lambda>t. (fst m, t))
      else UnknownField)"

definition unmarshalSample :: "bytes \<Rightarrow> (proto_error + prom_sample) option" where
  "unmarshalSample = decodeMessage sampleField (0, 0)"

definition labelField :: "label field_handler" where
  "labelField f wt l r m =
     (if f = 1 then lenField wt l r (\<lambda>bs. Some (Inr (bs, snd m)))
      else if f = 2 then lenField wt l r (\<lambda>bs. Some (Inr (fst m, bs)))
      else UnknownField)"

definition unmarshalLabel :: "bytes \<Rightarrow> (proto_error + label) option" where
  "unmarshalLabel = decodeMessage labelField ([], [])"

definition timeSeriesField :: "prom_series field_handler" where
  "timeSeriesField f wt l r m =
     (if f = 1 then lenField wt l r (\<lambda>bs. map_option (map_sum id (\<lambda>x. (fst m @ [x], snd m))) (unmarshalLabel bs))
      else if f = 2 then lenField wt l r (\<lambda>bs. map_option (map_sum id (\<lambda>x. (fst m, snd m @ [x]))) (unmarshalSample bs))
      else UnknownField)"

definition unmarshalTimeSeries :: "bytes \<Rightarrow> (proto_error + prom_series) option" where
  "unmarshalTimeSeries = decodeMessage timeSeriesField ([], [])"

definition writeRequestField :: "prom_series list field_handler" where
  "writeRequestField f wt l r m =
     (if f = 1 then lenField wt l r (\<lambda>bs. map_option (map_sum id (\<lambda>x. m @ [x])) (unmarshalTimeSeries bs))
      else UnknownField)"

definition unmarshalWriteRequest :: "bytes \<Rightarrow> (proto_error + prom_series list) option" where
  "unmarshalWriteRequest = decodeMessage writeRequestField []"

subsection \<open>Every message type meets the contract\<close>

text \<open>Negative zero is not written, so it does not come back.\<close>

definition okSample :: "prom_sample \<Rightarrow> bool" where
  "okSample s \<longleftrightarrow> fst s \<noteq> 0x8000000000000000"

definition okSeries :: "prom_series \<Rightarrow> bool" where
  "okSeries x \<longleftrightarrow> list_all okSample (snd x)"

lemma unmarshalSample_to: "okSample s \<Longrightarrow> unmarshalSample (sampleTo s) = Some (Inr s)"
proof -
  assume ok: "okSample s"
  let ?l = "length (sampleTo s)"
  have v: "decodeLoop sampleField ?l (0, 0) (sampleTo s)
      = decodeLoop sampleField ?l (fst s, 0) (if snd s = 0 then [] else 0x10 # encodeVarint (snd s))"
    using ok decodeLoop_double [of "0x09" 1 sampleField _ "fst s" _ "(0, 0)" "\<lambda>v. (v, 0)"]
    by (cases "floatZero (fst s)") (auto simp: sampleTo_def sampleField_def okSample_def floatZero_def)
  also have "\<dots> = Some (Inr s)"
    using decodeLoop_varint [of "0x10" 2 sampleField ?l "snd s" "[]" "(fst s, 0)" "\<lambda>t. (fst s, t)"]
    by (cases s) (auto simp: sampleField_def encodeVarint_eq)
  finally show ?thesis by (simp add: unmarshalSample_def decodeMessage_def)
qed

interpretation pbSample: message_codec sampleSize sampleTo unmarshalSample okSample
proof unfold_locales
  fix s
  show "sampleSize s = length (sampleTo s)" by (simp add: sampleSize_def sampleTo_def sov_eq encodeVarint_eq)
  show "okSample s \<Longrightarrow> unmarshalSample (sampleTo s) = Some (Inr s)" by (rule unmarshalSample_to)
qed

lemma unmarshalLabel_to: "length (labelTo x) < 2 ^ 63 \<Longrightarrow> unmarshalLabel (labelTo x) = Some (Inr x)"
proof -
  assume len: "length (labelTo x) < 2 ^ 63"
  let ?l = "length (labelTo x)"
  have "decodeLoop labelField ?l ([], []) (labelTo x) = decodeLoop labelField ?l (fst x, []) (stringField 0x12 (snd x))"
    using decodeLoop_string [of "0x0a" 1 labelField ?l "\<lambda>s m. (s, snd m)" "fst x" "stringField 0x12 (snd x)" "([], [])"] len
    by (auto simp: labelTo_def labelField_def)
  also have "\<dots> = Some (Inr x)"
    using decodeLoop_string [of "0x12" 2 labelField ?l "\<lambda>s m. (fst m, s)" "snd x" "[]" "(fst x, [])"] len
    by (cases x) (auto simp: labelTo_def labelField_def)
  finally show ?thesis by (simp add: unmarshalLabel_def decodeMessage_def)
qed

interpretation pbLabel: message_codec labelSize labelTo unmarshalLabel "\<lambda>_. True"
proof unfold_locales
  fix x
  show "labelSize x = length (labelTo x)"
    by (simp add: labelSize_def labelTo_def stringSize_eq [of "fst x" "0x0a"] stringSize_eq [of "snd x" "0x12"])
  show "length (labelTo x) < 2 ^ 63 \<Longrightarrow> unmarshalLabel (labelTo x) = Some (Inr x)" by (rule unmarshalLabel_to)
qed

lemma fold_snoc_fst: "fold (\<lambda>x m. (fst m @ [x], snd m)) xs (ys, zs) = (ys @ xs, zs)"
  by (induction xs arbitrary: ys) simp_all

lemma fold_snoc_snd: "fold (\<lambda>x m. (fst m, snd m @ [x])) xs (ys, zs) = (ys, zs @ xs)"
  by (induction xs arbitrary: zs) simp_all

lemma fold_snoc: "fold (\<lambda>x m. m @ [x]) xs ys = ys @ xs"
  by (induction xs arbitrary: ys) simp_all

lemma unmarshalTimeSeries_to:
  assumes "okSeries x" "length (timeSeriesTo x) < 2 ^ 63"
  shows "unmarshalTimeSeries (timeSeriesTo x) = Some (Inr x)"
proof -
  let ?l = "length (timeSeriesTo x)" let ?S = "concat (map (messageField 0x12 sampleSize sampleTo) (snd x))"
  have "decodeLoop timeSeriesField ?l ([], []) (timeSeriesTo x) = decodeLoop timeSeriesField ?l (fst x, []) ?S"
    using pbLabel.repeated [of "0x0a" 1 timeSeriesField ?l "\<lambda>x m. (fst m @ [x], snd m)" "fst x" ?S "([], [])"] assms(2)
    by (simp add: timeSeriesTo_def timeSeriesField_def fold_snoc_fst)
  also have "\<dots> = Some (Inr x)"
    using pbSample.repeated [of "0x12" 2 timeSeriesField ?l "\<lambda>x m. (fst m, snd m @ [x])" "snd x" "[]" "(fst x, [])"] assms
    by (simp add: timeSeriesTo_def timeSeriesField_def fold_snoc_snd okSeries_def list_all_iff)
  finally show ?thesis by (simp add: unmarshalTimeSeries_def decodeMessage_def)
qed

interpretation pbSeries: message_codec timeSeriesSize timeSeriesTo unmarshalTimeSeries okSeries
proof unfold_locales
  fix x
  show "timeSeriesSize x = length (timeSeriesTo x)"
    by (simp only: timeSeriesSize_def timeSeriesTo_def length_append pbLabel.fields_size [where tag = "0x0a"]
        pbSample.fields_size [where tag = "0x12"])
  show "okSeries x \<Longrightarrow> length (timeSeriesTo x) < 2 ^ 63 \<Longrightarrow> unmarshalTimeSeries (timeSeriesTo x) = Some (Inr x)"
    by (rule unmarshalTimeSeries_to)
qed

interpretation pbRequest: message_codec writeRequestSize writeRequestTo unmarshalWriteRequest "list_all okSeries"
proof unfold_locales
  fix xs
  show "writeRequestSize xs = length (writeRequestTo xs)"
    by (simp only: writeRequestSize_def writeRequestTo_def pbSeries.fields_size [where tag = "0x0a"])
  show "unmarshalWriteRequest (writeRequestTo xs) = Some (Inr xs)"
    if "list_all okSeries xs" "length (writeRequestTo xs) < 2 ^ 63"
    using pbSeries.repeated [of "0x0a" 1 writeRequestField "length (writeRequestTo xs)" "\<lambda>x m. m @ [x]" xs "[]" "[]"] that
    by (simp add: writeRequestTo_def writeRequestField_def fold_snoc list_all_iff unmarshalWriteRequest_def decodeMessage_def)
qed

text \<open>
  C36. A remote-write request that Marshal encodes is what Unmarshal decodes: marshalling does
  not run past its buffer, and every series, label and sample comes back in order, for every
  request that fits into a slice and has no sample of negative zero.
\<close>

theorem write_request_roundtrip:
  assumes "list_all okSeries xs" "writeRequestSize xs < 2 ^ 63"
  shows "Option.bind (marshalWriteRequest xs) unmarshalWriteRequest = Some (Inr xs)"
  using assms unfolding marshalWriteRequest_def by (rule pbRequest.roundtrip)

theorem write_request_roundtrip_witness:
  "Option.bind (marshalWriteRequest [([(str ''__name__'', str ''up''), (str ''dc'', [])], [(1, 1000), (0, 2000)])]) unmarshalWriteRequest
     = Some (Inr [([(str ''__name__'', str ''up''), (str ''dc'', [])], [(1, 1000), (0, 2000)])])"
proof (rule write_request_roundtrip)
  show "list_all okSeries [([(str ''__name__'', str ''up''), (str ''dc'', [])], [(1, 1000), (0, 2000)])]"
    by (simp add: okSeries_def okSample_def)
  show "writeRequestSize [([(str ''__name__'', str ''up''), (str ''dc'', [])], [(1, 1000), (0, 2000)])] < 2 ^ 63"
    by (simp add: writeRequestSize_def timeSeriesSize_def labelSize_def sampleSize_def stringSize_def lenSize_def
        floatZero_def sov.simps)
qed

text \<open>A sample of negative zero comes back as zero.\<close>

lemma negative_zero_lost: "Option.bind (marshal sampleSize sampleTo (0x8000000000000000, t)) unmarshalSample = Some (Inr (0, t))"
proof -
  have "sampleTo (0x8000000000000000, t) = sampleTo (0, t)" by (simp add: sampleTo_def floatZero_def)
  moreover have "unmarshalSample (sampleTo (0, t)) = Some (Inr (0, t))"
    by (rule unmarshalSample_to) (simp add: okSample_def)
  ultimately show ?thesis by (simp add: pbSample.marshalled)
qed

end
