(* ===== verification/Recv_Base.thy ===== *)
theory Recv_Base
  imports RB_Writer GraphiteTags Strconv
begin

text \<open>
  \<^verbatim>\<open>receiver/base.go\<close>, \<^verbatim>\<open>receiver/receiver.go\<close>, \<^verbatim>\<open>receiver/buffer.go\<close>: what all receivers share, the
  drop rules, the list of dropped points, the counters and the constructor options.

  The counters are \<open>uint64\<close> words and wrap. Formatting a float (\<open>%#v\<close>) is a parameter.
\<close>

definition droppedListSize :: nat where "droppedListSize = 1000"

record base_stat =
  samplesReceived :: uint64
  messagesReceived :: uint64
  metricsReceived :: uint64
  errors :: uint64
  active :: uint64
  incompleteReceived :: uint64
  futureDropped :: uint64
  pastDropped :: uint64
  tooLongDropped :: uint64

definition zeroStat :: base_stat where
  "zeroStat = \<lparr>samplesReceived = 0, messagesReceived = 0, metricsReceived = 0, errors = 0, active = 0,
     incompleteReceived = 0, futureDropped = 0, pastDropped = 0, tooLongDropped = 0\<rparr>"

record base =
  stat :: base_stat
  droppedList :: "bytes list"
  droppedListNext :: nat
  parseThreads :: int
  dropFutureSeconds :: uint32
  dropPastSeconds :: uint32
  dropTooLongLimit :: uint16
  readTimeoutSeconds :: uint32
  writeChan :: "write_buffer list"
  baseTags :: tag_config
  concatCharacter :: bytes

text \<open>The zero value of the struct.\<close>

definition zeroBase :: base where
  "zeroBase = \<lparr>stat = zeroStat, droppedList = replicate droppedListSize [], droppedListNext = 0,
     parseThreads = 0, dropFutureSeconds = 0, dropPastSeconds = 0, dropTooLongLimit = 0,
     readTimeoutSeconds = 0, writeChan = [], baseTags = DisabledTagConfig, concatCharacter = []\<rparr>"

subsection \<open>Constructor options\<close>

datatype rcv_option =
    WriteChan "write_buffer list"
  | ParseThreads int
  | DropFuture uint32
  | DropPast uint32
  | DropLongerThan uint16
  | ReadTimeout uint32
  | ConcatChar bytes

fun optApply :: "rcv_option \<Rightarrow> base \<Rightarrow> base" where
  "optApply (WriteChan ch) t = t\<lparr>writeChan := ch\<rparr>"
| "optApply (ParseThreads threads) t = t\<lparr>parseThreads := threads\<rparr>"
| "optApply (DropFuture seconds) t = t\<lparr>dropFutureSeconds := seconds\<rparr>"
| "optApply (DropPast seconds) t = t\<lparr>dropPastSeconds := seconds\<rparr>"
| "optApply (DropLongerThan maximumLength) t = t\<lparr>dropTooLongLimit := maximumLength\<rparr>"
| "optApply (ReadTimeout seconds) t = t\<lparr>readTimeoutSeconds := seconds\<rparr>"
| "optApply (ConcatChar concat_c) t = t\<lparr>concatCharacter := concat_c\<rparr>"

definition Init :: "tag_config \<Rightarrow> rcv_option list \<Rightarrow> base \<Rightarrow> base" where
  "Init config opts b = fold optApply opts (b\<lparr>baseTags := config\<rparr>)"

text \<open>
  \<open>New\<close>: the scheme selects the receiver. \<open>parse\<close> is \<open>url.Parse\<close> (scheme and host), \<open>resolve\<close> the
  address lookup for a network and \<open>listen\<close> whether binding succeeds.
\<close>

datatype rcv_kind = TCP | Pickle | UDP | GRPC | PrometheusRemoteWrite | TelegrafHttpJson

datatype new_error = UrlError | ResolveError | ListenError | UnknownProto bytes

definition schemeKind :: "bytes \<Rightarrow> (rcv_kind \<times> bytes) option" where
  "schemeKind scheme =
     (if scheme = str ''tcp'' then Some (TCP, str ''tcp'')
      else if scheme = str ''pickle'' then Some (Pickle, str ''tcp'')
      else if scheme = str ''udp'' then Some (UDP, str ''udp'')
      else if scheme = str ''grpc'' then Some (GRPC, str ''tcp'')
      else if scheme = str ''prometheus'' then Some (PrometheusRemoteWrite, str ''tcp'')
      else if scheme = str ''telegraf+http+json'' then Some (TelegrafHttpJson, str ''tcp'')
      else None)"

definition New ::
  "(bytes \<Rightarrow> (bytes \<times> bytes) option) \<Rightarrow> (bytes \<Rightarrow> bytes \<Rightarrow> 'addr option) \<Rightarrow> (rcv_kind \<Rightarrow> 'addr \<Rightarrow> base \<Rightarrow> bool) \<Rightarrow>
   bytes \<Rightarrow> tag_config \<Rightarrow> rcv_option list \<Rightarrow> new_error + rcv_kind \<times> base" where
  "New parse resolve listen dsn config opts =
     (case parse dsn of
        None \<Rightarrow> Inl UrlError
      | Some (scheme, host) \<Rightarrow>
          (case schemeKind scheme of
             None \<Rightarrow> Inl (UnknownProto scheme)
           | Some (kind, network) \<Rightarrow>
               (case resolve network host of
                  None \<Rightarrow> Inl ResolveError
                | Some addr \<Rightarrow>
                    (let r = Init config opts zeroBase in
                     if listen kind addr r then Inr (kind, r) else Inl ListenError))))"

subsection \<open>Drop rules\<close>

definition isDrop :: "uint32 \<Rightarrow> uint32 \<Rightarrow> base \<Rightarrow> base \<times> bool" where
  "isDrop nowTime metricTime base =
     (if dropFutureSeconds base \<noteq> 0 \<and> metricTime > nowTime + dropFutureSeconds base then
        (base\<lparr>stat := (stat base)\<lparr>futureDropped := futureDropped (stat base) + 1\<rparr>\<rparr>, True)
      else if dropPastSeconds base \<noteq> 0 \<and> nowTime > metricTime + dropPastSeconds base then
        (base\<lparr>stat := (stat base)\<lparr>pastDropped := pastDropped (stat base) + 1\<rparr>\<rparr>, True)
      else (base, False))"

definition isDropMetricNameTooLong :: "bytes \<Rightarrow> base \<Rightarrow> base \<times> bool" where
  "isDropMetricNameTooLong name base =
     (if dropTooLongLimit base \<noteq> 0 \<and> length name > unat (dropTooLongLimit base) then
        (base\<lparr>stat := (stat base)\<lparr>tooLongDropped := tooLongDropped (stat base) + 1\<rparr>\<rparr>, True)
      else (base, False))"

definition droppedText :: "(float64 \<Rightarrow> bytes) \<Rightarrow> bytes \<Rightarrow> uint32 \<Rightarrow> uint32 \<Rightarrow> float64 \<Rightarrow> bytes" where
  "droppedText fmtFloat name nowTime metricTime value =
     str ''rcv:'' @ itoa (unat nowTime) @ [9] @ str ''name:'' @ name @ [9] @ str ''timestamp:''
     @ itoa (unat metricTime) @ [9] @ str ''value:'' @ fmtFloat value"

definition saveDropped ::
  "(float64 \<Rightarrow> bytes) \<Rightarrow> bytes \<Rightarrow> uint32 \<Rightarrow> uint32 \<Rightarrow> float64 \<Rightarrow> base \<Rightarrow> base" where
  "saveDropped fmtFloat name nowTime metricTime value base =
     base\<lparr>droppedList := (droppedList base)[droppedListNext base mod droppedListSize :=
            droppedText fmtFloat name nowTime metricTime value],
          droppedListNext := droppedListNext base + 1\<rparr>"

definition isDropString ::
  "(float64 \<Rightarrow> bytes) \<Rightarrow> bytes \<Rightarrow> uint32 \<Rightarrow> uint32 \<Rightarrow> float64 \<Rightarrow> base \<Rightarrow> base \<times> bool" where
  "isDropString fmtFloat name nowTime metricTime value base =
     (let (base, d) = isDrop nowTime metricTime base;
          (base, d) = (if d then (base, True) else isDropMetricNameTooLong name base)
      in if \<not> d then (base, False)
         else (saveDropped fmtFloat name nowTime metricTime value base, True))"

definition isDropBytes ::
  "(float64 \<Rightarrow> bytes) \<Rightarrow> bytes \<Rightarrow> uint32 \<Rightarrow> uint32 \<Rightarrow> float64 \<Rightarrow> base \<Rightarrow> base \<times> bool" where
  "isDropBytes fmtFloat name nowTime metricTime value base =
     (let (base, d) = isDrop nowTime metricTime base;
          (base, d) = (if d then (base, True) else isDropMetricNameTooLong name base)
      in if \<not> d then (base, False)
         else (saveDropped fmtFloat name nowTime metricTime value base, True))"

text \<open>\<open>DroppedHandler\<close>: the non-empty entries, sorted, one per line.\<close>

definition DroppedHandler :: "base \<Rightarrow> bytes" where
  "DroppedHandler base =
     concat (map (\<lambda>s. if s \<noteq> [] then s @ [cLF] else []) (sort (droppedList base)))"

subsection \<open>Counters\<close>

text \<open>
  \<open>sendUint64Counter\<close>: load the value, subtract it, report it; \<open>inc\<close> is what other goroutines add
  between the load and the subtraction. \<open>sendInt64Gauge\<close>: report only.
\<close>

type_synonym stat_send = "(bytes \<times> uint64) list"

definition sendUint64Counter :: "uint64 \<Rightarrow> bytes \<Rightarrow> uint64 \<Rightarrow> stat_send \<Rightarrow> uint64 \<times> stat_send" where
  "sendUint64Counter inc metric value sent =
     (let v = value; value = value + inc in (value + (- v), sent @ [(metric, v)]))"

definition sendInt64Gauge :: "bytes \<Rightarrow> uint64 \<Rightarrow> stat_send \<Rightarrow> stat_send" where
  "sendInt64Gauge metric value sent = sent @ [(metric, value)]"

definition SendStat1 :: "(bytes \<Rightarrow> uint64) \<Rightarrow> bytes \<Rightarrow> base_stat \<times> stat_send \<Rightarrow> base_stat \<times> stat_send" where
  "SendStat1 inc f = (\<lambda>(st, sent).
     if f = str ''samplesReceived'' then
       (let (v, sent) = sendUint64Counter (inc f) f (samplesReceived st) sent in (st\<lparr>samplesReceived := v\<rparr>, sent))
     else if f = str ''messagesReceived'' then
       (let (v, sent) = sendUint64Counter (inc f) f (messagesReceived st) sent in (st\<lparr>messagesReceived := v\<rparr>, sent))
     else if f = str ''metricsReceived'' then
       (let (v, sent) = sendUint64Counter (inc f) f (metricsReceived st) sent in (st\<lparr>metricsReceived := v\<rparr>, sent))
     else if f = str ''incompleteReceived'' then
       (let (v, sent) = sendUint64Counter (inc f) f (incompleteReceived st) sent in (st\<lparr>incompleteReceived := v\<rparr>, sent))
     else if f = str ''futureDropped'' then
       (let (v, sent) = sendUint64Counter (inc f) f (futureDropped st) sent in (st\<lparr>futureDropped := v\<rparr>, sent))
     else if f = str ''pastDropped'' then
       (let (v, sent) = sendUint64Counter (inc f) f (pastDropped st) sent in (st\<lparr>pastDropped := v\<rparr>, sent))
     else if f = str ''tooLongDropped'' then
       (let (v, sent) = sendUint64Counter (inc f) f (tooLongDropped st) sent in (st\<lparr>tooLongDropped := v\<rparr>, sent))
     else if f = str ''errors'' then
       (let (v, sent) = sendUint64Counter (inc f) f (errors st) sent in (st\<lparr>errors := v\<rparr>, sent))
     else if f = str ''active'' then (st, sendInt64Gauge f (active st) sent)
     else (st, sent))"

definition SendStat :: "(bytes \<Rightarrow> uint64) \<Rightarrow> bytes list \<Rightarrow> base \<Rightarrow> base \<times> stat_send" where
  "SendStat inc names base =
     (let (st, sent) = fold (SendStat1 inc) names (stat base, []) in (base\<lparr>stat := st\<rparr>, sent))"

text \<open>The receivers' \<open>Stat\<close> methods differ in the fields only.\<close>

definition statFields :: "rcv_kind \<Rightarrow> bytes list" where
  "statFields kind =
     (case kind of
        TCP \<Rightarrow> map str [''metricsReceived'', ''errors'', ''active'', ''futureDropped'', ''pastDropped'',
          ''tooLongDropped'']
      | UDP \<Rightarrow> map str [''metricsReceived'', ''errors'', ''incompleteReceived'', ''futureDropped'',
          ''pastDropped'', ''tooLongDropped'']
      | Pickle \<Rightarrow> map str [''metricsReceived'', ''messagesReceived'', ''errors'', ''active'',
          ''futureDropped'', ''pastDropped'', ''tooLongDropped'']
      | GRPC \<Rightarrow> map str [''metricsReceived'', ''errors'', ''futureDropped'', ''pastDropped'', ''tooLongDropped'']
      | PrometheusRemoteWrite \<Rightarrow> map str [''samplesReceived'', ''errors'', ''futureDropped'', ''pastDropped'',
          ''tooLongDropped'']
      | TelegrafHttpJson \<Rightarrow> map str [''samplesReceived'', ''errors'', ''futureDropped'', ''pastDropped'',
          ''tooLongDropped''])"

subsection \<open>Receive buffers (buffer.go)\<close>

definition bufferSize :: nat where "bufferSize = 262144"

text \<open>\<open>rbBody\<close> is \<open>Body[:Used]\<close>, the part the parser reads.\<close>

record rcv_buffer =
  rbTime :: uint32
  rbBody :: bytes

definition GetBuffer :: "rcv_buffer \<Rightarrow> rcv_buffer" where
  "GetBuffer pooled = pooled\<lparr>rbBody := []\<rparr>"

definition bufferWrite :: "bytes \<Rightarrow> rcv_buffer \<Rightarrow> rcv_buffer" where
  "bufferWrite p b = b\<lparr>rbBody := rbBody b @ take (bufferSize - length (rbBody b)) p\<rparr>"

subsection \<open>Which points are dropped\<close>

text \<open>The rule as configured, on unbounded integers.\<close>

definition outsideWindow :: "base \<Rightarrow> uint32 \<Rightarrow> uint32 \<Rightarrow> bool" where
  "outsideWindow b now t \<longleftrightarrow>
     dropFutureSeconds b \<noteq> 0 \<and> uint t > uint now + uint (dropFutureSeconds b)
     \<or> dropPastSeconds b \<noteq> 0 \<and> uint now > uint t + uint (dropPastSeconds b)"

definition nameTooLong :: "base \<Rightarrow> bytes \<Rightarrow> bool" where
  "nameTooLong b name \<longleftrightarrow> dropTooLongLimit b \<noteq> 0 \<and> length name > unat (dropTooLongLimit b)"

lemma isDrop_config [simp]:
  "dropFutureSeconds (fst (isDrop n t b)) = dropFutureSeconds b"
  "dropPastSeconds (fst (isDrop n t b)) = dropPastSeconds b"
  "dropTooLongLimit (fst (isDrop n t b)) = dropTooLongLimit b"
  "baseTags (fst (isDrop n t b)) = baseTags b"
  "writeChan (fst (isDrop n t b)) = writeChan b"
  by (auto simp: isDrop_def)

lemma isDropBytes_config [simp]:
  "dropFutureSeconds (fst (isDropBytes f nm n t v b)) = dropFutureSeconds b"
  "dropPastSeconds (fst (isDropBytes f nm n t v b)) = dropPastSeconds b"
  "dropTooLongLimit (fst (isDropBytes f nm n t v b)) = dropTooLongLimit b"
  "baseTags (fst (isDropBytes f nm n t v b)) = baseTags b"
  "writeChan (fst (isDropBytes f nm n t v b)) = writeChan b"
  by (auto simp: isDropBytes_def isDrop_def isDropMetricNameTooLong_def saveDropped_def Let_def)

lemma isDropString_eq: "isDropString = isDropBytes"
  by (intro ext) (simp add: isDropString_def isDropBytes_def)

definition dropsPoint :: "base \<Rightarrow> uint32 \<Rightarrow> bytes \<Rightarrow> uint32 \<Rightarrow> bool" where
  "dropsPoint b now name t \<longleftrightarrow> snd (isDrop now t b) \<or> nameTooLong b name"

lemma isDropBytes_snd: "snd (isDropBytes f name now t v b) \<longleftrightarrow> dropsPoint b now name t"
  by (auto simp: isDropBytes_def dropsPoint_def nameTooLong_def isDrop_def isDropMetricNameTooLong_def Let_def)

text \<open>The decision depends on the configuration only, which no operation changes.\<close>

definition sameConfig :: "base \<Rightarrow> base \<Rightarrow> bool" where
  "sameConfig b b' \<longleftrightarrow> dropFutureSeconds b' = dropFutureSeconds b \<and> dropPastSeconds b' = dropPastSeconds b
     \<and> dropTooLongLimit b' = dropTooLongLimit b \<and> baseTags b' = baseTags b"

lemma sameConfig_refl [simp]: "sameConfig b b"
  by (simp add: sameConfig_def)

lemma dropsPoint_config: "sameConfig b b' \<Longrightarrow> dropsPoint b' now name t = dropsPoint b now name t"
  by (simp add: sameConfig_def dropsPoint_def nameTooLong_def isDrop_def)

lemma uint_add_32: "uint (x + y :: uint32) = (uint x + uint y) mod 2 ^ 32"
  by (simp add: uint_word_ariths)

text \<open>
  While the sums do not overflow, a point is dropped exactly when it lies outside the
  configured window around the receive time.
\<close>

theorem isDrop_window:
  assumes "uint now + uint (dropFutureSeconds b) < 2 ^ 32" "uint t + uint (dropPastSeconds b) < 2 ^ 32"
  shows "snd (isDrop now t b) = outsideWindow b now t"
proof -
  have "uint (now + dropFutureSeconds b) = uint now + uint (dropFutureSeconds b)"
    "uint (t + dropPastSeconds b) = uint t + uint (dropPastSeconds b)"
    using assms by (simp_all add: uint_add_32)
  then show ?thesis by (simp add: isDrop_def outsideWindow_def word_less_def)
qed

theorem isDrop_window_witness:
  "snd (isDrop 1000 5000 (zeroBase\<lparr>dropFutureSeconds := 60, dropPastSeconds := 600\<rparr>))
     = outsideWindow (zeroBase\<lparr>dropFutureSeconds := 60, dropPastSeconds := 600\<rparr>) 1000 5000"
  by (rule isDrop_window) (simp_all add: zeroBase_def)

text \<open>
  The uint32 sum in the age check wraps: a point close to the end of the 32-bit range is
  dropped as too old although it lies inside the configured window.
\<close>

theorem isDrop_wraps:
  assumes "dropFutureSeconds b = 0" "dropPastSeconds b \<noteq> 0" "2 ^ 32 \<le> uint t + uint (dropPastSeconds b)"
    and "uint (dropPastSeconds b) < uint now"
  shows "snd (isDrop now t b) \<and> (uint now \<le> uint t \<longrightarrow> \<not> outsideWindow b now t)"
proof -
  have "uint t < 2 ^ 32" using uint_lt2p [of t] by simp
  moreover have "uint (dropPastSeconds b) < 2 ^ 32" using uint_lt2p [of "dropPastSeconds b"] by simp
  ultimately have "(uint t + uint (dropPastSeconds b)) mod 2 ^ 32 = uint t + uint (dropPastSeconds b) - 2 ^ 32"
    using assms(3) by (subst mod_pos_pos_trivial [symmetric, of _ "2 ^ 32"]) auto
  with assms \<open>uint t < 2 ^ 32\<close> have "t + dropPastSeconds b < now"
    by (simp add: word_less_def uint_add_32)
  moreover have "uint now \<le> uint t + uint (dropPastSeconds b)" if "uint now \<le> uint t"
    using that uint_ge_0 [of "dropPastSeconds b"] by linarith
  ultimately show ?thesis using assms by (auto simp: isDrop_def outsideWindow_def)
qed

theorem isDrop_wraps_witness:
  "snd (isDrop 1700000000 4294967290 (zeroBase\<lparr>dropPastSeconds := 600\<rparr>))
   \<and> \<not> outsideWindow (zeroBase\<lparr>dropPastSeconds := 600\<rparr>) 1700000000 4294967290"
  using isDrop_wraps [of "zeroBase\<lparr>dropPastSeconds := 600\<rparr>" 4294967290 1700000000]
  by (simp add: zeroBase_def)

subsection \<open>The list of dropped points is a ring\<close>

definition ringOk :: "bytes list \<Rightarrow> base \<Rightarrow> bool" where
  "ringOk ts b \<longleftrightarrow> length (droppedList b) = droppedListSize \<and> droppedListNext b = length ts
     \<and> (\<forall>k < length ts. length ts \<le> k + droppedListSize \<longrightarrow> droppedList b ! (k mod droppedListSize) = ts ! k)
     \<and> (\<forall>k < droppedListSize. length ts \<le> k \<longrightarrow> droppedList b ! k = [])"

lemma ringOk_zero: "ringOk [] zeroBase"
  by (simp add: ringOk_def zeroBase_def)

lemma mod_window:
  fixes k n m :: nat
  assumes "k < n" "n < k + m" 
  shows "k mod m \<noteq> n mod m"
proof
  assume "k mod m = n mod m"
  with assms(1) obtain q where "n = k + q * m" "q \<noteq> 0"
    by (metis mod_eq_nat1E add_cancel_right_right less_not_refl less_imp_le_nat mult.commute mult_zero_left)
  with assms(2) show False by (cases q) auto
qed

theorem saveDropped_ring:
  assumes "ringOk ts b"
  shows "ringOk (ts @ [droppedText f name now t v]) (saveDropped f name now t v b)"
proof -
  let ?n = "length ts" and ?x = "droppedText f name now t v" and ?S = droppedListSize
  let ?l = "(droppedList b)[?n mod ?S := ?x]"
  have S: "0 < ?S" by (simp add: droppedListSize_def)
  have len: "length (droppedList b) = ?S" using assms by (simp add: ringOk_def)
  have new: "?l ! (k mod ?S) = (ts @ [?x]) ! k" if "k < Suc ?n" "Suc ?n \<le> k + ?S" for k
  proof (cases "k = ?n")
    case True
    then show ?thesis using len S by simp
  next
    case False
    with that have k: "k < ?n" "?n < k + ?S" by auto
    with mod_window [OF k] assms show ?thesis by (simp add: ringOk_def nth_append)
  qed
  have old: "?l ! k = []" if "k < ?S" "Suc ?n \<le> k" for k
    using that assms by (simp add: ringOk_def)
  show ?thesis
    using assms new old len by (simp add: ringOk_def saveDropped_def)
qed

theorem saveDropped_ring_witness:
  "ringOk ([] @ [droppedText (\<lambda>_. str ''1'') (str ''a'') 5 6 7]) (saveDropped (\<lambda>_. str ''1'') (str ''a'') 5 6 7 zeroBase)"
  by (rule saveDropped_ring) (rule ringOk_zero)

end
