(* ===== verification/Recv_Plain.thy ===== *)
theory Recv_Plain
  imports Recv_Base
begin

text \<open>
  \<^verbatim>\<open>receiver/plain.go\<close>: the Graphite line protocol. \<open>strconv.ParseFloat\<close>, the conversion
  \<open>uint32(float64)\<close>, map iteration, \<open>%#v\<close> and \<open>TimestampToDays\<close> are the fields of \<open>rcv_env\<close>.
\<close>

record rcv_env =
  envParseFloat :: "bytes \<Rightarrow> float64 option"
  envToUint32 :: "float64 \<Rightarrow> uint32"
  envIter :: "gomap \<Rightarrow> gomap"
  envFmtFloat :: "float64 \<Rightarrow> bytes"
  envDays :: "uint32 \<Rightarrow> uint16"

text \<open>\<open>math.IsNaN\<close> on the bit pattern.\<close>

definition IsNaN :: "float64 \<Rightarrow> bool" where
  "IsNaN v \<longleftrightarrow> drop_bit 52 v AND 0x7FF = 0x7FF \<and> v AND mask 52 \<noteq> 0"

subsection \<open>Double dots\<close>

function HasDoubleDot_loop :: "bytes \<Rightarrow> nat \<Rightarrow> bool" where
  "HasDoubleDot_loop p i =
     (if i < length p then
        (if p ! i = cDot \<and> p ! (i - 1) = cDot then True
         else if p ! i = cDot \<and> i + 1 < length p \<and> p ! (i + 1) = cDot then True
         else HasDoubleDot_loop p (i + 2))
      else False)"
  by pat_completeness auto
termination by (relation "measure (\<lambda>(p, i). length p - i)") auto

declare HasDoubleDot_loop.simps [simp del]

definition HasDoubleDot :: "bytes \<Rightarrow> bool" where
  "HasDoubleDot p = HasDoubleDot_loop p 1"

function RemoveDoubleDot_loop :: "bytes \<Rightarrow> nat \<Rightarrow> nat \<Rightarrow> bytes \<times> nat" where
  "RemoveDoubleDot_loop p i shift =
     (if i < length p then
        (if p ! i = cDot \<and> p ! (i - 1 - shift) = cDot then RemoveDoubleDot_loop p (i + 1) (shift + 1)
         else if shift > 0 then RemoveDoubleDot_loop (p[i - shift := p ! i]) (i + 1) shift
         else RemoveDoubleDot_loop p (i + 1) shift)
      else (p, shift))"
  by pat_completeness auto
termination by (relation "measure (\<lambda>(p, i, shift). length p - i)") auto

declare RemoveDoubleDot_loop.simps [simp del]

definition RemoveDoubleDot :: "bytes \<Rightarrow> bytes" where
  "RemoveDoubleDot p =
     (if \<not> HasDoubleDot p then p
      else (let (p, shift) = RemoveDoubleDot_loop p 1 0 in take (length p - shift) p))"

subsection \<open>One line\<close>

datatype plain_error = BadMessage bytes | BadTags tag_error

text \<open>Everything before the tags: the three fields, with the name still as sent.\<close>

definition PlainParseFields ::
  "rcv_env \<Rightarrow> bytes \<Rightarrow> uint32 \<Rightarrow> plain_error + bytes \<times> float64 \<times> uint32" where
  "PlainParseFields env p now =
     (case IndexByte p cSpace of
        None \<Rightarrow> Inl (BadMessage p)
      | Some i1 \<Rightarrow>
        if i1 < 1 then Inl (BadMessage p)
        else
        (case IndexByte (drop (i1 + 1) p) cSpace of
           None \<Rightarrow> Inl (BadMessage p)
         | Some i2 \<Rightarrow>
           if i2 < 1 then Inl (BadMessage p)
           else
           (let i2 = i2 + (i1 + 1);
                i3 = length p;
                i3 = (if p ! (i3 - 1) = cLF then i3 - 1 else i3);
                i3 = (if p ! (i3 - 1) = cCR then i3 - 1 else i3)
            in
            case envParseFloat env (take (i2 - (i1 + 1)) (drop (i1 + 1) p)) of
              None \<Rightarrow> Inl (BadMessage p)
            | Some value \<Rightarrow>
              if IsNaN value then Inl (BadMessage p)
              else if i3 - i2 = 3 \<and> p ! (i2 + 1) = cMinus \<and> p ! (i2 + 2) = 49
              then Inr (RemoveDoubleDot (take i1 p), value, now)
              else
              (case envParseFloat env (take (i3 - (i2 + 1)) (drop (i2 + 1) p)) of
                 None \<Rightarrow> Inl (BadMessage p)
               | Some tsf \<Rightarrow>
                 if IsNaN tsf then Inl (BadMessage p)
                 else Inr (RemoveDoubleDot (take i1 p), value, envToUint32 env tsf)))))"

definition PlainParseLine ::
  "rcv_env \<Rightarrow> base \<Rightarrow> bytes \<Rightarrow> uint32 \<Rightarrow> graphite_buf \<Rightarrow>
   (graphite_buf \<times> (plain_error + bytes \<times> float64 \<times> uint32)) option" where
  "PlainParseLine env base p now buf =
     (case PlainParseFields env p now of
        Inl e \<Rightarrow> Some (buf, Inl e)
      | Inr (s, value, timestamp) \<Rightarrow>
          (case GraphiteBuffered (envIter env) (baseTags base) s buf of
             None \<Rightarrow> None
           | Some (buf, Inl e) \<Rightarrow> Some (buf, Inl (BadTags e))
           | Some (buf, Inr name) \<Rightarrow> Some (buf, Inr (name, value, timestamp))))"

subsection \<open>One buffer\<close>

record plain_state =
  psBase :: base
  psBuf :: graphite_buf
  psWb :: write_buffer
  psMetrics :: uint32
  psErrors :: uint32

text \<open>\<open>MainLoop\<close> on \<open>b.Body[offset:b.Used]\<close>.\<close>

function PlainMainLoop :: "rcv_env \<Rightarrow> uint32 \<Rightarrow> bytes \<Rightarrow> plain_state \<Rightarrow> plain_state option" where
  "PlainMainLoop env time rest st =
     (if rest = [] then Some st
      else
      (case IndexByte rest cLF of
         None \<Rightarrow> Some (st\<lparr>psErrors := psErrors st + 1\<rparr>)
       | Some lineEnd \<Rightarrow>
         if lineEnd = 0 then PlainMainLoop env time (drop 1 rest) st
         else
         (case PlainParseLine env (psBase st) (take (lineEnd + 1) rest) time (psBuf st) of
            None \<Rightarrow> None
          | Some (buf, Inl e) \<Rightarrow>
              PlainMainLoop env time (drop (lineEnd + 1) rest) (st\<lparr>psBuf := buf, psErrors := psErrors st + 1\<rparr>)
          | Some (buf, Inr (name, value, timestamp)) \<Rightarrow>
              (let (base, dropped) = isDropBytes (envFmtFloat env) name time timestamp value (psBase st) in
               if dropped then
                 PlainMainLoop env time (drop (lineEnd + 1) rest) (st\<lparr>psBase := base, psBuf := buf\<rparr>)
               else
                 (case WriteGraphitePoint (envDays env) name value timestamp time (psWb st) of
                    None \<Rightarrow> None
                  | Some wb \<Rightarrow>
                      PlainMainLoop env time (drop (lineEnd + 1) rest)
                        (st\<lparr>psBase := base, psBuf := buf, psWb := wb, psMetrics := psMetrics st + 1\<rparr>))))))"
  by pat_completeness auto
termination
  by (relation "measure (\<lambda>(env, time, rest, st). length rest)") auto

declare PlainMainLoop.simps [simp del]

text \<open>\<open>send\<close>: whether the final \<open>select\<close> takes the channel.\<close>

definition PlainParseBuffer ::
  "rcv_env \<Rightarrow> bool \<Rightarrow> rcv_buffer \<Rightarrow> graphite_buf \<Rightarrow> base \<Rightarrow> (base \<times> graphite_buf) option" where
  "PlainParseBuffer env send b buf base =
     (case PlainMainLoop env (rbTime b) (rbBody b)
             \<lparr>psBase = base, psBuf = buf, psWb = GetWriteBuffer newWriteBuffer, psMetrics = 0, psErrors = 0\<rparr> of
        None \<Rightarrow> None
      | Some st \<Rightarrow>
          (let base = psBase st;
               base = (if psMetrics st > 0
                       then base\<lparr>stat := (stat base)\<lparr>metricsReceived := metricsReceived (stat base) + ucast (psMetrics st)\<rparr>\<rparr>
                       else base);
               base = (if psErrors st > 0
                       then base\<lparr>stat := (stat base)\<lparr>errors := errors (stat base) + ucast (psErrors st)\<rparr>\<rparr>
                       else base)
           in if Empty (psWb st) then Some (base, psBuf st)
              else if send then Some (base\<lparr>writeChan := writeChan base @ [psWb st]\<rparr>, psBuf st)
              else Some (base, psBuf st)))"

text \<open>\<open>PlainParser\<close>: the buffers that arrive on the channel before the context is cancelled.\<close>

definition PlainParser ::
  "rcv_env \<Rightarrow> rcv_buffer list \<Rightarrow> graphite_buf \<Rightarrow> base \<Rightarrow> (base \<times> graphite_buf) option" where
  "PlainParser env inp tagBuf base =
     rangeLoop (\<lambda>b (base, tagBuf). PlainParseBuffer env True b tagBuf base) inp (base, tagBuf)"

subsection \<open>Double dots: specification\<close>

fun doubleDot :: "bytes \<Rightarrow> bool" where
  "doubleDot (a # b # p) = (a = cDot \<and> b = cDot \<or> doubleDot (b # p))"
| "doubleDot p = False"

text \<open>Every run of dots becomes one dot.\<close>

fun squeezeDots :: "bytes \<Rightarrow> bytes" where
  "squeezeDots [] = []"
| "squeezeDots (c # p) =
     (case squeezeDots p of
        [] \<Rightarrow> [c]
      | d # q \<Rightarrow> if c = cDot \<and> d = cDot then d # q else c # d # q)"

lemma doubleDot_nth: "doubleDot p \<longleftrightarrow> (\<exists>i. i + 1 < length p \<and> p ! i = cDot \<and> p ! (i + 1) = cDot)"
proof (induction p rule: doubleDot.induct)
  case (1 a b p)
  have "(\<exists>i. i + 1 < length (a # b # p) \<and> (a # b # p) ! i = cDot \<and> (a # b # p) ! (i + 1) = cDot)
     \<longleftrightarrow> a = cDot \<and> b = cDot \<or> (\<exists>i. i + 1 < length (b # p) \<and> (b # p) ! i = cDot \<and> (b # p) ! (i + 1) = cDot)"
    (is "(\<exists>i. ?P i) \<longleftrightarrow> ?R")
  proof
    assume "\<exists>i. ?P i"
    then obtain i where "?P i" ..
    then show ?R by (cases i) auto
  next
    assume ?R
    then show "\<exists>i. ?P i" by (auto intro: exI [of _ 0] exI [of _ "Suc _"])
  qed
  with 1 show ?case by simp
qed auto

lemma HasDoubleDot_loop_iff:
  "1 \<le> i \<Longrightarrow> HasDoubleDot_loop p i \<longleftrightarrow>
     (\<exists>j. i \<le> j + 1 \<and> j + 1 < length p \<and> p ! j = cDot \<and> p ! (j + 1) = cDot)"
proof (induction p i rule: HasDoubleDot_loop.induct)
  case (1 p i)
  let ?P = "\<lambda>j. j + 1 < length p \<and> p ! j = cDot \<and> p ! (j + 1) = cDot"
  have split: "(\<exists>j. i \<le> j + 1 \<and> ?P j) \<longleftrightarrow> ?P (i - 1) \<or> ?P i \<or> (\<exists>j. i + 2 \<le> j + 1 \<and> ?P j)"
  proof
    assume "\<exists>j. i \<le> j + 1 \<and> ?P j"
    then obtain j where j: "i \<le> j + 1" "?P j" by blast
    then have "j = i - 1 \<or> j = i \<or> i + 2 \<le> j + 1" using 1(2) by linarith
    with j(2) show "?P (i - 1) \<or> ?P i \<or> (\<exists>j. i + 2 \<le> j + 1 \<and> ?P j)" by blast
  next
    assume "?P (i - 1) \<or> ?P i \<or> (\<exists>j. i + 2 \<le> j + 1 \<and> ?P j)"
    moreover have "i \<le> (i - 1) + 1" "i \<le> i + 1" by simp_all
    ultimately show "\<exists>j. i \<le> j + 1 \<and> ?P j" by (metis add_leD1)
  qed
  have prev: "?P (i - 1) \<longleftrightarrow> i < length p \<and> p ! (i - 1) = cDot \<and> p ! i = cDot" using 1(2) by simp
  show ?case
    unfolding split prev using 1 by (subst HasDoubleDot_loop.simps) auto
qed

lemma HasDoubleDot_iff: "HasDoubleDot p \<longleftrightarrow> doubleDot p"
  by (simp add: HasDoubleDot_def HasDoubleDot_loop_iff doubleDot_nth)

lemma squeezeDots_Nil_iff [simp]: "squeezeDots p = [] \<longleftrightarrow> p = []"
  by (cases p) (auto split: list.splits)

lemma squeezeDots_last: "p \<noteq> [] \<Longrightarrow> last (squeezeDots p) = last p"
proof (induction p)
  case (Cons c p)
  then show ?case
    by (cases "squeezeDots p") (auto split: list.splits)
qed simp

lemma squeezeDots_snoc:
  "squeezeDots (xs @ [c]) =
     (if xs \<noteq> [] \<and> last xs = cDot \<and> c = cDot then squeezeDots xs else squeezeDots xs @ [c])"
proof (induction xs)
  case (Cons x xs)
  then show ?case
    by (cases "squeezeDots xs") (auto split: list.splits)
qed simp

lemma squeezeDots_clean: "\<not> doubleDot (squeezeDots p)"
proof (induction p)
  case (Cons c p)
  then show ?case by (cases "squeezeDots p") auto
qed simp

lemma squeezeDots_id: "\<not> doubleDot p \<Longrightarrow> squeezeDots p = p"
  by (induction p rule: doubleDot.induct) auto

lemma RemoveDoubleDot_loop_spec:
  assumes "RemoveDoubleDot_loop p i shift = (p', d)"
    and "1 \<le> i" "i \<le> length A" "shift < i" "length p = length A"
    and "take (i - shift) p = squeezeDots (take i A)" "drop i p = drop i A"
  shows "length p' = length A \<and> take (length A - d) p' = squeezeDots A"
  using assms
proof (induction p i shift arbitrary: p' d rule: RemoveDoubleDot_loop.induct)
  case (1 p i shift)
  show ?case
  proof (cases "i < length p")
    case False
    with 1(4-) show ?thesis by (simp add: RemoveDoubleDot_loop.simps)
  next
    case True
    then have i: "i < length A" and Ai: "p ! i = A ! i"
      using 1(8,10) by (metis, metis Cons_nth_drop_Suc nth_via_drop)
    have ne: "take i A \<noteq> []" "A ! (i - 1) = last (take i A)"
      using 1(5) i last_take_nth [of i A] by auto
    have snoc: "take (i + 1) A = take i A @ [A ! i]" using i by (simp add: take_Suc_conv_app_nth)
    have drops: "drop (i + 1) p = drop (i + 1) A" using 1(10) by (metis drop_drop add.commute)
    have "p ! (i - 1 - shift) = last (take (i - shift) p)"
      using 1(7,8) i by (subst last_conv_nth) (auto simp: diff_commute)
    then have prev: "p ! (i - 1 - shift) = last (take i A)" using 1(9) ne by (simp add: squeezeDots_last)
    consider "p ! i = cDot" "p ! (i - 1 - shift) = cDot"
      | "\<not> (p ! i = cDot \<and> p ! (i - 1 - shift) = cDot)" "0 < shift"
      | "\<not> (p ! i = cDot \<and> p ! (i - 1 - shift) = cDot)" "shift = 0" by blast
    then show ?thesis
    proof cases
      case c: 1
      then have "squeezeDots (take (i + 1) A) = squeezeDots (take i A)"
        using ne prev by (simp only: snoc squeezeDots_snoc Ai) simp
      with 1(9) have pre: "take (i + 1 - (shift + 1)) p = squeezeDots (take (i + 1) A)" by simp
      have step: "RemoveDoubleDot_loop p (i + 1) (shift + 1) = (p', d)"
        using 1(4) True c by (subst (asm) RemoveDoubleDot_loop.simps) (auto split: if_splits)
      show ?thesis
        by (rule 1(1) [OF True _ step]) (use c pre drops i 1(5-8) in auto)
    next
      case c: 2
      let ?p = "p[i - shift := p ! i]"
      have "take (i + 1 - shift) ?p = take (i - shift) p @ [p ! i]"
        using i 1(7,8) by (simp add: Suc_diff_le take_Suc_conv_app_nth)
      then have pre: "take (i + 1 - shift) ?p = squeezeDots (take (i + 1) A)"
        using ne prev c 1(9) by (simp only: snoc squeezeDots_snoc Ai) auto
      have step: "RemoveDoubleDot_loop ?p (i + 1) shift = (p', d)"
        using 1(4) True c by (subst (asm) RemoveDoubleDot_loop.simps) (auto split: if_splits)
      show ?thesis
        by (rule 1(2) [OF True _ _ step]) (use c pre drops i 1(5-8) in auto)
    next
      case c: 3
      have "take (i + 1 - shift) p = take (i - shift) p @ [p ! i]"
        using i 1(7,8) c by (simp add: take_Suc_conv_app_nth)
      then have pre: "take (i + 1 - shift) p = squeezeDots (take (i + 1) A)"
        using ne prev c 1(9) by (simp only: snoc squeezeDots_snoc Ai) auto
      have step: "RemoveDoubleDot_loop p (i + 1) shift = (p', d)"
        using 1(4) True c by (subst (asm) RemoveDoubleDot_loop.simps) (auto split: if_splits)
      show ?thesis
        by (rule 1(3) [OF True _ _ step]) (use c pre drops i 1(5-8) in auto)
    qed
  qed
qed

lemma RemoveDoubleDot_eq: "RemoveDoubleDot p = squeezeDots p"
proof (cases "HasDoubleDot p")
  case True
  then have "p \<noteq> []" by (auto simp: HasDoubleDot_iff)
  then have "take 1 p = squeezeDots (take 1 p)" "1 \<le> length p" by (cases p; simp)+
  with True show ?thesis
    using RemoveDoubleDot_loop_spec [of p 1 0 "fst (RemoveDoubleDot_loop p 1 0)" "snd (RemoveDoubleDot_loop p 1 0)" p]
    by (simp add: RemoveDoubleDot_def prod.case_eq_if)
qed (simp add: RemoveDoubleDot_def HasDoubleDot_iff squeezeDots_id)

text \<open>
  RemoveDoubleDot collapses every run of dots to one dot; the result has no double dot, and
  the in-place loop is idempotent.
\<close>

theorem RemoveDoubleDot_normal:
  "RemoveDoubleDot p = squeezeDots p \<and> \<not> HasDoubleDot (RemoveDoubleDot p)
   \<and> RemoveDoubleDot (RemoveDoubleDot p) = RemoveDoubleDot p"
  by (simp add: RemoveDoubleDot_eq HasDoubleDot_iff squeezeDots_clean squeezeDots_id)

subsection \<open>What a buffer of lines turns into\<close>

text \<open>A line's point, or an error, free of the tag buffer; \<open>None\<close> when the tag templates panic.\<close>

definition linePoint :: "rcv_env \<Rightarrow> tag_config \<Rightarrow> uint32 \<Rightarrow> bytes \<Rightarrow> (unit + point) option" where
  "linePoint env cfg now p =
     (case PlainParseFields env p now of
        Inl e \<Rightarrow> Some (Inl ())
      | Inr (s, v, t) \<Rightarrow>
          (case Graphite (envIter env) cfg s of
             None \<Rightarrow> None
           | Some (Inl e) \<Rightarrow> Some (Inl ())
           | Some (Inr name) \<Rightarrow> Some (Inr \<lparr>pName = name, pValue = v, pTime = t, pVersion = now\<rparr>)))"

lemma PlainParseLine_linePoint:
  "linePoint env (baseTags base) now p =
     map_option (\<lambda>r. case snd r of Inl _ \<Rightarrow> Inl ()
        | Inr (name, v, t) \<Rightarrow> Inr \<lparr>pName = name, pValue = v, pTime = t, pVersion = now\<rparr>)
       (PlainParseLine env base p now buf)"
  unfolding linePoint_def PlainParseLine_def GraphiteBuffered_result [of _ _ _ buf, symmetric]
  by (auto split: option.splits sum.splits prod.splits)

text \<open>The complete, non-empty lines of a buffer, and whether an unfinished line is left.\<close>

definition bufferLines :: "bytes \<Rightarrow> bytes list" where
  "bufferLines body = map (\<lambda>s. s @ [cLF]) (filter (\<lambda>s. s \<noteq> []) (butlast (splitOn cLF body)))"

definition unfinished :: "bytes \<Rightarrow> bool" where
  "unfinished body \<longleftrightarrow> last (splitOn cLF body) \<noteq> []"

text \<open>The points accepted from a list of lines, and the number of bad lines; \<open>None\<close> on a panic.\<close>

definition acceptedPoints :: "rcv_env \<Rightarrow> base \<Rightarrow> uint32 \<Rightarrow> bytes list \<Rightarrow> point list" where
  "acceptedPoints env base now ls =
     concat (map (\<lambda>l. case linePoint env (baseTags base) now l of
        Some (Inr p) \<Rightarrow> if dropsPoint base now (pName p) (pTime p) then [] else [p] | _ \<Rightarrow> []) ls)"

definition badLines :: "rcv_env \<Rightarrow> base \<Rightarrow> uint32 \<Rightarrow> bytes list \<Rightarrow> nat" where
  "badLines env base now ls = length (filter (\<lambda>l. linePoint env (baseTags base) now l = Some (Inl ())) ls)"

definition linesSafe :: "rcv_env \<Rightarrow> base \<Rightarrow> uint32 \<Rightarrow> bytes list \<Rightarrow> bool" where
  "linesSafe env base now ls \<longleftrightarrow> (\<forall>l \<in> set ls. linePoint env (baseTags base) now l \<noteq> None)"

abbreviation encPoints :: "rcv_env \<Rightarrow> point list \<Rightarrow> bytes" where
  "encPoints env ps \<equiv> concat (map (encPoint (envDays env)) ps)"

lemma bufferLines_IndexByte:
  "IndexByte body cLF = Some n \<Longrightarrow>
     bufferLines body = (if n = 0 then [] else [take (n + 1) body]) @ bufferLines (drop (n + 1) body)"
  "IndexByte body cLF = Some n \<Longrightarrow> unfinished body = unfinished (drop (n + 1) body)"
  "IndexByte body cLF = None \<Longrightarrow> bufferLines body = [] \<and> (unfinished body \<longleftrightarrow> body \<noteq> [])"
proof -
  assume n: "IndexByte body cLF = Some n"
  have split: "splitOn cLF body = take n body # splitOn cLF (drop (Suc n) body)"
    using n by (simp add: splitOn_IndexByte [of _ body])
  have "take (Suc n) body = take n body @ [cLF]" "n < length body"
    using IndexByte_SomeD [OF n] by (auto simp: take_Suc_conv_app_nth)
  then show "bufferLines body = (if n = 0 then [] else [take (n + 1) body]) @ bufferLines (drop (n + 1) body)"
    by (auto simp: bufferLines_def split)
  show "unfinished body = unfinished (drop (n + 1) body)"
    by (simp add: unfinished_def split)
next
  assume "IndexByte body cLF = None"
  then show "bufferLines body = [] \<and> (unfinished body \<longleftrightarrow> body \<noteq> [])"
    by (simp add: bufferLines_def unfinished_def splitOn_IndexByte [of _ body])
qed

lemma WriteGraphitePoint_if:
  "WriteGraphitePoint days (pName p) (pValue p) (pTime p) (pVersion p) wb =
     (if length (encPoint days p) \<le> FreeSize wb then Some (appendWb (encPoint days p) wb) else None)"
  using WriteGraphitePoint_ok [of days "pName p" "pValue p" "pTime p" "pVersion p" wb]
    WriteGraphitePoint_panic [of wb days "pName p" "pValue p" "pTime p" "pVersion p"]
  by (cases p) auto

lemma isDropBytes_same: "isDropBytes f nm n t v b = (b', d) \<Longrightarrow> sameConfig b b' \<and> writeChan b' = writeChan b
   \<and> metricsReceived (stat b') = metricsReceived (stat b) \<and> errors (stat b') = errors (stat b)
   \<and> d = dropsPoint b n nm t"
  using isDropBytes_snd [of f nm n t v b]
  by (auto simp: isDropBytes_def isDrop_def isDropMetricNameTooLong_def saveDropped_def sameConfig_def
      Let_def split: if_splits)

text \<open>What the loop does from a state on, given the lines still to come.\<close>

definition plainResult :: "rcv_env \<Rightarrow> uint32 \<Rightarrow> bytes \<Rightarrow> plain_state \<Rightarrow> plain_state option \<Rightarrow> bool" where
  "plainResult env time rest st r \<longleftrightarrow>
     (let ls = bufferLines rest; pts = acceptedPoints env (psBase st) time ls in
      case r of
        None \<Rightarrow> FreeSize (psWb st) < length (encPoints env pts)
      | Some st' \<Rightarrow>
          length (encPoints env pts) \<le> FreeSize (psWb st)
          \<and> psWb st' = appendWb (encPoints env pts) (psWb st)
          \<and> psMetrics st' = psMetrics st + of_nat (length pts)
          \<and> psErrors st' = psErrors st + of_nat (badLines env (psBase st) time ls + (if unfinished rest then 1 else 0))
          \<and> sameConfig (psBase st) (psBase st') \<and> writeChan (psBase st') = writeChan (psBase st)
          \<and> metricsReceived (stat (psBase st')) = metricsReceived (stat (psBase st))
          \<and> errors (stat (psBase st')) = errors (stat (psBase st)))"

lemma config_lines:
  assumes "sameConfig b b'"
  shows "acceptedPoints env b' time ls = acceptedPoints env b time ls"
    "badLines env b' time ls = badLines env b time ls"
    "linesSafe env b' time ls = linesSafe env b time ls"
proof -
  have "baseTags b' = baseTags b" "dropsPoint b' = dropsPoint b"
    using assms dropsPoint_config [OF assms] by (simp add: sameConfig_def, intro ext, simp)
  note eqs = this
  show "acceptedPoints env b' time ls = acceptedPoints env b time ls"
    "badLines env b' time ls = badLines env b time ls"
    "linesSafe env b' time ls = linesSafe env b time ls"
    unfolding acceptedPoints_def badLines_def linesSafe_def eqs by (rule refl)+
qed

lemma lines_Nil [simp]: "acceptedPoints env b time [] = []" "badLines env b time [] = 0"
  by (simp_all add: acceptedPoints_def badLines_def)

lemma lines_Cons:
  "acceptedPoints env b time (l # ls) =
     (case linePoint env (baseTags b) time l of
        Some (Inr p) \<Rightarrow> if dropsPoint b time (pName p) (pTime p) then [] else [p] | _ \<Rightarrow> [])
     @ acceptedPoints env b time ls"
  "badLines env b time (l # ls) =
     (if linePoint env (baseTags b) time l = Some (Inl ()) then 1 else 0) + badLines env b time ls"
  by (simp_all add: acceptedPoints_def badLines_def)

lemma sameConfig_trans: "sameConfig a b \<Longrightarrow> sameConfig b c \<Longrightarrow> sameConfig a c"
  by (simp add: sameConfig_def)

lemma plainResult_skip:
  assumes "IndexByte rest cLF = Some 0"
  shows "plainResult env time rest st r = plainResult env time (drop 1 rest) st r"
proof -
  have "bufferLines rest = bufferLines (drop 1 rest)" "unfinished rest = unfinished (drop 1 rest)"
    using bufferLines_IndexByte(1,2) [OF assms] by simp_all
  then show ?thesis by (simp only: plainResult_def)
qed

lemma plainResult_bad:
  assumes "IndexByte rest cLF = Some n" "n \<noteq> 0"
    and "linePoint env (baseTags (psBase st)) time (take (n + 1) rest) = Some (Inl ())"
    and "plainResult env time (drop (n + 1) rest) (st\<lparr>psBuf := buf, psErrors := psErrors st + 1\<rparr>) r"
  shows "plainResult env time rest st r"
  using assms(2-4)
  by (simp add: plainResult_def bufferLines_IndexByte(1,2) [OF assms(1)] lines_Cons Let_def
      split: option.splits)

lemma plainResult_dropped:
  assumes "IndexByte rest cLF = Some n" "n \<noteq> 0"
    and "linePoint env (baseTags (psBase st)) time (take (n + 1) rest) = Some (Inr p)"
    and "dropsPoint (psBase st) time (pName p) (pTime p)"
    and "sameConfig (psBase st) b" "writeChan b = writeChan (psBase st)"
      "metricsReceived (stat b) = metricsReceived (stat (psBase st))" "errors (stat b) = errors (stat (psBase st))"
    and "plainResult env time (drop (n + 1) rest) (st\<lparr>psBase := b, psBuf := buf\<rparr>) r"
  shows "plainResult env time rest st r"
  using assms(2-4,6-9) sameConfig_trans [OF assms(5)]
  by (simp add: plainResult_def bufferLines_IndexByte(1,2) [OF assms(1)] config_lines [OF assms(5)] Let_def
      lines_Cons split: option.splits)

lemma plainResult_written:
  assumes "IndexByte rest cLF = Some n" "n \<noteq> 0"
    and "linePoint env (baseTags (psBase st)) time (take (n + 1) rest) = Some (Inr p)"
    and "\<not> dropsPoint (psBase st) time (pName p) (pTime p)"
    and "sameConfig (psBase st) b" "writeChan b = writeChan (psBase st)"
      "metricsReceived (stat b) = metricsReceived (stat (psBase st))" "errors (stat b) = errors (stat (psBase st))"
    and "length (encPoint (envDays env) p) \<le> FreeSize (psWb st)"
    and "plainResult env time (drop (n + 1) rest)
       (st\<lparr>psBase := b, psBuf := buf, psWb := appendWb (encPoint (envDays env) p) (psWb st), psMetrics := psMetrics st + 1\<rparr>) r"
  shows "plainResult env time rest st r"
  using assms(2-4,6-10) sameConfig_trans [OF assms(5)]
  by (auto simp: plainResult_def bufferLines_IndexByte(1,2) [OF assms(1)] config_lines [OF assms(5)] Let_def
      lines_Cons split: option.splits)

lemma PlainMainLoop_spec:
  "linesSafe env (psBase st) time (bufferLines rest) \<Longrightarrow>
     plainResult env time rest st (PlainMainLoop env time rest st)"
proof (induction env time rest st rule: PlainMainLoop.induct)
  case (1 env time rest st)
  show ?case
  proof (cases "IndexByte rest cLF")
    case None
    then show ?thesis
      by (subst PlainMainLoop.simps)
        (auto simp: plainResult_def bufferLines_IndexByte)
  next
    case (Some n)
    then have ne: "rest \<noteq> []" by auto
    note lines = bufferLines_IndexByte(1,2) [OF Some]
    show ?thesis
    proof (cases "n = 0")
      case True
      then have "plainResult env time (drop 1 rest) st (PlainMainLoop env time (drop 1 rest) st)"
        using 1(1) [OF ne Some] 1(5) lines by simp
      with True lines ne Some show ?thesis
        by (subst PlainMainLoop.simps) (simp add: plainResult_skip)
    next
      case n: False
      let ?line = "take (n + 1) rest"
      have safe: "linesSafe env (psBase st) time (bufferLines (drop (n + 1) rest))"
        and "linePoint env (baseTags (psBase st)) time ?line \<noteq> None"
        using 1(5) lines n by (auto simp: linesSafe_def)
      then obtain buf res where parse: "PlainParseLine env (psBase st) ?line time (psBuf st) = Some (buf, res)"
        using PlainParseLine_linePoint [of env "psBase st" time ?line "psBuf st"] by auto
      note lp = PlainParseLine_linePoint [of env "psBase st" time ?line "psBuf st", unfolded parse]
      show ?thesis
      proof (cases res)
        case (Inl e)
        have "plainResult env time rest st
            (PlainMainLoop env time (drop (n + 1) rest) (st\<lparr>psBuf := buf, psErrors := psErrors st + 1\<rparr>))"
          using 1(2) [OF ne Some n parse [unfolded Inl] refl refl] safe lp Inl
          by (intro plainResult_bad [OF Some n]) auto
        with ne Some n parse Inl show ?thesis by (subst PlainMainLoop.simps) simp
      next
        case (Inr x)
        obtain name v t where x: "x = (name, v, t)" by (metis prod_cases3)
        let ?p = "\<lparr>pName = name, pValue = v, pTime = t, pVersion = time\<rparr>"
        have lp': "linePoint env (baseTags (psBase st)) time ?line = Some (Inr ?p)" using lp Inr x by simp
        obtain b d where drop: "isDropBytes (envFmtFloat env) name time t v (psBase st) = (b, d)" by fastforce
        from isDropBytes_same [OF drop] have b: "sameConfig (psBase st) b" "writeChan b = writeChan (psBase st)"
          "metricsReceived (stat b) = metricsReceived (stat (psBase st))" "errors (stat b) = errors (stat (psBase st))"
          and d: "d = dropsPoint (psBase st) time (pName ?p) (pTime ?p)" by simp_all
        have safe': "linesSafe env b time (bufferLines (drop (n + 1) rest))"
          using safe config_lines(3) [OF b(1)] by simp
        show ?thesis
        proof (cases d)
          case True
          then have "plainResult env time rest st
              (PlainMainLoop env time (drop (n + 1) rest) (st\<lparr>psBase := b, psBuf := buf\<rparr>))"
            using 1(3) [OF ne Some n parse [unfolded Inr x] refl refl refl refl drop [symmetric] refl] safe' d
            by (intro plainResult_dropped [OF Some n lp' _ b]) auto
          with ne Some n parse Inr x drop True show ?thesis by (subst PlainMainLoop.simps) simp
        next
          case False
          show ?thesis
          proof (cases "length (encPoint (envDays env) ?p) \<le> FreeSize (psWb st)")
            case room: True
            then have w: "WriteGraphitePoint (envDays env) name v t time (psWb st)
                = Some (appendWb (encPoint (envDays env) ?p) (psWb st))"
              using WriteGraphitePoint_if [of "envDays env" ?p "psWb st"] by simp
            have "plainResult env time rest st (PlainMainLoop env time (drop (n + 1) rest)
                (st\<lparr>psBase := b, psBuf := buf, psWb := appendWb (encPoint (envDays env) ?p) (psWb st),
                  psMetrics := psMetrics st + 1\<rparr>))"
              using 1(4) [OF ne Some n parse [unfolded Inr x] refl refl refl refl drop [symmetric] refl False w] safe' d False room
              by (intro plainResult_written [OF Some n lp' _ b]) auto
            with ne Some n parse Inr x drop False w show ?thesis by (subst PlainMainLoop.simps) simp
          next
            case full: False
            then have w: "WriteGraphitePoint (envDays env) name v t time (psWb st) = None"
              using WriteGraphitePoint_if [of "envDays env" ?p "psWb st"] by simp
            with ne Some n parse Inr x drop False have "PlainMainLoop env time rest st = None"
              by (subst PlainMainLoop.simps) simp
            with full n lp' d False show ?thesis
              by (simp add: plainResult_def lines lines_Cons)
          qed
        qed
      qed
    qed
  qed
qed

lemma Graphite_disabled_safe: "\<not> Enabled cfg \<Longrightarrow> Graphite iter cfg s \<noteq> None"
  by (auto simp: Graphite_def Let_def split: option.splits sum.splits prod.splits)

lemma linesSafe_disabled: "\<not> Enabled (baseTags base) \<Longrightarrow> linesSafe env base now ls"
  using Graphite_disabled_safe [of "baseTags base" "envIter env"]
  by (auto simp: linesSafe_def linePoint_def Graphite_disabled_safe split: option.split sum.split)

lemma encPoint_not_Nil [simp]: "encPoint days p \<noteq> []"
  by (simp add: encPoint_def encString_def)

lemma encPoints_Nil_iff [simp]: "encPoints env ps = [] \<longleftrightarrow> ps = []"
  by (cases ps) auto

lemma PlainParseBuffer_sends:
  fixes env b base
  defines "pts \<equiv> acceptedPoints env base (rbTime b) (bufferLines (rbBody b))"
    and "bad \<equiv> badLines env base (rbTime b) (bufferLines (rbBody b)) + (if unfinished (rbBody b) then 1 else 0)"
  assumes "linesSafe env base (rbTime b) (bufferLines (rbBody b))"
    and "length (encPoints env pts) \<le> WriteBufferSize"
  shows "\<exists>base' buf'. PlainParseBuffer env True b buf base = Some (base', buf')
     \<and> writeChan base' = writeChan base @ (if pts = [] then [] else [appendWb (encPoints env pts) newWriteBuffer])
     \<and> metricsReceived (stat base') = metricsReceived (stat base) + ucast (of_nat (length pts) :: uint32)
     \<and> errors (stat base') = errors (stat base) + ucast (of_nat bad :: uint32)
     \<and> sameConfig base base'"
proof -
  let ?st = "\<lparr>psBase = base, psBuf = buf, psWb = newWriteBuffer, psMetrics = 0, psErrors = 0\<rparr>"
  have r: "plainResult env (rbTime b) (rbBody b) ?st (PlainMainLoop env (rbTime b) (rbBody b) ?st)"
    using assms(3) by (intro PlainMainLoop_spec) simp
  then obtain st where st: "PlainMainLoop env (rbTime b) (rbBody b) ?st = Some st"
    using assms(4) by (cases "PlainMainLoop env (rbTime b) (rbBody b) ?st") (auto simp: plainResult_def pts_def)
  from r have w: "psWb st = appendWb (encPoints env pts) newWriteBuffer" "psMetrics st = of_nat (length pts)"
      "psErrors st = of_nat bad" "sameConfig base (psBase st)" "writeChan (psBase st) = writeChan base"
      "metricsReceived (stat (psBase st)) = metricsReceived (stat base)" "errors (stat (psBase st)) = errors (stat base)"
    unfolding st pts_def bad_def by (simp_all add: plainResult_def Let_def split del: if_split)
  have e: "Empty (psWb st) \<longleftrightarrow> pts = []" using w(1) by (simp add: Empty_def)
  show ?thesis
    using w e by (simp add: PlainParseBuffer_def st Let_def sameConfig_def word_gt_0)
qed

text \<open>
  C7. A buffer of plain-text lines whose accepted points fit one write buffer is turned into
  exactly one write buffer holding the encodings of the accepted points in order (none when no
  line is accepted); the counters grow by the number of accepted points and of bad or unfinished
  lines.
\<close>

theorem plain_buffer_points:
  fixes env b base
  defines "pts \<equiv> acceptedPoints env base (rbTime b) (bufferLines (rbBody b))"
    and "bad \<equiv> badLines env base (rbTime b) (bufferLines (rbBody b)) + (if unfinished (rbBody b) then 1 else 0)"
  assumes "linesSafe env base (rbTime b) (bufferLines (rbBody b))"
    and "length (encPoints env pts) \<le> WriteBufferSize"
  shows "\<exists>base' buf'. PlainParseBuffer env True b buf base = Some (base', buf')
     \<and> map wbBody (writeChan base') = map wbBody (writeChan base) @ (if pts = [] then [] else [encPoints env pts])
     \<and> metricsReceived (stat base') = metricsReceived (stat base) + ucast (of_nat (length pts) :: uint32)
     \<and> errors (stat base') = errors (stat base) + ucast (of_nat bad :: uint32)
     \<and> sameConfig base base'"
  using PlainParseBuffer_sends [OF assms(3), of buf] assms(4) unfolding pts_def bad_def
  by (auto simp: newWriteBuffer_def split: if_splits)

definition exampleEnv :: rcv_env where
  "exampleEnv = \<lparr>envParseFloat = (\<lambda>_. Some 0x3FF0000000000000), envToUint32 = (\<lambda>_. 1), envIter = id,
     envFmtFloat = (\<lambda>_. str ''1''), envDays = (\<lambda>_. 0)\<rparr>"

lemma exampleEnv_line:
  "linePoint exampleEnv DisabledTagConfig now (str ''a 1 1'' @ [cLF])
     = Some (Inr \<lparr>pName = str ''a'', pValue = 0x3FF0000000000000, pTime = 1, pVersion = now\<rparr>)"
proof -
  have "PlainParseFields exampleEnv (str ''a 1 1'' @ [cLF]) now = Inr (str ''a'', 0x3FF0000000000000, 1)"
    by (simp add: PlainParseFields_def exampleEnv_def RemoveDoubleDot_eq IsNaN_def)
  then show ?thesis by (simp add: linePoint_def Graphite_def DisabledTagConfig_def)
qed

lemma bufferLines_replicate:
  assumes "s \<noteq> []" "cLF \<notin> set s"
  shows "bufferLines (concat (replicate n (s @ [cLF]))) = replicate n (s @ [cLF])"
proof (induction n)
  case (Suc n)
  have "IndexByte (concat (replicate (Suc n) (s @ [cLF]))) cLF = Some (length s)"
    using assms by simp
  from bufferLines_IndexByte(1) [OF this] Suc assms show ?case by simp
qed (simp add: bufferLines_def)

definition exampleBuffer :: "nat \<Rightarrow> rcv_buffer" where
  "exampleBuffer n = \<lparr>rbTime = 7, rbBody = concat (replicate n (str ''a 1 1'' @ [cLF]))\<rparr>"

definition examplePoint :: point where
  "examplePoint = \<lparr>pName = str ''a'', pValue = 0x3FF0000000000000, pTime = 1, pVersion = 7\<rparr>"

lemma exampleBuffer_lines:
  "bufferLines (rbBody (exampleBuffer n)) = replicate n (str ''a 1 1'' @ [cLF])"
  using bufferLines_replicate [of "str ''a 1 1''" n] by (simp add: exampleBuffer_def)

lemma acceptedPoints_replicate:
  "acceptedPoints exampleEnv zeroBase 7 (replicate n (str ''a 1 1'' @ [cLF])) = replicate n examplePoint"
proof (induction n)
  case (Suc n)
  have "\<not> dropsPoint zeroBase 7 (str ''a'') 1"
    by (simp add: dropsPoint_def isDrop_def nameTooLong_def zeroBase_def)
  moreover have "baseTags zeroBase = DisabledTagConfig" by (simp add: zeroBase_def)
  ultimately show ?case
    unfolding replicate_Suc lines_Cons using Suc exampleEnv_line [of 7]
    by (simp add: examplePoint_def)
qed simp

lemma length_examplePoints: "length (encPoints exampleEnv (replicate n examplePoint)) = 20 * n"
  by (induction n) (simp_all add: examplePoint_def encPoint_def encString_def putUvarint_small)

lemma examplePoints:
  "acceptedPoints exampleEnv zeroBase (rbTime (exampleBuffer n)) (bufferLines (rbBody (exampleBuffer n)))
     = replicate n examplePoint"
  unfolding exampleBuffer_lines using acceptedPoints_replicate [of n] by (simp add: exampleBuffer_def)

lemma exampleSafe: "linesSafe exampleEnv zeroBase now ls"
  by (rule linesSafe_disabled) (simp add: zeroBase_def DisabledTagConfig_def)

theorem plain_buffer_points_witness:
  "\<exists>base' buf'. PlainParseBuffer exampleEnv True (exampleBuffer 2) \<lparr>gbKV = [], gbB = []\<rparr> zeroBase = Some (base', buf')
     \<and> map wbBody (writeChan base') = [encPoints exampleEnv [examplePoint, examplePoint]]"
  using plain_buffer_points [OF exampleSafe, of "exampleBuffer 2" "\<lparr>gbKV = [], gbB = []\<rparr>"]
    length_examplePoints [of 2]
  unfolding examplePoints
  by (auto simp: WriteBufferSize_def numeral_2_eq_2 zeroBase_def)

text \<open>
  When the accepted points of one receive buffer need more room than one write buffer has,
  parsing it panics.
\<close>

theorem plain_buffer_overflow:
  assumes "linesSafe env base (rbTime b) (bufferLines (rbBody b))"
    and "WriteBufferSize < length (encPoints env (acceptedPoints env base (rbTime b) (bufferLines (rbBody b))))"
  shows "PlainParseBuffer env send b buf base = None"
proof -
  let ?st = "\<lparr>psBase = base, psBuf = buf, psWb = newWriteBuffer, psMetrics = 0, psErrors = 0\<rparr>"
  have "plainResult env (rbTime b) (rbBody b) ?st (PlainMainLoop env (rbTime b) (rbBody b) ?st)"
    using assms(1) by (intro PlainMainLoop_spec) simp
  with assms(2) have "PlainMainLoop env (rbTime b) (rbBody b) ?st = None"
    by (cases "PlainMainLoop env (rbTime b) (rbBody b) ?st") (auto simp: plainResult_def)
  then show ?thesis by (simp add: PlainParseBuffer_def)
qed

theorem plain_buffer_overflow_witness:
  "length (rbBody (exampleBuffer 26215)) \<le> bufferSize
   \<and> PlainParseBuffer exampleEnv True (exampleBuffer 26215) \<lparr>gbKV = [], gbB = []\<rparr> zeroBase = None"
proof
  show "length (rbBody (exampleBuffer 26215)) \<le> bufferSize"
    by (simp add: exampleBuffer_def bufferSize_def length_concat sum_list_replicate)
  show "PlainParseBuffer exampleEnv True (exampleBuffer 26215) \<lparr>gbKV = [], gbB = []\<rparr> zeroBase = None"
    by (rule plain_buffer_overflow [OF exampleSafe])
      (unfold examplePoints length_examplePoints, simp add: WriteBufferSize_def)
qed

end
