(* ===== verification/Recv_Prometheus.thy ===== *)
theory Recv_Prometheus
  imports Proto_Prom Recv_Plain
begin

text \<open>
  \<^verbatim>\<open>receiver/prometheus_metric.go\<close>, \<^verbatim>\<open>receiver/prometheus.go\<close>: the Prometheus remote write receiver. The
  HTTP server and snappy are outside.
\<close>

subsection \<open>The metric buffer\<close>

text \<open>A label slot: nil name or value is \<open>None\<close>.\<close>

type_synonym prom_label = "bytes option \<times> bytes option"

record prom_buf =
  mbLabels :: "prom_label list"
  mbQueryEscape :: "(bytes \<times> bytes) list"
  mbMetric :: "bytes list"
  mbMetricUsed :: nat

definition newPrometheusMetricBuffer :: prom_buf where
  "newPrometheusMetricBuffer = \<lparr>mbLabels = replicate 16 (None, None), mbQueryEscape = [],
     mbMetric = replicate 128 [], mbMetricUsed = 0\<rparr>"

definition shouldEscapeByte :: "byte \<Rightarrow> bool" where
  "shouldEscapeByte c = (if isAlnum c then False else if c \<in> set (str ''-_.~'') then False else True)"

definition shouldQueryEscape :: "bytes \<Rightarrow> bool" where
  "shouldQueryEscape b = list_ex shouldEscapeByte b"

text \<open>\<open>url.QueryEscape\<close> of the standard library, from which \<open>escape.Query\<close> was taken.\<close>

definition urlQueryEscape :: "bytes \<Rightarrow> prom_buf \<Rightarrow> bytes \<times> prom_buf" where
  "urlQueryEscape bs mb =
     (if \<not> shouldQueryEscape bs then (bs, mb)
      else (case map_of (mbQueryEscape mb) bs of
          Some v \<Rightarrow> (v, mb)
        | None \<Rightarrow>
            (let v = Query bs in (v, mb\<lparr>mbQueryEscape := AList.update bs v (mbQueryEscape mb)\<rparr>))))"

subsection \<open>Parsing one time series\<close>

datatype prom_error = PbError pb_error | NameNotFound

text \<open>The fields of one label message.\<close>

function labelLoop :: "bytes \<Rightarrow> prom_label \<Rightarrow> (pb_error + prom_label) option" where
  "labelLoop label l =
     (case label of
        [] \<Rightarrow> Some (Inr l)
      | c # rest \<Rightarrow>
          if c = 0x0a then
            (case pbBytes rest of
               None \<Rightarrow> None | Some (Inl e) \<Rightarrow> Some (Inl e)
             | Some (Inr (n, label)) \<Rightarrow> labelLoop label (Some n, snd l))
          else if c = 0x12 then
            (case pbBytes rest of
               None \<Rightarrow> None | Some (Inl e) \<Rightarrow> Some (Inl e)
             | Some (Inr (v, label)) \<Rightarrow> labelLoop label (fst l, Some v))
          else
            (case Skip label of
               None \<Rightarrow> None | Some (Inl e) \<Rightarrow> Some (Inl e)
             | Some (Inr label) \<Rightarrow> labelLoop label l))"
  by pat_completeness auto
termination
  by (relation "measure (length \<circ> fst)") (auto dest!: pbBytes_less Skip_less)

declare labelLoop.simps [simp del]

text \<open>The loop over the fields of the series: label slots, number of labels, offset of the samples.
  \<open>tsLen\<close> is \<open>len(tsBody)\<close>.\<close>

record ts_state =
  tsLabels :: "prom_label list"
  tsIndex :: nat
  tsSamplesOffset :: nat

function tsLoop :: "nat \<Rightarrow> bytes \<Rightarrow> ts_state \<Rightarrow> (pb_error + ts_state) option" where
  "tsLoop tsLen ts st =
     (case ts of
        [] \<Rightarrow> Some (Inr st)
      | c # rest \<Rightarrow>
          if c = 0x0a then
            (let i = tsIndex st;
                 ls = (if length (tsLabels st) < i + 1 then tsLabels st @ [(None, None)] else tsLabels st);
                 ls = ls[i := (None, None)]
             in
             case pbBytes rest of
               None \<Rightarrow> None | Some (Inl e) \<Rightarrow> Some (Inl e)
             | Some (Inr (label, ts)) \<Rightarrow>
                 (case labelLoop label (None, None) of
                    None \<Rightarrow> None | Some (Inl e) \<Rightarrow> Some (Inl e)
                  | Some (Inr l) \<Rightarrow>
                      tsLoop tsLen ts (st\<lparr>tsLabels := ls[i := l],
                        tsIndex := (if fst l \<noteq> None \<and> snd l \<noteq> None then i + 1 else i)\<rparr>)))
          else
            (let st = (if c = 0x12 \<and> tsSamplesOffset st = 0
                       then st\<lparr>tsSamplesOffset := tsLen - length ts\<rparr> else st)
             in
             case Skip ts of
               None \<Rightarrow> None | Some (Inl e) \<Rightarrow> Some (Inl e)
             | Some (Inr ts) \<Rightarrow> tsLoop tsLen ts st))"
  by pat_completeness auto
termination
  by (relation "measure (\<lambda>(tsLen, ts, st). length ts)") (auto dest!: pbBytes_less Skip_less)

declare tsLoop.simps [simp del]

definition labName :: "prom_label list \<Rightarrow> nat \<Rightarrow> bytes" where
  "labName ls i = (case fst (ls ! i) of None \<Rightarrow> [] | Some n \<Rightarrow> n)"

definition labValue :: "prom_label list \<Rightarrow> nat \<Rightarrow> bytes" where
  "labValue ls i = (case snd (ls ! i) of None \<Rightarrow> [] | Some n \<Rightarrow> n)"

definition swapAt :: "nat \<Rightarrow> nat \<Rightarrow> 'a list \<Rightarrow> 'a list" where
  "swapAt i j ls = ls[i := ls ! j, j := ls ! i]"

text \<open>The exchange sort of \<open>labels[1:labelIndex]\<close>.\<close>

definition exchange :: "nat \<Rightarrow> nat \<Rightarrow> prom_label list \<Rightarrow> prom_label list" where
  "exchange i j ls = (if labName ls j < labName ls i then swapAt i j ls else ls)"

definition exchangeRow :: "nat \<Rightarrow> nat \<Rightarrow> prom_label list \<Rightarrow> prom_label list" where
  "exchangeRow n i ls = fold (exchange i) [i + 1..<n] ls"

definition exchangeSort :: "nat \<Rightarrow> prom_label list \<Rightarrow> prom_label list" where
  "exchangeSort n ls = fold (exchangeRow n) [1..<n - 1] ls"

definition sortRequired :: "nat \<Rightarrow> prom_label list \<Rightarrow> bool" where
  "sortRequired n ls = list_ex (\<lambda>i. labName ls (i + 1) < labName ls i) [1..<n - 1]"

text \<open>Writing the escaped labels into \<open>metric\<close>, from label \<open>i\<close> on.\<close>

fun metricLoop :: "(bytes \<times> bytes) list \<Rightarrow> prom_buf \<Rightarrow> prom_buf" where
  "metricLoop [] mb = mb"
| "metricLoop ((n, v) # ls) mb =
     (let (n', mb) = urlQueryEscape n mb;
          mb = mb\<lparr>mbMetric := (mbMetric mb)[mbMetricUsed mb := n'], mbMetricUsed := mbMetricUsed mb + 1\<rparr>;
          (v', mb) = urlQueryEscape v mb;
          mb = mb\<lparr>mbMetric := (mbMetric mb)[mbMetricUsed mb := v'], mbMetricUsed := mbMetricUsed mb + 1\<rparr>
      in metricLoop ls mb)"

definition timeSeries :: "bytes \<Rightarrow> prom_buf \<Rightarrow> (prom_buf \<times> (prom_error + bytes list \<times> nat)) option" where
  "timeSeries tsBody mb =
     (case tsLoop (length tsBody) tsBody \<lparr>tsLabels = mbLabels mb, tsIndex = 0, tsSamplesOffset = 0\<rparr> of
        None \<Rightarrow> None
      | Some (Inl e) \<Rightarrow> Some (mb, Inl (PbError e))
      | Some (Inr st) \<Rightarrow>
          (let ls = tsLabels st; n = tsIndex st in
           case find (\<lambda>i. labName ls i = str ''__name__'') [0..<n] of
             None \<Rightarrow> Some (mb\<lparr>mbLabels := ls\<rparr>, Inl NameNotFound)
           | Some i \<Rightarrow>
               (let ls = (if i \<noteq> 0 then swapAt 0 i ls else ls);
                    metric = (mbMetric mb)[0 := labValue ls 0];
                    ls = (if sortRequired n ls then exchangeSort n ls else ls);
                    metric = (if n * 2 > length metric then metric @ replicate (n * 2 - length metric) [] else metric);
                    mb = metricLoop (map (\<lambda>i. (labName ls i, labValue ls i)) [1..<n])
                           (mb\<lparr>mbLabels := ls, mbMetric := metric, mbMetricUsed := 1\<rparr>)
                in Some (mb, Inr (take (mbMetricUsed mb) (mbMetric mb), tsSamplesOffset st)))))"

subsection \<open>unpackFast\<close>

record prom_state =
  prBase :: base
  prWriter :: writer
  prMb :: prom_buf

text \<open>Go's \<open>timestamp / 1000\<close> on \<open>int64\<close> truncates towards zero.\<close>

definition div1000 :: "uint64 \<Rightarrow> uint64" where
  "div1000 t = (if 0 \<le> sint t then word_of_int (sint t div 1000) else word_of_int (- ((- sint t) div 1000)))"

function sampleLoop :: "bytes \<Rightarrow> float64 \<times> uint64 \<Rightarrow> (pb_error + float64 \<times> uint64) option" where
  "sampleLoop sample vt =
     (case sample of
        [] \<Rightarrow> Some (Inr vt)
      | c # rest \<Rightarrow>
          if c = 0x09 then
            (case Double rest of
               Inl e \<Rightarrow> Some (Inl e) | Inr (v, sample) \<Rightarrow> sampleLoop sample (v, snd vt))
          else if c = 0x10 then
            (case Int64 rest of
               Inl e \<Rightarrow> Some (Inl e) | Inr (t, sample) \<Rightarrow> sampleLoop sample (fst vt, t))
          else
            (case Skip sample of
               None \<Rightarrow> None | Some (Inl e) \<Rightarrow> Some (Inl e)
             | Some (Inr sample) \<Rightarrow> sampleLoop sample vt))"
  by pat_completeness auto
termination
  by (relation "measure (length \<circ> fst)") (auto dest!: Double_less Int64_less Skip_less)

declare sampleLoop.simps [simp del]

text \<open>What happens to one decoded sample. Note the empty name passed to \<open>isDropString\<close>.\<close>

definition storeSample ::
  "rcv_env \<Rightarrow> bool \<Rightarrow> bytes list \<Rightarrow> float64 \<times> uint64 \<Rightarrow> base \<times> writer \<Rightarrow> (base \<times> writer) option" where
  "storeSample env send metric = (\<lambda>(value, timestamp) (b, w).
     if IsNaN value then Some (b, w)
     else
       (let (b, d) = isDropString (envFmtFloat env) [] (wNow w) (ucast (div1000 timestamp)) value b in
        if d then Some (b, w)
        else do {
          w \<leftarrow> WritePointTagged (envDays env) send metric value (div1000 timestamp) w;
          Some (b, w) }))"

function samplesLoop ::
  "rcv_env \<Rightarrow> bool \<Rightarrow> bytes list \<Rightarrow> bytes \<Rightarrow> prom_state \<Rightarrow> (pb_error option \<times> prom_state) option" where
  "samplesLoop env send metric ts st =
     (case ts of
        [] \<Rightarrow> Some (None, st)
      | c # rest \<Rightarrow>
          if c \<noteq> 0x12 then
            (case Skip ts of
               None \<Rightarrow> None | Some (Inl e) \<Rightarrow> Some (Some e, st)
             | Some (Inr ts) \<Rightarrow> samplesLoop env send metric ts st)
          else
            (case pbBytes rest of
               None \<Rightarrow> None | Some (Inl e) \<Rightarrow> Some (Some e, st)
             | Some (Inr (sample, ts)) \<Rightarrow>
                 (case sampleLoop sample (0, 0) of
                    None \<Rightarrow> None | Some (Inl e) \<Rightarrow> Some (Some e, st)
                  | Some (Inr vt) \<Rightarrow>
                      (case storeSample env send metric vt (prBase st, prWriter st) of
                         None \<Rightarrow> None
                       | Some (b, w) \<Rightarrow>
                           samplesLoop env send metric ts (st\<lparr>prBase := b, prWriter := w\<rparr>)))))"
  by pat_completeness auto
termination
  by (relation "measure (\<lambda>(env, send, metric, ts, st). length ts)") (auto dest!: pbBytes_less Skip_less)

declare samplesLoop.simps [simp del]

function timeSeriesLoop ::
  "rcv_env \<Rightarrow> bool \<Rightarrow> bytes \<Rightarrow> prom_state \<Rightarrow> (prom_error option \<times> prom_state) option" where
  "timeSeriesLoop env send b st =
     (case b of
        [] \<Rightarrow> Some (None, st)
      | c # rest \<Rightarrow>
          if c \<noteq> 0x0a then
            (case Skip b of
               None \<Rightarrow> None | Some (Inl e) \<Rightarrow> Some (Some (PbError e), st)
             | Some (Inr b) \<Rightarrow> timeSeriesLoop env send b st)
          else
            (case pbBytes rest of
               None \<Rightarrow> None | Some (Inl e) \<Rightarrow> Some (Some (PbError e), st)
             | Some (Inr (ts, b)) \<Rightarrow>
                 (case timeSeries ts (prMb st) of
                    None \<Rightarrow> None
                  | Some (mb, Inl e) \<Rightarrow> Some (Some e, st\<lparr>prMb := mb\<rparr>)
                  | Some (mb, Inr (metric, samplesOffset)) \<Rightarrow>
                      (case samplesLoop env send metric (drop samplesOffset ts) (st\<lparr>prMb := mb\<rparr>) of
                         None \<Rightarrow> None
                       | Some (Some e, st) \<Rightarrow> Some (Some (PbError e), st)
                       | Some (None, st) \<Rightarrow> timeSeriesLoop env send b st))))"
  by pat_completeness auto
termination
  by (relation "measure (\<lambda>(env, send, b, st). length b)") (auto dest!: pbBytes_less Skip_less)

declare timeSeriesLoop.simps [simp del]

definition countSamples :: "writer \<Rightarrow> base \<Rightarrow> base" where
  "countSamples w b =
     (let b = (if wPointsWritten w > 0
               then b\<lparr>stat := (stat b)\<lparr>samplesReceived := samplesReceived (stat b) + ucast (wPointsWritten w)\<rparr>\<rparr>
               else b)
      in if wWriteErrors w > 0
         then b\<lparr>stat := (stat b)\<lparr>errors := errors (stat b) + ucast (wWriteErrors w)\<rparr>\<rparr> else b)"

text \<open>The receiver's channel is the writer's; it is put back into the base at the end.\<close>

definition unpackFast ::
  "rcv_env \<Rightarrow> bool \<Rightarrow> uint32 \<Rightarrow> bytes \<Rightarrow> base \<Rightarrow> (prom_error option \<times> base) option" where
  "unpackFast env send now bufBody b =
     (case timeSeriesLoop env send bufBody
             \<lparr>prBase = b, prWriter = NewWriter now (writeChan b), prMb = newPrometheusMetricBuffer\<rparr> of
        None \<Rightarrow> None
      | Some (Some e, st) \<Rightarrow> Some (Some e, (prBase st)\<lparr>writeChan := wChan (prWriter st)\<rparr>)
      | Some (None, st) \<Rightarrow>
          (let w = Flush send (prWriter st)
           in Some (None, countSamples w ((prBase st)\<lparr>writeChan := wChan w\<rparr>))))"

subsection \<open>unpackDefault\<close>

text \<open>
  The second decoder: the request is decoded by the generated code, whose samples are not nil, and the series named by
  \<open>tags.Prometheus\<close>. \<open>proto.Unmarshal\<close> calls the method of the message.
\<close>

definition storeDefault ::
  "rcv_env \<Rightarrow> bool \<Rightarrow> bytes \<Rightarrow> (float64 \<times> uint64) option \<Rightarrow> base \<times> writer \<Rightarrow> (base \<times> writer) option" where
  "storeDefault env send metric sample = (\<lambda>(b, w).
     (case sample of
        None \<Rightarrow> Some (b, w)
      | Some (value, timestamp) \<Rightarrow>
          if IsNaN value then Some (b, w)
          else
            (let (b, d) = isDropString (envFmtFloat env) metric (wNow w) (ucast (div1000 timestamp)) value b in
             if d then Some (b, w)
             else do {
               w \<leftarrow> WritePoint (envDays env) send metric value (div1000 timestamp) w;
               Some (b, w) })))"

definition unpackDefault ::
  "rcv_env \<Rightarrow> bool \<Rightarrow> uint32 \<Rightarrow> bytes \<Rightarrow> base \<Rightarrow> (bool \<times> base) option" where
  "unpackDefault env send now bufBody b =
     (case unmarshalWriteRequest bufBody of
        None \<Rightarrow> None
      | Some (Inl _) \<Rightarrow> Some (False, b)
      | Some (Inr series) \<Rightarrow>
          (case rangeLoop (\<lambda>(labels, samples) s.
                   rangeLoop (storeDefault env send (Prometheus labels)) (map Some samples) s) series
                 (b, NewWriter now (writeChan b)) of
             None \<Rightarrow> None
           | Some (b, w) \<Rightarrow>
               (let w = Flush send w in Some (True, countSamples w (b\<lparr>writeChan := wChan w\<rparr>)))))"

text \<open>\<open>ServeHTTP\<close>: the status of the response; \<open>snappy\<close> decodes or fails.\<close>

datatype http_status = StatusOK | StatusBadRequest | StatusInternalServerError

definition promServeHTTP ::
  "rcv_env \<Rightarrow> bool \<Rightarrow> uint32 \<Rightarrow> (bytes \<Rightarrow> bytes option) \<Rightarrow> bytes option \<Rightarrow> base \<Rightarrow> (http_status \<times> base) option" where
  "promServeHTTP env send now snappy body b =
     (case body of
        None \<Rightarrow> Some (StatusInternalServerError, b)
      | Some compressed \<Rightarrow>
          (case snappy compressed of
             None \<Rightarrow> Some (StatusBadRequest, b)
           | Some reqBuf \<Rightarrow>
               (case unpackFast env send now reqBuf b of
                  None \<Rightarrow> None
                | Some (Some e, b) \<Rightarrow> Some (StatusInternalServerError, b)
                | Some (None, b) \<Rightarrow> Some (StatusOK, b))))"

subsection \<open>The exchange sort\<close>

lemma swapAt_simps [simp]:
  "length (swapAt i j ls) = length ls"
  "i < length ls \<Longrightarrow> j < length ls \<Longrightarrow> mset (swapAt i j ls) = mset ls"
  by (simp_all add: swapAt_def mset_swap)

lemma nth_swapAt:
  "i < length ls \<Longrightarrow> j < length ls \<Longrightarrow>
     swapAt i j ls ! q = (if q = j then ls ! i else if q = i then ls ! j else ls ! q)"
  by (simp add: swapAt_def nth_list_update)

lemma labName_cong: "ls ! i = ls' ! j \<Longrightarrow> labName ls i = labName ls' j"
  by (simp add: labName_def)

text \<open>What a row of exchanges up to position \<open>k\<close> has done.\<close>

definition rowDone :: "nat \<Rightarrow> nat \<Rightarrow> prom_label list \<Rightarrow> prom_label list \<Rightarrow> bool" where
  "rowDone i k ls ls' \<longleftrightarrow> length ls' = length ls \<and> mset ls' = mset ls
     \<and> (\<forall>q. q < i \<or> k \<le> q \<longrightarrow> ls' ! q = ls ! q)
     \<and> (\<forall>q. i \<le> q \<and> q < k \<longrightarrow> labName ls' i \<le> labName ls' q \<and> (\<exists>r. i \<le> r \<and> r < k \<and> ls' ! q = ls ! r))"

lemma exchange_rowDone:
  assumes "rowDone i k ls ls'" "i < k" "k < length ls"
  shows "rowDone i (Suc k) ls (exchange i k ls')"
proof (cases "labName ls' k < labName ls' i")
  case False
  have "labName ls' i \<le> labName ls' q \<and> (\<exists>r. i \<le> r \<and> r < Suc k \<and> ls' ! q = ls ! r)"
    if "i \<le> q \<and> q < Suc k" for q
  proof (cases "q = k")
    case True
    with that assms False show ?thesis by (auto simp: rowDone_def intro!: exI [of _ k])
  next
    case q: False
    with that have "i \<le> q" "q < k" by auto
    with assms(1) have "labName ls' i \<le> labName ls' q" "\<exists>r. i \<le> r \<and> r < k \<and> ls' ! q = ls ! r"
      by (auto simp: rowDone_def)
    then show ?thesis by (auto intro: less_SucI)
  qed
  with False assms show ?thesis by (auto simp: rowDone_def exchange_def)
next
  case True
  have len: "i < length ls'" "k < length ls'" using assms by (auto simp: rowDone_def)
  let ?l = "swapAt i k ls'"
  have nth: "?l ! q = (if q = k then ls' ! i else if q = i then ls' ! k else ls' ! q)" for q
    using nth_swapAt [OF len] .
  have name: "labName ?l q = (if q = k then labName ls' i else if q = i then labName ls' k else labName ls' q)" for q
    by (simp add: labName_def nth)
  have k: "ls' ! k = ls ! k" using assms by (simp add: rowDone_def)
  have "labName ?l i \<le> labName ?l q \<and> (\<exists>r. i \<le> r \<and> r < Suc k \<and> ?l ! q = ls ! r)"
    if q: "i \<le> q \<and> q < Suc k" for q
  proof -
    consider "q = k" | "q = i" "q \<noteq> k" | "i < q" "q < k" using q by linarith
    then show ?thesis
    proof cases
      case 1
      with assms have "\<exists>r. i \<le> r \<and> r < k \<and> ls' ! i = ls ! r" by (auto simp: rowDone_def)
      with 1 True show ?thesis by (auto simp: name nth less_imp_le intro: less_SucI)
    next
      case 2
      with assms(2) k show ?thesis by (auto simp: name nth intro!: exI [of _ k])
    next
      case 3
      then have "labName ls' i \<le> labName ls' q" "\<exists>r. i \<le> r \<and> r < k \<and> ls' ! q = ls ! r"
        using assms(1) by (auto simp: rowDone_def)
      with 3 True show ?thesis using assms(2) by (auto simp: name nth intro: less_SucI order_less_imp_le order_less_le_trans)
    qed
  qed
  moreover have "?l ! q = ls ! q" if "q < i \<or> Suc k \<le> q" for q
    using that assms by (auto simp: nth rowDone_def)
  ultimately show ?thesis
    using True assms len by (simp add: rowDone_def exchange_def)
qed

lemma exchangeRow_done: "i < k \<Longrightarrow> k \<le> length ls \<Longrightarrow> rowDone i k ls (exchangeRow k i ls)"
proof (induction k)
  case (Suc k)
  show ?case
  proof (cases "i = k")
    case True
    then show ?thesis by (auto simp: rowDone_def exchangeRow_def le_less_Suc_eq)
  next
    case False
    with Suc have "rowDone i k ls (exchangeRow k i ls)" by simp
    from exchange_rowDone [OF this] Suc False show ?thesis by (simp add: exchangeRow_def)
  qed
qed simp

definition sortedTo :: "nat \<Rightarrow> nat \<Rightarrow> prom_label list \<Rightarrow> bool" where
  "sortedTo m n ls \<longleftrightarrow> (\<forall>p q. 1 \<le> p \<and> p < m \<and> p \<le> q \<and> q < n \<longrightarrow> labName ls p \<le> labName ls q)"

lemma exchangeRows:
  assumes "n \<le> length ls" "m \<le> n - 1" "1 \<le> m"
  defines "ls' \<equiv> fold (exchangeRow n) [1..<m] ls"
  shows "length ls' = length ls \<and> mset ls' = mset ls \<and> ls' ! 0 = ls ! 0 \<and> (\<forall>q \<ge> n. ls' ! q = ls ! q)
     \<and> sortedTo m n ls'"
  using assms(2,3) unfolding ls'_def
proof (induction m)
  case (Suc m)
  show ?case
  proof (cases "m = 0")
    case False
    let ?a = "fold (exchangeRow n) [1..<m] ls"
    have IH: "length ?a = length ls \<and> mset ?a = mset ls \<and> ?a ! 0 = ls ! 0 \<and> (\<forall>q \<ge> n. ?a ! q = ls ! q) \<and> sortedTo m n ?a"
      using Suc False by simp
    have row: "rowDone m n ?a (exchangeRow n m ?a)"
      using Suc.prems assms(1) IH by (intro exchangeRow_done) auto
    have "labName (exchangeRow n m ?a) p \<le> labName (exchangeRow n m ?a) q"
      if pq: "1 \<le> p \<and> p < Suc m \<and> p \<le> q \<and> q < n" for p q
    proof (cases "p = m")
      case True
      then show ?thesis using row pq by (auto simp: rowDone_def)
    next
      case p: False
      then have pm: "labName (exchangeRow n m ?a) p = labName ?a p"
        using row pq by (intro labName_cong) (auto simp: rowDone_def)
      obtain r where r: "exchangeRow n m ?a ! q = ?a ! r" "p \<le> r" "r < n"
      proof (cases "q < m")
        case True
        with row pq have "exchangeRow n m ?a ! q = ?a ! q" by (simp add: rowDone_def)
        with pq show thesis by (intro that) auto
      next
        case False
        with row pq have "\<exists>r. m \<le> r \<and> r < n \<and> exchangeRow n m ?a ! q = ?a ! r" by (simp add: rowDone_def)
        with pq p show thesis using that by (meson le_trans less_Suc_eq_le)
      qed
      have "labName ?a p \<le> labName ?a r" using IH pq p r by (auto simp: sortedTo_def)
      then show ?thesis using pm labName_cong [OF r(1)] by simp
    qed
    then have "sortedTo (Suc m) n (exchangeRow n m ?a)" by (simp add: sortedTo_def)
    with IH row False show ?thesis by (simp add: rowDone_def)
  qed (simp add: sortedTo_def)
qed simp

lemma sortRequired_False:
  assumes "\<not> sortRequired n ls"
  shows "sortedTo n n ls"
proof -
  have step: "labName ls p \<le> labName ls (Suc p)" if "1 \<le> p" "Suc p < n" for p
  proof -
    have "p \<in> set [1..<n - 1]" using that by auto
    with assms have "\<not> labName ls (p + 1) < labName ls p" unfolding sortRequired_def list_ex_iff by blast
    then show ?thesis by (simp add: not_less)
  qed
  have "labName ls p \<le> labName ls (p + k)" if "1 \<le> p" "p + k < n" for p k
    using that(2)
  proof (induction k)
    case (Suc k)
    then show ?case using step [of "p + k"] that(1) by (auto intro: order_trans)
  qed simp
  then show ?thesis unfolding sortedTo_def by (metis le_add_diff_inverse)
qed

definition sortLabels :: "nat \<Rightarrow> prom_label list \<Rightarrow> prom_label list" where
  "sortLabels n ls = (if sortRequired n ls then exchangeSort n ls else ls)"

lemma sortLabels_spec:
  assumes "n \<le> length ls"
  shows "length (sortLabels n ls) = length ls" "mset (sortLabels n ls) = mset ls" "sortLabels n ls ! 0 = ls ! 0"
    "\<forall>q \<ge> n. sortLabels n ls ! q = ls ! q" "sortedTo n n (sortLabels n ls)"
proof -
  have "length (sortLabels n ls) = length ls \<and> mset (sortLabels n ls) = mset ls \<and> sortLabels n ls ! 0 = ls ! 0
    \<and> (\<forall>q \<ge> n. sortLabels n ls ! q = ls ! q) \<and> sortedTo n n (sortLabels n ls)"
  proof (cases "sortRequired n ls")
    case False
    then show ?thesis using sortRequired_False [OF False] by (simp add: sortLabels_def)
  next
    case True
    then have "1 \<le> n - 1" by (cases "n - 1") (auto simp: sortRequired_def)
    note rows = exchangeRows [OF assms order_refl this, folded exchangeSort_def]
    have "sortedTo n n (exchangeSort n ls)"
    proof -
      have "labName (exchangeSort n ls) p \<le> labName (exchangeSort n ls) q"
        if "1 \<le> p \<and> p < n \<and> p \<le> q \<and> q < n" for p q
      proof (cases "p < n - 1")
        case True
        with rows that show ?thesis by (simp add: sortedTo_def)
      next
        case False
        with that have "p = q" by linarith
        then show ?thesis by simp
      qed
      then show ?thesis by (simp add: sortedTo_def)
    qed
    with rows True show ?thesis by (simp add: sortLabels_def)
  qed
  then show "length (sortLabels n ls) = length ls" "mset (sortLabels n ls) = mset ls" "sortLabels n ls ! 0 = ls ! 0"
    "\<forall>q \<ge> n. sortLabels n ls ! q = ls ! q" "sortedTo n n (sortLabels n ls)" by blast+
qed

text \<open>The labels as pairs: on distinct names the exchange sort is the sort by name.\<close>

definition filled :: "(bytes \<times> bytes) \<Rightarrow> prom_label" where
  "filled p = (Some (fst p), Some (snd p))"

lemma labPair_filled: "ls ! i = filled p \<Longrightarrow> (labName ls i, labValue ls i) = p"
  by (simp add: labName_def labValue_def filled_def)

lemma inj_filled: "inj filled"
  by (auto simp: inj_def filled_def)

lemma map_filled_mset: "mset (map filled a) = mset (map filled b) \<longleftrightarrow> mset a = mset b"
proof
  define g :: "prom_label \<Rightarrow> bytes \<times> bytes" where "g p = (the (fst p), the (snd p))" for p
  have g: "map g (map filled c) = c" for c by (simp add: g_def filled_def comp_def)
  assume "mset (map filled a) = mset (map filled b)"
  then have "mset (map g (map filled a)) = mset (map g (map filled b))" by (simp only: mset_map)
  then show "mset a = mset b" unfolding g .
qed simp

lemma labName_take: "take n ls = map filled ps \<Longrightarrow> i < length ps \<Longrightarrow> length ps \<le> n \<Longrightarrow> ls ! i = filled (ps ! i)"
  by (metis less_le_trans nth_map nth_take)

lemma sortLabels_pairs:
  assumes "take n ls = map filled (x # xs)" "n = Suc (length xs)" "distinct (map fst xs)"
  shows "take n (sortLabels n ls) = map filled (x # sort_key fst xs)"
proof -
  have n: "n \<le> length ls" using arg_cong [OF assms(1), of length] assms(2) by simp
  let ?l = "sortLabels n ls"
  note sp = sortLabels_spec [OF n]
  have drops: "drop n ?l = drop n ls" using sp(1,4) by (auto intro: nth_equalityI)
  have "mset (take n ?l) + mset (drop n ?l) = mset (take n ls) + mset (drop n ls)"
    using sp(2) by (metis append_take_drop_id mset_append)
  then have mset: "mset (take n ?l) = mset (map filled (x # xs))" using drops assms(1) by simp
  then have "set (take n ?l) \<subseteq> range filled" by (metis set_mset_mset set_map image_mono subset_UNIV)
  then obtain ps where ps: "take n ?l = map filled ps"
    using ex_map_conv [of "take n ?l" filled] by blast
  with mset have mps: "mset ps = mset (x # xs)" by (metis map_filled_mset)
  have len: "length ps = n" using ps sp(1) n by (metis length_map length_take min.absorb2)
  have "filled (ps ! 0) = filled x"
    using labName_take [OF ps, of 0] labName_take [OF assms(1), of 0] sp(3) assms(2) len by simp
  then have "ps ! 0 = x" by (rule injD [OF inj_filled])
  then obtain ys where ys: "ps = x # ys" using len assms(2) by (cases ps) auto
  have "sorted (map fst ys)"
  proof (rule sorted_iff_nth_mono [THEN iffD2], intro allI impI)
    fix i j assume ij: "i \<le> j" "j < length (map fst ys)"
    have nm: "labName ?l (Suc k) = fst (ys ! k)" if "k < length ys" for k
      using labName_take [OF ps, of "Suc k"] that len ys by (simp add: labName_def filled_def)
    have "labName ?l (Suc i) \<le> labName ?l (Suc j)"
      using sp(5) ij len ys by (auto simp: sortedTo_def)
    with ij nm show "map fst ys ! i \<le> map fst ys ! j" by simp
  qed
  moreover have m: "mset ys = mset xs" using mps ys by simp
  moreover have "inj_on fst (set ys)" using assms(3) mset_eq_setD [OF m] by (simp add: distinct_map)
  ultimately have "sort_key fst xs = ys"
    by (intro sort_key_inj_key_eq) (simp_all only: mset_eq_setD [OF m])
  with ps ys show ?thesis by simp
qed

lemma find_map: "find P (map f xs) = map_option f (find (P \<circ> f) xs)"
  by (induction xs) auto

lemma nameIndex_find: "nameIndex ps = find (\<lambda>i. fst (ps ! i) = str ''__name__'') [0..<length ps]"
proof (induction ps)
  case (Cons p ps)
  have "[0..<length (p # ps)] = 0 # map Suc [0..<length ps]" by (simp only: map_Suc_upt list.size) (simp add: upt_rec)
  with Cons show ?case by (cases p) (simp only: find.simps find_map, simp add: comp_def)
qed simp

lemma find_name_index:
  assumes "take n ls = map filled ps" "n = length ps"
  shows "find (\<lambda>i. labName ls i = str ''__name__'') [0..<n] = nameIndex ps"
proof -
  have "labName ls i = fst (ps ! i)" if "i \<in> set [0..<n]" for i
    using labName_take [OF assms(1), of i] that assms(2) by (simp add: labName_def filled_def)
  then show ?thesis unfolding nameIndex_find assms(2) by (intro find_cong) (auto simp: assms(2))
qed

lemma swapAt_filled:
  assumes "take n ls = map filled ps" "n = length ps" "i < n"
  shows "take n (if i \<noteq> 0 then swapAt 0 i ls else ls) = map filled (swapFirst i ps)"
  using assms
  by (auto simp: swapAt_def swapFirst_def take_update_swap map_update intro!: arg_cong2 [where f = "\<lambda>a b. (_[0 := a])[i := b]"] labName_take)

subsection \<open>The metric of a series\<close>

definition cacheOk :: "prom_buf \<Rightarrow> bool" where
  "cacheOk mb \<longleftrightarrow> (\<forall>k v. map_of (mbQueryEscape mb) k = Some v \<longrightarrow> v = Query k)"

lemma shouldEscapeByte_eq: "shouldEscapeByte c = shouldEscape c encodeQueryComponent"
  by (auto simp: shouldEscapeByte_def shouldEscape_def)

lemma Query_plain: "\<not> shouldQueryEscape bs \<Longrightarrow> Query bs = bs"
  by (auto simp: shouldQueryEscape_def list_ex_iff shouldEscapeByte_eq Query_def escape_eq intro: encBytes_plain)

lemma urlQueryEscape_eq:
  assumes "cacheOk mb"
  shows "fst (urlQueryEscape bs mb) = Query bs" "cacheOk (snd (urlQueryEscape bs mb))"
    "mbMetric (snd (urlQueryEscape bs mb)) = mbMetric mb"
    "mbMetricUsed (snd (urlQueryEscape bs mb)) = mbMetricUsed mb"
proof -
  show "fst (urlQueryEscape bs mb) = Query bs"
    using assms Query_plain [of bs] by (simp add: urlQueryEscape_def cacheOk_def Let_def split: option.split)
  show "cacheOk (snd (urlQueryEscape bs mb))"
    using assms by (simp add: urlQueryEscape_def cacheOk_def Let_def update_conv' split: option.split)
  show "mbMetric (snd (urlQueryEscape bs mb)) = mbMetric mb"
    "mbMetricUsed (snd (urlQueryEscape bs mb)) = mbMetricUsed mb"
    by (simp_all add: urlQueryEscape_def Let_def split: option.split)
qed

definition escapedPairs :: "(bytes \<times> bytes) list \<Rightarrow> bytes list" where
  "escapedPairs ls = concat (map (\<lambda>(n, v). [Query n, Query v]) ls)"

lemma metricLoop_spec:
  "cacheOk mb \<Longrightarrow> mbMetricUsed mb + 2 * length ls \<le> length (mbMetric mb) \<Longrightarrow>
     cacheOk (metricLoop ls mb) \<and> mbMetricUsed (metricLoop ls mb) = mbMetricUsed mb + 2 * length ls
     \<and> length (mbMetric (metricLoop ls mb)) = length (mbMetric mb)
     \<and> take (mbMetricUsed (metricLoop ls mb)) (mbMetric (metricLoop ls mb))
         = take (mbMetricUsed mb) (mbMetric mb) @ escapedPairs ls"
proof (induction ls arbitrary: mb)
  case (Cons p ls)
  obtain n v where p: "p = (n, v)" by fastforce
  let ?u = "mbMetricUsed mb"
  from urlQueryEscape_eq [OF Cons.prems(1), of n] obtain m1 where m1: "urlQueryEscape n mb = (Query n, m1)"
    "cacheOk m1" "mbMetric m1 = mbMetric mb" "mbMetricUsed m1 = ?u" by (metis prod.collapse)
  let ?m1 = "m1\<lparr>mbMetric := (mbMetric m1)[mbMetricUsed m1 := Query n], mbMetricUsed := mbMetricUsed m1 + 1\<rparr>"
  have "cacheOk ?m1" using m1(2) by (simp add: cacheOk_def)
  from urlQueryEscape_eq [OF this, of v] obtain m2 where m2: "urlQueryEscape v ?m1 = (Query v, m2)"
    "cacheOk m2" "mbMetric m2 = mbMetric ?m1" "mbMetricUsed m2 = mbMetricUsed ?m1" by (metis prod.collapse)
  let ?m2 = "m2\<lparr>mbMetric := (mbMetric m2)[mbMetricUsed m2 := Query v], mbMetricUsed := mbMetricUsed m2 + 1\<rparr>"
  have c2: "cacheOk ?m2" using m2(2) by (simp add: cacheOk_def)
  have len: "mbMetricUsed ?m2 + 2 * length ls \<le> length (mbMetric ?m2)"
    using Cons.prems(2) m1 m2 by simp
  have t: "take (mbMetricUsed ?m2) (mbMetric ?m2) = take ?u (mbMetric mb) @ [Query n, Query v]"
    using Cons.prems(2) m1 m2 by (simp add: take_Suc_conv_app_nth)
  define r where "r = metricLoop ls ?m2"
  have r: "metricLoop (p # ls) mb = r" using m1(1) m2(1) by (simp add: p r_def)
  from Cons.IH [OF c2 len, folded r_def]
  have IH: "cacheOk r" "mbMetricUsed r = mbMetricUsed ?m2 + 2 * length ls" "length (mbMetric r) = length (mbMetric ?m2)"
    "take (mbMetricUsed r) (mbMetric r) = take (mbMetricUsed ?m2) (mbMetric ?m2) @ escapedPairs ls" by blast+
  have "take (mbMetricUsed r) (mbMetric r) = take ?u (mbMetric mb) @ escapedPairs (p # ls)"
    unfolding IH(4) t by (simp add: p escapedPairs_def)
  with IH(1-3) m1 m2 show ?case unfolding r by (simp del: take_append)
qed (simp add: escapedPairs_def)

text \<open>The metric the code builds from labels: the name, then the other labels sorted, escaped.\<close>

definition promMetric :: "label list \<Rightarrow> bytes list" where
  "promMetric labels =
     (case nameIndex labels of
        None \<Rightarrow> []
      | Some i \<Rightarrow> snd (labels ! i) # escapedPairs (sort_key fst (drop 1 (swapFirst i labels))))"

lemma tail_pairs:
  assumes "take n ls = map filled (x # ys)" "n = Suc (length ys)"
  shows "map (\<lambda>i. (labName ls i, labValue ls i)) [1..<n] = ys"
proof (rule nth_equalityI)
  fix k assume "k < length (map (\<lambda>i. (labName ls i, labValue ls i)) [1..<n])"
  then have k: "Suc k < n" by simp
  then have "ls ! Suc k = filled (ys ! k)" using labName_take [OF assms(1), of "Suc k"] assms(2) by simp
  moreover have "[1..<n] ! k = Suc k" using k by (subst nth_upt) simp_all
  ultimately show "map (\<lambda>i. (labName ls i, labValue ls i)) [1..<n] ! k = ys ! k"
    using k labPair_filled [of ls "Suc k" "ys ! k"] by simp
qed (simp add: assms(2) del: upt_Suc)

lemma timeSeries_of_labels:
  assumes "tsLoop (length tsBody) tsBody \<lparr>tsLabels = mbLabels mb, tsIndex = 0, tsSamplesOffset = 0\<rparr> = Some (Inr st)"
    and "take (tsIndex st) (tsLabels st) = map filled labels" "tsIndex st = length labels"
    and "nameIndex labels = Some i" "distinct (map fst labels)" "cacheOk mb" "mbMetric mb \<noteq> []"
  shows "\<exists>mb'. timeSeries tsBody mb = Some (mb', Inr (promMetric labels, tsSamplesOffset st)) \<and> cacheOk mb' \<and> mbMetric mb' \<noteq> []"
proof -
  let ?n = "length labels"
  have i: "i < ?n" using nameIndex_SomeD [OF assms(4)] by simp
  let ?ls = "if i \<noteq> 0 then swapAt 0 i (tsLabels st) else tsLabels st"
  have sw: "take ?n ?ls = map filled (swapFirst i labels)"
    using swapAt_filled [of ?n "tsLabels st" labels i] assms(2,3) i by simp
  obtain x xs where x: "swapFirst i labels = x # xs" "x = labels ! i" and mset: "add_mset x (mset xs) = mset labels"
    using swapFirst_tail [OF i] by fastforce
  have nxs: "?n = Suc (length xs)" using arg_cong [OF mset, of size] by simp
  have dist: "distinct (map fst xs)"
    using assms(5) mset by (metis distinct.simps(2) list.simps(9) mset.simps(2) mset_eq_imp_distinct_iff mset_map)
  let ?sorted = "sortLabels ?n ?ls"
  have sorted: "take ?n ?sorted = map filled (x # sort_key fst xs)"
    using sortLabels_pairs [OF sw [unfolded x(1)] nxs dist] .
  have pairs: "map (\<lambda>i. (labName ?sorted i, labValue ?sorted i)) [1..<?n] = sort_key fst xs"
    using tail_pairs [OF sorted] nxs by simp
  have v0: "labValue ?ls 0 = snd x"
    using labName_take [OF sw, of 0] x nxs by (simp add: labValue_def filled_def)
  define metric where "metric = (mbMetric mb)[0 := labValue ?ls 0]"
  define metric' where "metric' = (if ?n * 2 > length metric then metric @ replicate (?n * 2 - length metric) [] else metric)"
  define mb1 where "mb1 = mb\<lparr>mbLabels := ?sorted, mbMetric := metric', mbMetricUsed := 1\<rparr>"
  define r where "r = metricLoop (sort_key fst xs) mb1"
  have ne: "metric \<noteq> []" "take 1 metric = [snd x]" using assms(7) 
    unfolding metric_def v0 by (cases "mbMetric mb"; simp)+
  then have m1: "take 1 metric' = [snd x]" by (cases metric) (auto simp: metric'_def)
  have len: "1 + 2 * length (sort_key fst xs) \<le> length metric'" using nxs by (auto simp: metric'_def)
  have mb1: "cacheOk mb1" "mbMetric mb1 = metric'" "mbMetricUsed mb1 = 1"
    using assms(6) by (simp_all add: cacheOk_def mb1_def)
  from metricLoop_spec [OF mb1(1), of "sort_key fst xs", folded r_def] len
  have r: "cacheOk r" "take (mbMetricUsed r) (mbMetric r) = take 1 metric' @ escapedPairs (sort_key fst xs)"
    "length (mbMetric r) = length metric'" unfolding mb1 by blast+
  have "timeSeries tsBody mb = Some (r, Inr (take (mbMetricUsed r) (mbMetric r), tsSamplesOffset st))"
    using assms(1,3,4) find_name_index [OF assms(2,3)]
    unfolding r_def mb1_def metric'_def metric_def pairs [symmetric]
    by (simp add: timeSeries_def Let_def sortLabels_def [symmetric] split del: if_split cong: if_cong)
  moreover have "take (mbMetricUsed r) (mbMetric r) = promMetric labels"
    unfolding r(2) m1 using assms(4) x by (simp add: promMetric_def)
  moreover have "mbMetric r \<noteq> []" using r(3) len by fastforce
  ultimately show ?thesis using r(1) by metis
qed

subsection \<open>Decoding an encoded write request\<close>

text \<open>The protobuf encoding of a request, in the order every encoder uses: labels, then samples.\<close>

definition encLabel :: "label \<Rightarrow> bytes" where
  "encLabel l = 0x0a # lenPrefixed (0x0a # lenPrefixed (fst l) @ 0x12 # lenPrefixed (snd l))"

definition encSample :: "float64 \<times> uint64 \<Rightarrow> bytes" where
  "encSample s = 0x12 # lenPrefixed (0x09 # putUint64 (fst s) @ 0x10 # putUvarint (snd s))"

definition encSeriesBody :: "label list \<times> (float64 \<times> uint64) list \<Rightarrow> bytes" where
  "encSeriesBody x = concat (map encLabel (fst x)) @ concat (map encSample (snd x))"

definition encRequest :: "(label list \<times> (float64 \<times> uint64) list) list \<Rightarrow> bytes" where
  "encRequest xs = concat (map (\<lambda>x. 0x0a # lenPrefixed (encSeriesBody x)) xs)"

definition labelFits :: "label \<Rightarrow> bool" where
  "labelFits l \<longleftrightarrow> length (fst l) < 2 ^ 60 \<and> length (snd l) < 2 ^ 60"

lemma length_lenPrefixed: "length (lenPrefixed x) \<le> length x + 10"
  using length_putUvarint_max [of "of_nat (length x)"] by (simp add: lenPrefixed_def)

lemma labelLoop_enc:
  assumes "labelFits l"
  shows "labelLoop (0x0a # lenPrefixed (fst l) @ 0x12 # lenPrefixed (snd l)) (None, None) = Some (Inr (filled l))"
proof -
  have "length (fst l) < 2 ^ 63" "length (snd l) < 2 ^ 63" using assms by (auto simp: labelFits_def)
  with pbBytes_lenPrefixed [of "snd l" "[]"] show ?thesis
    by (simp add: labelLoop.simps filled_def)
qed

lemma encLabel_body_length: "labelFits l \<Longrightarrow> length (0x0a # lenPrefixed (fst l) @ 0x12 # lenPrefixed (snd l)) < 2 ^ 63"
  using length_lenPrefixed [of "fst l"] length_lenPrefixed [of "snd l"] by (simp add: labelFits_def)

definition slotsHold :: "label list \<Rightarrow> ts_state \<Rightarrow> bool" where
  "slotsHold ls st \<longleftrightarrow> tsIndex st = length ls \<and> length ls \<le> length (tsLabels st)
     \<and> take (length ls) (tsLabels st) = map filled ls"

lemma tsLoop_label:
  assumes "slotsHold ls st" "labelFits l"
  shows "\<exists>st'. tsLoop n (encLabel l @ rest) st = tsLoop n rest st' \<and> slotsHold (ls @ [l]) st'
     \<and> tsSamplesOffset st' = tsSamplesOffset st"
proof -
  let ?i = "length ls"
  let ?L = "(if length (tsLabels st) < ?i + 1 then tsLabels st @ [(None, None)] else tsLabels st)"
  let ?st = "st\<lparr>tsLabels := ?L[?i := filled l], tsIndex := ?i + 1\<rparr>"
  have i: "?i < length ?L" "take ?i ?L = map filled ls" using assms(1) by (auto simp: slotsHold_def)
  have "take (Suc ?i) (?L[?i := filled l]) = take ?i ?L @ [filled l]"
    using i(1) by (subst take_Suc_conv_app_nth) auto
  with i have "slotsHold (ls @ [l]) ?st" by (simp add: slotsHold_def)
  moreover have "tsLoop n (encLabel l @ rest) st = tsLoop n rest ?st"
    using pbBytes_lenPrefixed [OF encLabel_body_length [OF assms(2)], of rest] labelLoop_enc [OF assms(2)] assms(1)
    by (subst tsLoop.simps) (simp add: encLabel_def slotsHold_def filled_def Let_def split del: if_split)
  ultimately show ?thesis by (intro exI [of _ ?st]) simp
qed

lemma tsLoop_labels:
  "slotsHold ls0 st \<Longrightarrow> \<forall>l \<in> set ls. labelFits l \<Longrightarrow>
     \<exists>st'. tsLoop n (concat (map encLabel ls) @ rest) st = tsLoop n rest st' \<and> slotsHold (ls0 @ ls) st'
       \<and> tsSamplesOffset st' = tsSamplesOffset st"
proof (induction ls arbitrary: ls0 st)
  case (Cons l ls)
  from tsLoop_label [OF Cons.prems(1), of l n "concat (map encLabel ls) @ rest"] Cons.prems(2)
  obtain st1 where st1: "tsLoop n (encLabel l @ concat (map encLabel ls) @ rest) st = tsLoop n (concat (map encLabel ls) @ rest) st1"
    "slotsHold (ls0 @ [l]) st1" "tsSamplesOffset st1 = tsSamplesOffset st" by auto
  from Cons.IH [OF st1(2)] Cons.prems(2) st1 show ?case by auto
qed auto

lemma encSample_body_length: "length (0x09 # putUint64 v @ 0x10 # putUvarint t) < 2 ^ 63"
  using length_putUvarint_max [of t] by simp

lemma Skip_sample: "Skip (encSample s @ rest) = Some (Inr rest)"
proof -
  have "WireType (encSample s @ rest) = Inr (2, lenPrefixed (0x09 # putUint64 (fst s) @ 0x10 # putUvarint (snd s)) @ rest)"
    by (simp add: encSample_def WireType_def)
  with pbBytes_lenPrefixed [OF encSample_body_length, of "fst s" "snd s" rest] show ?thesis by (simp add: Skip_def)
qed

lemma tsLoop_samples:
  "\<exists>st'. tsLoop n (concat (map encSample ss)) st = Some (Inr st') \<and> tsLabels st' = tsLabels st \<and> tsIndex st' = tsIndex st
     \<and> tsSamplesOffset st' = (if ss = [] \<or> tsSamplesOffset st \<noteq> 0 then tsSamplesOffset st
         else if length (concat (map encSample ss)) < n then n - length (concat (map encSample ss)) else tsSamplesOffset st')"
proof (induction ss arbitrary: st)
  case (Cons s ss)
  let ?ts = "encSample s @ concat (map encSample ss)"
  let ?st = "if tsSamplesOffset st = 0 then st\<lparr>tsSamplesOffset := n - length ?ts\<rparr> else st"
  have "tsLoop n ?ts st = tsLoop n (concat (map encSample ss)) ?st"
    using Skip_sample [of s "concat (map encSample ss)"]
    by (subst tsLoop.simps) (simp add: encSample_def split del: if_split)
  with Cons.IH [of ?st] show ?case by (auto split: if_splits)
qed (simp add: tsLoop.simps)

lemma sampleLoop_enc: "sampleLoop (0x09 # putUint64 v @ 0x10 # putUvarint t) (0, 0) = Some (Inr (v, t))"
  using Int64_putUvarint [of t "[]"] by (simp add: sampleLoop.simps)

lemma samplesLoop_samples:
  "samplesLoop env send metric (concat (map encSample ss)) st =
     map_option (\<lambda>(b, w). (None, st\<lparr>prBase := b, prWriter := w\<rparr>))
       (rangeLoop (storeSample env send metric) ss (prBase st, prWriter st))"
proof (induction ss arbitrary: st)
  case (Cons x ss)
  let ?rest = "concat (map encSample ss)"
  have "samplesLoop env send metric (encSample x @ ?rest) st =
      (case storeSample env send metric x (prBase st, prWriter st) of None \<Rightarrow> None
       | Some (b, w) \<Rightarrow> samplesLoop env send metric ?rest (st\<lparr>prBase := b, prWriter := w\<rparr>))"
    using pbBytes_lenPrefixed [OF encSample_body_length, of "fst x" "snd x" ?rest] sampleLoop_enc [of "fst x" "snd x"]
    by (subst samplesLoop.simps) (simp add: encSample_def)
  with Cons show ?case by (auto split: option.split)
qed (simp add: samplesLoop.simps)

lemma Skip_label: "labelFits l \<Longrightarrow> Skip (encLabel l @ rest) = Some (Inr rest)"
proof -
  assume l: "labelFits l"
  have "WireType (encLabel l @ rest) = Inr (2, lenPrefixed (0x0a # lenPrefixed (fst l) @ 0x12 # lenPrefixed (snd l)) @ rest)"
    by (simp add: encLabel_def WireType_def)
  with pbBytes_lenPrefixed [OF encLabel_body_length [OF l], of rest] show ?thesis by (simp add: Skip_def)
qed

lemma samplesLoop_label:
  "labelFits l \<Longrightarrow> samplesLoop env send metric (encLabel l @ rest) st = samplesLoop env send metric rest st"
  using Skip_label [of l rest] by (subst samplesLoop.simps) (simp add: encLabel_def)

lemma samplesLoop_labels:
  "\<forall>l \<in> set ls. labelFits l \<Longrightarrow>
     samplesLoop env send metric (concat (map encLabel ls) @ rest) st = samplesLoop env send metric rest st"
  by (induction ls) (simp_all add: samplesLoop_label)

definition seriesFits :: "label list \<times> (float64 \<times> uint64) list \<Rightarrow> bool" where
  "seriesFits x \<longleftrightarrow> distinct (map fst (fst x)) \<and> nameIndex (fst x) \<noteq> None
     \<and> (\<forall>l \<in> set (fst x). labelFits l) \<and> length (encSeriesBody x) < 2 ^ 63"

lemma series_enc:
  assumes "seriesFits x" "cacheOk mb" "mbMetric mb \<noteq> []"
  shows "\<exists>mb' off. timeSeries (encSeriesBody x) mb = Some (mb', Inr (promMetric (fst x), off)) \<and> cacheOk mb' \<and> mbMetric mb' \<noteq> []
     \<and> (\<forall>st. samplesLoop env send metric (drop off (encSeriesBody x)) st = samplesLoop env send metric (concat (map encSample (snd x))) st)"
proof -
  obtain ls ss where x: "x = (ls, ss)" by fastforce
  let ?L = "concat (map encLabel ls)" and ?S = "concat (map encSample ss)"
  have fits: "\<forall>l \<in> set ls. labelFits l" using assms(1) x by (simp add: seriesFits_def)
  from assms(1) x obtain i where i: "nameIndex ls = Some i" by (auto simp: seriesFits_def)
  then have "ls \<noteq> []" by auto
  then have L: "0 < length ?L" by (cases ls) (simp_all add: encLabel_def)
  let ?n = "length (encSeriesBody x)"
  let ?st0 = "\<lparr>tsLabels = mbLabels mb, tsIndex = 0, tsSamplesOffset = 0\<rparr>"
  have "slotsHold [] ?st0" by (simp add: slotsHold_def)
  from tsLoop_labels [OF this fits, of ?n ?S] obtain st1 where st1: "tsLoop ?n (encSeriesBody x) ?st0 = tsLoop ?n ?S st1"
    "slotsHold ls st1" "tsSamplesOffset st1 = 0" by (auto simp: encSeriesBody_def x)
  have n: "?n = length ?L + length ?S" by (simp add: encSeriesBody_def x)
  obtain st2 where st2: "tsLoop ?n ?S st1 = Some (Inr st2)" "tsLabels st2 = tsLabels st1" "tsIndex st2 = tsIndex st1"
    and "tsSamplesOffset st2 = (if ss = [] \<or> tsSamplesOffset st1 \<noteq> 0 then tsSamplesOffset st1
         else if length ?S < ?n then ?n - length ?S else tsSamplesOffset st2)"
    using tsLoop_samples [of ?n ss st1] by blast
  then have off: "tsSamplesOffset st2 = (if ss = [] then 0 else length ?L)"
    using st1(3) L unfolding n by (cases "ss = []") auto
  have "\<exists>mb'. timeSeries (encSeriesBody x) mb = Some (mb', Inr (promMetric ls, tsSamplesOffset st2)) \<and> cacheOk mb' \<and> mbMetric mb' \<noteq> []"
    using st1 st2 i assms x by (intro timeSeries_of_labels) (auto simp: slotsHold_def seriesFits_def)
  moreover have "samplesLoop env send metric (drop (tsSamplesOffset st2) (encSeriesBody x)) st = samplesLoop env send metric ?S st" for st
    using off samplesLoop_labels [OF fits, of env send metric ?S st] by (cases "ss = []") (simp_all add: encSeriesBody_def x)
  ultimately show ?thesis using x by auto
qed

lemma timeSeriesLoop_enc:
  "\<forall>x \<in> set xs. seriesFits x \<Longrightarrow> cacheOk (prMb st) \<Longrightarrow> mbMetric (prMb st) \<noteq> [] \<Longrightarrow>
     map_option (\<lambda>(e, st). (e, prBase st, prWriter st)) (timeSeriesLoop env send (encRequest xs) st) =
     map_option (\<lambda>(b, w). (None, b, w))
       (rangeLoop (\<lambda>x. rangeLoop (storeSample env send (promMetric (fst x))) (snd x)) xs (prBase st, prWriter st))"
proof (induction xs arbitrary: st)
  case (Cons x xs)
  let ?m = "promMetric (fst x)" and ?rest = "encRequest xs"
  from series_enc [of x "prMb st" env send ?m] Cons.prems obtain mb' off where
    t: "timeSeries (encSeriesBody x) (prMb st) = Some (mb', Inr (?m, off))" "cacheOk mb'" "mbMetric mb' \<noteq> []"
    "\<And>st. samplesLoop env send ?m (drop off (encSeriesBody x)) st = samplesLoop env send ?m (concat (map encSample (snd x))) st"
    by auto
  have len: "length (encSeriesBody x) < 2 ^ 63" using Cons.prems(1) by (simp add: seriesFits_def)
  have "timeSeriesLoop env send (encRequest (x # xs)) st =
     (case rangeLoop (storeSample env send ?m) (snd x) (prBase st, prWriter st) of None \<Rightarrow> None
      | Some (b, w) \<Rightarrow> timeSeriesLoop env send ?rest (st\<lparr>prMb := mb', prBase := b, prWriter := w\<rparr>))"
    using pbBytes_lenPrefixed [OF len, of ?rest] t(1,4)
    by (subst timeSeriesLoop.simps) (simp add: encRequest_def samplesLoop_samples split: option.split)
  with Cons.IH Cons.prems t show ?case by (auto split: option.split)
qed (simp add: encRequest_def timeSeriesLoop.simps)

text \<open>The points a series stands for.\<close>

definition promPoints ::
  "base \<Rightarrow> uint32 \<Rightarrow> label list \<times> (float64 \<times> uint64) list \<Rightarrow> point list" where
  "promPoints b now x = concat (map (\<lambda>(v, t).
     if IsNaN v \<or> dropsPoint b now [] (ucast (div1000 t)) then []
     else itemOut now (taggedPath (promMetric (fst x)), v, div1000 t)) (snd x))"

lemma promPoints_simps:
  "promPoints b now (ls, []) = []"
  "promPoints b now (ls, (v, t) # ss) =
     (if IsNaN v \<or> dropsPoint b now [] (ucast (div1000 t)) then []
      else itemOut now (taggedPath (promMetric ls), v, div1000 t)) @ promPoints b now (ls, ss)"
  unfolding promPoints_def fst_conv snd_conv by simp_all

definition writerStream :: "writer \<Rightarrow> bytes" where
  "writerStream w = concat (writerSent w) @ writerCur w"

lemma writerInv_now: "writerInv days now w \<Longrightarrow> wNow w = now"
  by (simp add: writerInv_def)

lemma storeSample_ok:
  assumes "writerInv (envDays env) now w" "sameConfig b0 b" "metric \<noteq> []" "nameLenOk (length (taggedPath metric))"
  shows "\<exists>b' w'. storeSample env True metric (v, t) (b, w) = Some (b', w') \<and> writerInv (envDays env) now w' \<and> sameConfig b0 b'
     \<and> writerStream w' = writerStream w @ encPoints env
          (if IsNaN v \<or> dropsPoint b0 now [] (ucast (div1000 t)) then [] else itemOut now (taggedPath metric, v, div1000 t))"
proof (cases "IsNaN v")
  case True
  with assms show ?thesis by (simp add: storeSample_def)
next
  case False
  obtain b' d where d: "isDropBytes (envFmtFloat env) [] now (ucast (div1000 t)) v b = (b', d)" by fastforce
  from isDropBytes_same [OF d] assms(2) have b': "sameConfig b0 b'" "d = dropsPoint b0 now [] (ucast (div1000 t))"
    using sameConfig_trans dropsPoint_config by blast+
  show ?thesis
  proof (cases d)
    case True
    with False d b' assms show ?thesis by (simp add: storeSample_def isDropString_eq writerInv_now)
  next
    case keep: False
    from WritePoint_cases [OF assms(1,4), of v "div1000 t"] obtain w' chunks where
      w': "WritePoint (envDays env) True (taggedPath metric) v (div1000 t) w = Some w'" "writerInv (envDays env) now w'"
      "writerSent w' = writerSent w @ chunks"
      "concat chunks @ writerCur w' = writerCur w @ encPoints env (itemOut now (taggedPath metric, v, div1000 t))" by blast
    then have "storeSample env True metric (v, t) (b, w) = Some (b', w')"
      using False keep d assms by (simp add: storeSample_def isDropString_eq writerInv_now WritePointTagged_eq)
    moreover have "writerStream w' = writerStream w @ encPoints env (itemOut now (taggedPath metric, v, div1000 t))"
      using w'(3,4) by (simp add: writerStream_def)
    ultimately show ?thesis using w'(2) b' False keep by auto
  qed
qed

lemma storeSamples_ok:
  assumes "writerInv (envDays env) now w" "sameConfig b0 b" "promMetric (fst x) \<noteq> []"
    and "nameLenOk (length (taggedPath (promMetric (fst x))))"
  shows "\<exists>b' w'. rangeLoop (storeSample env True (promMetric (fst x))) (snd x) (b, w) = Some (b', w')
     \<and> writerInv (envDays env) now w' \<and> sameConfig b0 b' \<and> writerStream w' = writerStream w @ encPoints env (promPoints b0 now x)"
proof -
  have "\<exists>b' w'. rangeLoop (storeSample env True (promMetric ls)) ss (b, w) = Some (b', w')
     \<and> writerInv (envDays env) now w' \<and> sameConfig b0 b' \<and> writerStream w' = writerStream w @ encPoints env (promPoints b0 now (ls, ss))"
    if "promMetric ls \<noteq> []" "nameLenOk (length (taggedPath (promMetric ls)))" for ls ss
    using assms(1,2)
  proof (induction ss arbitrary: b w)
    case (Cons vt ss)
    obtain v t where vt: "vt = (v, t)" by fastforce
    from storeSample_ok [OF Cons.prems that, of v t] obtain b1 w1 where
      1: "storeSample env True (promMetric ls) (v, t) (b, w) = Some (b1, w1)" "writerInv (envDays env) now w1" "sameConfig b0 b1"
      "writerStream w1 = writerStream w @ encPoints env
          (if IsNaN v \<or> dropsPoint b0 now [] (ucast (div1000 t)) then [] else itemOut now (taggedPath (promMetric ls), v, div1000 t))" by blast
    from Cons.IH [OF 1(2,3)] 1(1,4) vt show ?case by (auto simp: promPoints_simps)
  qed (simp add: promPoints_simps)
  from this [of "fst x" "snd x"] assms(3,4) show ?thesis by simp
qed

lemma storeSeries_ok:
  assumes "\<forall>x \<in> set xs. promMetric (fst x) \<noteq> [] \<and> nameLenOk (length (taggedPath (promMetric (fst x))))"
    and "writerInv (envDays env) now w" "sameConfig b0 b"
  shows "\<exists>b' w'. rangeLoop (\<lambda>x. rangeLoop (storeSample env True (promMetric (fst x))) (snd x)) xs (b, w) = Some (b', w')
     \<and> writerInv (envDays env) now w' \<and> sameConfig b0 b'
     \<and> writerStream w' = writerStream w @ encPoints env (concat (map (promPoints b0 now) xs))"
  using assms
proof (induction xs arbitrary: b w)
  case (Cons x xs)
  from storeSamples_ok [of env now w b0 b x] Cons.prems obtain b1 w1 where
    1: "rangeLoop (storeSample env True (promMetric (fst x))) (snd x) (b, w) = Some (b1, w1)"
    "writerInv (envDays env) now w1" "sameConfig b0 b1" "writerStream w1 = writerStream w @ encPoints env (promPoints b0 now x)" by auto
  from Cons.IH [OF _ 1(2,3)] Cons.prems(1) 1(1,4) show ?case by auto
qed simp

lemma Flush_stream: "writerStream (Flush True w) = writerStream w"
  using Flush_sent [of w] by (cases "wWb w") (auto simp: writerStream_def writerCur_def Flush_def)

lemma Flush_chan: "concat (map wbBody (wChan (Flush True w))) = writerStream w"
  using Flush_stream [of w] by (simp add: writerStream_def writerCur_def writerSent_def)

lemma countSamples_chan [simp]: "writeChan (countSamples w b) = writeChan b"
  by (simp add: countSamples_def Let_def)

lemma storeSample_quiet:
  assumes "storeSample env True metric x (b, w) = Some (b', w')" "metric \<noteq> []" "quietWriter w"
  shows "quietWriter w'"
  using assms by (cases x) (auto simp: storeSample_def WritePointTagged_eq bind_eq_Some_conv Let_def
      intro: WritePoint_quiet split: if_splits prod.splits)

lemma storeSeries_quiet:
  assumes "rangeLoop (\<lambda>x. rangeLoop (storeSample env True (promMetric (fst x))) (snd x)) xs (b, w) = Some (b', w')"
    and "\<forall>x \<in> set xs. promMetric (fst x) \<noteq> []" "quietWriter w"
  shows "quietWriter w'"
proof -
  have "quietWriter (snd (b', w'))"
  proof (rule rangeLoop_inv [where I = "quietWriter \<circ> snd", unfolded comp_def, OF _ _ assms(1)])
    fix x s s'
    assume x: "x \<in> set xs" "quietWriter (snd s)" "rangeLoop (storeSample env True (promMetric (fst x))) (snd x) s = Some s'"
    show "quietWriter (snd s')"
      by (rule rangeLoop_inv [where I = "quietWriter \<circ> snd", unfolded comp_def, OF x(2) _ x(3)])
        (use assms(2) x(1) in \<open>auto intro: storeSample_quiet\<close>)
  qed (use assms(3) in simp)
  then show ?thesis by simp
qed

lemma unpackFast_request:
  assumes "\<forall>x \<in> set xs. seriesFits x \<and> nameLenOk (length (taggedPath (promMetric (fst x))))"
    and "list_all (wholeBuffer (envDays env)) (writeChan b)"
  shows "\<exists>b'. unpackFast env True now (encRequest xs) b = Some (None, b') \<and> list_all (wholeBuffer (envDays env)) (writeChan b')
     \<and> concat (map wbBody (writeChan b')) = concat (map wbBody (writeChan b)) @ encPoints env (concat (map (promPoints b now) xs))
     \<and> (list_all (\<lambda>wb. wbWg wb = None) (writeChan b) \<longrightarrow> list_all (\<lambda>wb. wbWg wb = None) (writeChan b'))"
proof -
  let ?st = "\<lparr>prBase = b, prWriter = NewWriter now (writeChan b), prMb = newPrometheusMetricBuffer\<rparr>"
  have metric: "promMetric (fst x) \<noteq> []" if "x \<in> set xs" for x
    using assms(1) that by (auto simp: seriesFits_def promMetric_def)
  note inv = writerInv_new [OF assms(2), of now]
  from storeSeries_ok [OF _ inv sameConfig_refl, of xs b] assms(1) metric obtain b' w' where
    r: "rangeLoop (\<lambda>x. rangeLoop (storeSample env True (promMetric (fst x))) (snd x)) xs (b, NewWriter now (writeChan b)) = Some (b', w')"
    "writerInv (envDays env) now w'" "writerStream w' = writerStream (NewWriter now (writeChan b)) @ encPoints env (concat (map (promPoints b now) xs))" by blast
  have "cacheOk newPrometheusMetricBuffer" "mbMetric newPrometheusMetricBuffer \<noteq> []"
    by (simp_all add: cacheOk_def newPrometheusMetricBuffer_def)
  with timeSeriesLoop_enc [of xs ?st env True] assms(1) r(1)
  obtain st where st: "timeSeriesLoop env True (encRequest xs) ?st = Some (None, st)" "prBase st = b'" "prWriter st = w'"
    by auto
  have quiet: "list_all (\<lambda>wb. wbWg wb = None) (wChan (Flush True w'))" if "list_all (\<lambda>wb. wbWg wb = None) (writeChan b)"
  proof -
    have "quietWriter w'" using storeSeries_quiet [OF r(1)] metric that by (auto simp: quietWriter_def NewWriter_def)
    then show ?thesis using quiet_Flush by (simp add: quietWriter_def)
  qed
  have "writerStream (NewWriter now (writeChan b)) = concat (map wbBody (writeChan b))"
    by (simp add: writerStream_def NewWriter_def writerCur_def writerSent_def)
  with st r(3) Flush_chan [of w'] writerInv_Flush [OF r(2)] quiet show ?thesis by (simp add: unpackFast_def Let_def)
qed


lemma length_encLabel: "length (encLabel l) \<le> length (fst l) + length (snd l) + 33"
  using length_lenPrefixed [of "fst l"] length_lenPrefixed [of "snd l"]
    length_lenPrefixed [of "0x0a # lenPrefixed (fst l) @ 0x12 # lenPrefixed (snd l)"]
  by (simp add: encLabel_def)

lemma length_encSample: "length (encSample s) \<le> 31"
  using length_lenPrefixed [of "0x09 # putUint64 (fst s) @ 0x10 # putUvarint (snd s)"] length_putUvarint_max [of "snd s"]
  by (simp add: encSample_def)

lemma length_Query_le: "length (Query s) \<le> 3 * length s"
  using length_filter_le [of "\<lambda>c. shouldEscape c encodeQueryComponent \<and> \<not> (c = cSpace \<and> encodeQueryComponent = encodeQueryComponent)" s]
  by (simp add: Query_def length_escape hexCount_def)

definition exampleSeries :: "label list \<times> (float64 \<times> uint64) list" where
  "exampleSeries = ([(str ''job'', str ''api server''), (str ''__name__'', str ''up''), (str ''dc'', str ''eu'')], [(1, 86400000), (2, 86401000)])"

lemma exampleSeries_length: "length (encSeriesBody exampleSeries) \<le> 1000"
  using length_encLabel [of "(str ''job'', str ''api server'')"] length_encLabel [of "(str ''__name__'', str ''up'')"]
    length_encLabel [of "(str ''dc'', str ''eu'')"] length_encSample [of "(1, 86400000)"] length_encSample [of "(2, 86401000)"]
  by (simp add: encSeriesBody_def exampleSeries_def)

lemma exampleSeries_fits: "seriesFits exampleSeries"
  using exampleSeries_length by (simp add: seriesFits_def) (simp add: exampleSeries_def labelFits_def)


subsection \<open>Samples before labels\<close>

lemma tsLoop_sample:
  "tsLoop n (encSample s @ rest) st =
     tsLoop n rest (if tsSamplesOffset st = 0 then st\<lparr>tsSamplesOffset := n - length (encSample s @ rest)\<rparr> else st)"
  using Skip_sample [of s rest] by (subst tsLoop.simps) (simp add: encSample_def split del: if_split)

text \<open>
  When the samples of a time series come before its labels, timeSeries returns the end of
  the first sample as the offset of the samples, so the first sample is skipped.
\<close>

theorem prometheus_first_sample_lost:
  assumes "\<forall>l \<in> set labels. labelFits l" "distinct (map fst labels)" "nameIndex labels \<noteq> None"
  shows "\<exists>mb'. timeSeries (encSample s1 @ encSample s2 @ concat (map encLabel labels)) newPrometheusMetricBuffer
     = Some (mb', Inr (promMetric labels, length (encSample s1)))"
proof -
  let ?L = "concat (map encLabel labels)" let ?body = "encSample s1 @ encSample s2 @ ?L" let ?n = "length ?body"
  let ?st0 = "\<lparr>tsLabels = mbLabels newPrometheusMetricBuffer, tsIndex = 0, tsSamplesOffset = 0\<rparr>"
  let ?st2 = "?st0\<lparr>tsSamplesOffset := length (encSample s1)\<rparr>"
  have "tsLoop ?n ?body ?st0 = tsLoop ?n ?L ?st2"
    by (simp add: tsLoop_sample)
  moreover have "slotsHold [] ?st2" by (simp add: slotsHold_def)
  from tsLoop_labels [OF this assms(1), of ?n "[]"] obtain st' where
    "tsLoop ?n ?L ?st2 = tsLoop ?n [] st'" "slotsHold labels st'" "tsSamplesOffset st' = length (encSample s1)" by auto
  ultimately have st': "tsLoop ?n ?body ?st0 = Some (Inr st')" "slotsHold labels st'" "tsSamplesOffset st' = length (encSample s1)"
    by (simp_all add: tsLoop.simps)
  from assms(3) obtain i where i: "nameIndex labels = Some i" by auto
  have "\<exists>mb'. timeSeries ?body newPrometheusMetricBuffer = Some (mb', Inr (promMetric labels, tsSamplesOffset st'))
      \<and> cacheOk mb' \<and> mbMetric mb' \<noteq> []"
    using st' i assms(2)
    by (intro timeSeries_of_labels) (auto simp: slotsHold_def cacheOk_def newPrometheusMetricBuffer_def)
  with st'(3) show ?thesis by auto
qed

theorem prometheus_first_sample_lost_witness:
  "\<exists>mb'. timeSeries (encSample (1, 1000) @ encSample (2, 2000) @ concat (map encLabel [(str ''__name__'', str ''up'')]))
      newPrometheusMetricBuffer = Some (mb', Inr (promMetric [(str ''__name__'', str ''up'')], length (encSample (1, 1000))))"
  by (rule prometheus_first_sample_lost) (simp_all add: labelFits_def)

lemma taggedPath_later:
  "0 < k \<Longrightarrow> taggedPath_from (Suc (2 * k)) (escapedPairs ps) = concat (map (\<lambda>p. cAmp # labelPair p) ps)"
proof (induction ps arbitrary: k)
  case (Cons p ps)
  have k: "taggedSep (Suc (2 * k)) = cAmp" "taggedSep (Suc (Suc (2 * k))) = cEq"
    using Cons.prems by (simp_all add: taggedSep_def)
  from Cons.IH [of "Suc k"] k show ?case
    by (cases p) (simp add: escapedPairs_def labelPair_def)
qed (simp add: escapedPairs_def)

lemma taggedPath_metric:
  "ps \<noteq> [] \<Longrightarrow> taggedPath (v # escapedPairs ps) = v @ cQuest # joinWith [cAmp] (map labelPair ps)"
proof (cases ps)
  case (Cons p qs)
  then show ?thesis
    using taggedPath_later [of 1 qs]
    by (cases p) (simp add: escapedPairs_def labelPair_def taggedSep_def joinWith_concat comp_def numeral_3_eq_3)
qed simp

text \<open>
  For labels with distinct names the hand-written decoder gives a series the name that
  tags.Prometheus gives it.
\<close>

theorem prometheus_names_agree:
  assumes "nameIndex labels = Some i" "Path (snd (labels ! i)) = snd (labels ! i)" "2 \<le> length labels"
  shows "taggedPath (promMetric labels) = Prometheus labels"
proof -
  have "length (drop 1 (swapFirst i labels)) = length labels - 1" by (simp add: swapFirst_def)
  then have "sort_key fst (drop 1 (swapFirst i labels)) \<noteq> []"
    using assms(3) by (metis Suc_1 diff_is_0_eq length_0_conv length_sort not_less_eq_eq)
  from taggedPath_metric [OF this] Prometheus_index [OF assms(1)] assms show ?thesis
    by (simp add: promMetric_def del: taggedPath_from.simps)
qed

theorem prometheus_names_agree_witness:
  "taggedPath (promMetric [(str ''job'', str ''a b''), (str ''__name__'', str ''up'')])
     = Prometheus [(str ''job'', str ''a b''), (str ''__name__'', str ''up'')]"
  by (rule prometheus_names_agree [where i = 1])
    (simp_all add: Path_def escape_eq encByte_def shouldEscape_def isAlnum_def)

end
