(* ===== verification/Recv_Messages.thy ===== *)
theory Recv_Messages
  imports Recv_Prometheus
begin

text \<open>
  \<^verbatim>\<open>receiver/pickle_parser.go\<close>, \<^verbatim>\<open>receiver/pickle.go\<close>, \<^verbatim>\<open>receiver/grpc.go\<close>: the receivers of
  whole messages. The pickle decoder, the framing and the gRPC stack are outside; what they deliver
  is an argument. Both packers are interpretations of \<open>point_sink\<close>.
\<close>

subsection \<open>Pickle\<close>

record pickle_state =
  pkBase :: base
  pkWb :: "write_buffer option"
  pkCount :: uint32

definition pickleFlush :: "bool \<Rightarrow> pickle_state \<Rightarrow> pickle_state" where
  "pickleFlush send st =
     (case pkWb st of
        None \<Rightarrow> st
      | Some wb \<Rightarrow>
          (if Empty wb then st
           else if send then st\<lparr>pkBase := (pkBase st)\<lparr>writeChan := writeChan (pkBase st) @ [wb]\<rparr>\<rparr>
           else st)\<lparr>pkWb := None\<rparr>)"

definition pickleFail :: "bool \<Rightarrow> pickle_state \<Rightarrow> pickle_state" where
  "pickleFail send st =
     (let st = pickleFlush send st; b = pkBase st in
      st\<lparr>pkBase := b\<lparr>stat := (stat b)\<lparr>errors := errors (stat b) + 1\<rparr>\<rparr>\<rparr>)"

text \<open>The callback of \<open>ParseMessage\<close>. Calling a method on the nil \<open>wb\<close> panics.\<close>

definition pickleCallback ::
  "rcv_env \<Rightarrow> bool \<Rightarrow> uint32 \<Rightarrow> item \<Rightarrow> pickle_state \<Rightarrow> pickle_state option" where
  "pickleCallback env send now = (\<lambda>(name, value, timestamp) st.
     (case Graphite (envIter env) (baseTags (pkBase st)) name of
        None \<Rightarrow> None
      | Some (Inl e) \<Rightarrow> Some st
      | Some (Inr name) \<Rightarrow>
          (let (b, d) = isDropString (envFmtFloat env) name now (ucast timestamp) value (pkBase st);
               st = st\<lparr>pkBase := b\<rparr>
           in if d then Some st
              else
              (case pkWb st of
                 None \<Rightarrow> None
               | Some wb \<Rightarrow>
                   if \<not> CanWriteGraphitePoint (length name) wb \<and> length name > WriteBufferSize - 50
                   then Some (pickleFail send (pickleFlush send st))
                   else
                   (let st = (if \<not> CanWriteGraphitePoint (length name) wb
                              then (pickleFlush send st)\<lparr>pkWb := Some (GetWriteBuffer newWriteBuffer)\<rparr>
                              else st)
                    in do {
                      wb \<leftarrow> WriteGraphitePoint (envDays env) name value (ucast timestamp) now (the (pkWb st));
                      Some (st\<lparr>pkWb := Some wb, pkCount := pkCount st + 1\<rparr>) })))))"

text \<open>\<open>items\<close> is what \<open>pickle.ParseMessage(b, ...)\<close> passes to the callback.\<close>

definition PickleParseBytes :: "rcv_env \<Rightarrow> bool \<Rightarrow> uint32 \<Rightarrow> item list \<Rightarrow> base \<Rightarrow> base option" where
  "PickleParseBytes env send now items b = do {
     st \<leftarrow> rangeLoop (pickleCallback env send now) items
             \<lparr>pkBase = b, pkWb = Some (GetWriteBuffer newWriteBuffer), pkCount = 0\<rparr>;
     let st = pickleFlush send st;
     let b = pkBase st;
     Some (if pkCount st > 0
           then b\<lparr>stat := (stat b)\<lparr>metricsReceived := metricsReceived (stat b) + ucast (pkCount st)\<rparr>\<rparr> else b) }"

text \<open>The frames of a connection.\<close>

datatype frame_event = Frame bytes | ErrPrefixLength | FrameError bool  \<comment> \<open>whether \<open>io.EOF\<close>\<close>

record pickle_conn =
  pcBase :: base
  pcParseChan :: "bytes list"
  pcClosed :: bool

definition frameStep :: "frame_event \<Rightarrow> pickle_conn \<Rightarrow> pickle_conn" where
  "frameStep ev c =
     (if pcClosed c then c
      else
      (let countErr = (\<lambda>b. b\<lparr>stat := (stat b)\<lparr>errors := errors (stat b) + 1\<rparr>\<rparr>) in
       case ev of
         ErrPrefixLength \<Rightarrow> c\<lparr>pcBase := countErr (pcBase c), pcClosed := True\<rparr>
       | FrameError isEof \<Rightarrow> (if isEof then c else c\<lparr>pcBase := countErr (pcBase c)\<rparr>)\<lparr>pcClosed := True\<rparr>
       | Frame d \<Rightarrow> c\<lparr>pcParseChan := pcParseChan c @ [d]\<rparr>))"

definition pickleHandleConnection :: "frame_event list \<Rightarrow> base \<Rightarrow> pickle_conn" where
  "pickleHandleConnection evs b =
     (let active1 = (\<lambda>d b. b\<lparr>stat := (stat b)\<lparr>active := active (stat b) + d\<rparr>\<rparr>);
          c = fold frameStep evs \<lparr>pcBase = active1 1 b, pcParseChan = [], pcClosed = False\<rparr>
      in if pcClosed c then c\<lparr>pcBase := active1 (- 1) (pcBase c)\<rparr> else c)"

subsection \<open>gRPC\<close>

type_synonym grpc_point = "float64 \<times> uint32"

text \<open>A metric message: name and points (\<open>None\<close>: nil).\<close>

type_synonym grpc_metric = "bytes \<times> grpc_point list option"

datatype grpc_error = MetricEmpty | NameEmpty | NameTooLong | PointsEmpty | GraphiteErr tag_error
  | ReceiverStopped | RequestCanceled

datatype grpc_select = SelSend | SelStopped | SelCanceled

fun grpcValidate ::
  "rcv_env \<Rightarrow> tag_config \<Rightarrow> grpc_metric option list \<Rightarrow> (grpc_error + (bytes \<times> grpc_point list) list) option" where
  "grpcValidate env cfg [] = Some (Inr [])"
| "grpcValidate env cfg (None # ms) = Some (Inl MetricEmpty)"
| "grpcValidate env cfg (Some (name, points) # ms) =
     (if length name = 0 then Some (Inl NameEmpty)
      else if length name > 16384 then Some (Inl NameTooLong)
      else (case points of
          None \<Rightarrow> Some (Inl PointsEmpty)
        | Some ps \<Rightarrow>
            if ps = [] then Some (Inl PointsEmpty)
            else (case Graphite (envIter env) cfg name of
                None \<Rightarrow> None
              | Some (Inl e) \<Rightarrow> Some (Inl (GraphiteErr e))
              | Some (Inr name) \<Rightarrow>
                  (case grpcValidate env cfg ms of
                     None \<Rightarrow> None
                   | Some (Inl e) \<Rightarrow> Some (Inl e)
                   | Some (Inr rest) \<Rightarrow> Some (Inr ((name, ps) # rest))))))"

text \<open>The loop state: the buffer being filled, the wait group and error channel of the request
  (addresses in \<open>gsSync\<close>), and the number of sends so far, which selects the branch of a \<open>select\<close>.\<close>

record 'e grpc_state =
  gsBase :: base
  gsWb :: write_buffer
  gsSync :: "'e sync_store"
  gsSends :: nat

text \<open>Each step returns the error the call ends with, if any, and the state it leaves.\<close>

definition grpcSend :: "(nat \<Rightarrow> grpc_select) \<Rightarrow> 'e grpc_state \<Rightarrow> grpc_error option \<times> 'e grpc_state" where
  "grpcSend sel st =
     (case sel (gsSends st) of
        SelSend \<Rightarrow> (None, st\<lparr>gsBase := (gsBase st)\<lparr>writeChan := writeChan (gsBase st) @ [gsWb st]\<rparr>, gsSends := gsSends st + 1\<rparr>)
      | SelStopped \<Rightarrow> (Some ReceiverStopped, st)
      | SelCanceled \<Rightarrow> (Some RequestCanceled, st))"

definition grpcGetBuffer :: "nat option \<Rightarrow> nat option \<Rightarrow> 'e grpc_state \<Rightarrow> 'e grpc_state" where
  "grpcGetBuffer wg ec st =
     (let (wb, sy) = GetWriterBufferWithConfirm wg ec (gsSync st) in st\<lparr>gsWb := wb, gsSync := sy\<rparr>)"

text \<open>One point of one metric.\<close>

definition grpcStorePoint ::
  "rcv_env \<Rightarrow> (nat \<Rightarrow> grpc_select) \<Rightarrow> nat option \<Rightarrow> nat option \<Rightarrow> uint32 \<Rightarrow> bytes \<times> grpc_point \<Rightarrow> 'e grpc_state \<Rightarrow>
   (grpc_error option \<times> 'e grpc_state) option" where
  "grpcStorePoint env sel wg ec now = (\<lambda>(name, value, timestamp) st.
     (let (b, d) = isDropString (envFmtFloat env) name now timestamp value (gsBase st);
          st = st\<lparr>gsBase := b\<rparr>
      in if d then Some (None, st)
         else
         (let (err, st) = (if \<not> CanWriteGraphitePoint (length name) (gsWb st)
                then (let (err, st) = grpcSend sel st in
                      if err \<noteq> None then (err, st) else (None, grpcGetBuffer wg ec st))
                else (None, st))
          in if err \<noteq> None then Some (err, st)
             else do {
               wb \<leftarrow> WriteGraphitePoint (envDays env) name value timestamp now (gsWb st);
               Some (None, st\<lparr>gsWb := wb\<rparr>) })))"

fun grpcStoreLoop ::
  "rcv_env \<Rightarrow> (nat \<Rightarrow> grpc_select) \<Rightarrow> nat option \<Rightarrow> nat option \<Rightarrow> uint32 \<Rightarrow> (bytes \<times> grpc_point) list \<Rightarrow> 'e grpc_state \<Rightarrow>
   (grpc_error option \<times> 'e grpc_state) option" where
  "grpcStoreLoop env sel wg ec now [] st = Some (None, st)"
| "grpcStoreLoop env sel wg ec now (p # ps) st =
     (case grpcStorePoint env sel wg ec now p st of
        None \<Rightarrow> None
      | Some (Some e, st) \<Rightarrow> Some (Some e, st)
      | Some (None, st) \<Rightarrow> grpcStoreLoop env sel wg ec now ps st)"

text \<open>Where the call stands when it has handed over its buffers: returned, or in \<open>wg.Wait()\<close>.\<close>

datatype grpc_result = Returned "grpc_error option" | Waiting

definition doStore ::
  "rcv_env \<Rightarrow> (nat \<Rightarrow> grpc_select) \<Rightarrow> uint32 \<Rightarrow> grpc_metric option list option \<Rightarrow> bool \<Rightarrow> 'e sync_store \<Rightarrow> base \<Rightarrow>
   (grpc_result \<times> 'e sync_store \<times> base) option" where
  "doStore env sel now metrics confirmRequired sy b =
     (case metrics of
        None \<Rightarrow> Some (Returned None, sy, b)
      | Some ms \<Rightarrow>
          (case grpcValidate env (baseTags b) ms of
             None \<Rightarrow> None
           | Some (Inl e) \<Rightarrow> Some (Returned (Some e), sy, b)
           | Some (Inr ms) \<Rightarrow>
               (let wg = (if confirmRequired then Some 0 else None);
                    ec = (if confirmRequired then Some 0 else None);
                    sy = (if confirmRequired
                          then sy\<lparr>wgCount := (wgCount sy)(0 := 0), chanBuf := (chanBuf sy)(0 := []), chanCap := (chanCap sy)(0 := 1)\<rparr>
                          else sy);
                    st = grpcGetBuffer wg ec \<lparr>gsBase = b, gsWb = newWriteBuffer, gsSync = sy, gsSends = 0\<rparr>;
                    ps = concat (map (\<lambda>(name, ps). map (\<lambda>p. (name, p)) ps) ms)
                in
                case grpcStoreLoop env sel wg ec now ps st of
                  None \<Rightarrow> None
                | Some (Some e, st) \<Rightarrow> Some (Returned (Some e), gsSync st, gsBase st)
                | Some (None, st) \<Rightarrow>
                    (case (if Empty (gsWb st) then (None, st) else grpcSend sel st) of
                       (Some e, st) \<Rightarrow> Some (Returned (Some e), gsSync st, gsBase st)
                     | (None, st) \<Rightarrow>
                         Some (if confirmRequired then Waiting else Returned None, gsSync st, gsBase st)))))"

text \<open>\<open>wg.Wait()\<close> and the final \<open>select\<close>: \<open>None\<close> while the counter is not zero.\<close>

definition waitResult :: "'e sync_store \<Rightarrow> 'e option option" where
  "waitResult sy =
     (if wgCount sy 0 \<noteq> 0 then None
      else Some (case chanBuf sy 0 of [] \<Rightarrow> None | e # _ \<Rightarrow> Some e))"

subsection \<open>Packing points\<close>

lemma put_point:
  assumes "CanWriteGraphitePoint (length name) b"
  shows "WriteGraphitePoint days name v t now b = Some (appendWb (encPoint days \<lparr>pName = name, pValue = v, pTime = t, pVersion = now\<rparr>) b)"
    and "wbUsed b + length (encPoint days \<lparr>pName = name, pValue = v, pTime = t, pVersion = now\<rparr>) \<le> WriteBufferSize"
proof -
  show "WriteGraphitePoint days name v t now b = Some (appendWb (encPoint days \<lparr>pName = name, pValue = v, pTime = t, pVersion = now\<rparr>) b)"
    by (rule WriteGraphitePoint_ok [OF CanWriteGraphitePoint_room [OF assms]])
  show "wbUsed b + length (encPoint days \<lparr>pName = name, pValue = v, pTime = t, pVersion = now\<rparr>) \<le> WriteBufferSize"
    using CanWriteGraphitePoint_room [OF assms, of days v t now] assms by (simp add: FreeSize_def CanWriteGraphitePoint_def)
qed

text \<open>What a step does to a packed stream: the chunks it completes and the rest it keeps.\<close>

definition packs :: "('y \<Rightarrow> bytes) \<Rightarrow> bytes \<Rightarrow> bytes list \<Rightarrow> bytes \<Rightarrow> 'y list \<Rightarrow> bool" where
  "packs enc c chunks c' ys \<longleftrightarrow> concat chunks @ c' = c @ concat (map enc ys) \<and> (\<forall>d \<in> set (c' # chunks). whole enc d)"

lemma packs_keep: "whole enc c \<Longrightarrow> packs enc c [] c []"
  by (simp add: packs_def)

lemma packs_append: "whole enc c \<Longrightarrow> packs enc c [] (c @ enc y) [y]"
  by (auto simp: packs_def intro: whole_append)

lemma packs_next: "whole enc c \<Longrightarrow> packs enc c (if c = [] then [] else [c]) (enc y) [y]"
  by (auto simp: packs_def)

subsection \<open>Pickle: the stream\<close>

definition chanOk :: "base \<Rightarrow> bool" where
  "chanOk b \<longleftrightarrow> (\<forall>wb \<in> set (writeChan b). wbUsed wb \<le> WriteBufferSize)"

definition chanBytes :: "base \<Rightarrow> bytes list" where
  "chanBytes b = map wbBody (writeChan b)"

definition pickleCur :: "pickle_state \<Rightarrow> bytes" where
  "pickleCur st = (case pkWb st of None \<Rightarrow> [] | Some wb \<Rightarrow> wbBody wb)"

definition pickleInv :: "rcv_env \<Rightarrow> base \<Rightarrow> pickle_state \<Rightarrow> bool" where
  "pickleInv env b0 st \<longleftrightarrow> pkWb st \<noteq> None \<and> sameConfig b0 (pkBase st) \<and> length (pickleCur st) \<le> WriteBufferSize
     \<and> whole (encPoint (envDays env)) (pickleCur st) \<and> chanOk (pkBase st)"

text \<open>The name of an item is in the code's range: it is rejected, dropped, or short enough.\<close>

definition pickleValid :: "rcv_env \<Rightarrow> uint32 \<Rightarrow> base \<Rightarrow> item \<Rightarrow> bool" where
  "pickleValid env now b0 = (\<lambda>(name, v, t).
     (case Graphite (envIter env) (baseTags b0) name of
        None \<Rightarrow> False | Some (Inl e) \<Rightarrow> True
      | Some (Inr nm) \<Rightarrow> dropsPoint b0 now nm (ucast t) \<or> length nm \<le> WriteBufferSize - 50))"

definition picklePoints :: "rcv_env \<Rightarrow> uint32 \<Rightarrow> base \<Rightarrow> item \<Rightarrow> point list" where
  "picklePoints env now b0 = (\<lambda>(name, v, t).
     (case Graphite (envIter env) (baseTags b0) name of
        None \<Rightarrow> [] | Some (Inl e) \<Rightarrow> []
      | Some (Inr nm) \<Rightarrow> if dropsPoint b0 now nm (ucast t) then []
                        else [\<lparr>pName = nm, pValue = v, pTime = ucast t, pVersion = now\<rparr>]))"

lemma chanOk_append: "chanOk b \<Longrightarrow> wbUsed wb \<le> WriteBufferSize \<Longrightarrow> chanOk (b\<lparr>writeChan := writeChan b @ [wb]\<rparr>)"
  by (auto simp: chanOk_def)

text \<open>The callback on a name that passed the tag stage, one equation per branch.\<close>

lemma pickleCallback_eqs:
  fixes env name now v t st
  assumes G: "Graphite (envIter env) (baseTags (pkBase st)) name = Some (Inr nm)"
    and d: "isDropBytes (envFmtFloat env) nm now (ucast t) v (pkBase st) = (b', d)" and wb: "pkWb st = Some wb"
  defines "p \<equiv> \<lparr>pName = nm, pValue = v, pTime = ucast t, pVersion = now\<rparr>"
    and "full \<equiv> pickleFlush True (st\<lparr>pkBase := b'\<rparr>)"
  shows "d \<Longrightarrow> pickleCallback env True now (name, v, t) st = Some (st\<lparr>pkBase := b'\<rparr>)"
    and "\<not> d \<Longrightarrow> CanWriteGraphitePoint (length nm) wb \<Longrightarrow> pickleCallback env True now (name, v, t) st
       = Some (st\<lparr>pkBase := b', pkWb := Some (appendWb (encPoint (envDays env) p) wb), pkCount := pkCount st + 1\<rparr>)"
    and "\<not> d \<Longrightarrow> \<not> CanWriteGraphitePoint (length nm) wb \<Longrightarrow> length nm \<le> WriteBufferSize - 50 \<Longrightarrow>
       pickleCallback env True now (name, v, t) st
       = Some (full\<lparr>pkWb := Some (appendWb (encPoint (envDays env) p) newWriteBuffer), pkCount := pkCount full + 1\<rparr>)"
    and "\<not> d \<Longrightarrow> \<not> CanWriteGraphitePoint (length nm) wb \<Longrightarrow> WriteBufferSize - 50 < length nm \<Longrightarrow>
       pickleCallback env True now (name, v, t) st = Some (pickleFail True full)"
proof -
  show "pickleCallback env True now (name, v, t) st = Some (st\<lparr>pkBase := b'\<rparr>)" if d
    using that by (simp add: pickleCallback_def G d isDropString_eq)
  show "pickleCallback env True now (name, v, t) st
       = Some (st\<lparr>pkBase := b', pkWb := Some (appendWb (encPoint (envDays env) p) wb), pkCount := pkCount st + 1\<rparr>)"
    if "\<not> d" "CanWriteGraphitePoint (length nm) wb"
    using that wb by (simp add: pickleCallback_def G d isDropString_eq put_point p_def)
  show "pickleCallback env True now (name, v, t) st
       = Some (full\<lparr>pkWb := Some (appendWb (encPoint (envDays env) p) newWriteBuffer), pkCount := pkCount full + 1\<rparr>)"
    if "\<not> d" "\<not> CanWriteGraphitePoint (length nm) wb" "length nm \<le> WriteBufferSize - 50"
    using that wb CanWrite_fresh [OF that(3)] by (simp add: pickleCallback_def G d isDropString_eq put_point p_def full_def Let_def)
  show "pickleCallback env True now (name, v, t) st = Some (pickleFail True full)"
    if "\<not> d" "\<not> CanWriteGraphitePoint (length nm) wb" "WriteBufferSize - 50 < length nm"
    using that wb by (simp add: pickleCallback_def G d isDropString_eq full_def)
qed

lemma pickleFlush_some:
  "pkWb st = Some wb \<Longrightarrow> pickleFlush True st = st\<lparr>pkWb := None, pkBase := (pkBase st)\<lparr>writeChan :=
     writeChan (pkBase st) @ (if wbBody wb = [] then [] else [wb])\<rparr>\<rparr>"
  by (simp add: pickleFlush_def Empty_def wbUsed_def)

lemma pickleCallback_ok:
  assumes inv: "pickleInv env b0 st" and valid: "pickleValid env now b0 x"
  shows "\<exists>st' chunks. pickleCallback env True now x st = Some st' \<and> pickleInv env b0 st'
     \<and> chanBytes (pkBase st') = chanBytes (pkBase st) @ chunks
     \<and> packs (encPoint (envDays env)) (pickleCur st) chunks (pickleCur st') (picklePoints env now b0 x)"
proof -
  let ?enc = "encPoint (envDays env)"
  obtain name v t where x: "x = (name, v, t)" by (cases x)
  obtain wb where wb: "pkWb st = Some wb" "pickleCur st = wbBody wb" "whole ?enc (wbBody wb)"
      "wbUsed wb \<le> WriteBufferSize" "chanOk (pkBase st)" "sameConfig b0 (pkBase st)"
    using inv by (auto simp: pickleInv_def pickleCur_def wbUsed_def)
  then have tags: "baseTags (pkBase st) = baseTags b0" by (simp add: sameConfig_def)
  from valid x consider (err) e where "Graphite (envIter env) (baseTags b0) name = Some (Inl e)"
    | (nm) nm where "Graphite (envIter env) (baseTags b0) name = Some (Inr nm)"
        "dropsPoint b0 now nm (ucast t) \<or> length nm \<le> WriteBufferSize - 50"
    by (auto simp: pickleValid_def split: option.splits sum.splits)
  then show ?thesis
  proof cases
    case err
    then show ?thesis
      using inv x tags wb packs_keep [OF wb(3)]
      by (intro exI [of _ st] exI [of _ "[]"]) (simp add: pickleCallback_def picklePoints_def)
  next
    case nm
    obtain b' d where d: "isDropBytes (envFmtFloat env) nm now (ucast t) v (pkBase st) = (b', d)" by fastforce
    from isDropBytes_same [OF d] wb(6) have b': "sameConfig b0 b'" "dropsPoint b0 now nm (ucast t) = d"
      using sameConfig_trans dropsPoint_config by blast+
    have ch: "writeChan b' = writeChan (pkBase st)" using isDropBytes_config(5) [of "envFmtFloat env" nm now "ucast t" v "pkBase st"] d by simp
    then have chOk: "chanOk b'" using wb(5) by (simp add: chanOk_def)
    let ?p = "\<lparr>pName = nm, pValue = v, pTime = ucast t, pVersion = now\<rparr>"
    have pts: "picklePoints env now b0 x = (if d then [] else [?p])" by (simp add: picklePoints_def x nm(1) b'(2))
    note eqs = pickleCallback_eqs [OF nm(1) [folded tags] d wb(1), folded x]
    consider d | "\<not> d" "CanWriteGraphitePoint (length nm) wb" | "\<not> d" "\<not> CanWriteGraphitePoint (length nm) wb" by blast
    then show ?thesis
    proof cases
      case 1
      show ?thesis
        unfolding eqs(1) [OF 1] pts using 1 wb b' ch chOk packs_keep [OF wb(3)]
        by (simp add: pickleInv_def pickleCur_def chanBytes_def wbUsed_def)
    next
      case 2
      show ?thesis
        unfolding eqs(2) [OF 2] pts
        using 2 wb b' ch chOk packs_append [OF wb(3), of ?p] whole_append [OF wb(3) whole_enc, of ?p] put_point(2) [OF 2(2), of "envDays env" v "ucast t" now]
        by (simp add: pickleInv_def pickleCur_def chanBytes_def wbUsed_def)
    next
      case 3
      with nm(2) b'(2) have len: "length nm \<le> WriteBufferSize - 50" by blast
      note fresh = CanWrite_fresh [OF len]
      show ?thesis
        unfolding eqs(3) [OF 3 len] pts pickleFlush_some [of "st\<lparr>pkBase := b'\<rparr>" wb, simplified, OF wb(1)]
        using wb b' ch chOk packs_next [OF wb(3), of ?p] put_point(2) [OF fresh, of "envDays env" v "ucast t" now] 3(1)
        by (auto simp: pickleInv_def pickleCur_def chanBytes_def wbUsed_def sameConfig_def chanOk_def)
    qed
  qed
qed

interpretation pk: point_sink "pickleCallback env True now" "\<lambda>st. chanBytes (pkBase st)" pickleCur "pickleInv env b0"
  "pickleValid env now b0" "picklePoints env now b0" "encPoint (envDays env)" WriteBufferSize
  for env now b0
proof unfold_locales
  fix s x
  assume "pickleInv env b0 s" "pickleValid env now b0 x"
  from pickleCallback_ok [OF this] show "\<exists>s' chunks. pickleCallback env True now x s = Some s' \<and> pickleInv env b0 s'
     \<and> chanBytes (pkBase s') = chanBytes (pkBase s) @ chunks
     \<and> concat chunks @ pickleCur s' = pickleCur s @ concat (map (encPoint (envDays env)) (picklePoints env now b0 x))
     \<and> (\<forall>c \<in> set (pickleCur s' # chunks). whole (encPoint (envDays env)) c)"
    by (simp add: packs_def)
qed (auto simp: pickleInv_def chanOk_def chanBytes_def wbUsed_def)

lemma PickleParseBytes_chunks:
  assumes "\<forall>x \<in> set items. pickleValid env now b x" "chanOk b"
  shows "\<exists>b' chunks. PickleParseBytes env True now items b = Some b' \<and> chanBytes b' = chanBytes b @ chunks
     \<and> concat chunks = encPoints env (concat (map (picklePoints env now b) items))
     \<and> (\<forall>c \<in> set chunks. whole (encPoint (envDays env)) c \<and> length c \<le> WriteBufferSize)"
proof -
  let ?st = "\<lparr>pkBase = b, pkWb = Some (GetWriteBuffer newWriteBuffer), pkCount = 0\<rparr>"
  have "pickleInv env b ?st" using assms(2) by (simp add: pickleInv_def pickleCur_def)
  from pk.steps_ok [OF this assms(1)] obtain st cs where st: "rangeLoop (pickleCallback env True now) items ?st = Some st"
    "pickleInv env b st" "chanBytes (pkBase st) = chanBytes b @ cs"
    "concat cs @ pickleCur st = encPoints env (concat (map (picklePoints env now b) items))"
    "\<forall>c \<in> set (pickleCur st # cs). whole (encPoint (envDays env)) c"
    by (auto simp: pickleCur_def)
  from st(2) obtain wb where wb: "pkWb st = Some wb" by (auto simp: pickleInv_def)
  have cap: "\<forall>c \<in> set cs. length c \<le> WriteBufferSize" "length (pickleCur st) \<le> WriteBufferSize"
    using pk.inv_cap [OF st(2)] st(3) by auto
  show ?thesis
    unfolding PickleParseBytes_def st(1) pickleFlush_some [OF wb] Option.bind.bind_lunit
    using st(3-5) cap wb
    by (cases "wbBody wb = []") (auto simp: Let_def chanBytes_def pickleCur_def)
qed

text \<open>
  C21. The buffers a pickle message is packed into are, in order, the encodings of its accepted
  points, each buffer within its capacity and holding whole records.
\<close>

theorem pickle_message:
  assumes "\<forall>x \<in> set items. pickleValid env now b x" "chanOk b"
  shows "\<exists>b' chunks. PickleParseBytes env True now items b = Some b' \<and> chanBytes b' = chanBytes b @ chunks
     \<and> concat chunks = encPoints env (concat (map (picklePoints env now b) items))
     \<and> (\<forall>c \<in> set chunks. whole (encPoint (envDays env)) c \<and> length c \<le> WriteBufferSize)"
  by (rule PickleParseBytes_chunks [OF assms])

theorem pickle_message_witness:
  "\<exists>b' chunks. PickleParseBytes exampleEnv True 9 [(str ''a.b'', 5, 6), (str ''c'', 7, 8)] zeroBase = Some b'
     \<and> chanBytes b' = chanBytes zeroBase @ chunks
     \<and> concat chunks = encPoints exampleEnv (concat (map (picklePoints exampleEnv 9 zeroBase) [(str ''a.b'', 5, 6), (str ''c'', 7, 8)]))
     \<and> (\<forall>c \<in> set chunks. whole (encPoint (envDays exampleEnv)) c \<and> length c \<le> WriteBufferSize)"
  by (rule pickle_message)
    (simp_all add: pickleValid_def zeroBase_def chanOk_def Graphite_def DisabledTagConfig_def WriteBufferSize_def)

text \<open>
  A name too long for any buffer: the callback releases the current buffer and leaves none, so the
  next accepted point of the same message panics.
\<close>

definition pickleAccepts :: "rcv_env \<Rightarrow> uint32 \<Rightarrow> base \<Rightarrow> item \<Rightarrow> bytes \<Rightarrow> bool" where
  "pickleAccepts env now b = (\<lambda>(name, v, t) nm.
     Graphite (envIter env) (baseTags b) name = Some (Inr nm) \<and> \<not> dropsPoint b now nm (ucast t))"

lemma isDropBytes_keep:
  assumes "\<not> dropsPoint b now nm t"
  shows "isDropBytes f nm now t v b = (fst (isDropBytes f nm now t v b), False)"
  using assms by (simp add: prod_eq_iff isDropBytes_snd)

lemma pickleCallback_nil:
  assumes "pkWb st = None" "pickleAccepts env now (pkBase st) y nm"
  shows "pickleCallback env send now y st = None"
proof -
  obtain name v t where y: "y = (name, v, t)" by (cases y)
  with assms(2) have "Graphite (envIter env) (baseTags (pkBase st)) name = Some (Inr nm)" "\<not> dropsPoint (pkBase st) now nm (ucast t)"
    by (auto simp: pickleAccepts_def)
  moreover from this(2) obtain b' where "isDropBytes (envFmtFloat env) nm now (ucast t) v (pkBase st) = (b', False)"
    using isDropBytes_keep by blast
  ultimately show ?thesis
    using assms(1) by (simp add: pickleCallback_def y isDropString_eq)
qed

lemma pickleAccepts_config: "sameConfig b b' \<Longrightarrow> pickleAccepts env now b' y nm = pickleAccepts env now b y nm"
  using dropsPoint_config [of b b'] by (cases y) (simp add: pickleAccepts_def sameConfig_def)

lemma pickleFail_none: "pkWb st = Some wb \<Longrightarrow> pkWb (pickleFail True (pickleFlush True st)) = None
    \<and> sameConfig (pkBase st) (pkBase (pickleFail True (pickleFlush True st)))"
  unfolding pickleFail_def pickleFlush_some [of st wb] by (simp add: pickleFlush_def sameConfig_def Let_def)

lemma pickleCallback_long:
  assumes "pickleInv env b0 st" "pickleAccepts env now b0 x nm" "WriteBufferSize \<le> length nm + 23"
  shows "\<exists>st'. pickleCallback env True now x st = Some st' \<and> pkWb st' = None \<and> sameConfig b0 (pkBase st')"
proof -
  obtain name v t where x: "x = (name, v, t)" by (cases x)
  obtain wb where wb: "pkWb st = Some wb" "sameConfig b0 (pkBase st)" using assms(1) by (auto simp: pickleInv_def)
  have acc: "Graphite (envIter env) (baseTags (pkBase st)) name = Some (Inr nm)" "\<not> dropsPoint (pkBase st) now nm (ucast t)"
    using assms(2) pickleAccepts_config [OF wb(2), of env now x nm] by (simp_all add: pickleAccepts_def x)
  obtain b' where b': "isDropBytes (envFmtFloat env) nm now (ucast t) v (pkBase st) = (b', False)"
    using isDropBytes_keep [OF acc(2)] by blast
  have full: "\<not> CanWriteGraphitePoint (length nm) wb" "WriteBufferSize - 50 < length nm"
    using assms(3) by (auto simp: CanWriteGraphitePoint_def WriteBufferSize_def)
  have "sameConfig b0 b'" using isDropBytes_same [OF b'] wb(2) sameConfig_trans by blast
  with pickleCallback_eqs(4) [OF acc(1) b' wb(1) _ full] pickleFail_none [of "st\<lparr>pkBase := b'\<rparr>" wb] wb(1) show ?thesis
    using sameConfig_trans by (auto simp: x)
qed

text \<open>
  After a name too long for any buffer, the next accepted point of the same pickle message
  dereferences the nil buffer and panics.
\<close>

theorem pickle_long_name_panic:
  assumes "\<forall>x \<in> set before. pickleValid env now b x" "chanOk b"
    and "pickleAccepts env now b x longName" "WriteBufferSize \<le> length longName + 23" "pickleAccepts env now b y nm"
  shows "PickleParseBytes env True now (before @ x # y # rest) b = None"
proof -
  let ?st = "\<lparr>pkBase = b, pkWb = Some (GetWriteBuffer newWriteBuffer), pkCount = 0\<rparr>"
  have "pickleInv env b ?st" using assms(2) by (simp add: pickleInv_def pickleCur_def)
  from pk.steps_ok [OF this assms(1)] obtain st where st: "rangeLoop (pickleCallback env True now) before ?st = Some st" "pickleInv env b st"
    by blast
  from pickleCallback_long [OF st(2) assms(3,4)] obtain st' where st': "pickleCallback env True now x st = Some st'" "pkWb st' = None"
    "sameConfig b (pkBase st')" by blast
  have "pickleCallback env True now y st' = None"
    using pickleCallback_nil [OF st'(2)] pickleAccepts_config [OF st'(3)] assms(5) by blast
  with st(1) st'(1) show ?thesis by (simp add: PickleParseBytes_def rangeLoop_append)
qed

theorem pickle_long_name_panic_witness:
  "PickleParseBytes exampleEnv True 9 ([] @ (replicate WriteBufferSize 97, 5, 6) # (str ''c'', 7, 8) # []) zeroBase = None"
  by (rule pickle_long_name_panic [where longName = "replicate WriteBufferSize 97" and nm = "str ''c''"])
    (simp_all add: pickleAccepts_def dropsPoint_def isDrop_def nameTooLong_def zeroBase_def chanOk_def Graphite_def DisabledTagConfig_def)

subsection \<open>gRPC: the stream and the confirmation\<close>

definition grpcStep :: "rcv_env \<Rightarrow> nat option \<Rightarrow> nat option \<Rightarrow> uint32 \<Rightarrow> bytes \<times> grpc_point \<Rightarrow> 'e grpc_state \<Rightarrow> 'e grpc_state option" where
  "grpcStep env wg ec now x st =
     (case grpcStorePoint env (\<lambda>_. SelSend) wg ec now x st of Some (None, st) \<Rightarrow> Some st | _ \<Rightarrow> None)"

definition grpcValid :: "uint32 \<Rightarrow> base \<Rightarrow> bytes \<times> grpc_point \<Rightarrow> bool" where
  "grpcValid now b0 = (\<lambda>(name, v, t). dropsPoint b0 now name t \<or> length name \<le> WriteBufferSize - 50)"

definition grpcOut :: "uint32 \<Rightarrow> base \<Rightarrow> bytes \<times> grpc_point \<Rightarrow> point list" where
  "grpcOut now b0 = (\<lambda>(name, v, t). if dropsPoint b0 now name t then []
     else [\<lparr>pName = name, pValue = v, pTime = t, pVersion = now\<rparr>])"

text \<open>
  With confirmation the wait group counts the buffers handed over by this request and the one
  being filled; every one of them carries the wait group and the error channel.
\<close>

definition grpcInv :: "rcv_env \<Rightarrow> base \<Rightarrow> 'e grpc_state \<Rightarrow> bool" where
  "grpcInv env b0 st \<longleftrightarrow> sameConfig b0 (gsBase st) \<and> wbUsed (gsWb st) \<le> WriteBufferSize
     \<and> whole (encPoint (envDays env)) (wbBody (gsWb st)) \<and> chanOk (gsBase st)
     \<and> wbWg (gsWb st) = Some 0 \<and> wbErrorChan (gsWb st) = Some 0
     \<and> chanBuf (gsSync st) 0 = [] \<and> chanCap (gsSync st) 0 = 1
     \<and> (\<exists>bufs. writeChan (gsBase st) = writeChan b0 @ bufs \<and> wgCount (gsSync st) 0 = length bufs + 1
          \<and> (wbBody (gsWb st) = [] \<longrightarrow> bufs = []) \<and> (\<forall>wb \<in> set bufs. wbWg wb = Some 0 \<and> wbErrorChan wb = Some 0))"

lemma grpcStep_eqs:
  fixes env now name v t st
  assumes d: "isDropBytes (envFmtFloat env) name now t v (gsBase st) = (b', d)"
  defines "p \<equiv> \<lparr>pName = name, pValue = v, pTime = t, pVersion = now\<rparr>"
  shows "d \<Longrightarrow> grpcStep env wg ec now (name, v, t) st = Some (st\<lparr>gsBase := b'\<rparr>)"
    and "\<not> d \<Longrightarrow> CanWriteGraphitePoint (length name) (gsWb st) \<Longrightarrow> grpcStep env wg ec now (name, v, t) st
       = Some (st\<lparr>gsBase := b', gsWb := appendWb (encPoint (envDays env) p) (gsWb st)\<rparr>)"
    and "\<not> d \<Longrightarrow> \<not> CanWriteGraphitePoint (length name) (gsWb st) \<Longrightarrow> length name \<le> WriteBufferSize - 50 \<Longrightarrow>
       grpcStep env (Some 0) (Some 0) now (name, v, t) st
       = Some (st\<lparr>gsBase := b'\<lparr>writeChan := writeChan b' @ [gsWb st]\<rparr>, gsSends := gsSends st + 1,
           gsWb := appendWb (encPoint (envDays env) p) (newWriteBuffer\<lparr>wbWg := Some 0, wbErrorChan := Some 0\<rparr>),
           gsSync := (gsSync st)\<lparr>wgCount := (wgCount (gsSync st))(0 := wgCount (gsSync st) 0 + 1)\<rparr>\<rparr>)"
proof -
  note red = grpcStep_def grpcStorePoint_def isDropString_eq d
  show "grpcStep env wg ec now (name, v, t) st = Some (st\<lparr>gsBase := b'\<rparr>)" if d
    using that by (simp add: red)
  show "grpcStep env wg ec now (name, v, t) st
       = Some (st\<lparr>gsBase := b', gsWb := appendWb (encPoint (envDays env) p) (gsWb st)\<rparr>)"
    if "\<not> d" "CanWriteGraphitePoint (length name) (gsWb st)"
    using that by (simp add: red put_point p_def)
  show "grpcStep env (Some 0) (Some 0) now (name, v, t) st
       = Some (st\<lparr>gsBase := b'\<lparr>writeChan := writeChan b' @ [gsWb st]\<rparr>, gsSends := gsSends st + 1,
           gsWb := appendWb (encPoint (envDays env) p) (newWriteBuffer\<lparr>wbWg := Some 0, wbErrorChan := Some 0\<rparr>),
           gsSync := (gsSync st)\<lparr>wgCount := (wgCount (gsSync st))(0 := wgCount (gsSync st) 0 + 1)\<rparr>\<rparr>)"
    if "\<not> d" "\<not> CanWriteGraphitePoint (length name) (gsWb st)" "length name \<le> WriteBufferSize - 50"
  proof -
    have "CanWriteGraphitePoint (length name) (newWriteBuffer\<lparr>wbWg := Some 0, wbErrorChan := Some 0\<rparr>)"
      using CanWrite_fresh [OF that(3)] by (simp add: CanWriteGraphitePoint_def wbUsed_def)
    then show ?thesis
      using that by (simp add: red put_point p_def grpcSend_def grpcGetBuffer_def GetWriterBufferWithConfirm_def Let_def)
  qed
qed

lemma grpcStep_ok:
  assumes inv: "grpcInv env b0 st" and valid: "grpcValid now b0 x"
  shows "\<exists>st' chunks. grpcStep env (Some 0) (Some 0) now x st = Some st' \<and> grpcInv env b0 st'
     \<and> chanBytes (gsBase st') = chanBytes (gsBase st) @ chunks
     \<and> packs (encPoint (envDays env)) (wbBody (gsWb st)) chunks (wbBody (gsWb st')) (grpcOut now b0 x)"
proof -
  let ?enc = "encPoint (envDays env)"
  obtain name v t where x: "x = (name, v, t)" by (cases x)
  obtain b' d where d: "isDropBytes (envFmtFloat env) name now t v (gsBase st) = (b', d)" by fastforce
  have st: "sameConfig b0 (gsBase st)" "wbUsed (gsWb st) \<le> WriteBufferSize" "whole ?enc (wbBody (gsWb st))"
    "chanOk (gsBase st)" using inv by (simp_all add: grpcInv_def)
  obtain bufs where bufs: "writeChan (gsBase st) = writeChan b0 @ bufs" "wgCount (gsSync st) 0 = length bufs + 1"
      "wbBody (gsWb st) = [] \<longrightarrow> bufs = []" "\<forall>wb \<in> set bufs. wbWg wb = Some 0 \<and> wbErrorChan wb = Some 0"
    using inv by (auto simp: grpcInv_def)
  from isDropBytes_same [OF d] st(1) have b': "sameConfig b0 b'" "dropsPoint b0 now name t = d"
    using sameConfig_trans dropsPoint_config by blast+
  have ch: "writeChan b' = writeChan (gsBase st)" using isDropBytes_config(5) [of "envFmtFloat env" name now t v "gsBase st"] d by simp
  then have chOk: "chanOk b'" using st(4) by (simp add: chanOk_def)
  let ?p = "\<lparr>pName = name, pValue = v, pTime = t, pVersion = now\<rparr>"
  have pts: "grpcOut now b0 x = (if d then [] else [?p])" by (simp add: grpcOut_def x b'(2))
  note eqs = grpcStep_eqs [OF d, folded x]
  consider d | "\<not> d" "CanWriteGraphitePoint (length name) (gsWb st)" | "\<not> d" "\<not> CanWriteGraphitePoint (length name) (gsWb st)" by blast
  then show ?thesis
  proof cases
    case 1
    show ?thesis
      unfolding eqs(1) [OF 1] pts using 1 inv b' ch chOk packs_keep [OF st(3)]
      by (simp add: grpcInv_def chanBytes_def)
  next
    case 2
    show ?thesis
      unfolding eqs(2) [OF 2] pts
      using 2 inv b' ch chOk bufs packs_append [OF st(3), of ?p] whole_append [OF st(3) whole_enc, of ?p]
        put_point(2) [OF 2(2), of "envDays env" v t now]
      by (simp add: grpcInv_def chanBytes_def wbUsed_def)
  next
    case 3
    with valid b'(2) have len: "length name \<le> WriteBufferSize - 50" by (simp add: grpcValid_def x)
    then have ne: "wbBody (gsWb st) \<noteq> []"
      using 3(2) by (auto simp: CanWriteGraphitePoint_def wbUsed_def WriteBufferSize_def)
    show ?thesis
      unfolding eqs(3) [OF 3 len] pts
      using 3(1) inv b' ch chOk bufs st ne packs_next [OF st(3), of ?p] put_point(2) [OF CanWrite_fresh [OF len], of "envDays env" v t now]
      by (auto simp: grpcInv_def chanBytes_def wbUsed_def sameConfig_def chanOk_def)
  qed
qed

interpretation gr: point_sink "grpcStep env (Some 0) (Some 0) now" "\<lambda>st. chanBytes (gsBase st)" "\<lambda>st. wbBody (gsWb st)" "grpcInv env b0"
  "grpcValid now b0" "grpcOut now b0" "encPoint (envDays env)" WriteBufferSize
  for env now b0
proof unfold_locales
  fix s x
  assume "grpcInv env b0 s" "grpcValid now b0 x"
  from grpcStep_ok [OF this] show "\<exists>s' chunks. grpcStep env (Some 0) (Some 0) now x s = Some s' \<and> grpcInv env b0 s'
     \<and> chanBytes (gsBase s') = chanBytes (gsBase s) @ chunks
     \<and> concat chunks @ wbBody (gsWb s') = wbBody (gsWb s) @ concat (map (encPoint (envDays env)) (grpcOut now b0 x))
     \<and> (\<forall>c \<in> set (wbBody (gsWb s') # chunks). whole (encPoint (envDays env)) c)"
    by (simp add: packs_def)
qed (auto simp: grpcInv_def chanOk_def chanBytes_def wbUsed_def)

lemma grpcStoreLoop_steps:
  "rangeLoop (grpcStep env wg ec now) ps st = Some st' \<Longrightarrow> grpcStoreLoop env (\<lambda>_. SelSend) wg ec now ps st = Some (None, st')"
  by (induction ps arbitrary: st) (auto simp: grpcStep_def split: option.splits prod.splits)

lemma encPoints_empty: "encPoints env ps = [] \<longleftrightarrow> ps = []"
  by (cases ps) auto

text \<open>What the writer answers for the buffers of a request: for each a confirmation or an error.\<close>

definition ack :: "write_buffer \<times> 'e option \<Rightarrow> 'e sync_store \<Rightarrow> 'e sync_store option" where
  "ack = (\<lambda>(wb, r) sy. case r of None \<Rightarrow> Confirm wb sy | Some e \<Rightarrow> Fail e wb sy)"

definition firstError :: "'e option list \<Rightarrow> 'e option" where
  "firstError rs = (case List.map_filter id rs of [] \<Rightarrow> None | e # _ \<Rightarrow> Some e)"

lemma firstError_simps [simp]:
  "firstError [] = None" "firstError (None # rs) = firstError rs" "firstError (Some e # rs) = Some e"
  by (simp_all add: firstError_def)

lemma ack_ok:
  assumes "wbWg wb = Some g" "wbErrorChan wb = Some c" "wgCount sy g \<noteq> 0" "chanCap sy c = 1" "length (chanBuf sy c) \<le> 1"
  shows "\<exists>sy1. ack (wb, r) sy = Some sy1 \<and> wgCount sy1 g = wgCount sy g - 1 \<and> chanCap sy1 c = 1
     \<and> chanBuf sy1 c = (case r of Some e \<Rightarrow> if chanBuf sy c = [] then [e] else chanBuf sy c | None \<Rightarrow> chanBuf sy c)"
proof (cases r)
  case None
  with assms show ?thesis by (simp add: ack_def Confirm_def wgDone_def)
next
  case (Some e)
  show ?thesis
  proof (cases "chanBuf sy c = []")
    case False
    then have "\<not> length (chanBuf sy c) < chanCap sy c" using assms by (simp add: not_less_eq_eq Suc_le_eq)
    with assms Some False show ?thesis by (simp add: ack_def Fail_def wgDone_def)
  qed (use assms Some in \<open>simp add: ack_def Fail_def wgDone_def\<close>)
qed

lemma acks_ok:
  assumes "\<forall>wb \<in> set bufs. wbWg wb = Some g \<and> wbErrorChan wb = Some c" "length rs = length bufs"
    and "length bufs \<le> wgCount sy g" "chanCap sy c = 1" "length (chanBuf sy c) \<le> 1"
  shows "\<exists>sy'. rangeLoop ack (zip bufs rs) sy = Some sy' \<and> wgCount sy' g = wgCount sy g - length bufs
     \<and> chanBuf sy' c = (if chanBuf sy c = [] then (case firstError rs of None \<Rightarrow> [] | Some e \<Rightarrow> [e]) else chanBuf sy c)"
  using assms
proof (induction bufs arbitrary: rs sy)
  case (Cons wb bufs)
  obtain r rs' where rs: "rs = r # rs'" using Cons.prems(2) by (cases rs) auto
  obtain sy1 where sy1: "ack (wb, r) sy = Some sy1" "wgCount sy1 g = wgCount sy g - 1" "chanCap sy1 c = 1"
      "chanBuf sy1 c = (case r of Some e \<Rightarrow> if chanBuf sy c = [] then [e] else chanBuf sy c | None \<Rightarrow> chanBuf sy c)"
    using ack_ok [of wb g c sy r] Cons.prems by auto
  then have "length (chanBuf sy1 c) \<le> 1" using Cons.prems(5) by (auto split: option.split)
  moreover have "length bufs \<le> wgCount sy1 g" using Cons.prems(3) sy1(2) by simp
  ultimately obtain sy2 where "rangeLoop ack (zip bufs rs') sy1 = Some sy2"
    "wgCount sy2 g = wgCount sy1 g - length bufs"
    "chanBuf sy2 c = (if chanBuf sy1 c = [] then (case firstError rs' of None \<Rightarrow> [] | Some e \<Rightarrow> [e]) else chanBuf sy1 c)"
    using Cons.IH [of rs' sy1] Cons.prems(1,2) rs sy1(3) by auto
  with sy1 rs show ?case by (auto split: option.splits if_splits)
qed auto

definition grpcItems :: "(bytes \<times> grpc_point list) list \<Rightarrow> (bytes \<times> grpc_point) list" where
  "grpcItems vs = concat (map (\<lambda>(name, ps). map (\<lambda>p. (name, p)) ps) vs)"

lemma doStore_sync:
  assumes v: "grpcValidate env (baseTags b) ms = Some (Inr vs)"
    and valid: "\<forall>x \<in> set (grpcItems vs). grpcValid now b x" and "chanOk b"
  shows "\<exists>sy' b' bufs. doStore env (\<lambda>_. SelSend) now (Some ms) True sy b = Some (Waiting, sy', b')
     \<and> writeChan b' = writeChan b @ bufs
     \<and> concat (map wbBody bufs) = encPoints env (concat (map (grpcOut now b) (grpcItems vs)))
     \<and> (\<forall>wb \<in> set bufs. wbWg wb = Some 0 \<and> wbErrorChan wb = Some 0) \<and> list_all (wholeBuffer (envDays env)) bufs
     \<and> wgCount sy' 0 = length bufs + (if concat (map (grpcOut now b) (grpcItems vs)) = [] then 1 else 0)
     \<and> (concat (map (grpcOut now b) (grpcItems vs)) = [] \<longrightarrow> bufs = []) \<and> chanBuf sy' 0 = [] \<and> chanCap sy' 0 = 1"
proof -
  let ?sy = "sy\<lparr>wgCount := (wgCount sy)(0 := 0), chanBuf := (chanBuf sy)(0 := []), chanCap := (chanCap sy)(0 := 1)\<rparr>"
  let ?st = "grpcGetBuffer (Some 0) (Some 0) \<lparr>gsBase = b, gsWb = newWriteBuffer, gsSync = ?sy, gsSends = 0\<rparr>"
  let ?pts = "concat (map (grpcOut now b) (grpcItems vs))"
  have "grpcInv env b ?st" and st0: "gsBase ?st = b" "wbBody (gsWb ?st) = []"
    using \<open>chanOk b\<close> by (simp_all add: grpcInv_def grpcGetBuffer_def GetWriterBufferWithConfirm_def wbUsed_def)
  from gr.steps_ok [OF this(1) valid] obtain st cs where st: "rangeLoop (grpcStep env (Some 0) (Some 0) now) (grpcItems vs) ?st = Some st"
    "grpcInv env b st" "chanBytes (gsBase st) = chanBytes b @ cs" "concat cs @ wbBody (gsWb st) = encPoints env ?pts"
    "\<forall>c \<in> set (wbBody (gsWb st) # cs). whole (encPoint (envDays env)) c"
    unfolding st0 by auto
  obtain bufs where bufs: "writeChan (gsBase st) = writeChan b @ bufs" "wgCount (gsSync st) 0 = length bufs + 1"
      "wbBody (gsWb st) = [] \<longrightarrow> bufs = []" "\<forall>wb \<in> set bufs. wbWg wb = Some 0 \<and> wbErrorChan wb = Some 0"
    "wbWg (gsWb st) = Some 0" "wbErrorChan (gsWb st) = Some 0" "chanBuf (gsSync st) 0 = []" "chanCap (gsSync st) 0 = 1"
    using st(2) by (auto simp: grpcInv_def)
  have cs: "cs = map wbBody bufs" using st(3) bufs(1) by (simp add: chanBytes_def)
  have cap: "length (wbBody (gsWb st)) \<le> WriteBufferSize" "\<forall>c \<in> set cs. length c \<le> WriteBufferSize"
    using gr.inv_cap [OF st(2)] st(3) by auto
  have whole: "list_all (wholeBuffer (envDays env)) bufs" "wholeBuffer (envDays env) (gsWb st)"
    using st(5) cap by (auto simp: cs list_all_iff wholeBuffer_def wbUsed_def)
  have run: "grpcStoreLoop env (\<lambda>_. SelSend) (Some 0) (Some 0) now (grpcItems vs) ?st = Some (None, st)"
    by (rule grpcStoreLoop_steps [OF st(1)])
  note unf = doStore_def option.case v Option.option.case sum.case if_True Let_def run [unfolded grpcItems_def]
  show ?thesis
  proof (cases "wbBody (gsWb st) = []")
    case True
    then have "encPoints env ?pts = []" using bufs(3) st(4) cs by simp
    then have "?pts = []" by (simp only: encPoints_empty)
    then show ?thesis
      unfolding unf using True bufs whole by (simp add: Empty_def wbUsed_def)
  next
    case False
    then have "encPoints env ?pts \<noteq> []" using st(4) by (metis append_is_Nil_conv)
    then have "?pts \<noteq> []" by (simp only: encPoints_empty not_False_eq_True)
    then show ?thesis
      unfolding unf using False bufs st(4) cs whole
      by (simp add: Empty_def wbUsed_def grpcSend_def)
  qed
qed

text \<open>
  C20. With confirmation, the buffers of a request hold exactly the encodings of its accepted
  points, and once every buffer was confirmed or failed the call returns the first error,
  provided at least one point was accepted.
\<close>

theorem grpc_store_sync:
  assumes "grpcValidate env (baseTags b) ms = Some (Inr vs)"
    and "\<forall>x \<in> set (grpcItems vs). grpcValid now b x" and "chanOk b"
  shows "\<exists>sy1 sy2 b' bufs. doStore env (\<lambda>_. SelSend) now (Some ms) True sy b = Some (Waiting, sy1, b')
     \<and> writeChan b' = writeChan b @ bufs
     \<and> concat (map wbBody bufs) = encPoints env (concat (map (grpcOut now b) (grpcItems vs)))
     \<and> rangeLoop ack (zip bufs (map answers [0..<length bufs])) sy1 = Some sy2
     \<and> waitResult sy2 = (if concat (map (grpcOut now b) (grpcItems vs)) = [] then None
                         else Some (firstError (map answers [0..<length bufs])))"
proof -
  let ?pts = "concat (map (grpcOut now b) (grpcItems vs))"
  from doStore_sync [OF assms] obtain sy1 b' bufs where r: "doStore env (\<lambda>_. SelSend) now (Some ms) True sy b = Some (Waiting, sy1, b')"
     "writeChan b' = writeChan b @ bufs" "concat (map wbBody bufs) = encPoints env ?pts"
     "\<forall>wb \<in> set bufs. wbWg wb = Some 0 \<and> wbErrorChan wb = Some 0"
     "wgCount sy1 0 = length bufs + (if ?pts = [] then 1 else 0)" "chanBuf sy1 0 = []" "chanCap sy1 0 = 1" by metis
  from acks_ok [OF r(4), of "map answers [0..<length bufs]" sy1] r(5-7) obtain sy2 where
    a: "rangeLoop ack (zip bufs (map answers [0..<length bufs])) sy1 = Some sy2" "wgCount sy2 0 = wgCount sy1 0 - length bufs"
    "chanBuf sy2 0 = (case firstError (map answers [0..<length bufs]) of None \<Rightarrow> [] | Some e \<Rightarrow> [e])" by auto
  have "waitResult sy2 = (if ?pts = [] then None else Some (firstError (map answers [0..<length bufs])))"
    using a(2,3) r(5) by (simp add: waitResult_def split: option.split)
  with r(1-3) a(1) show ?thesis by blast
qed

definition noSync :: "grpc_error sync_store" where
  "noSync = \<lparr>wgCount = \<lambda>_. 0, chanBuf = \<lambda>_. [], chanCap = \<lambda>_. 0\<rparr>"

theorem grpc_store_sync_witness:
  "\<exists>sy1 sy2 b' bufs. doStore exampleEnv (\<lambda>_. SelSend) 9 (Some [Some (str ''a.b'', Some [(5, 6), (7, 8)])]) True
       noSync zeroBase = Some (Waiting, sy1, b')
     \<and> writeChan b' = writeChan zeroBase @ bufs
     \<and> concat (map wbBody bufs) = encPoints exampleEnv (concat (map (grpcOut 9 zeroBase) (grpcItems [(str ''a.b'', [(5, 6), (7, 8)])])))
     \<and> rangeLoop ack (zip bufs (map (\<lambda>_. None) [0..<length bufs])) sy1 = Some sy2
     \<and> waitResult sy2 = (if concat (map (grpcOut 9 zeroBase) (grpcItems [(str ''a.b'', [(5, 6), (7, 8)])])) = [] then None
                         else Some (firstError (map (\<lambda>_. None) [0..<length bufs])))"
  by (rule grpc_store_sync)
    (simp_all add: grpcItems_def grpcValid_def zeroBase_def chanOk_def Graphite_def DisabledTagConfig_def WriteBufferSize_def)

text \<open>
  A confirmed request all of whose points are dropped sends no buffer but leaves the wait
  group at one, so the call never returns.
\<close>

theorem grpc_all_dropped_hangs:
  assumes "grpcValidate env (baseTags b) ms = Some (Inr vs)" and "chanOk b"
    and "\<forall>(name, v, t) \<in> set (grpcItems vs). dropsPoint b now name t"
  shows "\<exists>sy1 b'. doStore env (\<lambda>_. SelSend) now (Some ms) True sy b = Some (Waiting, sy1, b')
     \<and> writeChan b' = writeChan b \<and> waitResult sy1 = None"
proof -
  have none: "concat (map (grpcOut now b) (grpcItems vs)) = []" using assms(3) by (auto simp: grpcOut_def)
  have valid: "\<forall>x \<in> set (grpcItems vs). grpcValid now b x" using assms(3) by (auto simp: grpcValid_def)
  from doStore_sync [OF assms(1) valid assms(2), of sy] none obtain sy1 b' where
    r: "doStore env (\<lambda>_. SelSend) now (Some ms) True sy b = Some (Waiting, sy1, b')" "writeChan b' = writeChan b"
      "wgCount sy1 0 = 1" by auto
  then show ?thesis by (auto simp: waitResult_def)
qed

theorem grpc_all_dropped_hangs_witness:
  "\<exists>sy1 b'. doStore exampleEnv (\<lambda>_. SelSend) 1000 (Some [Some (str ''a.b'', Some [(5, 6)])]) True
       noSync (zeroBase\<lparr>dropPastSeconds := 60\<rparr>) = Some (Waiting, sy1, b')
     \<and> writeChan b' = writeChan (zeroBase\<lparr>dropPastSeconds := 60\<rparr>) \<and> waitResult sy1 = None"
  by (rule grpc_all_dropped_hangs [where vs = "[(str ''a.b'', [(5, 6)])]"])
    (simp_all add: grpcItems_def dropsPoint_def isDrop_def zeroBase_def chanOk_def Graphite_def DisabledTagConfig_def)

end
