(* ===== verification/Proto_Carbon.thy ===== *)
theory Proto_Carbon
  imports Protobuf Recv_Messages
begin

text \<open>
  The messages of the gRPC receiver, from \<^verbatim>\<open>grpc/carbon.pb.go\<close>: \<open>Point\<close>, \<open>Metric\<close> and \<open>Payload\<close>, each with its size, its
  encoder and its decoder. A repeated field is a slice that may be nil (\<open>None\<close>); its pointers are not nil.
\<close>

type_synonym grpc_payload = "grpc_metric list option"

text \<open>The elements of a slice, and \<open>append\<close>.\<close>

definition elems :: "'a list option \<Rightarrow> 'a list" where
  "elems xs = (case xs of None \<Rightarrow> [] | Some xs \<Rightarrow> xs)"

definition appendSlice :: "'a \<Rightarrow> 'a list option \<Rightarrow> 'a list option" where
  "appendSlice x xs = Some (elems xs @ [x])"

subsection \<open>Encoding\<close>

definition pointSize :: "grpc_point \<Rightarrow> nat" where
  "pointSize p = (if snd p = 0 then 0 else 1 + sov (ucast (snd p))) + (if floatZero (fst p) then 0 else 9)"

definition pointTo :: "grpc_point \<Rightarrow> bytes" where
  "pointTo p = (if snd p = 0 then [] else 0x08 # encodeVarint (ucast (snd p)))
     @ (if floatZero (fst p) then [] else 0x11 # putUint64 (fst p))"

definition metricSize :: "grpc_metric \<Rightarrow> nat" where
  "metricSize m = stringSize (fst m) + sum_list (map (lenSize \<circ> pointSize) (elems (snd m)))"

definition metricTo :: "grpc_metric \<Rightarrow> bytes" where
  "metricTo m = stringField 0x0a (fst m) @ concat (map (messageField 0x12 pointSize pointTo) (elems (snd m)))"

definition payloadSize :: "grpc_payload \<Rightarrow> nat" where
  "payloadSize p = sum_list (map (lenSize \<circ> metricSize) (elems p))"

definition payloadTo :: "grpc_payload \<Rightarrow> bytes" where
  "payloadTo p = concat (map (messageField 0x0a metricSize metricTo) (elems p))"

definition marshalPayload :: "grpc_payload \<Rightarrow> bytes option" where
  "marshalPayload = marshal payloadSize payloadTo"

subsection \<open>Decoding\<close>

definition pointField :: "grpc_point field_handler" where
  "pointField f wt l r m =
     (if f = 1 then varintField wt r (\<lambda>t. (fst m, t))
      else if f = 2 then doubleField wt r (\<lambda>v. (v, snd m))
      else UnknownField)"

definition unmarshalPoint :: "bytes \<Rightarrow> (proto_error + grpc_point) option" where
  "unmarshalPoint = decodeMessage pointField (0, 0)"

definition metricField :: "grpc_metric field_handler" where
  "metricField f wt l r m =
     (if f = 1 then lenField wt l r (\<lambda>bs. Some (Inr (bs, snd m)))
      else if f = 2 then lenField wt l r (\<lambda>bs. map_option (map_sum id (\<lambda>x. (fst m, appendSlice x (snd m)))) (unmarshalPoint bs))
      else UnknownField)"

definition unmarshalMetric :: "bytes \<Rightarrow> (proto_error + grpc_metric) option" where
  "unmarshalMetric = decodeMessage metricField ([], None)"

definition payloadField :: "grpc_payload field_handler" where
  "payloadField f wt l r m =
     (if f = 1 then lenField wt l r (\<lambda>bs. map_option (map_sum id (\<lambda>x. appendSlice x m)) (unmarshalMetric bs))
      else UnknownField)"

definition unmarshalPayload :: "bytes \<Rightarrow> (proto_error + grpc_payload) option" where
  "unmarshalPayload = decodeMessage payloadField None"

subsection \<open>Every message type meets the contract\<close>

text \<open>Negative zero is not written, and an empty slice comes back as nil.\<close>

definition okPoint :: "grpc_point \<Rightarrow> bool" where
  "okPoint p \<longleftrightarrow> fst p \<noteq> 0x8000000000000000"

definition okMetric :: "grpc_metric \<Rightarrow> bool" where
  "okMetric m \<longleftrightarrow> snd m \<noteq> Some [] \<and> list_all okPoint (elems (snd m))"

definition okPayload :: "grpc_payload \<Rightarrow> bool" where
  "okPayload p \<longleftrightarrow> p \<noteq> Some [] \<and> list_all okMetric (elems p)"

lemma ucast_ucast_32: "(ucast (ucast (t :: uint32) :: uint64) :: uint32) = t"
  by (rule bit_eqI) (auto simp: bit_simps dest: bit_imp_le_length)

lemma unmarshalPoint_to: "okPoint p \<Longrightarrow> unmarshalPoint (pointTo p) = Some (Inr p)"
proof -
  assume ok: "okPoint p"
  let ?v = "if floatZero (fst p) then [] else 0x11 # putUint64 (fst p)"
  have "decodeLoop pointField l (0, 0) (pointTo p) = decodeLoop pointField l (0, snd p) ?v" for l
    using decodeLoop_varint [of "0x08" 1 pointField l "ucast (snd p)" ?v "(0, 0)" "\<lambda>t. (0, t)"]
    by (cases "snd p = 0") (simp_all add: pointTo_def pointField_def encodeVarint_eq ucast_ucast_32 split del: if_split)
  also have "\<dots> l = Some (Inr p)" for l
    using ok decodeLoop_double [of "0x11" 2 pointField l "fst p" "[]" "(0, snd p)" "\<lambda>v. (v, snd p)"]
    by (cases p) (auto simp: pointField_def okPoint_def floatZero_def)
  finally show ?thesis by (simp add: unmarshalPoint_def decodeMessage_def)
qed

interpretation pbPoint: message_codec pointSize pointTo unmarshalPoint okPoint
proof unfold_locales
  fix p
  show "pointSize p = length (pointTo p)" by (simp add: pointSize_def pointTo_def sov_eq encodeVarint_eq)
  show "okPoint p \<Longrightarrow> unmarshalPoint (pointTo p) = Some (Inr p)" by (rule unmarshalPoint_to)
qed

lemma fold_appendSlice: "fold appendSlice xs ys = (if xs = [] then ys else Some (elems ys @ xs))"
  by (induction xs arbitrary: ys) (simp_all add: appendSlice_def elems_def)

lemma fold_appendSlice_snd: "fold (\<lambda>x m. (fst m, appendSlice x (snd m))) xs (n, ys) = (n, fold appendSlice xs ys)"
  by (induction xs arbitrary: ys) simp_all

lemma fold_elems: "xs \<noteq> Some [] \<Longrightarrow> fold appendSlice (elems xs) None = xs"
  by (cases xs) (simp_all add: fold_appendSlice elems_def)

lemma unmarshalMetric_to:
  assumes "okMetric m" "length (metricTo m) < 2 ^ 63"
  shows "unmarshalMetric (metricTo m) = Some (Inr m)"
proof -
  let ?l = "length (metricTo m)" let ?P = "concat (map (messageField 0x12 pointSize pointTo) (elems (snd m)))"
  have "decodeLoop metricField ?l ([], None) (metricTo m) = decodeLoop metricField ?l (fst m, None) ?P"
    using decodeLoop_string [of "0x0a" 1 metricField ?l "\<lambda>s m. (s, snd m)" "fst m" ?P "([], None)"] assms(2)
    by (auto simp: metricTo_def metricField_def)
  also have "\<dots> = Some (Inr m)"
    using pbPoint.repeated [of "0x12" 2 metricField ?l "\<lambda>x m. (fst m, appendSlice x (snd m))" "elems (snd m)" "[]" "(fst m, None)"] assms
    by (simp add: metricTo_def metricField_def fold_appendSlice_snd fold_elems okMetric_def list_all_iff)
  finally show ?thesis by (simp add: unmarshalMetric_def decodeMessage_def)
qed

interpretation pbMetric: message_codec metricSize metricTo unmarshalMetric okMetric
proof unfold_locales
  fix m
  show "metricSize m = length (metricTo m)"
    by (simp only: metricSize_def metricTo_def length_append stringSize_eq [of "fst m" "0x0a"] pbPoint.fields_size [where tag = "0x12"])
  show "okMetric m \<Longrightarrow> length (metricTo m) < 2 ^ 63 \<Longrightarrow> unmarshalMetric (metricTo m) = Some (Inr m)"
    by (rule unmarshalMetric_to)
qed

interpretation pbPayload: message_codec payloadSize payloadTo unmarshalPayload okPayload
proof unfold_locales
  fix p
  show "payloadSize p = length (payloadTo p)"
    by (simp only: payloadSize_def payloadTo_def pbMetric.fields_size [where tag = "0x0a"])
  show "unmarshalPayload (payloadTo p) = Some (Inr p)" if "okPayload p" "length (payloadTo p) < 2 ^ 63"
    using pbMetric.repeated [of "0x0a" 1 payloadField "length (payloadTo p)" appendSlice "elems p" "[]" None] that
    by (simp add: payloadTo_def payloadField_def fold_elems okPayload_def list_all_iff unmarshalPayload_def decodeMessage_def)
qed

text \<open>
  What a gRPC client marshals is what the receiver unmarshals: a payload that fits into a slice, has no empty
  slice where nil would do and no value of negative zero comes back with the same metrics and points.
\<close>

theorem payload_roundtrip:
  assumes "okPayload p" "payloadSize p < 2 ^ 63"
  shows "Option.bind (marshalPayload p) unmarshalPayload = Some (Inr p)"
  using assms unfolding marshalPayload_def by (rule pbPayload.roundtrip)

theorem payload_roundtrip_witness:
  "Option.bind (marshalPayload (Some [(str ''a.b'', Some [(1, 300), (0, 0)]), ([], None)])) unmarshalPayload
     = Some (Inr (Some [(str ''a.b'', Some [(1, 300), (0, 0)]), ([], None)]))"
proof (rule payload_roundtrip)
  show "okPayload (Some [(str ''a.b'', Some [(1, 300), (0, 0)]), ([], None)])"
    by (simp add: okPayload_def okMetric_def okPoint_def elems_def)
  show "payloadSize (Some [(str ''a.b'', Some [(1, 300), (0, 0)]), ([], None)]) < 2 ^ 63"
    by (simp add: payloadSize_def metricSize_def pointSize_def stringSize_def lenSize_def floatZero_def elems_def sov.simps)
qed

subsection \<open>From the client to the writer\<close>

text \<open>
  \<open>_Carbon_Store_Handler\<close> and \<open>_Carbon_StoreSync_Handler\<close>: the message is decoded and given to the receiver. The server has no
  interceptor.
\<close>

text \<open>The two methods of the service, with and without confirmation.\<close>

definition Store ::
  "rcv_env \<Rightarrow> (nat \<Rightarrow> grpc_select) \<Rightarrow> uint32 \<Rightarrow> grpc_metric option list option \<Rightarrow> 'e sync_store \<Rightarrow> base \<Rightarrow> (grpc_result \<times> 'e sync_store \<times> base) option" where
  "Store env sel now payload sy b = doStore env sel now payload False sy b"

definition StoreSync ::
  "rcv_env \<Rightarrow> (nat \<Rightarrow> grpc_select) \<Rightarrow> uint32 \<Rightarrow> grpc_metric option list option \<Rightarrow> 'e sync_store \<Rightarrow> base \<Rightarrow> (grpc_result \<times> 'e sync_store \<times> base) option" where
  "StoreSync env sel now payload sy b = doStore env sel now payload True sy b"

definition carbonHandler ::
  "rcv_env \<Rightarrow> (nat \<Rightarrow> grpc_select) \<Rightarrow> uint32 \<Rightarrow> bool \<Rightarrow> bytes \<Rightarrow> 'e sync_store \<Rightarrow> base \<Rightarrow>
   (proto_error + grpc_result \<times> 'e sync_store \<times> base) option" where
  "carbonHandler env sel now confirmRequired data sy b =
     (case unmarshalPayload data of
        None \<Rightarrow> None
      | Some (Inl e) \<Rightarrow> Some (Inl e)
      | Some (Inr p) \<Rightarrow> map_option Inr ((if confirmRequired then StoreSync else Store) env sel now (map_option (map Some) p) sy b))"

text \<open>
  A confirmed gRPC request, from the payload of the client to the channel of the writer:
  the marshalled bytes are decoded, and the buffers sent hold exactly the encodings of the
  accepted points of the payload, in order.
\<close>

theorem grpc_wire_request:
  assumes "okPayload (Some ms)" "payloadSize (Some ms) < 2 ^ 63"
    and "grpcValidate env (baseTags b) (map Some ms) = Some (Inr vs)"
    and "\<forall>x \<in> set (grpcItems vs). grpcValid now b x" "chanOk b"
  shows "\<exists>data sy' b' bufs. marshalPayload (Some ms) = Some data
     \<and> carbonHandler env (\<lambda>_. SelSend) now True data sy b = Some (Inr (Waiting, sy', b'))
     \<and> writeChan b' = writeChan b @ bufs
     \<and> concat (map wbBody bufs) = encPoints env (concat (map (grpcOut now b) (grpcItems vs)))"
proof -
  have m: "marshalPayload (Some ms) = Some (payloadTo (Some ms))"
    unfolding marshalPayload_def by (rule pbPayload.marshalled)
  with pbPayload.roundtrip [OF assms(1,2)] have "unmarshalPayload (payloadTo (Some ms)) = Some (Inr (Some ms))"
    by (simp add: marshalPayload_def)
  moreover from doStore_sync [OF assms(3-5), of sy] obtain sy' b' bufs where
    "doStore env (\<lambda>_. SelSend) now (Some (map Some ms)) True sy b = Some (Waiting, sy', b')" "writeChan b' = writeChan b @ bufs"
    "concat (map wbBody bufs) = encPoints env (concat (map (grpcOut now b) (grpcItems vs)))" by blast
  ultimately show ?thesis using m by (auto simp: carbonHandler_def StoreSync_def)
qed

theorem grpc_wire_request_witness:
  "\<exists>data sy' b' bufs. marshalPayload (Some [(str ''a.b'', Some [(5, 6), (7, 8)])]) = Some data
     \<and> carbonHandler exampleEnv (\<lambda>_. SelSend) 9 True data noSync zeroBase
         = Some (Inr (Waiting, sy', b'))
     \<and> writeChan b' = writeChan zeroBase @ bufs
     \<and> concat (map wbBody bufs) = encPoints exampleEnv (concat (map (grpcOut 9 zeroBase) (grpcItems [(str ''a.b'', [(5, 6), (7, 8)])])))"
proof (rule grpc_wire_request)
  show "okPayload (Some [(str ''a.b'', Some [(5, 6), (7, 8)])])"
    by (simp add: okPayload_def okMetric_def okPoint_def elems_def)
  show "payloadSize (Some [(str ''a.b'', Some [(5, 6), (7, 8)])]) < 2 ^ 63"
    by (simp add: payloadSize_def metricSize_def pointSize_def stringSize_def lenSize_def floatZero_def elems_def sov.simps)
qed (simp_all add: grpcItems_def grpcValid_def zeroBase_def chanOk_def Graphite_def DisabledTagConfig_def WriteBufferSize_def)

subsection \<open>A length that overflows\<close>

text \<open>
  The guards of a length test for a negative length and for an end past the data, but not for a sum that overflows: the end is
  negative, passes both, and the slice expression panics.
\<close>

theorem payload_length_panics:
  assumes "length rest < 2 ^ 62"
  shows "unmarshalPayload (0x0a # encodeVarint 0x7fffffffffffffff @ rest) = None"
proof -
  have len: "length (putUvarint 0x7fffffffffffffff) = 9"
    by (simp add: sov_eq [symmetric] sov.simps)
  let ?l = "length (0x0a # putUvarint 0x7fffffffffffffff @ rest)"
  have "wrap64 (int (?l - length rest) + 0x7fffffffffffffff) < 0"
    by (rule wrap64_neg) (simp_all add: len)
  moreover have "sint (0x7fffffffffffffff :: uint64) = 0x7fffffffffffffff" by simp
  ultimately have "lenField 2 ?l (putUvarint 0x7fffffffffffffff @ rest) u = FieldPanic" for u :: "bytes \<Rightarrow> (proto_error + grpc_payload) option"
    by (simp add: lenField_def Let_def)
  then have "decodeLoop payloadField ?l None (0x0a # putUvarint 0x7fffffffffffffff @ rest) = None"
    using tagOf_used(3) by (subst decodeLoop.simps) (simp add: tagOf_def payloadField_def Let_def)
  then show ?thesis by (simp add: unmarshalPayload_def decodeMessage_def encodeVarint_eq)
qed

theorem payload_length_panics_witness: "unmarshalPayload (0x0a # encodeVarint 0x7fffffffffffffff @ []) = None"
  by (rule payload_length_panics) simp

end
