(* ===== verification/Wr_Durable.thy ===== *)
theory Wr_Durable
  imports Wr_Worker Proto_Carbon "HOL-Library.Sublist"
begin

text \<open>
  What a confirmed gRPC request may rely on, from \<^verbatim>\<open>receiver/grpc.go\<close> through the channel to \<^verbatim>\<open>writer/writer.go\<close> and back: the
  service description promises that \<open>StoreSync\<close> returns only after the data was written. It is proved here
  for the writer without compression, for files that fail in any way; with LZ4 it does not hold, because the confirmation
  does not flush the compressor.
\<close>

subsection \<open>Files only grow\<close>

definition fileContents :: "worker \<Rightarrow> bytes list" where
  "fileContents w = map snd (wkClosed w) @ (case wkOut w of None \<Rightarrow> [] | Some out \<Rightarrow> [skData (dsOut out)])"

text \<open>The bytes of the buffer are in one file, as a whole.\<close>

definition filesHold :: "worker \<Rightarrow> write_buffer \<Rightarrow> bool" where
  "filesHold w b \<longleftrightarrow> (\<exists>f \<in> set (fileContents w). sublist (wbBody b) f)"

text \<open>No compressor, and a file that still has what it had.\<close>

definition plainOut :: "worker \<Rightarrow> bool" where
  "plainOut w \<longleftrightarrow> (case wkOut w of None \<Rightarrow> True | Some out \<Rightarrow> dsCwr out = None)"

definition grows :: "dest \<Rightarrow> dest \<Rightarrow> bool" where
  "grows d d' \<longleftrightarrow> dsCwr d' = None \<and> prefix (skData (dsOut d)) (skData (dsOut d'))"

lemma grows_trans: "grows d d' \<Longrightarrow> grows d' d'' \<Longrightarrow> grows d d''"
  by (auto simp: grows_def intro: prefix_order.trans)

lemma destWrite_grows: "destWrite E p d = (d', n, ok) \<Longrightarrow> dsCwr d = None \<Longrightarrow> grows d d'"
  by (auto simp: destWrite_def sinkWrite_def grows_def split: option.splits if_splits)

lemma destWrite_all: "destWrite E p d = (d', n, True) \<Longrightarrow> dsCwr d = None \<Longrightarrow> skData (dsOut d') = skData (dsOut d) @ p"
  by (auto simp: destWrite_def sinkWrite_def split: option.splits if_splits)

lemma bufFlush_grows: "bufFlush E b d = (b', d', ok) \<Longrightarrow> dsCwr d = None \<Longrightarrow> grows d d'"
  by (auto simp: bufFlush_def split: if_splits prod.splits bool.splits dest: destWrite_grows) (auto simp: grows_def)

lemma bufFlush_ok:
  "bufFlush E b d = (b', d', True) \<Longrightarrow> dsCwr d = None \<Longrightarrow> skData (dsOut d') = skData (dsOut d) @ bwBuf b \<and> bwBuf b' = [] \<and> \<not> bwErr b'"
  by (auto simp: bufFlush_def split: if_splits prod.splits bool.splits dest: destWrite_all)

lemma bufFlush_err: "bufFlush E b w = (b', w', ok) \<Longrightarrow> bwErr b' = (\<not> ok)"
  by (auto simp: bufFlush_def split: if_splits prod.splits bool.splits)

lemma bufWrite_err: "bwErr b \<Longrightarrow> bufWrite E p b w = (b, w, False)"
  by (subst bufWrite.simps) simp

lemma bufWrite_grows: "bufWrite E p b w = (b', w', ok) \<Longrightarrow> dsCwr w = None \<Longrightarrow> grows w w'"
proof (induction E p b w arbitrary: b' w' ok rule: bufWrite.induct)
  case (1 E p b w)
  show ?case
  proof (cases "outBufSize - length (bwBuf b) < length p \<and> \<not> bwErr b")
    case full: True
    show ?thesis
    proof (cases "bwBuf b = []")
      case True
      obtain w1 n o1 where s: "destWrite E p w = (w1, n, o1)" by (rule prod_cases3)
      note g = destWrite_grows [OF s "1.prems"(2)]
      then have n1: "dsCwr w1 = None" by (simp add: grows_def)
      show ?thesis
      proof (cases o1)
        case True
        with full s \<open>bwBuf b = []\<close> "1.prems" have "bufWrite E [] b w1 = (b', w', ok)" by (simp add: bufWrite.simps [of E p b])
        with "1.IH"(1) [OF full \<open>bwBuf b = []\<close> s [symmetric] refl] True g n1 show ?thesis by (blast intro: grows_trans)
      next
        case False
        with full s \<open>bwBuf b = []\<close> "1.prems" have "w' = w1" by (simp add: bufWrite.simps [of E p b] bufWrite_err)
        with g show ?thesis by simp
      qed
    next
      case False
      let ?n = "outBufSize - length (bwBuf b)"
      obtain b1 w1 o1 where f: "bufFlush E (b\<lparr>bwBuf := bwBuf b @ take ?n p\<rparr>) w = (b1, w1, o1)" by (rule prod_cases3)
      note g = bufFlush_grows [OF f "1.prems"(2)]
      then have n1: "dsCwr w1 = None" by (simp add: grows_def)
      from f full False "1.prems" have "bufWrite E (drop ?n p) b1 w1 = (b', w', ok)" by (simp add: bufWrite.simps [of E p b] Let_def)
      with "1.IH"(3) [OF full False refl f [symmetric] refl] g n1 show ?thesis by (blast intro: grows_trans)
    qed
  next
    case False
    with "1.prems" show ?thesis by (auto simp: bufWrite.simps [of E p b] grows_def split: if_splits)
  qed
qed

text \<open>A write that reports success has passed on or kept every byte.\<close>

lemma bufWrite_ok:
  "bufWrite E p b w = (b', w', True) \<Longrightarrow> dsCwr w = None \<Longrightarrow> skData (dsOut w') @ bwBuf b' = skData (dsOut w) @ bwBuf b @ p \<and> \<not> bwErr b'"
proof (induction E p b w arbitrary: b' w' rule: bufWrite.induct)
  case (1 E p b w)
  have nerr: "\<not> bwErr b" using "1.prems" bufWrite_err [of b E p w] by auto
  show ?case
  proof (cases "outBufSize - length (bwBuf b) < length p")
    case full: True
    show ?thesis
    proof (cases "bwBuf b = []")
      case True
      obtain w1 n o1 where s: "destWrite E p w = (w1, n, o1)" by (rule prod_cases3)
      with full True nerr "1.prems" have o: o1 and r: "bufWrite E [] b w1 = (b', w', True)"
        by (auto simp: bufWrite.simps [of E p b] bufWrite_err split: bool.splits)
      with s "1.prems"(2) have "skData (dsOut w1) = skData (dsOut w) @ p" by (simp add: destWrite_all)
      moreover have "dsCwr w1 = None" using destWrite_grows [OF s "1.prems"(2)] by (simp add: grows_def)
      ultimately show ?thesis using "1.IH"(1) [of w1 "(n, True)" n True b' w'] full nerr True s o r by simp
    next
      case False
      let ?n = "outBufSize - length (bwBuf b)" let ?b = "b\<lparr>bwBuf := bwBuf b @ take ?n p\<rparr>"
      obtain b1 w1 o1 where f: "bufFlush E ?b w = (b1, w1, o1)" by (rule prod_cases3)
      with full False nerr "1.prems" have r: "bufWrite E (drop ?n p) b1 w1 = (b', w', True)" by (simp add: bufWrite.simps [of E p b] Let_def)
      then have o1 using bufFlush_err [OF f] bufWrite_err [of b1 E "drop ?n p" w1] by auto
      with bufFlush_ok [of E ?b w b1 w1] f "1.prems"(2) have eq: "skData (dsOut w1) @ bwBuf b1 = skData (dsOut w) @ bwBuf b @ take ?n p" by simp
      have "dsCwr w1 = None" using bufFlush_grows [OF f "1.prems"(2)] by (simp add: grows_def)
      with "1.IH"(3) [of ?n b1 "(w1, o1)" w1 o1 b' w'] full nerr False f r
      have "skData (dsOut w') @ bwBuf b' = skData (dsOut w1) @ bwBuf b1 @ drop ?n p \<and> \<not> bwErr b'" by simp
      with eq show ?thesis by (metis append.assoc append_take_drop_id)
    qed
  next
    case False
    with nerr "1.prems" show ?thesis by (auto simp: bufWrite.simps [of E p b])
  qed
qed

lemma filesHold_closed: "\<exists>f \<in> snd ` set (wkClosed w). sublist (wbBody b) f \<Longrightarrow> filesHold w b"
  by (auto simp: filesHold_def fileContents_def)

lemma filesHold_mono:
  assumes "filesHold w b" "set (wkClosed w) \<subseteq> set (wkClosed w')"
    and "\<And>out. wkOut w = Some out \<Longrightarrow> (\<exists>out'. wkOut w' = Some out' \<and> grows out out')
       \<or> (\<exists>fn f. (fn, f) \<in> set (wkClosed w') \<and> prefix (skData (dsOut out)) f)"
  shows "filesHold w' b"
proof -
  from assms(1) obtain f where f: "f \<in> set (fileContents w)" "sublist (wbBody b) f" by (auto simp: filesHold_def)
  have grow: "sublist (wbBody b) g" if "prefix f g" for g
    using f(2) that by (meson prefix_imp_sublist sublist_order.order_trans)
  from f(1) consider (closed) "f \<in> snd ` set (wkClosed w)" | (cur) out where "wkOut w = Some out" "f = skData (dsOut out)"
    unfolding fileContents_def by (cases "wkOut w") auto
  then show ?thesis
  proof cases
    case closed
    then have "f \<in> snd ` set (wkClosed w')" using assms(2) by blast
    with f(2) show ?thesis by (blast intro: filesHold_closed)
  next
    case cur
    from assms(3) [OF cur(1)] show ?thesis
    proof
      assume "\<exists>out'. wkOut w' = Some out' \<and> grows out out'"
      with cur(2) grow show ?thesis by (auto simp: filesHold_def fileContents_def grows_def)
    next
      assume "\<exists>fn f. (fn, f) \<in> set (wkClosed w') \<and> prefix (skData (dsOut out)) f"
      with cur(2) grow show ?thesis by (force intro: filesHold_closed)
    qed
  qed
qed

lemma openLoop_closed: "openLoop c tries w = Some w' \<Longrightarrow> wkClosed w' = wkClosed w"
  by (induction c tries w arbitrary: w' rule: openLoop.induct) (auto simp: Let_def split: if_splits)

lemma openLoop_plain:
  assumes "openLoop c tries w = Some w'" "wcAlgo c = CompAlgoNone"
  shows "plainOut w'"
  using assms(1)
proof (induction tries arbitrary: w)
  case (Cons a as)
  then show ?case by (auto simp: Let_def plainOut_def newCwr_def assms(2) split: if_splits option.splits)
qed simp

lemma keepsFile_same: "keepsFile c u now w = (k, w') \<Longrightarrow> wkOut w' = wkOut w \<and> wkBuf w' = wkBuf w \<and> wkClosed w' = wkClosed w"
  by (auto simp: keepsFile_def Let_def split: if_splits)

lemma closeFile_grows:
  assumes "closeFile c w = Some w'" "wkOut w = Some out" "dsCwr out = None"
  shows "set (wkClosed w) \<subseteq> set (wkClosed w') \<and> (\<exists>fn f. (fn, f) \<in> set (wkClosed w') \<and> prefix (skData (dsOut out)) f)"
proof -
  from assms obtain ob where "wkBuf w = Some ob" by (auto simp: closeFile_def split: option.splits)
  moreover obtain b1 out1 o1 where f: "bufFlush (wcLz4 c) ob out = (b1, out1, o1)" by (rule prod_cases3)
  ultimately have "wkClosed w' = wkClosed w @ [(wkFn w, skData (cwrClose (wcLz4 c) out1))]" using assms by (auto simp: closeFile_def)
  with bufFlush_grows [OF f assms(3)] show ?thesis by (auto simp: grows_def cwrClose_def)
qed

lemma rotateCheck_keeps:
  assumes "rotateCheck c u now tries w = Some w'" "wcAlgo c = CompAlgoNone" "plainOut w"
  shows "plainOut w' \<and> (filesHold w b \<longrightarrow> filesHold w' b)"
proof (cases "wkOut w")
  case None
  then have "openLoop c tries w = Some w'" using assms(1) by (simp add: rotateCheck_def)
  note this openLoop_plain [OF this assms(2)]
  moreover have "filesHold w' b" if "filesHold w b" using None openLoop_closed [OF calculation(1)] by (intro filesHold_mono [OF that]) simp_all
  ultimately show ?thesis by blast
next
  case (Some out)
  then have plain: "dsCwr out = None" using assms(3) by (simp add: plainOut_def)
  obtain k w1 where k: "keepsFile c u now w = (k, w1)" by fastforce
  note same = keepsFile_same [OF k]
  show ?thesis
  proof (cases k)
    case True
    with assms(1) Some k have "w' = w1" by (simp add: rotateCheck_def)
    with same plain assms(3) Some have "filesHold w' b" if "filesHold w b"
      by (intro filesHold_mono [OF that]) (simp_all add: grows_def)
    with \<open>w' = w1\<close> same assms(3) show ?thesis by (auto simp: plainOut_def)
  next
    case False
    with assms(1) Some k obtain w2 where w2: "closeFile c w1 = Some w2"
      "openLoop c tries (w2\<lparr>wkOut := None, wkBuf := None, wkSize := 0\<rparr>) = Some w'"
      by (auto simp: rotateCheck_def split: option.splits)
    from openLoop_closed [OF w2(2)] have "wkClosed w' = wkClosed w2" by simp
    with closeFile_grows [OF w2(1), of out] same Some plain have "filesHold w' b" if "filesHold w b" by (intro filesHold_mono [OF that]) auto
    with openLoop_plain [OF w2(2) assms(2)] show ?thesis by blast
  qed
qed

lemma workerIdle_keeps:
  assumes "workerIdle c w = Some w'" "plainOut w"
  shows "plainOut w' \<and> (filesHold w b \<longrightarrow> filesHold w' b)"
proof -
  from assms(1) obtain ob out where o: "wkBuf w = Some ob" "wkOut w = Some out" by (auto simp: workerIdle_def split: option.splits)
  obtain b1 out1 o1 where f: "bufFlush (wcLz4 c) ob out = (b1, out1, o1)" by (rule prod_cases3)
  have g: "grows out out1" using bufFlush_grows [OF f] assms(2) o(2) by (simp add: plainOut_def)
  with o f assms(1) have w': "w' = w\<lparr>wkBuf := Some b1, wkOut := Some out1\<rparr>" by (simp add: workerIdle_def cwrFlush_def grows_def)
  from g o(2) have "filesHold w' b" if "filesHold w b" unfolding w' by (intro filesHold_mono [OF that]) auto
  with g show ?thesis by (auto simp: w' plainOut_def grows_def)
qed

text \<open>What \<open>write\<close> leaves in the file and tells the request.\<close>

lemma workerWrite_cases:
  assumes "workerWrite c b w st = Some (w', st')" "plainOut w"
  shows "\<exists>out out' ob. wkOut w = Some out \<and> wkBuf w = Some ob \<and> wkOut w' = Some out' \<and> wkClosed w' = wkClosed w \<and> grows out out'
     \<and> (if ConfirmRequired b
        then (Confirm b st = Some st' \<and> skData (dsOut out') = skData (dsOut out) @ bwBuf ob @ wbBody b) \<or> (\<exists>e. Fail e b st = Some st')
        else st' = st)"
proof -
  from assms(1) obtain ob out where o: "wkBuf w = Some ob" "wkOut w = Some out" by (auto simp: workerWrite_def split: option.splits)
  have plain: "dsCwr out = None" using assms(2) o(2) by (simp add: plainOut_def)
  obtain ob1 out1 ok where f: "bufWrite (wcLz4 c) (wbBody b) ob out = (ob1, out1, ok)" by (rule prod_cases3)
  obtain ob2 out2 flushed where g: "bufFlush (wcLz4 c) ob1 out1 = (ob2, out2, flushed)" by (rule prod_cases3)
  have g1: "grows out out1" using bufWrite_grows [OF f plain] .
  then have plain1: "dsCwr out1 = None" by (simp add: grows_def)
  have g2: "grows out out2" using g1 bufFlush_grows [OF g plain1] by (rule grows_trans)
  show ?thesis
  proof (cases "ConfirmRequired b \<and> ok")
    case True
    then have "ok" by simp
    with assms(1) o f g True have w': "w' = w\<lparr>wkBuf := Some ob2, wkOut := Some out2, wkSize := wkSize w + of_nat (wbUsed b),
        wkWritten := wkWritten w + of_nat (wbUsed b)\<rparr>" "(if flushed then Confirm b st else Fail FlushFailed b st) = Some st'"
      by (auto simp: workerWrite_def split: option.splits)
    have "skData (dsOut out2) = skData (dsOut out) @ bwBuf ob @ wbBody b" if flushed
      using bufWrite_ok [of _ "wbBody b" ob out ob1 out1] bufFlush_ok [of _ ob1 out1 ob2 out2] f g plain plain1 \<open>ok\<close> that by simp
    with w' o True g2 show ?thesis by (cases flushed) auto
  next
    case False
    with assms(1) o f have w': "w' = w\<lparr>wkBuf := Some ob1, wkOut := Some out1, wkSize := wkSize w + of_nat (wbUsed b),
        wkWritten := wkWritten w + of_nat (wbUsed b)\<rparr>" "(if ConfirmRequired b then Fail WriteFailed b st else Some st) = Some st'"
      by (auto simp: workerWrite_def split: option.splits if_splits)
    with False o g1 show ?thesis by auto
  qed
qed

lemma workerStep_keeps:
  assumes "workerStep c ev (w, st) = Some (w', st')" "wcAlgo c = CompAlgoNone" "plainOut w"
  shows "plainOut w' \<and> (filesHold w b \<longrightarrow> filesHold w' b)"
proof (cases ev)
  case (Recv r)
  with assms(1) have "workerWrite c r w st = Some (w', st')" by simp
  from workerWrite_cases [OF this assms(3)] obtain out out' where
    o: "wkOut w = Some out" "wkOut w' = Some out'" "wkClosed w' = wkClosed w" "grows out out'" by blast
  then have "filesHold w' b" if "filesHold w b" by (intro filesHold_mono [OF that]) auto
  with o show ?thesis by (auto simp: plainOut_def grows_def)
next
  case (Tick u now tries)
  with assms rotateCheck_keeps [of c u now tries w w' b] show ?thesis by auto
next
  case IdleFlush
  with assms workerIdle_keeps [of c w w' b] show ?thesis by auto
qed

subsection \<open>The request and the writer\<close>

text \<open>
  The buffers of the request share its wait group and error channel, both at address 0; every other buffer has others or none.
\<close>

definition ownBuffer :: "write_buffer \<Rightarrow> bool" where
  "ownBuffer b \<longleftrightarrow> wbWg b = Some 0 \<and> wbErrorChan b = Some 0"

definition foreignBuffer :: "write_buffer \<Rightarrow> bool" where
  "foreignBuffer b \<longleftrightarrow> wbWg b \<noteq> Some 0 \<and> wbErrorChan b \<noteq> Some 0"

lemma wgDone_at:
  assumes "wgDone wg st = Some st'"
  shows "chanBuf st' = chanBuf st \<and> chanCap st' = chanCap st
     \<and> (if wg = Some 0 then Suc (wgCount st' 0) = wgCount st 0 else wgCount st' 0 = wgCount st 0)"
  using assms by (auto simp: wgDone_def split: option.splits if_splits)

lemma Fail_at:
  assumes "Fail e b st = Some st'"
  shows "chanCap st' = chanCap st
     \<and> (if wbWg b = Some 0 then Suc (wgCount st' 0) = wgCount st 0 else wgCount st' 0 = wgCount st 0)
     \<and> (if wbErrorChan b = Some 0 then chanBuf st' 0 = (if length (chanBuf st 0) < chanCap st 0 then chanBuf st 0 @ [e] else chanBuf st 0)
        else chanBuf st' 0 = chanBuf st 0)"
proof -
  let ?st = "case wbErrorChan b of None \<Rightarrow> st
    | Some c \<Rightarrow> if length (chanBuf st c) < chanCap st c then st\<lparr>chanBuf := (chanBuf st)(c := chanBuf st c @ [e])\<rparr> else st"
  have "wgDone (wbWg b) ?st = Some st'" using assms by (simp add: Fail_def)
  note d = wgDone_at [OF this]
  have "wgCount ?st = wgCount st" "chanCap ?st = chanCap st" by (simp_all split: option.split)
  moreover have "chanBuf ?st 0 = (if wbErrorChan b = Some 0 \<and> length (chanBuf st 0) < chanCap st 0 then chanBuf st 0 @ [e] else chanBuf st 0)"
    by (cases "wbErrorChan b") simp_all
  ultimately show ?thesis using d by simp
qed

text \<open>The state of the request: how many of its buffers are open, and whether an error was reported.\<close>

definition failedYet :: "'e sync_store \<Rightarrow> bool" where
  "failedYet st \<longleftrightarrow> chanBuf st 0 \<noteq> []"

lemma foreign_step:
  assumes "workerWrite c b w st = Some (w', st')" "foreignBuffer b" "plainOut w"
  shows "wgCount st' 0 = wgCount st 0 \<and> chanBuf st' 0 = chanBuf st 0 \<and> chanCap st' 0 = chanCap st 0"
proof -
  from workerWrite_cases [OF assms(1,3)] consider "st' = st" | "Confirm b st = Some st'" | e where "Fail e b st = Some st'"
    by (elim exE conjE) (auto split: if_splits)
  then show ?thesis
  proof cases
    case 2
    then show ?thesis using assms(2) wgDone_at [of "wbWg b" st st'] by (simp add: Confirm_def foreignBuffer_def)
  next
    case 3
    then show ?thesis using assms(2) Fail_at [OF 3] by (simp add: foreignBuffer_def)
  qed simp
qed

lemma own_step:
  assumes "workerWrite c b w st = Some (w', st')" "ownBuffer b" "chanCap st 0 = 1" "plainOut w"
  shows "Suc (wgCount st' 0) = wgCount st 0 \<and> chanCap st' 0 = 1 \<and> (failedYet st \<longrightarrow> failedYet st') \<and> (failedYet st' \<or> filesHold w' b)"
proof -
  have "ConfirmRequired b" using assms(2) by (simp add: ownBuffer_def ConfirmRequired_def)
  with workerWrite_cases [OF assms(1,4)] obtain out' x where out: "wkOut w' = Some out'"
    and c: "Confirm b st = Some st' \<and> skData (dsOut out') = x @ wbBody b \<or> (\<exists>e. Fail e b st = Some st')" by (metis append.assoc)
  from c show ?thesis
  proof
    assume c: "Confirm b st = Some st' \<and> skData (dsOut out') = x @ wbBody b"
    then have "sublist (wbBody b) (skData (dsOut out'))" by simp
    with out have "filesHold w' b" by (auto simp: filesHold_def fileContents_def)
    with c assms(2,3) wgDone_at [of "wbWg b" st st'] show ?thesis by (simp add: Confirm_def ownBuffer_def failedYet_def)
  next
    assume "\<exists>e. Fail e b st = Some st'"
    then obtain e where "Fail e b st = Some st'" ..
    from Fail_at [OF this] assms(2,3) show ?thesis by (auto simp: ownBuffer_def failedYet_def split: if_splits)
  qed
qed

lemma run_own:
  assumes "rangeLoop (workerStep c) evs (w, st) = Some (w', st')" "\<forall>b \<in> set (received evs). ownBuffer b \<or> foreignBuffer b" "chanCap st 0 = 1"
    and algo: "wcAlgo c = CompAlgoNone" and "plainOut w"
  shows "wgCount st' 0 + length (filter ownBuffer (received evs)) = wgCount st 0 \<and> (failedYet st \<longrightarrow> failedYet st')
     \<and> (failedYet st' \<or> (\<forall>b. filesHold w b \<or> b \<in> set (filter ownBuffer (received evs)) \<longrightarrow> filesHold w' b))"
  using assms(1-3,5)
proof (induction evs arbitrary: w st)
  case (Cons ev evs)
  obtain w1 st1 where 1: "workerStep c ev (w, st) = Some (w1, st1)" "rangeLoop (workerStep c) evs (w1, st1) = Some (w', st')"
    using Cons.prems(1) by (auto split: option.splits)
  have rest: "\<forall>b \<in> set (received evs). ownBuffer b \<or> foreignBuffer b" using Cons.prems(2) by (cases ev) auto
  note step = workerStep_keeps [OF 1(1) algo Cons.prems(4)]
  have plain1: "plainOut w1" and keeps: "filesHold w b \<Longrightarrow> filesHold w1 b" for b using step by blast+
  show ?case
  proof (cases "\<exists>b. ev = Recv b")
    case True
    then obtain b where ev: "ev = Recv b" by blast
    with 1(1) have wr: "workerWrite c b w st = Some (w1, st1)" by simp
    show ?thesis
    proof (cases "ownBuffer b")
      case True
      from own_step [OF wr True Cons.prems(3,4)] Cons.IH [OF 1(2) rest _ plain1] keeps ev True show ?thesis by auto
    next
      case False
      then have "foreignBuffer b" using Cons.prems(2) ev by auto
      from foreign_step [OF wr this Cons.prems(4)] Cons.IH [OF 1(2) rest _ plain1] keeps ev False Cons.prems(3) show ?thesis by (auto simp: failedYet_def)
    qed
  next
    case False
    with 1(1) have "st1 = st" "received (ev # evs) = received evs" by (cases ev; auto)+
    with Cons.IH [OF 1(2) rest _ plain1] keeps Cons.prems(3) show ?thesis by auto
  qed
qed simp

text \<open>
  C6. StoreSync keeps its promise when the writer does not compress: in any run of the writer,
  with buffers of other requests, ticks, rotations and failing writes in between, once the call
  returns without an error every buffer of the request is in a file as a whole, and together
  they are the encodings of its accepted points.
\<close>

theorem store_sync_durable:
  assumes "grpcValidate env (baseTags b) ms = Some (Inr vs)" "\<forall>x \<in> set (grpcItems vs). grpcValid now b x" "chanOk b"
    and "doStore env (\<lambda>_. SelSend) now (Some ms) True sy b = Some (Waiting, sy1, b')" "writeChan b' = writeChan b @ bufs"
    and "wcAlgo c = CompAlgoNone" "plainOut w" "rangeLoop (workerStep c) evs (w, sy1) = Some (w', sy2)"
    and "\<forall>x \<in> set (received evs). ownBuffer x \<or> foreignBuffer x" "filter ownBuffer (received evs) = take k bufs"
    and "waitResult sy2 = Some None"
  shows "list_all (filesHold w') bufs \<and> concat (map wbBody bufs) = encPoints env (concat (map (grpcOut now b) (grpcItems vs)))"
proof -
  from doStore_sync [OF assms(1-3), of sy] assms(4,5) have
    r: "concat (map wbBody bufs) = encPoints env (concat (map (grpcOut now b) (grpcItems vs)))"
    "length bufs \<le> wgCount sy1 0" "chanBuf sy1 0 = []" "chanCap sy1 0 = 1" by auto
  from assms(11) have fin: "wgCount sy2 0 = 0" "\<not> failedYet sy2"
    by (auto simp: waitResult_def failedYet_def split: if_splits list.splits)
  note run = run_own [OF assms(8,9) r(4) assms(6,7)]
  from run fin r(2) have "length bufs \<le> length (take k bufs)" by (simp add: assms(10))
  then have "take k bufs = bufs" by simp
  with run fin(2) show ?thesis using r(1) by (auto simp: assms(10) list_all_iff)
qed

text \<open>With working files the call does return, and without an error, if at least one point was accepted.\<close>

lemma fold_confirmOne_chan: "chanBuf (fold confirmOne bs st) = chanBuf st"
proof (induction bs arbitrary: st)
  case (Cons b bs)
  have "chanBuf (confirmOne b st) = chanBuf st" by (simp add: confirmOne_def split: option.split)
  with Cons show ?case by simp
qed simp

lemma fold_confirmOne_own:
  "\<forall>b \<in> set bs. ownBuffer b \<Longrightarrow> wgCount (fold confirmOne bs st) 0 = wgCount st 0 - length bs"
  by (induction bs arbitrary: st) (simp_all add: confirmOne_def ownBuffer_def)

lemma received_Recv [simp]: "received (map Recv bs) = bs"
  by (induction bs) simp_all

lemma store_sync_returns:
  assumes "grpcValidate env (baseTags b) ms = Some (Inr vs)" "\<forall>x \<in> set (grpcItems vs). grpcValid now b x" "chanOk b"
    and "concat (map (grpcOut now b) (grpcItems vs)) \<noteq> []" "wkInv c w groups cur"
    and "\<forall>ev \<in> set evs. goodEvent ev" "filter ownBuffer (received evs) = received evs"
  shows "\<exists>sy1 b' bufs. doStore env (\<lambda>_. SelSend) now (Some ms) True sy b = Some (Waiting, sy1, b') \<and> writeChan b' = writeChan b @ bufs
     \<and> (received evs = bufs \<longrightarrow> (\<exists>w' sy2. rangeLoop (workerStep c) evs (w, sy1) = Some (w', sy2) \<and> waitResult sy2 = Some None))"
proof -
  from doStore_sync [OF assms(1-3), of sy] obtain sy1 b' bufs where
    r: "doStore env (\<lambda>_. SelSend) now (Some ms) True sy b = Some (Waiting, sy1, b')" "writeChan b' = writeChan b @ bufs"
    "wgCount sy1 0 = length bufs + (if concat (map (grpcOut now b) (grpcItems vs)) = [] then 1 else 0)"
    "chanBuf sy1 0 = []" "chanCap sy1 0 = 1" by blast
  note cnt = r(3) [unfolded if_not_P [OF assms(4)] add_0_right]
  have "\<exists>w' sy2. rangeLoop (workerStep c) evs (w, sy1) = Some (w', sy2) \<and> waitResult sy2 = Some None" if "received evs = bufs"
  proof -
    have own: "\<forall>x \<in> set bufs. ownBuffer x" using assms(7) that by (metis filter_id_conv)
    have "confirmsOk bufs sy1"
      unfolding confirmsOk_def
    proof
      fix g
      show "length (filter (\<lambda>b. wbWg b = Some g) bufs) \<le> wgCount sy1 g"
      proof (cases g)
        case (Suc g')
        have "filter (\<lambda>b. wbWg b = Some g) bufs = []" using own Suc by (auto simp: filter_empty_conv ownBuffer_def)
        then show ?thesis by simp
      qed (simp add: cnt)
    qed
    with events_run [OF assms(5,6), of sy1] that obtain w' where
      w': "rangeLoop (workerStep c) evs (w, sy1) = Some (w', fold confirmOne bufs sy1)" by auto
    have "wgCount (fold confirmOne bufs sy1) 0 = 0" using fold_confirmOne_own [OF own, of sy1] cnt by simp
    with w' r(4) show ?thesis by (auto simp: waitResult_def fold_confirmOne_chan)
  qed
  with r(1,2) show ?thesis by blast
qed

definition exampleWorker :: worker where
  "exampleWorker = newWorker\<lparr>wkOut := Some \<lparr>dsCwr = None, dsOut = emptySink\<rparr>, wkBuf := Some \<lparr>bwBuf = [], bwErr = False\<rparr>,
     wkFn := chunkName CompAlgoNone 5\<rparr>"

theorem store_sync_durable_witness:
  "\<exists>sy1 sy2 b' bufs w'. doStore exampleEnv (\<lambda>_. SelSend) 9 (Some [Some (str ''a.b'', Some [(5, 6), (7, 8)])]) True exampleStore zeroBase = Some (Waiting, sy1, b')
     \<and> rangeLoop (workerStep (exampleWkConf 0 CompAlgoNone)) (map Recv bufs) (exampleWorker, sy1) = Some (w', sy2)
     \<and> waitResult sy2 = Some None \<and> list_all (filesHold w') bufs
     \<and> concat (map wbBody bufs) = encPoints exampleEnv (concat (map (grpcOut 9 zeroBase) (grpcItems [(str ''a.b'', [(5, 6), (7, 8)])])))"
proof -
  let ?ms = "[Some (str ''a.b'', Some [(5, 6), (7, 8)])]" let ?vs = "[(str ''a.b'', [(5, 6), (7, 8)])]"
  let ?c = "exampleWkConf 0 CompAlgoNone"
  have v: "grpcValidate exampleEnv (baseTags zeroBase) ?ms = Some (Inr ?vs)" "\<forall>x \<in> set (grpcItems ?vs). grpcValid 9 zeroBase x" "chanOk zeroBase"
    by (simp_all add: grpcItems_def grpcValid_def zeroBase_def chanOk_def Graphite_def DisabledTagConfig_def WriteBufferSize_def)
  have pts: "concat (map (grpcOut 9 zeroBase) (grpcItems ?vs)) \<noteq> []"
    by (simp add: grpcItems_def grpcOut_def dropsPoint_def isDrop_def nameTooLong_def zeroBase_def)
  have inv: "wkInv ?c exampleWorker [] []" and plain: "plainOut exampleWorker"
    by (auto simp: exampleWorker_def newWorker_def wkInv_def healthy_def bodies_def destOk_def accepted_def emptySink_def chunkNamed_def plainOut_def)
  from doStore_sync [OF v, of exampleStore] obtain sy1 b' bufs where
    r: "doStore exampleEnv (\<lambda>_. SelSend) 9 (Some ?ms) True exampleStore zeroBase = Some (Waiting, sy1, b')" "writeChan b' = writeChan zeroBase @ bufs"
    "\<forall>x \<in> set bufs. ownBuffer x" by (auto simp: ownBuffer_def)
  then have own: "filter ownBuffer (received (map Recv bufs)) = received (map Recv bufs)" by simp
  from store_sync_returns [OF v pts inv _ own, of exampleStore] r obtain w' sy2 where
    "rangeLoop (workerStep ?c) (map Recv bufs) (exampleWorker, sy1) = Some (w', sy2)" "waitResult sy2 = Some None" by auto
  with store_sync_durable [OF v r(1,2), of ?c exampleWorker "map Recv bufs" w' sy2 "length bufs"] r own plain show ?thesis by auto
qed

end
