(* ===== verification/RB_Reverse.thy ===== *)
theory RB_Reverse
  imports RB_Buffer
begin

text \<open>
  The path reversals of \<^verbatim>\<open>helper/RowBinary/reader.go\<close>: \<open>reverse\<close>, \<open>reverseMetricInplace\<close>,
  \<open>ReverseBytes\<close> and \<open>ReverseBytesTo\<close>, as the loops the code runs over its slices. All of them
  are proved equal to \<open>reversePath\<close>, the dot-separated components in reverse order.
\<close>

subsection \<open>Definitions\<close>

text \<open>\<open>reverse\<close>: swap from both ends. The indices are Go ints (\<open>j\<close> starts at -1 for an empty slice).\<close>

function reverse_loop :: "int \<Rightarrow> int \<Rightarrow> bytes \<Rightarrow> bytes" where
  "reverse_loop i j m =
     (if i < j then reverse_loop (i + 1) (j - 1) (m[nat i := m ! nat j, nat j := m ! nat i]) else m)"
  by pat_completeness auto
termination by (relation "measure (\<lambda>(i, j, m). nat (j - i))") auto

declare reverse_loop.simps [simp del]

definition reverse :: "bytes \<Rightarrow> bytes" where
  "reverse m = reverse_loop 0 (int (length m) - 1) m"

text \<open>The in-place reversal of the sub-slice \<open>m[a:b]\<close>.\<close>

definition reverseSlice :: "nat \<Rightarrow> nat \<Rightarrow> bytes \<Rightarrow> bytes" where
  "reverseSlice a b m = take a m @ reverse (take (b - a) (drop a m)) @ drop b m"

function reverseMetric_loop :: "nat \<Rightarrow> nat \<Rightarrow> bytes \<Rightarrow> nat \<Rightarrow> bytes" where
  "reverseMetric_loop a b m l =
     (if b < l then
        (if m ! b = cDot then reverseMetric_loop (Suc b) (Suc b) (reverseSlice a b m) l
         else reverseMetric_loop a (Suc b) m l)
      else reverseSlice a b m)"
  by pat_completeness auto
termination by (relation "measure (\<lambda>(a, b, m, l). l - b)") auto

declare reverseMetric_loop.simps [simp del]

definition reverseMetricInplace :: "bytes \<Rightarrow> bytes" where
  "reverseMetricInplace m0 = (let m = reverse m0 in reverseMetric_loop 0 0 m (length m))"

definition ReverseBytes :: "bytes \<Rightarrow> bytes" where
  "ReverseBytes target = reverseMetricInplace target"

text \<open>\<open>copy(dst[k:], src)\<close>: slicing beyond \<open>dst\<close> panics, the copy is cut at the end of \<open>dst\<close>.\<close>

definition copyAt :: "int \<Rightarrow> bytes \<Rightarrow> bytes \<Rightarrow> bytes option" where
  "copyAt k src dst =
     (if k < 0 \<or> int (length dst) < k then None
      else Some (take (nat k) dst @ take (length dst - nat k) src @ drop (nat k + length src) dst))"

definition setAt :: "int \<Rightarrow> byte \<Rightarrow> bytes \<Rightarrow> bytes option" where
  "setAt k c dst = (if k < 0 \<or> int (length dst) \<le> k then None else Some (dst[nat k := c]))"

function ReverseBytesTo_loop ::
    "nat \<Rightarrow> nat \<Rightarrow> int \<Rightarrow> bytes \<Rightarrow> bytes \<Rightarrow> (nat \<times> nat \<times> int \<times> bytes) option" where
  "ReverseBytesTo_loop a b p dst src =
     (if b < length src then
        (if src ! b = cDot then do {
           dst \<leftarrow> copyAt (p + 1) (take (b - a) (drop a src)) dst;
           dst \<leftarrow> setAt p cDot dst;
           ReverseBytesTo_loop (Suc b) (Suc b) (p - 1) dst src }
         else ReverseBytesTo_loop a (Suc b) (p - 1) dst src)
      else Some (a, b, p, dst))"
  by pat_completeness auto
termination by (relation "measure (\<lambda>(a, b, p, dst, src). length src - b)") auto

declare ReverseBytesTo_loop.simps [simp del]

definition ReverseBytesTo :: "bytes \<Rightarrow> bytes \<Rightarrow> bytes option" where
  "ReverseBytesTo dst src = do {
     (a, b, p, dst) \<leftarrow> ReverseBytesTo_loop 0 0 (int (length src) - 1) dst src;
     if a = 0 then copyAt 0 src dst
     else if a < b + 1 then copyAt (p + 1) (take (b - a) (drop a src)) dst
     else Some dst }"

subsection \<open>In-place reversal\<close>

lemma reverse_loop_middle:
  "reverse_loop (int (length pre)) (int (length pre + length mid) - 1) (pre @ mid @ post)
     = pre @ rev mid @ post"
proof (induction mid arbitrary: pre post rule: length_induct)
  case (1 mid)
  show ?case
  proof (cases "length mid \<le> 1")
    case True
    then have "rev mid = mid" by (cases mid) auto
    with True show ?thesis by (subst reverse_loop.simps) auto
  next
    case False
    then obtain x zs where "mid = x # zs" "zs \<noteq> []" by (cases mid) auto
    then obtain y ys where mid: "mid = x # ys @ [y]" by (metis rev_exhaust)
    let ?m = "pre @ mid @ post"
    have x: "?m ! length pre = x" and y: "?m ! (length pre + length ys + 1) = y"
      by (simp_all add: mid nth_append)
    have upd: "?m[length pre := y, length pre + length ys + 1 := x] = (pre @ [y]) @ ys @ (x # post)"
      by (simp add: mid list_update_append)
    have idx: "nat (int (length pre + length mid) - 1) = length pre + length ys + 1"
      by (simp add: mid)
    have "reverse_loop (int (length (pre @ [y]))) (int (length (pre @ [y]) + length ys) - 1)
            ((pre @ [y]) @ ys @ (x # post)) = (pre @ [y]) @ rev ys @ (x # post)"
      using "1.IH" [rule_format, of ys "pre @ [y]" "x # post"] mid by (simp only: length_Cons length_append)
    moreover have "reverse_loop (int (length pre)) (int (length pre + length mid) - 1) ?m
        = reverse_loop (int (length pre) + 1) (int (length pre + length mid) - 1 - 1)
            (?m[length pre := y, length pre + length ys + 1 := x])"
      using x y idx by (subst reverse_loop.simps) (simp add: mid)
    ultimately show ?thesis
      unfolding upd by (simp add: mid algebra_simps)
  qed
qed

lemma reverse_eq_rev [simp]: "reverse m = rev m"
  using reverse_loop_middle [of "[]" m "[]"] by (simp add: reverse_def)

lemma reverseSlice_middle:
  "length pre = a \<Longrightarrow> length pre + length seg = b \<Longrightarrow>
     reverseSlice a b (pre @ seg @ post) = pre @ rev seg @ post"
  by (auto simp: reverseSlice_def)

lemma reverseMetric_loop_segments:
  assumes "length pre = a" and "length pre + length seg = b" and "cDot \<notin> set seg"
    and "l = b + length rest"
  shows "reverseMetric_loop a b (pre @ seg @ rest) l
    = pre @ joinWith [cDot] (map rev (splitOn cDot (seg @ rest)))"
  using assms
proof (induction rest arbitrary: pre seg a b)
  case Nil
  then have "reverseMetric_loop a b (pre @ seg @ []) l = reverseSlice a b (pre @ seg @ [])"
    by (subst reverseMetric_loop.simps) simp
  also have "\<dots> = pre @ rev seg"
    using Nil reverseSlice_middle [of pre a seg b "[]"] by simp
  finally show ?case using Nil by (simp add: splitOn_no_sep)
next
  case (Cons c rest)
  have nth: "(pre @ seg @ c # rest) ! b = c" and bl: "b < l"
    using Cons.prems by (auto simp: nth_append)
  show ?case
  proof (cases "c = cDot")
    case True
    have "reverseMetric_loop a b (pre @ seg @ c # rest) l
        = reverseMetric_loop (Suc b) (Suc b) ((pre @ rev seg @ [cDot]) @ [] @ rest) l"
      using nth bl True Cons.prems reverseSlice_middle [of pre a seg b "c # rest"]
      by (subst reverseMetric_loop.simps) simp
    also have "\<dots> = (pre @ rev seg @ [cDot]) @ joinWith [cDot] (map rev (splitOn cDot ([] @ rest)))"
      by (rule Cons.IH) (use Cons.prems in auto)
    finally show ?thesis
      using True Cons.prems by (simp add: splitOn_append_sep splitOn_no_sep joinWith_Cons)
  next
    case False
    have "reverseMetric_loop a b (pre @ seg @ c # rest) l
        = reverseMetric_loop a (Suc b) (pre @ (seg @ [c]) @ rest) l"
      using nth bl False by (subst reverseMetric_loop.simps) simp
    also have "\<dots> = pre @ joinWith [cDot] (map rev (splitOn cDot ((seg @ [c]) @ rest)))"
      by (rule Cons.IH) (use Cons.prems False in auto)
    finally show ?thesis by simp
  qed
qed

lemma splitOn_rev: "splitOn c (rev s) = rev (map rev (splitOn c s))"
proof (induction s)
  case (Cons x xs)
  show ?case
  proof (cases "x = c")
    case True
    then show ?thesis using Cons by (simp add: splitOn_append_sep)
  next
    case False
    have snoc: "splitOn c (ys @ [x]) = butlast (splitOn c ys) @ [last (splitOn c ys) @ [x]]" for ys
      using False
    proof (induction ys)
      case (Cons z zs)
      then show ?case by (cases "splitOn c zs") (auto split: list.splits)
    qed simp
    obtain y ys where "splitOn c xs = y # ys" by (cases "splitOn c xs") auto
    with Cons False show ?thesis by (simp add: snoc)
  qed
qed simp

lemma reverseMetricInplace_eq [simp]: "reverseMetricInplace m = reversePath m"
proof -
  have "reverseMetricInplace m = joinWith [cDot] (map rev (splitOn cDot (rev m)))"
    unfolding reverseMetricInplace_def Let_def
    using reverseMetric_loop_segments [of "[]" 0 "[]" 0 "length m" "rev m"] by simp
  then show ?thesis
    by (simp add: splitOn_rev reversePath_def rev_map [symmetric] comp_def)
qed

subsection \<open>Reversal into another slice\<close>

lemma copyAt_middle:
  "k = int (length X) \<Longrightarrow> length s = length Y \<Longrightarrow> copyAt k s (X @ Y @ Z) = Some (X @ s @ Z)"
  by (simp add: copyAt_def)

lemma setAt_middle: "k = int (length X) \<Longrightarrow> setAt k c (X @ y # Z) = Some (X @ c # Z)"
  by (simp add: setAt_def)

text \<open>After the component that ends before \<open>a\<close>, the tail of \<open>dst\<close> holds the reversed prefix.\<close>

definition doneSuffix :: "nat \<Rightarrow> bytes \<Rightarrow> bytes" where
  "doneSuffix a src = (if a = 0 then [] else cDot # reversePath (take (a - 1) src))"

lemma length_doneSuffix: "a \<le> length src \<Longrightarrow> length (doneSuffix a src) = a"
  by (auto simp: doneSuffix_def)

lemma reversePath_segment:
  assumes "a \<le> b" and "b \<le> length src" and "0 < a \<Longrightarrow> src ! (a - 1) = cDot"
    and "cDot \<notin> set (take (b - a) (drop a src))"
  shows "reversePath (take b src) = take (b - a) (drop a src) @ doneSuffix a src"
proof (cases a)
  case 0
  with assms show ?thesis by (simp add: doneSuffix_def reversePath_no_dot)
next
  case (Suc k)
  have "take b src = take k src @ cDot # take (b - a) (drop a src)"
  proof -
    have "take b src = take a src @ take (b - a) (drop a src)"
      using assms by (metis le_add_diff_inverse take_add)
    moreover have "take a src = take k src @ [cDot]"
      using assms Suc by (simp add: take_Suc_conv_app_nth)
    ultimately show ?thesis by simp
  qed
  with assms Suc show ?thesis by (simp add: reversePath_last doneSuffix_def)
qed

lemma ReverseBytesTo_loop_correct:
  assumes "a \<le> b" and "b \<le> length src" and "0 < a \<Longrightarrow> src ! (a - 1) = cDot"
    and "cDot \<notin> set (take (b - a) (drop a src))"
    and "length D + a = length src" and "p = int (length src) - 1 - int b"
  shows "\<exists>a' D'. ReverseBytesTo_loop a b p (D @ doneSuffix a src) src
            = Some (a', length src, -1, D' @ doneSuffix a' src)
          \<and> a' \<le> length src \<and> (0 < a' \<longrightarrow> src ! (a' - 1) = cDot)
          \<and> cDot \<notin> set (drop a' src) \<and> length D' + a' = length src"
  using assms
proof (induction "length src - b" arbitrary: a b p D)
  case 0
  then have "b = length src" by simp
  with 0 show ?case
    by (intro exI [of _ a] exI [of _ D]) (subst ReverseBytesTo_loop.simps, auto)
next
  case (Suc n)
  then have b: "b < length src" by simp
  show ?case
  proof (cases "src ! b = cDot")
    case True
    let ?seg = "take (b - a) (drop a src)"
    have len: "length ?seg = b - a" using b Suc.prems by simp
    define k where "k = length src - b - 1"
    have k: "length src - b = Suc k" "p = int k" "Suc k \<le> length D"
      using b Suc.prems by (auto simp: k_def)
    let ?D = "take k D"
    have dn: "cDot # ?seg @ doneSuffix a src = doneSuffix (Suc b) src"
      using reversePath_segment [of a b src] Suc.prems b by (simp add: doneSuffix_def)
    have D: "D = (?D @ [D ! k]) @ drop (Suc k) D"
      using k by (metis append_take_drop_id less_eq_Suc_le take_Suc_conv_app_nth)
    have c1: "copyAt (p + 1) ?seg (D @ doneSuffix a src) = Some ((?D @ [D ! k]) @ ?seg @ doneSuffix a src)"
      by (subst D, subst append_assoc, rule copyAt_middle) (use k len Suc.prems in auto)
    have c2: "setAt p cDot ((?D @ [D ! k]) @ ?seg @ doneSuffix a src) = Some (?D @ doneSuffix (Suc b) src)"
      using setAt_middle [of p ?D cDot "D ! k" "?seg @ doneSuffix a src"] k dn by simp
    have "\<exists>a' D'. ReverseBytesTo_loop (Suc b) (Suc b) (p - 1) (?D @ doneSuffix (Suc b) src) src
            = Some (a', length src, -1, D' @ doneSuffix a' src)
          \<and> a' \<le> length src \<and> (0 < a' \<longrightarrow> src ! (a' - 1) = cDot)
          \<and> cDot \<notin> set (drop a' src) \<and> length D' + a' = length src"
      by (rule Suc.hyps(1)) (use Suc.hyps(2) Suc.prems b True k in auto)
    then show ?thesis
      using b True c1 c2 by (subst ReverseBytesTo_loop.simps) simp
  next
    case False
    have seg: "take (Suc b - a) (drop a src) = take (b - a) (drop a src) @ [src ! b]"
      using Suc.prems b by (simp add: Suc_diff_le take_Suc_conv_app_nth)
    have "\<exists>a' D'. ReverseBytesTo_loop a (Suc b) (p - 1) (D @ doneSuffix a src) src
            = Some (a', length src, -1, D' @ doneSuffix a' src)
          \<and> a' \<le> length src \<and> (0 < a' \<longrightarrow> src ! (a' - 1) = cDot)
          \<and> cDot \<notin> set (drop a' src) \<and> length D' + a' = length src"
      by (rule Suc.hyps(1)) (use Suc.hyps(2) Suc.prems b False seg in auto)
    then show ?thesis
      using b False by (subst ReverseBytesTo_loop.simps) simp
  qed
qed

lemma ReverseBytesTo_eq:
  assumes "length dst = length src"
  shows "ReverseBytesTo dst src = Some (reversePath src)"
proof -
  obtain a D where loop: "ReverseBytesTo_loop 0 0 (int (length src) - 1) dst src
      = Some (a, length src, -1, D @ doneSuffix a src)"
    and a: "a \<le> length src" "0 < a \<longrightarrow> src ! (a - 1) = cDot" "cDot \<notin> set (drop a src)"
    and D: "length D + a = length src"
    using ReverseBytesTo_loop_correct [of 0 0 src dst] assms by (auto simp: doneSuffix_def)
  have "reversePath (take (length src) src) = take (length src - a) (drop a src) @ doneSuffix a src"
    by (rule reversePath_segment) (use a in \<open>auto dest: in_set_takeD\<close>)
  then have rev: "reversePath src = drop a src @ doneSuffix a src" by simp
  show ?thesis
  proof (cases "a = 0")
    case True
    then show ?thesis using D rev
      by (simp add: ReverseBytesTo_def loop copyAt_def doneSuffix_def)
  next
    case False
    have "length D = length src - a" using D by simp
    with False a rev show ?thesis
      by (simp add: ReverseBytesTo_def loop copyAt_def length_doneSuffix)
  qed
qed

end
