(* ===== verification/Up_Filter.thy ===== *)
theory Up_Filter
  imports RB_Reverse "HOL-Library.AList"
begin

text \<open>
  \<^verbatim>\<open>uploader/filter.go\<close>: the blacklist of the points uploader. Patterns are grouped by their number of
  components; each group is a tree of maps, built once from left to right and once from right to left.
  A Go map is an association list that \<open>AList.update\<close> keeps free of duplicates.
\<close>

datatype patternTreeNode = Node (childNodes: "(bytes \<times> patternTreeNode) list")

type_synonym patternPath = "bytes list"
type_synonym patternTreeGroup = "(nat \<times> patternTreeNode) list"

record Blacklist =
  blPatterns :: "bytes list"
  searchL2R :: patternTreeGroup
  searchR2L :: patternTreeGroup

text \<open>The walk of the node iterator down one path, making the nodes that are missing.\<close>

fun insertPath :: "patternPath \<Rightarrow> patternTreeNode \<Rightarrow> patternTreeNode" where
  "insertPath [] root = root"
| "insertPath (part # path) root =
     (let child = (case map_of (childNodes root) part of None \<Rightarrow> Node [] | Some c \<Rightarrow> c)
      in Node (AList.update part (insertPath path child) (childNodes root)))"

definition buildTrees :: "patternPath list \<Rightarrow> nat \<Rightarrow> patternTreeNode \<times> patternTreeNode" where
  "buildTrees pathList pathLength =
     foldl (\<lambda>(rootL2R, rootR2L) path.
       (insertPath path rootL2R,
        insertPath (map (\<lambda>i. path ! (pathLength - 1 - i)) [0..<length path]) rootR2L))
       (Node [], Node []) pathList"

definition groupPatterns :: "bytes list \<Rightarrow> (nat \<times> patternPath list) list" where
  "groupPatterns ignoredPatterns =
     foldl (\<lambda>grouped pattern.
       (let path = splitOn cDot pattern; pathLength = length path;
            old = (case map_of grouped pathLength of None \<Rightarrow> [] | Some l \<Rightarrow> l)
        in AList.update pathLength (old @ [path]) grouped)) [] ignoredPatterns"

definition NewBlacklist :: "bytes list \<Rightarrow> Blacklist" where
  "NewBlacklist ignoredPatterns =
     (let grouped = groupPatterns ignoredPatterns in
      \<lparr>blPatterns = ignoredPatterns,
       searchL2R = map (\<lambda>(pathLength, pathList). (pathLength, fst (buildTrees pathList pathLength))) grouped,
       searchR2L = map (\<lambda>(pathLength, pathList). (pathLength, snd (buildTrees pathList pathLength))) grouped\<rparr>)"

text \<open>\<open>containsInner\<close> on the components from \<open>start\<close> on.\<close>

fun containsInner :: "patternTreeNode \<Rightarrow> bytes list \<Rightarrow> bool" where
  "containsInner searchTree [] = True"
| "containsInner searchTree (part # pattern) =
     list_ex (\<lambda>patternPart. case map_of (childNodes searchTree) patternPart of
         None \<Rightarrow> False | Some treeNode \<Rightarrow> containsInner treeNode pattern) [part, str ''*'']"

definition Contains :: "Blacklist \<Rightarrow> bytes \<Rightarrow> bool \<Rightarrow> bool" where
  "Contains blacklist value isReverse =
     (let pattern = splitOn cDot value;
          treeGroup = (if isReverse then searchR2L blacklist else searchL2R blacklist)
      in case map_of treeGroup (length pattern) of
           None \<Rightarrow> False
         | Some searchTree \<Rightarrow> containsInner searchTree pattern)"

subsection \<open>What the trees hold\<close>

text \<open>The paths of the given length from the root.\<close>

fun hasPath :: "patternTreeNode \<Rightarrow> patternPath \<Rightarrow> bool" where
  "hasPath root [] = True"
| "hasPath root (part # path) =
     (case map_of (childNodes root) part of None \<Rightarrow> False | Some c \<Rightarrow> hasPath c path)"

text \<open>A pattern matches component by component; a star stands for any one component.\<close>

definition partMatches :: "bytes \<Rightarrow> bytes \<Rightarrow> bool" where
  "partMatches pat part \<longleftrightarrow> pat = part \<or> pat = str ''*''"

abbreviation pathMatches :: "patternPath \<Rightarrow> bytes list \<Rightarrow> bool" where
  "pathMatches \<equiv> list_all2 partMatches"

lemma containsInner_iff: "containsInner t ps \<longleftrightarrow> (\<exists>path. hasPath t path \<and> pathMatches path ps)"
proof (induction t ps rule: containsInner.induct)
  case (1 t)
  then show ?case by (auto intro: exI [of _ "[]"])
next
  case (2 t part ps)
  have step: "(\<exists>path. hasPath t path \<and> pathMatches path (part # ps))
     \<longleftrightarrow> (\<exists>q \<in> {part, str ''*''}. \<exists>c. map_of (childNodes t) q = Some c \<and> (\<exists>path. hasPath c path \<and> pathMatches path ps))"
    (is "?L \<longleftrightarrow> ?R")
  proof
    assume ?L
    then obtain q path where "hasPath t (q # path)" "partMatches q part" "pathMatches path ps"
      by (auto simp: list_all2_Cons2)
    then show ?R by (auto simp: partMatches_def split: option.splits)
  next
    assume ?R
    then obtain q c path where "q \<in> {part, str ''*''}" "map_of (childNodes t) q = Some c" "hasPath c path" "pathMatches path ps"
      by blast
    then show ?L by (intro exI [of _ "q # path"]) (auto simp: partMatches_def)
  qed
  show ?case
    unfolding step using 2 by (auto split: option.splits)
qed

lemma hasPath_empty [simp]: "hasPath (Node []) path \<longleftrightarrow> path = []"
  by (cases path) simp_all

lemma hasPath_insert:
  "length q = length path \<Longrightarrow> hasPath (insertPath path t) q \<longleftrightarrow> q = path \<or> hasPath t q"
proof (induction path arbitrary: t q)
  case (Cons part path)
  then obtain p q' where q: "q = p # q'" "length q' = length path" by (cases q) auto
  define child where "child = (case map_of (childNodes t) part of None \<Rightarrow> Node [] | Some c \<Rightarrow> c)"
  have upd: "map_of (childNodes (insertPath (part # path) t)) = (map_of (childNodes t))(part \<mapsto> insertPath path child)"
    by (simp add: child_def Let_def update_conv')
  show ?case
  proof (cases "p = part")
    case True
    have "hasPath child q' \<longleftrightarrow> hasPath t q \<or> q' = []"
      using True q by (auto simp: child_def split: option.splits)
    with True q Cons.IH [of q' child] show ?thesis
      by (auto simp del: insertPath.simps simp: upd)
  next
    case False
    with q show ?thesis by (simp del: insertPath.simps add: upd)
  qed
qed simp

lemma hasPath_fold:
  assumes "\<forall>p \<in> set paths. length p = n" "length q = n"
  shows "hasPath (foldl (\<lambda>t p. insertPath p t) t paths) q \<longleftrightarrow> q \<in> set paths \<or> hasPath t q"
  using assms(1) by (induction paths arbitrary: t) (auto simp: hasPath_insert assms(2))

lemma rev_by_index: "map (\<lambda>i. xs ! (length xs - 1 - i)) [0..<length xs] = rev xs"
  by (rule nth_equalityI) (simp_all add: rev_nth)

lemma buildTrees_foldl:
  assumes "\<forall>p \<in> set paths. length p = n"
  shows "buildTrees paths n = (foldl (\<lambda>t p. insertPath p t) (Node []) paths, foldl (\<lambda>t p. insertPath p t) (Node []) (map rev paths))"
proof -
  have "foldl (\<lambda>(l, r) p. (insertPath p l, insertPath (map (\<lambda>i. p ! (n - 1 - i)) [0..<length p]) r)) (l, r) paths
     = (foldl (\<lambda>t p. insertPath p t) l paths, foldl (\<lambda>t p. insertPath p t) r (map rev paths))" for l r
    using assms by (induction paths arbitrary: l r) (auto simp: rev_by_index [simplified])
  then show ?thesis by (simp add: buildTrees_def)
qed

lemma hasPath_buildTrees:
  assumes "\<forall>p \<in> set paths. length p = n" "length q = n" "n > 0"
  shows "hasPath (fst (buildTrees paths n)) q \<longleftrightarrow> q \<in> set paths"
    and "hasPath (snd (buildTrees paths n)) q \<longleftrightarrow> rev q \<in> set paths"
proof -
  have "q \<noteq> []" using assms by auto
  then show "hasPath (fst (buildTrees paths n)) q \<longleftrightarrow> q \<in> set paths"
    using hasPath_fold [OF assms(1,2), of "Node []"] by (simp add: buildTrees_foldl [OF assms(1)])
  have "q \<in> rev ` set paths \<longleftrightarrow> rev q \<in> set paths" by (metis image_iff rev_rev_ident)
  then show "hasPath (snd (buildTrees paths n)) q \<longleftrightarrow> rev q \<in> set paths"
    using \<open>q \<noteq> []\<close> hasPath_fold [of "map rev paths" n q "Node []"] assms(1,2) by (simp add: buildTrees_foldl [OF assms(1)])
qed

lemma groupPatterns_lookup:
  "map_of (groupPatterns pats) n =
     (let l = filter (\<lambda>p. length p = n) (map (splitOn cDot) pats) in if l = [] then None else Some l)"
proof -
  let ?f = "\<lambda>grouped pattern.
       (let path = splitOn cDot pattern; pathLength = length path;
            old = (case map_of grouped pathLength of None \<Rightarrow> [] | Some l \<Rightarrow> l)
        in AList.update pathLength (old @ [path]) grouped)"
  have "map_of (foldl ?f g pats) n = (let old = (case map_of g n of None \<Rightarrow> [] | Some l \<Rightarrow> l);
      l = filter (\<lambda>p. length p = n) (map (splitOn cDot) pats) in if l = [] then map_of g n else Some (old @ l))" for g
    by (induction pats arbitrary: g) (auto simp: Let_def update_conv' split: option.splits)
  from this [of "[]"] show ?thesis by (simp add: groupPatterns_def Let_def)
qed

lemma map_of_keyed: "map_of (map (\<lambda>(k, v). (k, g k v)) l) n = map_option (g n) (map_of l n)"
  by (induction l) auto

lemma Contains_iff:
  "Contains (NewBlacklist pats) value isReverse \<longleftrightarrow>
     (\<exists>pat \<in> set pats. pathMatches (if isReverse then rev (splitOn cDot pat) else splitOn cDot pat) (splitOn cDot value))"
proof -
  define ps where "ps = splitOn cDot value"
  define n where "n = length ps"
  define l where "l = filter (\<lambda>p. length p = n) (map (splitOn cDot) pats)"
  have n: "n > 0" by (simp add: n_def ps_def)
  have len: "\<forall>p \<in> set l. length p = n" by (simp add: l_def)
  have look: "map_of (if isReverse then searchR2L (NewBlacklist pats) else searchL2R (NewBlacklist pats)) n
     = (if l = [] then None else Some ((if isReverse then snd else fst) (buildTrees l n)))"
    using groupPatterns_lookup [of pats n]
    by (simp add: NewBlacklist_def Let_def l_def map_of_keyed [where g = "\<lambda>k pl. fst (buildTrees pl k)"]
        map_of_keyed [where g = "\<lambda>k pl. snd (buildTrees pl k)"])
  have "Contains (NewBlacklist pats) value isReverse \<longleftrightarrow> l \<noteq> [] \<and> containsInner ((if isReverse then snd else fst) (buildTrees l n)) ps"
    unfolding Contains_def Let_def ps_def [symmetric] n_def [symmetric] look by simp
  also have "\<dots> \<longleftrightarrow> (\<exists>path \<in> set l. pathMatches (if isReverse then rev path else path) ps)"
  proof -
    have *: "pathMatches path ps \<Longrightarrow> length path = n" for path by (simp add: n_def list_all2_lengthD)
    show ?thesis
    proof (cases isReverse)
      case True
      have "containsInner (snd (buildTrees l n)) ps \<longleftrightarrow> (\<exists>path. rev path \<in> set l \<and> pathMatches path ps)"
        unfolding containsInner_iff using hasPath_buildTrees(2) [OF len _ n] * by blast
      also have "\<dots> \<longleftrightarrow> (\<exists>path \<in> set l. pathMatches (rev path) ps)"
      proof
        assume "\<exists>path \<in> set l. pathMatches (rev path) ps"
        then obtain path where "path \<in> set l" "pathMatches (rev path) ps" by blast
        then show "\<exists>path. rev path \<in> set l \<and> pathMatches path ps" by (intro exI [of _ "rev path"]) simp
      qed (metis rev_rev_ident)
      finally show ?thesis using True by auto
    next
      case False
      have "containsInner (fst (buildTrees l n)) ps \<longleftrightarrow> (\<exists>path. path \<in> set l \<and> pathMatches path ps)"
        unfolding containsInner_iff using hasPath_buildTrees(1) [OF len _ n] * by blast
      with False show ?thesis by auto
    qed
  qed
  also have "\<dots> \<longleftrightarrow> (\<exists>pat \<in> set pats. pathMatches (if isReverse then rev (splitOn cDot pat) else splitOn cDot pat) ps)"
  proof -
    have "length p = n" if "pathMatches (if isReverse then rev p else p) ps" for p
      using list_all2_lengthD [OF that] by (simp add: n_def split: if_splits)
    then show ?thesis unfolding l_def set_filter set_map by blast
  qed
  finally show ?thesis by (simp add: ps_def)
qed

text \<open>
  C28. The pattern trees decide exactly whether some ignored pattern of the same length matches
  component by component, a star matching any one component.
\<close>

theorem blacklist_contains:
  "Contains (NewBlacklist pats) value False \<longleftrightarrow> (\<exists>pat \<in> set pats. pathMatches (splitOn cDot pat) (splitOn cDot value))"
  by (simp add: Contains_iff)

text \<open>
  Searching the reversed path in the right-to-left trees gives the same answer as searching
  the path in the left-to-right trees.
\<close>

theorem blacklist_reverse:
  "Contains (NewBlacklist pats) (reversePath value) True = Contains (NewBlacklist pats) value False"
proof -
  have "splitOn cDot (reversePath value) = rev (splitOn cDot value)"
    unfolding reversePath_def by (subst splitOn_joinWith) (auto dest: splitOn_parts)
  then show ?thesis by (simp add: Contains_iff)
qed

end
