(* ===== verification/Up_Cache.thy ===== *)
theory Up_Cache
  imports Binary "HOL-Library.AList"
begin

text \<open>
  \<^verbatim>\<open>uploader/cmap.go\<close>, \<^verbatim>\<open>uploader/hash.go\<close> and \<^verbatim>\<open>uploader/cached.go\<close>: the sharded map of the keys already
  uploaded, with the time each was added, and the upload that commits to it. The contract of such a
  cache is the locale \<open>exists_cache\<close>; the sharded map is its interpretation. Each operation holds the
  lock of the one shard it touches, so an operation on a shard is one step.
\<close>

subsection \<open>The sharded map\<close>

definition shardCount :: nat where "shardCount = 1024"

type_synonym CMapShard = "(bytes \<times> int) list"
type_synonym CMap = "CMapShard list"

definition NewCMap :: CMap where
  "NewCMap = replicate shardCount []"

definition fnv32 :: "bytes \<Rightarrow> uint32" where
  "fnv32 key = foldl (\<lambda>hash c. (hash * 16777619) XOR ucast c) 2166136261 key"

definition shardIndex :: "bytes \<Rightarrow> nat" where
  "shardIndex key = unat (fnv32 key) mod shardCount"

definition Count :: "CMap \<Rightarrow> nat" where
  "Count m = sum_list (map length m)"

text \<open>\<open>Clear\<close> also returns a count, which it never increments.\<close>

definition Clear :: "CMap \<Rightarrow> CMap \<times> nat" where
  "Clear m = (map (\<lambda>shard. []) m, 0)"

definition GetShard :: "CMap \<Rightarrow> bytes \<Rightarrow> CMapShard" where
  "GetShard m key = m ! shardIndex key"

definition Exists :: "CMap \<Rightarrow> bytes \<Rightarrow> bool" where
  "Exists m key = (map_of (GetShard m key) key \<noteq> None)"

definition Add :: "bytes \<Rightarrow> int \<Rightarrow> CMap \<Rightarrow> CMap" where
  "Add key value m = m[shardIndex key := AList.update key value (GetShard m key)]"

text \<open>The keys in the order the range loop meets them.\<close>

definition Merge :: "bytes list \<Rightarrow> int \<Rightarrow> CMap \<Rightarrow> CMap" where
  "Merge keys value m = fold (\<lambda>key. Add key value) keys m"

fun expireItems :: "int \<Rightarrow> CMapShard \<Rightarrow> nat \<Rightarrow> int \<Rightarrow> CMapShard \<times> nat \<times> int" where
  "expireItems deadline [] count mn = ([], count, mn)"
| "expireItems deadline ((k, v) # items) count mn =
     (if v < deadline then expireItems deadline items (count + 1) mn
      else (let (kept, count, mn) = expireItems deadline items count (if v < mn then v else mn)
            in ((k, v) # kept, count, mn)))"

text \<open>\<open>live\<close>: the number of shards before the context is found cancelled.\<close>

fun expireShards :: "int \<Rightarrow> nat \<Rightarrow> CMap \<Rightarrow> nat \<Rightarrow> int \<Rightarrow> CMap \<times> nat \<times> int" where
  "expireShards deadline live [] count mn = ([], count, mn)"
| "expireShards deadline 0 m count mn = (m, count, mn)"
| "expireShards deadline (Suc live) (shard # m) count mn =
     (let (shard, count, mn) = expireItems deadline shard count mn;
          (m, count, mn) = expireShards deadline live m count mn
      in (shard # m, count, mn))"

text \<open>\<open>now\<close> and \<open>now'\<close> are the two readings of the clock, in seconds.\<close>

definition Expire :: "nat \<Rightarrow> int \<Rightarrow> int \<Rightarrow> int \<Rightarrow> CMap \<Rightarrow> CMap \<times> nat \<times> int" where
  "Expire live ttl now now' m = expireShards (now - ttl) live m 0 now'"

text \<open>The ticks of \<open>ExpireWorker\<close> before the context is cancelled, and the atomic counter.\<close>

definition ExpireWorker :: "int \<Rightarrow> (int \<times> int) list \<Rightarrow> CMap \<times> uint32 \<Rightarrow> CMap \<times> uint32" where
  "ExpireWorker ttl ticks st =
     fold (\<lambda>(now, now') (m, expired). case Expire shardCount ttl now now' m of (m, cnt, _) \<Rightarrow> (m, expired + of_nat cnt)) ticks st"

subsection \<open>Hashes of keys\<close>

definition keepOriginal :: "bytes \<Rightarrow> bytes" where "keepOriginal s = s"

text \<open>\<open>cityhash.CityHash64\<close> is an argument.\<close>

definition cityHash64 :: "(bytes \<Rightarrow> uint64) \<Rightarrow> bytes \<Rightarrow> bytes" where
  "cityHash64 city s = bePutUint64 (city s)"

definition knownHash :: "(bytes \<Rightarrow> uint64) \<Rightarrow> bytes \<Rightarrow> (bytes \<Rightarrow> bytes) option" where
  "knownHash city name =
     (if name = [] then Some keepOriginal else if name = str ''city64'' then Some (cityHash64 city) else None)"

subsection \<open>The contract of a cache of keys\<close>

locale exists_cache =
  fixes fresh :: 'c
    and lookup :: "'c \<Rightarrow> bytes \<Rightarrow> int option"
    and known :: "'c \<Rightarrow> bytes \<Rightarrow> bool"
    and add :: "bytes \<Rightarrow> int \<Rightarrow> 'c \<Rightarrow> 'c"
    and expire :: "int \<Rightarrow> 'c \<Rightarrow> 'c"
    and size_of :: "'c \<Rightarrow> nat"
    and ok :: "'c \<Rightarrow> bool"
  assumes ok_fresh: "ok fresh"
    and ok_add: "ok c \<Longrightarrow> ok (add k t c)"
    and ok_expire: "ok c \<Longrightarrow> ok (expire d c)"
    and lookup_fresh: "lookup fresh k = None"
    and known_lookup: "ok c \<Longrightarrow> known c k \<longleftrightarrow> lookup c k \<noteq> None"
    and lookup_add: "ok c \<Longrightarrow> lookup (add k t c) = (lookup c)(k \<mapsto> t)"
    and lookup_expire: "ok c \<Longrightarrow> lookup (expire d c) k = (case lookup c k of Some t \<Rightarrow> if t < d then None else Some t | None \<Rightarrow> None)"
    and size_card: "ok c \<Longrightarrow> finite (dom (lookup c)) \<and> size_of c = card (dom (lookup c))"
begin

lemma ok_merge: "ok c \<Longrightarrow> ok (fold (\<lambda>k. add k t) ks c)"
  by (induction ks arbitrary: c) (auto intro: ok_add)

lemma lookup_merge:
  "ok c \<Longrightarrow> lookup (fold (\<lambda>k. add k t) ks c) k = (if k \<in> set ks then Some t else lookup c k)"
  by (induction ks arbitrary: c) (auto simp: lookup_add ok_add)

lemma known_merge: "ok c \<Longrightarrow> known (fold (\<lambda>k. add k t) ks c) k \<longleftrightarrow> k \<in> set ks \<or> known c k"
  by (simp add: known_lookup ok_merge lookup_merge)

text \<open>A committed key stays known until its time to live has passed, and is forgotten afterwards.\<close>

lemma known_after_expire:
  assumes "ok c" "k \<in> set ks"
  shows "known (expire d (fold (\<lambda>k. add k t) ks c)) k \<longleftrightarrow> d \<le> t"
  using assms by (auto simp: known_lookup ok_merge ok_expire lookup_expire lookup_merge)

lemma size_fresh: "size_of fresh = 0"
  using size_card [OF ok_fresh] by (simp add: lookup_fresh dom_def)

end

subsection \<open>The sharded map keeps the contract\<close>

definition cmapLookup :: "CMap \<Rightarrow> bytes \<Rightarrow> int option" where
  "cmapLookup m k = map_of (GetShard m k) k"

definition cmapOk :: "CMap \<Rightarrow> bool" where
  "cmapOk m \<longleftrightarrow> length m = shardCount
     \<and> (\<forall>i < shardCount. distinct (map fst (m ! i)) \<and> (\<forall>k \<in> fst ` set (m ! i). shardIndex k = i))"

lemma shardIndex_less [simp]: "shardIndex k < shardCount"
  by (simp add: shardIndex_def shardCount_def)

lemma cmapOk_New: "cmapOk NewCMap"
  by (simp add: cmapOk_def NewCMap_def)

lemma fst_set_update: "fst ` set (AList.update k v l) = insert k (fst ` set l)"
  using dom_update [of k v l] by (simp add: image_def)

lemma cmapOk_Add: "cmapOk m \<Longrightarrow> cmapOk (Add k t m)"
  unfolding cmapOk_def Add_def GetShard_def
  by (simp add: nth_list_update fst_set_update distinct_update del: image_eqI ball_simps) auto

lemma cmapLookup_Add: "cmapOk m \<Longrightarrow> cmapLookup (Add k t m) = (cmapLookup m)(k \<mapsto> t)"
  by (rule ext) (auto simp: cmapOk_def cmapLookup_def Add_def GetShard_def nth_list_update update_conv')

lemma expireItems_eq:
  "expireItems d items count mn = (filter (\<lambda>(k, v). \<not> v < d) items, count + length (filter (\<lambda>(k, v). v < d) items),
     foldl min mn (map snd (filter (\<lambda>(k, v). \<not> v < d) items)))"
  by (induction d items count mn rule: expireItems.induct) (auto simp: min_def)

lemma expireShards_fst: "fst (expireShards d live m count mn) = map (filter (\<lambda>(k, v). \<not> v < d)) (take live m) @ drop live m"
proof (induction d live m count mn rule: expireShards.induct)
  case (3 d live shard m count mn)
  show ?case
    using "3.IH" by (simp add: expireItems_eq split: prod.split) (metis fst_conv)
qed simp_all

definition expireBefore :: "int \<Rightarrow> CMap \<Rightarrow> CMap" where
  "expireBefore d m = fst (Expire shardCount 0 d d m)"

lemma Expire_fst:
  "length m = shardCount \<Longrightarrow> fst (Expire shardCount ttl now now' m) = map (filter (\<lambda>(k, v). \<not> v < now - ttl)) m"
  by (simp add: Expire_def expireShards_fst)

lemma expireBefore_eq: "length m = shardCount \<Longrightarrow> expireBefore d m = map (filter (\<lambda>(k, v). \<not> v < d)) m"
  by (simp add: expireBefore_def Expire_fst)

lemma distinct_filter_keys: "distinct (map fst l) \<Longrightarrow> distinct (map fst (filter P l))"
  by (induction l) auto

lemma cmapOk_expire: "cmapOk m \<Longrightarrow> cmapOk (expireBefore d m)"
  by (auto simp: cmapOk_def expireBefore_eq distinct_filter_keys)

lemma map_of_filter_values:
  "distinct (map fst l) \<Longrightarrow> map_of (filter (\<lambda>(k, v). P v) l) k = (case map_of l k of Some v \<Rightarrow> if P v then Some v else None | None \<Rightarrow> None)"
proof (induction l)
  case (Cons kv l)
  have "map_of (filter Q l) k = None" if "k \<notin> fst ` set l" for Q
    using that by (force simp: map_of_eq_None_iff)
  with Cons show ?case by (cases kv) auto
qed simp

lemma cmapLookup_expire:
  "cmapOk m \<Longrightarrow> cmapLookup (expireBefore d m) k = (case cmapLookup m k of Some t \<Rightarrow> if t < d then None else Some t | None \<Rightarrow> None)"
  using map_of_filter_values [of "m ! shardIndex k" "\<lambda>v. \<not> v < d" k]
  by (auto simp: cmapOk_def cmapLookup_def GetShard_def expireBefore_eq split: option.split)

lemma Count_card:
  assumes "cmapOk m"
  shows "finite (dom (cmapLookup m)) \<and> Count m = card (dom (cmapLookup m))"
proof -
  let ?K = "\<lambda>i. fst ` set (m ! i)"
  have dom: "dom (cmapLookup m) = (\<Union>i \<in> {..<shardCount}. ?K i)"
  proof (intro equalityI subsetI)
    fix k assume "k \<in> dom (cmapLookup m)"
    then have "k \<in> ?K (shardIndex k)" by (auto simp: cmapLookup_def GetShard_def dom_map_of_conv_image_fst [symmetric])
    then show "k \<in> (\<Union>i \<in> {..<shardCount}. ?K i)" by (intro UN_I [of "shardIndex k"]) simp_all
  next
    fix k assume "k \<in> (\<Union>i \<in> {..<shardCount}. ?K i)"
    then obtain i where "i < shardCount" "k \<in> ?K i" by auto
    with assms have "shardIndex k = i" by (auto simp: cmapOk_def)
    with \<open>k \<in> ?K i\<close> show "k \<in> dom (cmapLookup m)"
      by (simp add: cmapLookup_def GetShard_def dom_def) (simp add: map_of_eq_None_iff flip: not_None_eq)
  qed
  have disj: "\<forall>i \<in> {..<shardCount}. \<forall>j \<in> {..<shardCount}. i \<noteq> j \<longrightarrow> ?K i \<inter> ?K j = {}"
  proof (intro ballI impI)
    fix i j assume "i \<in> {..<shardCount}" "j \<in> {..<shardCount}" "i \<noteq> j"
    then have "shardIndex k = i" if "k \<in> ?K i" for k using assms that by (auto simp: cmapOk_def)
    moreover have "shardIndex k = j" if "k \<in> ?K j" for k
      using assms that \<open>j \<in> {..<shardCount}\<close> by (auto simp: cmapOk_def)
    ultimately show "?K i \<inter> ?K j = {}" using \<open>i \<noteq> j\<close> by blast
  qed
  have "card (dom (cmapLookup m)) = sum (\<lambda>i. card (?K i)) {..<shardCount}"
    unfolding dom using disj by (intro card_UN_disjoint) auto
  also have "\<dots> = sum (\<lambda>i. length (m ! i)) {..<shardCount}"
    using assms by (intro sum.cong) (simp_all add: cmapOk_def distinct_card flip: set_map)
  also have "\<dots> = Count m"
    using assms by (simp add: Count_def cmapOk_def sum_list_sum_nth atLeast0LessThan)
  finally show ?thesis using dom by simp
qed

interpretation cm: exists_cache NewCMap cmapLookup Exists Add expireBefore Count cmapOk
proof unfold_locales
  show "cmapLookup NewCMap k = None" for k by (simp add: cmapLookup_def GetShard_def NewCMap_def)
  show "Exists m k \<longleftrightarrow> cmapLookup m k \<noteq> None" for m k by (simp add: Exists_def cmapLookup_def)
qed (simp_all add: cmapOk_New cmapOk_Add cmapOk_expire cmapLookup_Add cmapLookup_expire Count_card)

text \<open>
  C27. The sharded map behaves as one map: after a merge exactly the merged and the earlier keys
  exist, and the count is their number.
\<close>

theorem cmap_is_a_map:
  assumes "cmapOk m"
  shows "cmapOk (Merge keys t m) \<and> (\<forall>k. Exists (Merge keys t m) k = (k \<in> set keys \<or> Exists m k))
     \<and> Count (Merge keys t m) = card (set keys \<union> {k. Exists m k})"
proof -
  have ok: "cmapOk (Merge keys t m)" unfolding Merge_def by (rule cm.ok_merge [OF assms])
  have ex: "Exists (Merge keys t m) k = (k \<in> set keys \<or> Exists m k)" for k
    unfolding Merge_def by (rule cm.known_merge [OF assms])
  have "dom (cmapLookup (Merge keys t m)) = {k. Exists (Merge keys t m) k}" by (auto simp: cm.known_lookup [OF ok])
  also have "\<dots> = set keys \<union> {k. Exists m k}" by (auto simp: ex)
  finally show ?thesis using ok ex cm.size_card [OF ok] by simp
qed

theorem cmap_is_a_map_witness:
  "cmapOk (Merge [str ''a'', str ''b''] 5 NewCMap)
     \<and> (\<forall>k. Exists (Merge [str ''a'', str ''b''] 5 NewCMap) k = (k \<in> set [str ''a'', str ''b''] \<or> Exists NewCMap k))
     \<and> Count (Merge [str ''a'', str ''b''] 5 NewCMap) = card (set [str ''a'', str ''b''] \<union> {k. Exists NewCMap k})"
  by (rule cmap_is_a_map) (rule cmapOk_New)

text \<open>
  A committed key survives an expiry run exactly while its time to live has not passed.
\<close>

theorem cache_ttl:
  assumes "cmapOk m" "key \<in> set keys"
  shows "Exists (fst (Expire shardCount ttl now now' (Merge keys t m))) key \<longleftrightarrow> now - ttl \<le> t"
proof -
  have "length (Merge keys t m) = shardCount" using cm.ok_merge [OF assms(1)] by (simp add: Merge_def cmapOk_def)
  then have "fst (Expire shardCount ttl now now' (Merge keys t m)) = expireBefore (now - ttl) (Merge keys t m)"
    by (simp add: Expire_fst expireBefore_eq)
  then show ?thesis using cm.known_after_expire [OF assms] by (simp add: Merge_def)
qed

theorem cache_ttl_witness:
  "Exists (fst (Expire shardCount 60 100 100 (Merge [str ''a'', str ''b''] 50 NewCMap))) (str ''a'') \<longleftrightarrow> 100 - 60 \<le> (50 :: int)"
  by (rule cache_ttl) (simp_all add: cmapOk_New)

subsection \<open>The cached upload\<close>

text \<open>
  \<open>cached.upload\<close> parses the file into a pipe while a goroutine sends the other end to ClickHouse.
  Both assign the one variable \<open>err\<close>: the goroutine's assignment comes before the parser's
  assignment, between it and the flush, or after the flush; it always comes before its result is
  received. The results of the parser, the flush and the request are arguments, and so is the branch
  of the \<open>select\<close>.
\<close>

datatype insert_order = InsertFirst | InsertBetween | InsertLast

datatype 'e upload_error = UploadAborted | UploadError 'e

definition cachedUpload ::
  "(uint64 \<times> bytes list \<times> 'e option) \<Rightarrow> 'e option \<Rightarrow> 'e option \<Rightarrow> insert_order \<Rightarrow> bool \<Rightarrow> int \<Rightarrow> CMap \<Rightarrow>
   uint64 \<times> 'e upload_error option \<times> CMap" where
  "cachedUpload parsed flushErr uploadErr order aborted startTime c =
     (let (n, newSeries, err) = parsed;
          err = (if order = InsertBetween then uploadErr else err);
          err = (if err = None then flushErr else err);
          err = (if order = InsertLast then uploadErr else err)
      in if aborted then (n, Some UploadAborted, c)
         else (case err of
             Some e \<Rightarrow> (n, Some (UploadError e), c)
           | None \<Rightarrow>
               (case uploadErr of
                  Some e \<Rightarrow> (n, Some (UploadError e), c)
                | None \<Rightarrow> (n, None, Merge newSeries startTime c))))"

text \<open>
  The cache gets the new keys exactly when the upload succeeds, and it succeeds only if
  ClickHouse accepted the data; a failed upload leaves it unchanged.
\<close>

theorem cached_commit:
  assumes "cmapOk c" "cachedUpload (n, newSeries, parseErr) flushErr uploadErr order aborted startTime c = (n', err, c')"
  shows "cmapOk c' \<and> (\<forall>k. Exists c' k = (Exists c k \<or> err = None \<and> k \<in> set newSeries)) \<and> (err = None \<longrightarrow> uploadErr = None)"
proof -
  have ex: "Exists (Merge newSeries startTime c) k = (k \<in> set newSeries \<or> Exists c k)" for k
    unfolding Merge_def by (rule cm.known_merge [OF assms(1)])
  have ok: "cmapOk (Merge newSeries startTime c)" unfolding Merge_def by (rule cm.ok_merge [OF assms(1)])
  show ?thesis
    using assms by (auto simp: cachedUpload_def Let_def ex ok split: if_splits option.splits)
qed

theorem cached_commit_witness:
  "cmapOk (Merge [str ''a''] 7 NewCMap)
     \<and> (\<forall>k. Exists (Merge [str ''a''] 7 NewCMap) k = (Exists NewCMap k \<or> (None :: nat upload_error option) = None \<and> k \<in> set [str ''a'']))
     \<and> (None :: nat option) = None"
  using cached_commit [OF cmapOk_New, of 1 "[str ''a'']" "None :: nat option" None None InsertFirst False 7 1 None "Merge [str ''a''] 7 NewCMap"]
  by (simp add: cachedUpload_def)

text \<open>
  Parser and upload goroutine share the variable err: when the goroutine stores its success
  last, a parse error is lost and the upload counts as successful.
\<close>

theorem cached_error_lost:
  "cachedUpload (n, [], Some e) flushErr None InsertLast False startTime c = (n, None, c)"
  by (simp add: cachedUpload_def Merge_def)

end
