(* ===== verification/RB_Reader.thy ===== *)
theory RB_Reader
  imports RB_Reverse
begin

text \<open>
  \<^verbatim>\<open>helper/RowBinary/reader.go\<close>: the reader of data files ("Read all good records from unfinished
  RowBinary file"), used by every uploader and by the \<open>-cat\<close> and \<open>-recover\<close> commands.

  \<open>rInput\<close> is what the buffered (and decompressed) stream still holds; \<open>rLine\<close> is
  \<open>line[:size]\<close>, the live part of the 524288-byte array, so \<open>size\<close> is its length. Slicing the
  array beyond its end panics (\<open>None\<close>). After an error the reader is never read again (\<open>eof\<close>), so
  an error leaves \<open>rInput\<close> alone.
\<close>

definition lineSize :: nat where "lineSize = 524288"

record reader =
  rInput :: bytes
  rLine :: bytes
  rOffset :: nat
  rEof :: bool
  rReverse :: bool
  rZeroVersion :: bool

datatype read_error = ReadEOF | ReadVarint varint_error | NameTruncated | RecordTruncated | DateMismatch

definition rSize :: "reader \<Rightarrow> nat" where
  "rSize r = length (rLine r)"

definition SetZeroVersion :: "bool \<Rightarrow> reader \<Rightarrow> reader" where
  "SetZeroVersion v r = r\<lparr>rZeroVersion := v\<rparr>"

text \<open>The bytes \<open>line[size-i : size-j]\<close>; a negative index panics.\<close>

definition lineTail :: "nat \<Rightarrow> nat \<Rightarrow> reader \<Rightarrow> bytes option" where
  "lineTail i j r =
     (if i \<le> rSize r then Some (take (i - j) (drop (rSize r - i) (rLine r))) else None)"

definition Timestamp :: "reader \<Rightarrow> uint32 option" where
  "Timestamp r = map_option leGet (lineTail 10 6 r)"

definition Days :: "reader \<Rightarrow> uint16 option" where
  "Days r = map_option leGet (lineTail 6 4 r)"

definition Value :: "reader \<Rightarrow> float64 option" where
  "Value r = map_option leGet (lineTail 18 10 r)"

definition Version :: "reader \<Rightarrow> uint32 option" where
  "Version r = map_option leGet (lineTail 4 0 r)"

definition readRecord ::
    "(uint32 \<Rightarrow> uint16) \<Rightarrow> reader \<Rightarrow> (reader \<times> (read_error + bytes)) option" where
  "readRecord TimestampToDays r0 =
     (let r = r0\<lparr>rLine := [], rOffset := 0\<rparr> in
      case ReadUvarint (rInput r) of
        Inl e \<Rightarrow> Some (r, Inl (ReadVarint e))
      | Inr (namelen, rest) \<Rightarrow>
          (let line = putUvarint namelen in
           if lineSize < length line + unat namelen then None
           else case ReadFull (unat namelen) rest of
             None \<Rightarrow> Some (r, Inl NameTruncated)
           | Some (raw, rest) \<Rightarrow>
               (let name = (if rReverse r \<and> IndexByte raw cQuest = None
                            then reverseMetricInplace raw else raw);
                    line = line @ name in
                if lineSize < length line + 18 then None
                else case ReadFull 18 rest of
                  None \<Rightarrow> Some (r, Inl RecordTruncated)
                | Some (flds, rest) \<Rightarrow>
                    (let flds = (if rZeroVersion r then take 14 flds @ [cNul, cNul, cNul, cNul]
                                   else flds);
                         r = r\<lparr>rInput := rest, rLine := line @ flds\<rparr>
                     in do {
                       d \<leftarrow> Days r;
                       ts \<leftarrow> Timestamp r;
                       Some (r, if d \<noteq> TimestampToDays ts then Inl DateMismatch else Inr name) }))))"

definition ReadRecord ::
    "(uint32 \<Rightarrow> uint16) \<Rightarrow> reader \<Rightarrow> (reader \<times> (read_error + bytes)) option" where
  "ReadRecord TimestampToDays r =
     (if rEof r then Some (r, Inl ReadEOF)
      else do {
        (r, p) \<leftarrow> readRecord TimestampToDays r;
        Some (case p of
            Inl err \<Rightarrow> (r\<lparr>rEof := True, rLine := [], rOffset := 0\<rparr>, Inl err)
          | Inr name \<Rightarrow> (r, Inr name)) })"

text \<open>
  \<open>NewReader\<close>: the file's content, decompressed when the name has the lz4 extension. The file and
  the decompressor are arguments: \<open>open_file\<close> gives the content or an error.
\<close>

definition NewReader ::
    "(bytes \<Rightarrow> 'e + bytes) \<Rightarrow> (bytes \<Rightarrow> bytes) \<Rightarrow> bytes \<Rightarrow> bool \<Rightarrow> 'e + reader" where
  "NewReader open_file lz4_decode filename isReverse =
     (case open_file filename of
        Inl err \<Rightarrow> Inl err
      | Inr content \<Rightarrow>
          Inr \<lparr>rInput = (if HasSuffix filename (str ''.lz4'') then lz4_decode content else content),
               rLine = [], rOffset = 0, rEof = False, rReverse = isReverse, rZeroVersion = False\<rparr>)"

text \<open>A read that succeeds consumes input; this is what ends every loop over a reader.\<close>

lemma readRecord_consumes:
  "readRecord days r = Some (r', Inr name) \<Longrightarrow> length (rInput r') < length (rInput r)"
  by (auto simp: readRecord_def Let_def ReadFull_def bind_eq_Some_conv
      split: sum.splits prod.splits option.splits if_splits dest!: ReadUvarint_consumes)

lemma ReadRecord_consumes:
  "ReadRecord days r = Some (r', Inr name) \<Longrightarrow> length (rInput r') < length (rInput r)"
  by (auto simp: ReadRecord_def bind_eq_Some_conv split: if_splits sum.splits
      dest: readRecord_consumes) (metis old.sum.exhaust readRecord_consumes)

text \<open>
  The loop all file parsers share:
  \<^verbatim>\<open>for { name, err := reader.ReadRecord(); if err != nil { break }; BODY }\<close>.
  The body gets the reader (for its accessors), the name and the loop state; it panics (\<open>None\<close>),
  returns from the function (\<open>Inl\<close>) or goes on (\<open>Inr\<close>).
\<close>

function readLoop ::
    "(uint32 \<Rightarrow> uint16) \<Rightarrow> (reader \<Rightarrow> bytes \<Rightarrow> 's \<Rightarrow> ('r + 's) option) \<Rightarrow> reader \<Rightarrow> 's \<Rightarrow> ('r + 's) option"
where
  "readLoop days body r s =
     (case ReadRecord days r of
        None \<Rightarrow> None
      | Some (r', Inl err) \<Rightarrow> Some (Inr s)
      | Some (r', Inr name) \<Rightarrow>
          (case body r' name s of
             None \<Rightarrow> None
           | Some (Inl res) \<Rightarrow> Some (Inl res)
           | Some (Inr s') \<Rightarrow> readLoop days body r' s'))"
  by pat_completeness auto
termination
  by (relation "measure (\<lambda>(days, body, r, s). length (rInput r))") (auto dest: ReadRecord_consumes)

declare readLoop.simps [simp del]

text \<open>
  \<open>Read\<close>, the \<open>io.Reader\<close> of the recovered stream: fill \<open>n\<close> bytes, returning what was read so far
  when the records end. The result is the data, the reader and whether \<open>io.EOF\<close> is returned.
\<close>

function Read_loop ::
    "(uint32 \<Rightarrow> uint16) \<Rightarrow> nat \<Rightarrow> bytes \<Rightarrow> reader \<Rightarrow> (bytes \<times> reader \<times> bool) option" where
  "Read_loop days n readed r =
     (if n = 0 then Some (readed, r, False)
      else if rOffset r < rSize r then
        (let k = min n (rSize r - rOffset r) in
         Read_loop days (n - k) (readed @ take k (drop (rOffset r) (rLine r)))
           (r\<lparr>rOffset := rOffset r + k\<rparr>))
      else (case ReadRecord days r of
          None \<Rightarrow> None
        | Some (r', Inl err) \<Rightarrow> Some (if readed \<noteq> [] then (readed, r', False) else ([], r', True))
        | Some (r', Inr name) \<Rightarrow> Read_loop days n readed r'))"
  by pat_completeness auto
termination
  by (relation "measure (\<lambda>(days, n, readed, r). n + length (rInput r))")
    (auto dest: ReadRecord_consumes)

declare Read_loop.simps [simp del]

definition Read :: "(uint32 \<Rightarrow> uint16) \<Rightarrow> nat \<Rightarrow> reader \<Rightarrow> (bytes \<times> reader \<times> bool) option" where
  "Read days n r = Read_loop days n [] r"

subsection \<open>A record reads back\<close>

text \<open>The point as the uploader sees it: path reversed on request, version zeroed on request.\<close>

definition storedPoint :: "reader \<Rightarrow> point \<Rightarrow> point" where
  "storedPoint r p =
     p\<lparr>pName := (if rReverse r \<and> cQuest \<notin> set (pName p) then reversePath (pName p) else pName p),
       pVersion := (if rZeroVersion r then 0 else pVersion p)\<rparr>"

text \<open>A point whose record fits the line array.\<close>

definition fitsLine :: "(uint32 \<Rightarrow> uint16) \<Rightarrow> point \<Rightarrow> bool" where
  "fitsLine days p \<longleftrightarrow> length (encPoint days p) \<le> lineSize"

lemma accessors_encPoint [codec_simps]:
  assumes "rLine r = encPoint days q"
  shows "Timestamp r = Some (pTime q)" and "Days r = Some (days (pTime q))"
    and "Value r = Some (pValue q)" and "Version r = Some (pVersion q)"
  by (simp_all add: Timestamp_def Days_def Value_def Version_def lineTail_def rSize_def assms encPoint_def)

lemma storedPoint_flags [simp]:
  "pTime (storedPoint r p) = pTime p" "pValue (storedPoint r p) = pValue p"
  "storedPoint (r\<lparr>rInput := i\<rparr>) p = storedPoint r p"
  "storedPoint (r\<lparr>rLine := l\<rparr>) p = storedPoint r p"
  "storedPoint (r\<lparr>rOffset := n\<rparr>) p = storedPoint r p"
  by (simp_all add: storedPoint_def)

lemma length_storedName [simp]: "length (pName (storedPoint r p)) = length (pName p)"
  by (simp add: storedPoint_def)

lemma unat_of_nat_name:
  "fitsLine days p \<Longrightarrow> unat (of_nat (length (pName p)) :: uint64) = length (pName p)"
  by (simp add: fitsLine_def encPoint_def encString_def lineSize_def unat_of_nat)

lemma lePut_zero_version: "lePut 4 (0 :: uint32) = [cNul, cNul, cNul, cNul]"
  by (simp add: numeral_eq_Suc)

lemma readRecord_encPoint:
  assumes input: "rInput r = encPoint days p @ rest" and fits: "fitsLine days p"
  shows "readRecord days r =
    Some (r\<lparr>rOffset := 0, rInput := rest, rLine := encPoint days (storedPoint r p)\<rparr>,
          Inr (pName (storedPoint r p)))"
proof -
  define v where "v = putUvarint (of_nat (length (pName p)))"
  define f where "f = putUint64 (pValue p) @ putUint32 (pTime p) @ putUint16 (days (pTime p))
    @ putUint32 (pVersion p)"
  define f' where "f' = (if rZeroVersion r then take 14 f @ [cNul, cNul, cNul, cNul] else f)"
  define nm where "nm = (if rReverse r \<and> IndexByte (pName p) cQuest = None
    then reverseMetricInplace (pName p) else pName p)"
  have uv: "ReadUvarint (rInput r) = Inr (of_nat (length (pName p)), pName p @ f @ rest)"
    by (simp add: input encPoint_def encString_def f_def)
  have un: "unat (of_nat (length (pName p)) :: uint64) = length (pName p)"
    using fits by (rule unat_of_nat_name)
  have nm: "nm = pName (storedPoint r p)"
    by (simp add: nm_def storedPoint_def IndexByte_None)
  have room: "length v + length nm + 18 \<le> lineSize" "length v + length (pName p) \<le> lineSize"
    using fits by (simp_all add: fitsLine_def encPoint_def encString_def v_def nm)
  have f': "f' = putUint64 (pValue p) @ putUint32 (pTime p) @ putUint16 (days (pTime p))
      @ putUint32 (pVersion (storedPoint r p))"
    by (simp add: f'_def f_def storedPoint_def lePut_zero_version)
  have enc: "v @ nm @ f' = encPoint days (storedPoint r p)"
    by (simp add: encPoint_def encString_def v_def nm f')
  have full: "ReadFull 18 (f @ rest) = Some (f, rest)"
    by (rule ReadFull_append) (simp add: f_def)
  let ?r = "r\<lparr>rOffset := 0, rInput := rest, rLine := encPoint days (storedPoint r p)\<rparr>"
  have "Days ?r = Some (days (pTime p))" and "Timestamp ?r = Some (pTime p)"
    using accessors_encPoint [of ?r days "storedPoint r p"] by simp_all
  then show ?thesis
    using room uv un full
    by (simp add: readRecord_def Let_def enc nm [symmetric]
        flip: nm_def f'_def v_def)
qed

lemma ReadRecord_encPoint:
  assumes "rInput r = encPoint days p @ rest" and "fitsLine days p" and "\<not> rEof r"
  shows "ReadRecord days r =
    Some (r\<lparr>rOffset := 0, rInput := rest, rLine := encPoint days (storedPoint r p)\<rparr>,
          Inr (pName (storedPoint r p)))"
  using assms by (simp add: ReadRecord_def readRecord_encPoint)

subsection \<open>An unfinished record ends the file\<close>

text \<open>What a writer that was cut off leaves behind: nothing, or a proper prefix of a record.\<close>

definition truncatedRecord :: "(uint32 \<Rightarrow> uint16) \<Rightarrow> bytes \<Rightarrow> bool" where
  "truncatedRecord days junk \<longleftrightarrow>
     (\<exists>p k. fitsLine days p \<and> k < length (encPoint days p) \<and> junk = take k (encPoint days p))"

lemma truncatedRecord_Nil [simp]: "truncatedRecord days []"
  unfolding truncatedRecord_def fitsLine_def
  by (rule exI [of _ "\<lparr>pName = [], pValue = 0, pTime = 0, pVersion = 0\<rparr>"], rule exI [of _ 0])
    (simp add: encPoint_def encString_def putUvarint_small lineSize_def)

lemma readRecord_truncated:
  assumes "truncatedRecord days (rInput r)"
  shows "\<exists>e. readRecord days r = Some (r\<lparr>rLine := [], rOffset := 0\<rparr>, Inl e)"
proof -
  obtain p k where fits: "fitsLine days p" and k: "k < length (encPoint days p)"
    and input: "rInput r = take k (encPoint days p)"
    using assms by (auto simp: truncatedRecord_def)
  define v where "v = putUvarint (of_nat (length (pName p)))"
  define f where "f = putUint64 (pValue p) @ putUint32 (pTime p) @ putUint16 (days (pTime p))
    @ putUint32 (pVersion p)"
  have enc: "encPoint days p = v @ pName p @ f"
    by (simp add: encPoint_def encString_def v_def f_def)
  have f18: "length f = 18" by (simp add: f_def)
  have un: "unat (of_nat (length (pName p)) :: uint64) = length (pName p)"
    using fits by (rule unat_of_nat_name)
  have room: "length v + length (pName p) + 18 \<le> lineSize"
    using fits f18 by (simp add: fitsLine_def enc)
  show ?thesis
  proof (cases "k < length v")
    case True
    then obtain e where "ReadUvarint (take k v) = Inl e"
      using ReadUvarint_prefix v_def by blast
    with True show ?thesis by (simp add: readRecord_def Let_def input enc)
  next
    case False
    then have uv: "ReadUvarint (rInput r) =
        Inr (of_nat (length (pName p)), take (k - length v) (pName p @ f))"
      by (simp add: input enc) (simp add: v_def)
    show ?thesis
    proof (cases "k - length v < length (pName p)")
      case True
      then show ?thesis
        using uv un room by (simp add: readRecord_def Let_def v_def [symmetric] ReadFull_def)
    next
      case short: False
      have "ReadFull (length (pName p)) (take (k - length v) (pName p @ f))
          = Some (pName p, take (k - length v - length (pName p)) f)"
        using short by (simp add: ReadFull_def)
      moreover have "ReadFull 18 (take (k - length v - length (pName p)) f) = None"
        using k f18 short False by (simp add: enc ReadFull_def)
      ultimately show ?thesis
        using uv un room by (auto simp add: readRecord_def Let_def v_def [symmetric])
    qed
  qed
qed

lemma ReadRecord_truncated:
  assumes "truncatedRecord days (rInput r)" and "\<not> rEof r"
  shows "\<exists>e. ReadRecord days r = Some (r\<lparr>rEof := True, rLine := [], rOffset := 0\<rparr>, Inl e)"
  using readRecord_truncated [OF assms(1)] assms(2) by (auto simp: ReadRecord_def)

subsection \<open>The loop over a file\<close>

text \<open>The specification of a parser's loop: its body over a list of points.\<close>

fun foldPoints :: "(point \<Rightarrow> 's \<Rightarrow> ('r + 's) option) \<Rightarrow> point list \<Rightarrow> 's \<Rightarrow> ('r + 's) option" where
  "foldPoints f [] s = Some (Inr s)"
| "foldPoints f (p # ps) s =
     (case f p s of
        None \<Rightarrow> None
      | Some (Inl res) \<Rightarrow> Some (Inl res)
      | Some (Inr s') \<Rightarrow> foldPoints f ps s')"

text \<open>A file of complete records, possibly cut off inside the last one.\<close>

definition dataFile :: "(uint32 \<Rightarrow> uint16) \<Rightarrow> point list \<Rightarrow> bytes \<Rightarrow> bool" where
  "dataFile days ps content \<longleftrightarrow>
     (\<exists>junk. content = concat (map (encPoint days) ps) @ junk \<and> truncatedRecord days junk)
     \<and> (\<forall>p \<in> set ps. fitsLine days p)"

lemma dataFile_Nil: "dataFile days [] c \<longleftrightarrow> truncatedRecord days c"
  by (auto simp: dataFile_def)

lemma dataFile_Cons:
  assumes "dataFile days (p # ps) c"
  obtains c' where "c = encPoint days p @ c'" "dataFile days ps c'" "fitsLine days p"
  using assms by (auto simp: dataFile_def)

lemma readLoop_foldPoints:
  assumes "dataFile days ps (rInput r)" and "\<not> rEof r"
    and body: "\<And>r' q s. rLine r' = encPoint days q \<Longrightarrow> body r' (pName q) s = f q s"
  shows "readLoop days body r s = foldPoints f (map (storedPoint r) ps) s"
  using assms(1,2)
proof (induction ps arbitrary: r s)
  case Nil
  then obtain e where "ReadRecord days r = Some (r\<lparr>rEof := True, rLine := [], rOffset := 0\<rparr>, Inl e)"
    using ReadRecord_truncated by (auto simp: dataFile_Nil)
  then show ?case by (simp add: readLoop.simps)
next
  case (Cons p ps)
  obtain c' where c': "rInput r = encPoint days p @ c'" "dataFile days ps c'" "fitsLine days p"
    using Cons.prems(1) by (rule dataFile_Cons)
  let ?r = "r\<lparr>rOffset := 0, rInput := c', rLine := encPoint days (storedPoint r p)\<rparr>"
  have rd: "ReadRecord days r = Some (?r, Inr (pName (storedPoint r p)))"
    using c' Cons.prems by (intro ReadRecord_encPoint)
  have b: "body ?r (pName (storedPoint r p)) s = f (storedPoint r p) s" for s
    by (rule body) simp
  have IH: "readLoop days body ?r s = foldPoints f (map (storedPoint r) ps) s" for s
    using Cons.IH [of ?r s] c' Cons.prems by (simp cong: map_cong)
  show ?case
    by (simp add: readLoop.simps [of days body r] rd b IH split: option.splits sum.splits)
qed

subsection \<open>The recovered stream\<close>

text \<open>
  \<open>remaining days r w\<close>: the reader \<open>r\<close> stands in a data file and still has to deliver the
  bytes \<open>w\<close>: the rest of its line and the records after it.
\<close>

definition remaining :: "(uint32 \<Rightarrow> uint16) \<Rightarrow> reader \<Rightarrow> bytes \<Rightarrow> bool" where
  "remaining days r w \<longleftrightarrow>
     (\<exists>ps. (rEof r \<and> ps = [] \<or> \<not> rEof r \<and> dataFile days ps (rInput r)) \<and>
        w = drop (rOffset r) (rLine r) @ concat (map (encPoint days \<circ> storedPoint r) ps))"

lemma remaining_ReadRecord:
  assumes "remaining days r w" and "\<not> rOffset r < rSize r"
  shows "(\<exists>r' e. ReadRecord days r = Some (r', Inl e) \<and> w = [] \<and> remaining days r' []) \<or>
         (\<exists>r' nm. ReadRecord days r = Some (r', Inr nm) \<and> remaining days r' w)"
proof -
  obtain ps where ps: "rEof r \<and> ps = [] \<or> \<not> rEof r \<and> dataFile days ps (rInput r)"
    and w: "w = concat (map (encPoint days \<circ> storedPoint r) ps)"
    using assms by (auto simp: remaining_def rSize_def)
  show ?thesis
  proof (cases "rEof r")
    case True
    with ps w assms(2) show ?thesis
      by (auto simp: ReadRecord_def remaining_def rSize_def)
  next
    case False
    show ?thesis
    proof (cases ps)
      case Nil
      with ps False have "truncatedRecord days (rInput r)" by (simp add: dataFile_Nil)
      from ReadRecord_truncated [OF this False] w Nil show ?thesis
        by (auto simp: remaining_def)
    next
      case (Cons p qs)
      with ps False have df: "dataFile days (p # qs) (rInput r)" by simp
      obtain c' where c': "rInput r = encPoint days p @ c'" "dataFile days qs c'" "fitsLine days p"
        using df by (rule dataFile_Cons)
      have "remaining days (r\<lparr>rOffset := 0, rInput := c', rLine := encPoint days (storedPoint r p)\<rparr>) w"
        unfolding remaining_def using c' w Cons False
        by (intro exI [of _ qs]) (simp add: comp_def)
      with ReadRecord_encPoint [OF c'(1,3) False] show ?thesis by blast
    qed
  qed
qed

lemma Read_loop_delivers:
  assumes "remaining days r w"
  shows "\<exists>r'. Read_loop days n readed r
            = Some (readed @ take n w, r', 0 < n \<and> readed @ take n w = [])
          \<and> remaining days r' (drop n w)"
  using assms
proof (induction days n readed r arbitrary: w rule: Read_loop.induct)
  case (1 days n readed r)
  show ?case
  proof (cases "n = 0")
    case True
    with "1.prems" show ?thesis by (simp add: Read_loop.simps)
  next
    case n: False
    show ?thesis
    proof (cases "rOffset r < rSize r")
      case True
      define k where "k = min n (rSize r - rOffset r)"
      let ?r = "r\<lparr>rOffset := rOffset r + k\<rparr>"
      have cut: "take k w = take k (drop (rOffset r) (rLine r))" and k0: "0 < k"
        and rem: "remaining days ?r (drop k w)"
        using "1.prems" True n unfolding remaining_def
        by (auto simp: k_def rSize_def comp_def min_def add.commute)
      obtain r' where "Read_loop days (n - k) (readed @ take k w) ?r
          = Some ((readed @ take k w) @ take (n - k) (drop k w), r',
                  0 < n - k \<and> (readed @ take k w) @ take (n - k) (drop k w) = [])"
        and r': "remaining days r' (drop (n - k) (drop k w))"
        using "1.IH"(1) [OF n True k_def rem] unfolding cut by blast
      moreover have "take k w @ take (n - k) (drop k w) = take n w"
        by (metis k_def le_add_diff_inverse min.cobounded1 take_add)
      moreover have "take k w \<noteq> []"
        using True n k0 by (simp add: cut rSize_def)
      moreover have "Read_loop days n readed r = Read_loop days (n - k) (readed @ take k w) ?r"
        using n True by (simp add: Read_loop.simps [of days n] Let_def cut flip: k_def)
      ultimately show ?thesis
        by (intro exI [of _ r']) (auto simp: k_def)
    next
      case False
      from remaining_ReadRecord [OF "1.prems" False] show ?thesis
      proof (elim disjE exE conjE)
        fix r' e assume "ReadRecord days r = Some (r', Inl e)" "w = []" "remaining days r' []"
        with n False show ?thesis by (auto simp: Read_loop.simps [of days n])
      next
        fix r' nm assume rd: "ReadRecord days r = Some (r', Inr nm)" and rem: "remaining days r' w"
        then show ?thesis
          using n False "1.IH"(2) [OF n False rd refl refl rem]
          by (simp add: Read_loop.simps [of days n])
      qed
    qed
  qed
qed

lemma Read_delivers:
  assumes "remaining days r w"
  obtains r' where "Read days n r = Some (take n w, r', 0 < n \<and> w = [])"
    and "remaining days r' (drop n w)"
proof -
  from Read_loop_delivers [OF assms, of n "[]"] show ?thesis
    by (auto simp: Read_def intro: that)
qed

subsection \<open>The -recover command\<close>

text \<open>
  \<open>io.Copy(os.Stdout, reader)\<close> with a copy buffer of \<open>n\<close> bytes (32 KiB in Go): read until \<open>io.EOF\<close>.
  Whether the loop ends is part of what is proved.
\<close>

partial_function (option) ioCopy ::
    "(uint32 \<Rightarrow> uint16) \<Rightarrow> nat \<Rightarrow> bytes \<Rightarrow> reader \<Rightarrow> bytes option" where
  "ioCopy days n written r =
     Option.bind (Read days n r)
       (\<lambda>x. if snd (snd x) then Some written else ioCopy days n (written @ fst x) (fst (snd x)))"

lemma ioCopy_remaining:
  "remaining days r w \<Longrightarrow> 0 < n \<Longrightarrow> ioCopy days n written r = Some (written @ w)"
proof (induction "length w" arbitrary: w r written rule: less_induct)
  case less
  obtain r' where rd: "Read days n r = Some (take n w, r', 0 < n \<and> w = [])"
    and rem: "remaining days r' (drop n w)"
    using less.prems(1) by (rule Read_delivers)
  show ?case
  proof (cases "w = []")
    case True
    with rd less.prems show ?thesis by (subst ioCopy.simps) simp
  next
    case False
    then have "length (drop n w) < length w" using less.prems(2) by (cases w) auto
    from less.hyps [OF this rem less.prems(2)] rd False show ?thesis
      by (subst ioCopy.simps) simp
  qed
qed

definition freshReader :: "bytes \<Rightarrow> bool \<Rightarrow> reader" where
  "freshReader content isReverse = \<lparr>rInput = content, rLine = [], rOffset = 0, rEof = False,
     rReverse = isReverse, rZeroVersion = False\<rparr>"

lemma NewReader_fresh:
  "\<not> HasSuffix filename (str ''.lz4'') \<Longrightarrow> open_file filename = Inr content \<Longrightarrow>
     NewReader open_file lz4 filename isReverse = Inr (freshReader content isReverse)"
  by (simp add: NewReader_def freshReader_def)

lemma storedPoint_plain [simp]: "storedPoint (freshReader c False) p = p"
  by (simp add: storedPoint_def freshReader_def)

text \<open>
  C9. Recovering a data file that was cut off inside a record returns exactly the complete
  records, and the copy loop ends.
\<close>

theorem recover_good_records:
  assumes "\<forall>p \<in> set ps. fitsLine days p" "fitsLine days q" "k < length (encPoint days q)" "0 < n"
  shows "ioCopy days n [] (freshReader (concat (map (encPoint days) ps) @ take k (encPoint days q)) False)
     = Some (concat (map (encPoint days) ps))"
proof -
  let ?c = "concat (map (encPoint days) ps) @ take k (encPoint days q)"
  have "dataFile days ps ?c"
    using assms unfolding dataFile_def truncatedRecord_def by blast
  then have "remaining days (freshReader ?c False) (concat (map (encPoint days) ps))"
    unfolding remaining_def by (intro exI [of _ ps]) (simp add: comp_def, simp add: freshReader_def)
  from ioCopy_remaining [OF this assms(4), of "[]"] show ?thesis by simp
qed

theorem recover_good_records_witness:
  "ioCopy (\<lambda>_. 1) 32768 [] (freshReader
      (concat (map (encPoint (\<lambda>_. 1)) [\<lparr>pName = str ''a.b'', pValue = 1, pTime = 86400, pVersion = 2\<rparr>])
       @ take 9 (encPoint (\<lambda>_. 1) \<lparr>pName = str ''c'', pValue = 1, pTime = 86400, pVersion = 2\<rparr>)) False)
   = Some (concat (map (encPoint (\<lambda>_. 1)) [\<lparr>pName = str ''a.b'', pValue = 1, pTime = 86400, pVersion = 2\<rparr>]))"
  by (rule recover_good_records)
    (simp_all add: fitsLine_def encPoint_def encString_def putUvarint_small lineSize_def)

end
