(* ===== verification/Up_Points.thy ===== *)
theory Up_Points
  imports Up_Filter Up_Cache RB_Reader RB_Writer Strconv
begin

text \<open>
  \<^verbatim>\<open>uploader/points.go\<close>, \<^verbatim>\<open>uploader/series.go\<close> and the helpers of \<^verbatim>\<open>uploader/utils.go\<close>: the uploaders of the
  points table and of the series table. \<open>out\<close> is the sink of \<open>RB_Writer\<close>; a write to it fails once the
  other end of the pipe is closed.
\<close>

datatype 'e parse_error = OpenError 'e | WriteError

subsection \<open>Helpers\<close>

function pathLevel_loop :: "bytes \<Rightarrow> nat \<Rightarrow> nat" where
  "pathLevel_loop p level =
     (case IndexByte p cDot of
        None \<Rightarrow> level
      | Some index \<Rightarrow> pathLevel_loop (drop (index + 1) p) (level + 1))"
  by pat_completeness auto
termination
  by (relation "measure (\<lambda>(p, level). length p)") (auto dest: IndexByte_SomeD)

declare pathLevel_loop.simps [simp del]

definition pathLevel :: "bytes \<Rightarrow> nat" where
  "pathLevel name = pathLevel_loop name 1"

definition dayKey :: "uint16 \<Rightarrow> bytes \<Rightarrow> bytes" where
  "dayKey days name = itoa (unat days) @ [cColon] @ name"

subsection \<open>Points\<close>

definition blacklisted :: "Blacklist option \<Rightarrow> bool \<Rightarrow> bytes \<Rightarrow> bool" where
  "blacklisted bl isReverse name =
     (case bl of
        None \<Rightarrow> False
      | Some b \<Rightarrow> if IndexByte name cQuest = None then Contains b name isReverse else False)"

definition pointsBody ::
  "(uint32 \<Rightarrow> uint16) \<Rightarrow> Blacklist option \<Rightarrow> bool \<Rightarrow> reader \<Rightarrow> bytes \<Rightarrow> uint64 \<times> write_buffer \<times> sink \<Rightarrow>
   (uint64 \<times> sink + uint64 \<times> write_buffer \<times> sink) option" where
  "pointsBody days bl isReverse r name = (\<lambda>(n, wb, out).
     if blacklisted bl isReverse name then Some (Inr (n, wb, out))
     else do {
       value \<leftarrow> Value r;
       timestamp \<leftarrow> Timestamp r;
       version \<leftarrow> Version r;
       wb \<leftarrow> WriteGraphitePoint days name value timestamp version (Reset wb);
       let (out, ok) = sinkWrite (Bytes wb) out;
       Some (if ok then Inr (n + 1, wb, out) else Inl (n, out)) })"

definition parseAndFilter ::
  "(uint32 \<Rightarrow> uint16) \<Rightarrow> (bytes \<Rightarrow> 'e + bytes) \<Rightarrow> (bytes \<Rightarrow> bytes) \<Rightarrow> Blacklist option \<Rightarrow> bool \<Rightarrow> bool \<Rightarrow> bytes \<Rightarrow> sink \<Rightarrow>
   (uint64 \<times> 'e parse_error option \<times> sink) option" where
  "parseAndFilter days open_file lz4 bl isReverse zeroTimestamp filename out =
     (case NewReader open_file lz4 filename isReverse of
        Inl err \<Rightarrow> Some (0, Some (OpenError err), out)
      | Inr reader \<Rightarrow>
          (case readLoop days (pointsBody days bl isReverse) (SetZeroVersion zeroTimestamp reader) (0, GetWriteBuffer newWriteBuffer, out) of
             None \<Rightarrow> None
           | Some (Inl (n, out)) \<Rightarrow> Some (n, Some WriteError, out)
           | Some (Inr (n, wb, out)) \<Rightarrow> Some (n, None, out)))"

text \<open>\<open>NewPoints\<close>: a blacklist only when there are patterns.\<close>

definition pointsBlacklist :: "bytes list \<Rightarrow> Blacklist option" where
  "pointsBlacklist ignoredPatterns = (if ignoredPatterns \<noteq> [] then Some (NewBlacklist ignoredPatterns) else None)"

text \<open>\<open>Points.upload\<close>: the goroutine's \<open>err\<close> is its own.\<close>

definition pointsUpload ::
  "uint64 \<times> 'e option \<Rightarrow> 'e option \<Rightarrow> 'e option \<Rightarrow> bool \<Rightarrow> uint64 \<times> 'e upload_error option" where
  "pointsUpload parsed flushErr uploadErr aborted =
     (let (n, err) = parsed; err = (if err = None then flushErr else err)
      in if aborted then (n, Some UploadAborted)
         else (case err of
             Some e \<Rightarrow> (n, Some (UploadError e))
           | None \<Rightarrow> (case uploadErr of Some e \<Rightarrow> (n, Some (UploadError e)) | None \<Rightarrow> (n, None))))"

subsection \<open>Series\<close>

text \<open>The loop state: rows, the keys of this file, the buffer and the output.\<close>

text \<open>The four writes of one row of the series, tree and index tables.\<close>

definition writePathRow :: "uint16 \<Rightarrow> nat \<Rightarrow> bytes \<Rightarrow> uint32 \<Rightarrow> write_buffer \<Rightarrow> write_buffer option" where
  "writePathRow days level name version wb = do {
     wb \<leftarrow> WriteUint16 days wb;
     wb \<leftarrow> WriteUint32 (of_nat level) wb;
     wb \<leftarrow> WriteBytes name wb;
     WriteUint32 version wb }"

definition seriesBody ::
  "CMap \<Rightarrow> uint32 \<Rightarrow> reader \<Rightarrow> bytes \<Rightarrow> uint64 \<times> bytes list \<times> write_buffer \<times> sink \<Rightarrow>
   (uint64 \<times> sink + uint64 \<times> bytes list \<times> write_buffer \<times> sink) option" where
  "seriesBody existsCache version r name = (\<lambda>(n, newSeries, wb, out).
     if IndexByte name cQuest \<noteq> None then Some (Inr (n, newSeries, wb, out))
     else do {
       days \<leftarrow> Days r;
       let key = dayKey days name;
       if Exists existsCache key then Some (Inr (n, newSeries, wb, out))
       else if key \<in> set newSeries then Some (Inr (n, newSeries, wb, out))
       else do {
         let n = n + 1;
         let newSeries = newSeries @ [key];
         wb \<leftarrow> writePathRow days (pathLevel name) name version (Reset wb);
         let (out, ok) = sinkWrite (Bytes wb) out;
         Some (if ok then Inr (n, newSeries, wb, out) else Inl (n, out)) } })"

definition seriesParseFile ::
  "(uint32 \<Rightarrow> uint16) \<Rightarrow> (bytes \<Rightarrow> 'e + bytes) \<Rightarrow> (bytes \<Rightarrow> bytes) \<Rightarrow> bool \<Rightarrow> CMap \<Rightarrow> uint32 \<Rightarrow> bytes \<Rightarrow> sink \<Rightarrow>
   (uint64 \<times> bytes list \<times> 'e parse_error option \<times> sink) option" where
  "seriesParseFile days open_file lz4 isReverse existsCache version filename out =
     (case NewReader open_file lz4 filename isReverse of
        Inl err \<Rightarrow> Some (0, [], Some (OpenError err), out)
      | Inr reader \<Rightarrow>
          (case readLoop days (seriesBody existsCache version) reader (0, [], GetWriteBuffer newWriteBuffer, out) of
             None \<Rightarrow> None
           | Some (Inl (n, out)) \<Rightarrow> Some (n, [], Some WriteError, out)
           | Some (Inr (n, newSeries, wb, out)) \<Rightarrow> Some (n, newSeries, None, out)))"

subsection \<open>Facts about the helpers\<close>

lemma pathLevel_loop_eq: "pathLevel_loop p level = level + count_list p cDot"
proof (induction p level rule: pathLevel_loop.induct)
  case (1 p level)
  show ?case
  proof (cases "IndexByte p cDot")
    case None
    then have "count_list p cDot = 0" by (simp add: IndexByte_None)
    with None show ?thesis by (simp add: pathLevel_loop.simps [of p])
  next
    case (Some i)
    obtain q where q: "p = q @ cDot # drop (i + 1) p" "cDot \<notin> set q"
      using IndexByte_split [OF Some] IndexByte_SomeD [OF Some] by (metis Suc_eq_plus1)
    then have "count_list p cDot = count_list (q @ cDot # drop (i + 1) p) cDot" by argo
    then have "count_list p cDot = 1 + count_list (drop (i + 1) p) cDot"
      using q(2) by simp
    with Some 1 [OF Some] show ?thesis by (simp add: pathLevel_loop.simps [of p])
  qed
qed

lemma pathLevel_eq: "pathLevel name = Suc (count_list name cDot)"
  by (simp add: pathLevel_def pathLevel_loop_eq)

lemma dayKey_inj: "dayKey d n = dayKey d' n' \<longleftrightarrow> d = d' \<and> n = n'"
proof
  assume eq: "dayKey d n = dayKey d' n'"
  have "splitOn cColon (itoa (unat d) @ cColon # n) = itoa (unat d) # splitOn cColon n" for d :: uint16 and n
    by (simp add: splitOn_append_sep splitOn_no_sep itoa_no_colon)
  with eq have "itoa (unat d) = itoa (unat d')" by (simp add: dayKey_def) (metis list.inject)
  then have "d = d'" using itoa_inj by (simp add: word_unat_eq_iff)
  with eq show "d = d' \<and> n = n'" by (simp add: dayKey_def)
qed simp

subsection \<open>The points table\<close>

text \<open>A point as the table gets it.\<close>

definition stored :: "bool \<Rightarrow> bool \<Rightarrow> point \<Rightarrow> point" where
  "stored isReverse zeroVersion p = storedPoint (SetZeroVersion zeroVersion (freshReader [] isReverse)) p"

lemma stored_reader: "storedPoint (SetZeroVersion z (freshReader c isReverse)) = stored isReverse z"
  by (rule ext) (simp add: stored_def storedPoint_def SetZeroVersion_def freshReader_def)

lemma stored_fresh: "storedPoint (freshReader c isReverse) = stored isReverse False"
  by (rule ext) (simp add: stored_def storedPoint_def SetZeroVersion_def freshReader_def)

lemma stored_simps [simp]:
  "pTime (stored r z p) = pTime p" "pValue (stored r z p) = pValue p" "length (pName (stored r z p)) = length (pName p)"
  by (simp_all add: stored_def)

lemma stored_tagged [simp]: "cQuest \<in> set (pName (stored r z p)) \<longleftrightarrow> cQuest \<in> set (pName p)"
proof (cases "cQuest \<in> set (pName p)")
  case False
  have "set (reversePath q) \<subseteq> insert cDot (set q)" for q
  proof -
    have "set (joinWith [cDot] xs) \<subseteq> insert cDot (\<Union> (set ` set xs))" for xs
      by (induction "[cDot]" xs rule: joinWith.induct) auto
    then show ?thesis unfolding reversePath_def using set_splitOn by fastforce
  qed
  from this [of "pName p"] False show ?thesis by (auto simp: stored_def storedPoint_def)
qed (simp add: stored_def storedPoint_def)

lemma fitsLine_stored: "fitsLine days (stored r z p) \<longleftrightarrow> fitsLine days p"
  by (simp add: fitsLine_def encPoint_def encString_def)

lemma write_fresh_point:
  assumes "fitsLine days q"
  shows "WriteGraphitePoint days (pName q) (pValue q) (pTime q) (pVersion q) (Reset wb) = Some (appendWb (encPoint days q) (Reset wb))"
proof -
  have q: "q = \<lparr>pName = pName q, pValue = pValue q, pTime = pTime q, pVersion = pVersion q\<rparr>" by simp
  have "length (encPoint days q) \<le> FreeSize (Reset wb)"
    using assms by (simp add: fitsLine_def FreeSize_def Reset_def wbUsed_def lineSize_def WriteBufferSize_def)
  then show ?thesis using WriteGraphitePoint_ok [of days "pName q" "pValue q" "pTime q" "pVersion q" "Reset wb"] q by metis
qed

lemma Reset_body [simp]: "wbBody (Reset wb) = []"
  by (simp add: Reset_def)

definition matchesPattern :: "bytes list \<Rightarrow> bytes \<Rightarrow> bool" where
  "matchesPattern pats name \<longleftrightarrow> cQuest \<notin> set name \<and> (\<exists>pat \<in> set pats. pathMatches (splitOn cDot pat) (splitOn cDot name))"

lemma Contains_reversePath:
  "Contains (NewBlacklist pats) (reversePath v) True \<longleftrightarrow> (\<exists>pat \<in> set pats. pathMatches (splitOn cDot pat) (splitOn cDot v))"
proof -
  have "splitOn cDot (reversePath v) = rev (splitOn cDot v)"
    unfolding reversePath_def by (subst splitOn_joinWith) (auto dest: splitOn_parts)
  then show ?thesis by (simp add: Contains_iff)
qed

lemma blacklisted_stored:
  "blacklisted (pointsBlacklist pats) isReverse (pName (stored isReverse z p)) \<longleftrightarrow> matchesPattern pats (pName p)"
proof (cases "cQuest \<in> set (pName p)")
  case True
  then have "IndexByte (pName (stored isReverse z p)) cQuest \<noteq> None" by (simp add: IndexByte_None)
  with True show ?thesis by (auto simp: blacklisted_def pointsBlacklist_def matchesPattern_def)
next
  case False
  then have nm: "pName (stored isReverse z p) = (if isReverse then reversePath (pName p) else pName p)"
    by (simp add: stored_def storedPoint_def SetZeroVersion_def freshReader_def)
  have "IndexByte (pName (stored isReverse z p)) cQuest = None" using False by (simp add: IndexByte_None)
  with False nm Contains_reversePath [of pats "pName p"] Contains_iff [of pats "pName p" False] show ?thesis
    by (simp add: blacklisted_def pointsBlacklist_def matchesPattern_def)
qed

text \<open>The body of the loop as a function of the point.\<close>

definition pointsStep ::
  "(uint32 \<Rightarrow> uint16) \<Rightarrow> Blacklist option \<Rightarrow> bool \<Rightarrow> point \<Rightarrow> uint64 \<times> write_buffer \<times> sink \<Rightarrow>
   (uint64 \<times> sink + uint64 \<times> write_buffer \<times> sink) option" where
  "pointsStep days bl isReverse q = (\<lambda>(n, wb, out).
     if blacklisted bl isReverse (pName q) then Some (Inr (n, wb, out))
     else do { wb \<leftarrow> WriteGraphitePoint days (pName q) (pValue q) (pTime q) (pVersion q) (Reset wb);
               let (out, ok) = sinkWrite (Bytes wb) out; Some (if ok then Inr (n + 1, wb, out) else Inl (n, out)) })"

lemma pointsBody_fold:
  assumes "\<forall>p \<in> set ps. fitsLine days p" "skLimit out = None"
  shows "\<exists>wb'. foldPoints (pointsStep days bl isReverse) ps (n, wb, out)
     = Some (Inr (n + of_nat (length (filter (\<lambda>q. \<not> blacklisted bl isReverse (pName q)) ps)), wb',
         out\<lparr>skData := skData out @ concat (map (encPoint days) (filter (\<lambda>q. \<not> blacklisted bl isReverse (pName q)) ps))\<rparr>))"
  using assms
proof (induction ps arbitrary: n wb out)
  case (Cons q ps)
  show ?case
  proof (cases "blacklisted bl isReverse (pName q)")
    case True
    with Cons.IH [of out n wb] Cons.prems show ?thesis by (simp add: pointsStep_def)
  next
    case False
    let ?wb = "appendWb (encPoint days q) (Reset wb)" and ?out = "out\<lparr>skData := skData out @ encPoint days q\<rparr>"
    have w: "WriteGraphitePoint days (pName q) (pValue q) (pTime q) (pVersion q) (Reset wb) = Some ?wb"
      using Cons.prems(1) by (intro write_fresh_point) simp
    from Cons.IH [of ?out "n + 1" ?wb] Cons.prems False w show ?thesis
      by (auto simp: pointsStep_def Bytes_def add.assoc)
  qed
qed simp

lemma parseAndFilter_rows:
  assumes "dataFile days ps content" "NewReader open_file lz4 fn isReverse = Inr (freshReader content isReverse)"
  shows "parseAndFilter days open_file lz4 (pointsBlacklist pats) isReverse zero fn \<lparr>skData = [], skLimit = None\<rparr>
     = Some (of_nat (length (filter (\<lambda>p. \<not> matchesPattern pats (pName p)) ps)), None,
         \<lparr>skData = concat (map (encPoint days \<circ> stored isReverse zero) (filter (\<lambda>p. \<not> matchesPattern pats (pName p)) ps)), skLimit = None\<rparr>)"
proof -
  let ?r = "SetZeroVersion zero (freshReader content isReverse)"
  have loop: "readLoop days (pointsBody days (pointsBlacklist pats) isReverse) ?r s = foldPoints (pointsStep days (pointsBlacklist pats) isReverse) (map (stored isReverse zero) ps) s" for s
    unfolding stored_reader [of zero content isReverse, symmetric]
    by (rule readLoop_foldPoints)
      (use assms(1) in \<open>auto simp: SetZeroVersion_def freshReader_def pointsBody_def pointsStep_def accessors_encPoint\<close>)
  have fits: "\<forall>q \<in> set (map (stored isReverse zero) ps). fitsLine days q"
    using assms(1) by (simp add: dataFile_def fitsLine_stored)
  have flt: "filter (\<lambda>q. \<not> blacklisted (pointsBlacklist pats) isReverse (pName q)) (map (stored isReverse zero) ps)
      = map (stored isReverse zero) (filter (\<lambda>p. \<not> matchesPattern pats (pName p)) ps)"
    by (simp add: filter_map comp_def blacklisted_stored)
  from pointsBody_fold [OF fits, of "\<lparr>skData = [], skLimit = None\<rparr>" "pointsBlacklist pats" isReverse 0 "GetWriteBuffer newWriteBuffer"]
  obtain wb' where "foldPoints (pointsStep days (pointsBlacklist pats) isReverse) (map (stored isReverse zero) ps) (0, GetWriteBuffer newWriteBuffer, \<lparr>skData = [], skLimit = None\<rparr>)
     = Some (Inr (of_nat (length (filter (\<lambda>p. \<not> matchesPattern pats (pName p)) ps)), wb',
         \<lparr>skData = concat (map (encPoint days \<circ> stored isReverse zero) (filter (\<lambda>p. \<not> matchesPattern pats (pName p)) ps)), skLimit = None\<rparr>))"
    unfolding flt by auto
  then show ?thesis
    unfolding parseAndFilter_def assms(2) sum.case loop by simp
qed

text \<open>
  C10. From a data file, possibly cut off in its last record, the points uploader sends exactly
  the complete records whose untagged name matches no ignored pattern, reversed and with the
  version zeroed as configured, and counts them.
\<close>

theorem points_rows:
  assumes "dataFile days ps content" "open_file fn = Inr content" "\<not> HasSuffix fn (str ''.lz4'')"
  shows "parseAndFilter days open_file lz4 (pointsBlacklist pats) isReverse zero fn \<lparr>skData = [], skLimit = None\<rparr>
     = Some (of_nat (length (filter (\<lambda>p. \<not> matchesPattern pats (pName p)) ps)), None,
         \<lparr>skData = concat (map (encPoint days \<circ> stored isReverse zero) (filter (\<lambda>p. \<not> matchesPattern pats (pName p)) ps)), skLimit = None\<rparr>)"
  using assms(1) NewReader_fresh [of fn open_file content, OF assms(3,2)] by (rule parseAndFilter_rows)

theorem points_rows_witness:
  "parseAndFilter (\<lambda>_. 1) (\<lambda>_. Inr (encPoint (\<lambda>_. 1) \<lparr>pName = str ''a.b'', pValue = 1, pTime = 86400, pVersion = 2\<rparr>) :: nat + bytes) id
       (pointsBlacklist [str ''a.*'']) False False (str ''f'') \<lparr>skData = [], skLimit = None\<rparr>
     = Some (of_nat (length (filter (\<lambda>p. \<not> matchesPattern [str ''a.*''] (pName p)) [\<lparr>pName = str ''a.b'', pValue = 1, pTime = 86400, pVersion = 2\<rparr>])), None,
         \<lparr>skData = concat (map (encPoint (\<lambda>_. 1) \<circ> stored False False)
            (filter (\<lambda>p. \<not> matchesPattern [str ''a.*''] (pName p)) [\<lparr>pName = str ''a.b'', pValue = 1, pTime = 86400, pVersion = 2\<rparr>])), skLimit = None\<rparr>)"
  by (rule points_rows)
    (auto simp: dataFile_def fitsLine_def encPoint_def encString_def putUvarint_small lineSize_def HasSuffix_def intro: exI [of _ "[]"])

subsection \<open>Uploaders that write one row per new key\<close>

text \<open>
  The contract of a parser loop that writes a row for each relevant point whose key is neither known
  nor seen before in the file.
\<close>

locale keyed_rows =
  fixes step :: "point \<Rightarrow> 's \<Rightarrow> ('r + 's) option"
    and cnt :: "'s \<Rightarrow> uint64"
    and seen :: "'s \<Rightarrow> bytes list"
    and written :: "'s \<Rightarrow> bytes"
    and ok :: "'s \<Rightarrow> bool"
    and valid :: "point \<Rightarrow> bool"
    and relevant :: "point \<Rightarrow> bool"
    and known :: "bytes \<Rightarrow> bool"
    and key :: "point \<Rightarrow> bytes"
    and row :: "point \<Rightarrow> bytes"
  assumes step_skip: "ok s \<Longrightarrow> valid p \<Longrightarrow> \<not> relevant p \<or> known (key p) \<or> key p \<in> set (seen s) \<Longrightarrow> step p s = Some (Inr s)"
    and step_new: "ok s \<Longrightarrow> valid p \<Longrightarrow> relevant p \<Longrightarrow> \<not> known (key p) \<Longrightarrow> key p \<notin> set (seen s) \<Longrightarrow>
       \<exists>s'. step p s = Some (Inr s') \<and> ok s' \<and> cnt s' = cnt s + 1 \<and> seen s' = seen s @ [key p] \<and> written s' = written s @ row p"
begin

definition wrote :: "'s \<Rightarrow> point list \<Rightarrow> 's \<Rightarrow> point list \<Rightarrow> bool" where
  "wrote s ps s' new \<longleftrightarrow> ok s' \<and> cnt s' = cnt s + of_nat (length new)
     \<and> seen s' = seen s @ map key new \<and> written s' = written s @ concat (map row new)
     \<and> distinct (map key new) \<and> set new \<subseteq> set ps
     \<and> key ` set new = {k \<in> key ` {p \<in> set ps. relevant p}. \<not> known k \<and> k \<notin> set (seen s)}"

lemma wrote_skip:
  assumes "wrote s ps s' new" "\<not> relevant p \<or> known (key p) \<or> key p \<in> set (seen s)"
  shows "wrote s (p # ps) s' new"
proof -
  have "{k \<in> key ` {q \<in> set (p # ps). relevant q}. \<not> known k \<and> k \<notin> set (seen s)}
      = {k \<in> key ` {q \<in> set ps. relevant q}. \<not> known k \<and> k \<notin> set (seen s)}" using assms(2) by auto
  with assms(1) show ?thesis unfolding wrote_def by auto
qed

lemma wrote_new:
  assumes "wrote s1 ps s' new" "relevant p" "\<not> known (key p)" "key p \<notin> set (seen s)"
    and s1: "cnt s1 = cnt s + 1" "seen s1 = seen s @ [key p]" "written s1 = written s @ row p"
  shows "wrote s (p # ps) s' (p # new)"
proof -
  have keys: "key ` set new = {k \<in> key ` {p \<in> set ps. relevant p}. \<not> known k \<and> k \<notin> set (seen s1)}"
    using assms(1) by (simp add: wrote_def)
  have "key p \<notin> key ` set new" unfolding keys s1(2) by simp
  moreover have "insert (key p) (key ` set new) = {k \<in> key ` {q \<in> set (p # ps). relevant q}. \<not> known k \<and> k \<notin> set (seen s)}"
    unfolding keys s1(2) using assms(2-4) by auto
  ultimately show ?thesis
    using assms(1) s1 unfolding wrote_def by (auto simp: add.assoc)
qed

lemma rows_written:
  assumes "ok s" "\<forall>p \<in> set ps. valid p"
  shows "\<exists>s' new. foldPoints step ps s = Some (Inr s') \<and> wrote s ps s' new"
  using assms
proof (induction ps arbitrary: s)
  case Nil
  then show ?case by (intro exI [of _ s] exI [of _ "[]"]) (simp add: wrote_def)
next
  case (Cons p ps)
  have rest: "\<forall>p \<in> set ps. valid p" and p: "valid p" using Cons.prems(2) by simp_all
  show ?case
  proof (cases "\<not> relevant p \<or> known (key p) \<or> key p \<in> set (seen s)")
    case True
    with step_skip [OF Cons.prems(1) p] have "step p s = Some (Inr s)" by simp
    moreover obtain s' new where "foldPoints step ps s = Some (Inr s')" "wrote s ps s' new"
      using Cons.IH [OF Cons.prems(1) rest] by blast
    ultimately show ?thesis using wrote_skip [OF _ True] by auto
  next
    case False
    with step_new [OF Cons.prems(1) p] obtain s1 where s1: "step p s = Some (Inr s1)" "ok s1" "cnt s1 = cnt s + 1"
      "seen s1 = seen s @ [key p]" "written s1 = written s @ row p" by auto
    from Cons.IH [OF s1(2) rest] obtain s' new where "foldPoints step ps s1 = Some (Inr s')" "wrote s1 ps s' new" by blast
    with wrote_new [of s1 ps s' new p s] False s1 show ?thesis by (intro exI [of _ s'] exI [of _ "p # new"]) simp
  qed
qed

end

subsection \<open>The series table\<close>

definition pathRow :: "uint16 \<Rightarrow> nat \<Rightarrow> bytes \<Rightarrow> uint32 \<Rightarrow> bytes" where
  "pathRow d level name version = putUint16 d @ putUint32 (of_nat level) @ encString name @ putUint32 version"

definition seriesRow :: "(uint32 \<Rightarrow> uint16) \<Rightarrow> uint32 \<Rightarrow> point \<Rightarrow> bytes" where
  "seriesRow days version p = pathRow (days (pTime p)) (pathLevel (pName p)) (pName p) version"

definition pointKey :: "(uint32 \<Rightarrow> uint16) \<Rightarrow> point \<Rightarrow> bytes" where
  "pointKey days p = dayKey (days (pTime p)) (pName p)"

definition untagged :: "point \<Rightarrow> bool" where
  "untagged p \<longleftrightarrow> cQuest \<notin> set (pName p)"

text \<open>The body of the loop as a function of the point.\<close>

definition seriesStep ::
  "(uint32 \<Rightarrow> uint16) \<Rightarrow> CMap \<Rightarrow> uint32 \<Rightarrow> point \<Rightarrow> uint64 \<times> bytes list \<times> write_buffer \<times> sink \<Rightarrow>
   (uint64 \<times> sink + uint64 \<times> bytes list \<times> write_buffer \<times> sink) option" where
  "seriesStep days existsCache version q s =
     seriesBody existsCache version ((freshReader [] False)\<lparr>rLine := encPoint days q\<rparr>) (pName q) s"

lemma seriesBody_step:
  "rLine r = encPoint days q \<Longrightarrow> seriesBody c version r (pName q) s = seriesStep days c version q s"
  unfolding seriesStep_def seriesBody_def
  using accessors_encPoint(2) [of r days q] accessors_encPoint(2) [of "(freshReader [] False)\<lparr>rLine := encPoint days q\<rparr>" days q]
  by (simp cong: if_cong)

lemma length_pathRow: "length name < 2 * WriteBufferSize \<Longrightarrow> length (pathRow d level name version) \<le> length name + 13"
  using length_encString [of name] by (simp add: pathRow_def)

lemma writePathRow_ok:
  assumes "length (pathRow d level name version) \<le> FreeSize wb"
  shows "writePathRow d level name version wb = Some (appendWb (pathRow d level name version) wb)"
  using assms by (simp add: writePathRow_def pathRow_def WriteUint16_def WriteUint32_def WriteBytes_ok putTo_ok)

abbreviation upOk :: "uint64 \<times> bytes list \<times> write_buffer \<times> sink \<Rightarrow> bool" where
  "upOk s \<equiv> skLimit (snd (snd (snd s))) = None"

abbreviation upWritten :: "uint64 \<times> bytes list \<times> write_buffer \<times> sink \<Rightarrow> bytes" where
  "upWritten s \<equiv> skData (snd (snd (snd s)))"

lemma seriesStep_new:
  assumes "skLimit out = None" "fitsLine days p" "untagged p" "\<not> Exists c (pointKey days p)" "pointKey days p \<notin> set ks"
  shows "\<exists>wb'. seriesStep days c version p (n, ks, wb, out)
     = Some (Inr (n + 1, ks @ [pointKey days p], wb', out\<lparr>skData := skData out @ seriesRow days version p\<rparr>))"
proof -
  let ?wb = "appendWb (seriesRow days version p) (Reset wb)"
  have "Days ((freshReader [] False)\<lparr>rLine := encPoint days p\<rparr>) = Some (days (pTime p))"
    by (rule accessors_encPoint) simp
  moreover have "writePathRow (days (pTime p)) (pathLevel (pName p)) (pName p) version (Reset wb) = Some ?wb"
    unfolding seriesRow_def
    using assms(2) by (intro writePathRow_ok)
      (simp add: fitsLine_def encPoint_def pathRow_def lineSize_def FreeSize_def wbUsed_def WriteBufferSize_def)
  ultimately show ?thesis
    using assms by (auto simp: seriesStep_def seriesBody_def untagged_def pointKey_def Let_def Bytes_def)
qed

interpretation sr: keyed_rows "seriesStep days c version" fst "\<lambda>s. fst (snd s)" upWritten upOk "fitsLine days" untagged
  "Exists c" "pointKey days" "seriesRow days version"
  for days c version
proof unfold_locales
  fix s and p
  assume "upOk s" "fitsLine days p" "\<not> untagged p \<or> Exists c (pointKey days p) \<or> pointKey days p \<in> set (fst (snd s))"
  moreover have "Days ((freshReader [] False)\<lparr>rLine := encPoint days p\<rparr>) = Some (days (pTime p))"
    by (rule accessors_encPoint) simp
  ultimately show "seriesStep days c version p s = Some (Inr s)"
    by (cases s) (auto simp: seriesStep_def seriesBody_def untagged_def pointKey_def IndexByte_None Let_def)
next
  fix s and p
  assume "upOk s" "fitsLine days p" "untagged p" "\<not> Exists c (pointKey days p)" "pointKey days p \<notin> set (fst (snd s))"
  with seriesStep_new [of "snd (snd (snd s))" days p c "fst (snd s)" version "fst s" "fst (snd (snd s))"]
  show "\<exists>s'. seriesStep days c version p s = Some (Inr s') \<and> upOk s' \<and> fst s' = fst s + 1
     \<and> fst (snd s') = fst (snd s) @ [pointKey days p] \<and> upWritten s' = upWritten s @ seriesRow days version p"
    by auto
qed

text \<open>
  The series uploader writes exactly one row for every day and untagged path of the file
  that is not in the cache, and returns their keys as the new series.
\<close>

theorem series_rows:
  assumes "dataFile days ps content" "open_file fn = Inr content" "\<not> HasSuffix fn (str ''.lz4'')"
  shows "\<exists>new. seriesParseFile days open_file lz4 isReverse c version fn \<lparr>skData = [], skLimit = None\<rparr>
       = Some (of_nat (length new), map (pointKey days) new, None,
           \<lparr>skData = concat (map (seriesRow days version) new), skLimit = None\<rparr>)
     \<and> distinct (map (pointKey days) new) \<and> set new \<subseteq> stored isReverse False ` set ps
     \<and> pointKey days ` set new = {k. \<not> Exists c k \<and> (\<exists>p \<in> set ps. untagged p \<and> k = pointKey days (stored isReverse False p))}"
proof -
  let ?s = "(0, [], GetWriteBuffer newWriteBuffer, \<lparr>skData = [], skLimit = None\<rparr>)"
  have loop: "readLoop days (seriesBody c version) (freshReader content isReverse) ?s
      = foldPoints (seriesStep days c version) (map (stored isReverse False) ps) ?s"
    unfolding stored_fresh [of content isReverse, symmetric]
    by (rule readLoop_foldPoints) (use assms(1) in \<open>auto simp: freshReader_def seriesBody_step\<close>)
  have fits: "\<forall>q \<in> set (map (stored isReverse False) ps). fitsLine days q"
    using assms(1) by (simp add: dataFile_def fitsLine_stored)
  from sr.rows_written [OF _ this, of ?s c version] obtain s' new where
    r: "foldPoints (seriesStep days c version) (map (stored isReverse False) ps) ?s = Some (Inr s')"
      "sr.wrote c days version ?s (map (stored isReverse False) ps) s' new" by auto
  obtain wb out where s': "s' = (of_nat (length new), map (pointKey days) new, wb, out)"
      "out = \<lparr>skData = concat (map (seriesRow days version) new), skLimit = None\<rparr>"
    using r(2) by (cases s') (auto simp: sr.wrote_def sink.splits)
  have "untagged (stored isReverse False p) = untagged p" for p by (simp add: untagged_def)
  then have keys: "pointKey days ` set new = {k. \<not> Exists c k \<and> (\<exists>p \<in> set ps. untagged p \<and> k = pointKey days (stored isReverse False p))}"
    using r(2) unfolding sr.wrote_def by auto
  show ?thesis
    unfolding seriesParseFile_def NewReader_fresh [of fn open_file content, OF assms(3,2)] sum.case loop r(1) s'
    using r(2) keys by (intro exI [of _ new]) (simp add: sr.wrote_def)
qed

definition exampleFile :: "point list" where
  "exampleFile = [\<lparr>pName = str ''a.b'', pValue = 1, pTime = 86400, pVersion = 2\<rparr>,
     \<lparr>pName = str ''a.b'', pValue = 3, pTime = 86460, pVersion = 2\<rparr>]"

lemma exampleFile_data: "dataFile (\<lambda>_. 1) exampleFile (concat (map (encPoint (\<lambda>_. 1)) exampleFile))"
  by (auto simp: dataFile_def exampleFile_def fitsLine_def encPoint_def encString_def putUvarint_small lineSize_def intro: exI [of _ "[]"])

theorem series_rows_witness:
  "\<exists>new. seriesParseFile (\<lambda>_. 1) (\<lambda>_. Inr (concat (map (encPoint (\<lambda>_. 1)) exampleFile)) :: nat + bytes) id True NewCMap 9 (str ''f'')
         \<lparr>skData = [], skLimit = None\<rparr>
       = Some (of_nat (length new), map (pointKey (\<lambda>_. 1)) new, None,
           \<lparr>skData = concat (map (seriesRow (\<lambda>_. 1) 9) new), skLimit = None\<rparr>)
     \<and> distinct (map (pointKey (\<lambda>_. 1)) new) \<and> set new \<subseteq> stored True False ` set exampleFile
     \<and> pointKey (\<lambda>_. 1) ` set new = {k. \<not> Exists NewCMap k
          \<and> (\<exists>p \<in> set exampleFile. untagged p \<and> k = pointKey (\<lambda>_. 1) (stored True False p))}"
  by (rule series_rows [OF exampleFile_data]) (simp_all add: HasSuffix_def)

end
