(* ===== verification/Flow.thy ===== *)
theory Flow
  imports Wr_Durable Up_Points Recv_Prometheus
begin

text \<open>
  From the channel of the writer to the rows of the points table, for whatever receivers filled the channel: buffers of whole
  records, packed by the writer into chunk files, plain or LZ4, and read back by the points uploader. \<open>buffers_reach\<close> is the
  general statement; it is applied to requests of the Prometheus and gRPC receivers here and to lines in the root theory.
\<close>

subsection \<open>Records are uniquely decodable\<close>

lemma lePut_inject:
  "putUint64 u = putUint64 u' \<longleftrightarrow> u = u'" "putUint32 v = putUint32 v' \<longleftrightarrow> v = v'"
  by (metis leGet_putUint64) (metis leGet_putUint32)

lemma encString_inject:
  assumes "length s < 2 ^ 64" "length t < 2 ^ 64" "encString s @ xs = encString t @ ys"
  shows "s = t \<and> xs = ys"
proof -
  have "ReadUvarint (encString s @ xs) = Inr (of_nat (length s), s @ xs)" "ReadUvarint (encString t @ ys) = Inr (of_nat (length t), t @ ys)"
    by (simp_all add: encString_def)
  with assms(3) have eq: "(of_nat (length s) :: uint64) = of_nat (length t)" "s @ xs = t @ ys" by simp_all
  have "unat (of_nat n :: uint64) = n" if "n < 2 ^ 64" for n using that by (simp add: unsigned_of_nat take_bit_nat_eq_self)
  with assms(1,2) eq(1) have "length s = length t" by metis
  with eq(2) show ?thesis by simp
qed

definition smallName :: "point \<Rightarrow> bool" where
  "smallName p \<longleftrightarrow> length (pName p) < 2 ^ 64"

lemma encPoint_inject:
  assumes "smallName p" "smallName q" "encPoint days p @ xs = encPoint days q @ ys"
  shows "p = q \<and> xs = ys"
proof -
  from encString_inject [of "pName p" "pName q"] assms have "pName p = pName q"
    and "putUint64 (pValue p) @ putUint32 (pTime p) @ putUint16 (days (pTime p)) @ putUint32 (pVersion p) @ xs
       = putUint64 (pValue q) @ putUint32 (pTime q) @ putUint16 (days (pTime q)) @ putUint32 (pVersion q) @ ys"
    by (simp_all add: smallName_def encPoint_def)
  then have "pName p = pName q \<and> putUint64 (pValue p) = putUint64 (pValue q) \<and> putUint32 (pTime p) = putUint32 (pTime q)
      \<and> putUint32 (pVersion p) = putUint32 (pVersion q) \<and> xs = ys"
    by (simp only: append_eq_append_conv length_lePut) simp
  then show ?thesis unfolding lePut_inject by (auto intro!: point.equality)
qed

lemma records_inject:
  assumes "list_all smallName ps" "list_all smallName qs" "concat (map (encPoint days) ps) = concat (map (encPoint days) qs)"
  shows "ps = qs"
  using assms
proof (induction ps arbitrary: qs)
  case Nil
  then show ?case by (cases qs) simp_all
next
  case (Cons p ps)
  have "qs \<noteq> []" using Cons.prems(3) by auto
  then obtain q qs' where qs: "qs = q # qs'" by (cases qs) simp_all
  have small: "smallName p" "smallName q" "list_all smallName ps" "list_all smallName qs'" using Cons.prems(1,2) by (simp_all add: qs)
  have "encPoint days p @ concat (map (encPoint days) ps) = encPoint days q @ concat (map (encPoint days) qs')"
    using Cons.prems(3) by (simp only: qs list.map concat.simps)
  from encPoint_inject [OF small(1,2) this] Cons.IH [OF small(3,4)] have "p = q" "ps = qs'" by simp_all
  with qs show ?case by simp
qed

lemma length_encPoint_name: "length (pName p) \<le> length (encPoint days p)"
  by (simp add: encPoint_def encString_def)

lemma wholeBuffer_points:
  assumes "wholeBuffer days wb"
  shows "\<exists>ps. wbBody wb = concat (map (encPoint days) ps) \<and> (\<forall>p \<in> set ps. fitsLine days p \<and> smallName p)"
proof -
  from assms obtain ps where ps: "wbBody wb = concat (map (encPoint days) ps)" and len: "length (wbBody wb) \<le> WriteBufferSize"
    by (auto simp: wholeBuffer_def whole_def wbUsed_def)
  have "fitsLine days p \<and> smallName p" if "p \<in> set ps" for p
  proof -
    from that obtain xs ys where "ps = xs @ p # ys" by (meson split_list)
    then have "length (encPoint days p) \<le> WriteBufferSize" using len ps by simp
    then show ?thesis using length_encPoint_name [of p days]
      by (simp add: fitsLine_def smallName_def lineSize_def WriteBufferSize_def)
  qed
  with ps show ?thesis by blast
qed

text \<open>Buffers of whole records that together are the encodings of the points hold each some of the points, in order.\<close>

lemma buffers_split:
  assumes "list_all (wholeBuffer days) bs" "concat (map wbBody bs) = concat (map (encPoint days) pts)" "list_all smallName pts"
  shows "\<exists>pss. map wbBody bs = map (\<lambda>ps. concat (map (encPoint days) ps)) pss \<and> concat pss = pts \<and> (\<forall>p \<in> set pts. fitsLine days p)"
proof -
  have "\<exists>pss. map wbBody bs = map (\<lambda>ps. concat (map (encPoint days) ps)) pss \<and> (\<forall>p \<in> set (concat pss). fitsLine days p \<and> smallName p)"
    using assms(1)
  proof (induction bs)
    case (Cons b bs)
    then obtain pss where "map wbBody bs = map (\<lambda>ps. concat (map (encPoint days) ps)) pss" "\<forall>p \<in> set (concat pss). fitsLine days p \<and> smallName p"
      by auto
    moreover from wholeBuffer_points [of days b] Cons.prems obtain ps where
      "wbBody b = concat (map (encPoint days) ps)" "\<forall>p \<in> set ps. fitsLine days p \<and> smallName p" by auto
    ultimately show ?case by (intro exI [of _ "ps # pss"]) auto
  qed simp
  then obtain pss where pss: "map wbBody bs = map (\<lambda>ps. concat (map (encPoint days) ps)) pss"
    "\<forall>p \<in> set (concat pss). fitsLine days p \<and> smallName p" by blast
  have "concat (map (\<lambda>ps. concat (map (encPoint days) ps)) pss) = concat (map (encPoint days) (concat pss))" by (induction pss) simp_all
  with pss(1) assms(2) have "concat (map (encPoint days) (concat pss)) = concat (map (encPoint days) pts)" by simp
  from records_inject [OF _ assms(3) this] pss(2) have "concat pss = pts" by (simp add: list_all_iff)
  with pss show ?thesis by (intro exI [of _ pss]) auto
qed

subsection \<open>Through the writer\<close>

text \<open>
  Ticks of the writer between the buffers it receives: the i-th group comes before the i-th buffer.
\<close>

fun feed :: "wk_event list list \<Rightarrow> write_buffer list \<Rightarrow> wk_event list" where
  "feed [] bs = map Recv bs"
| "feed (t # ts) [] = t @ feed ts []"
| "feed (t # ts) (b # bs) = t @ Recv b # feed ts bs"

lemma received_append [simp]: "received (xs @ ys) = received xs @ received ys"
  by (induction xs rule: received.induct) simp_all

lemma received_feed: "\<forall>t \<in> set ts. received t = [] \<Longrightarrow> received (feed ts bs) = bs"
proof (induction ts bs rule: feed.induct)
  case (1 bs)
  show ?case by (induction bs) simp_all
qed simp_all

lemma good_feed: "\<forall>t \<in> set ts. \<forall>ev \<in> set t. goodEvent ev \<Longrightarrow> \<forall>ev \<in> set (feed ts bs). goodEvent ev"
  by (induction ts bs rule: feed.induct) auto

definition quietTicks :: "wk_event list list \<Rightarrow> bool" where
  "quietTicks ts \<longleftrightarrow> (\<forall>t \<in> set ts. received t = [] \<and> (\<forall>ev \<in> set t. goodEvent ev))"

text \<open>The rows of the points, and the rows the uploader makes of a closed file on disk.\<close>

definition tableRows :: "(uint32 \<Rightarrow> uint16) \<Rightarrow> bytes list \<Rightarrow> bool \<Rightarrow> bool \<Rightarrow> point list \<Rightarrow> bytes" where
  "tableRows days pats isReverse zero pts =
     concat (map (encPoint days \<circ> stored isReverse zero) (filter (\<lambda>p. \<not> matchesPattern pats (pName p)) pts))"

definition rowsOf :: "(uint32 \<Rightarrow> uint16) \<Rightarrow> lz4_env \<Rightarrow> bytes list \<Rightarrow> bool \<Rightarrow> bool \<Rightarrow> bytes \<times> bytes \<Rightarrow> bytes option" where
  "rowsOf days E pats isReverse zero f =
     (case parseAndFilter days (\<lambda>_. Inr (snd f) :: unit + bytes) (fst \<circ> lz4ReadAll E) (pointsBlacklist pats) isReverse zero (fst f)
             \<lparr>skData = [], skLimit = None\<rparr> of
        Some (_, None, out) \<Rightarrow> Some (skData out)
      | _ \<Rightarrow> None)"

text \<open>The reader decompresses exactly the files that the writer compressed: it goes by the name.\<close>

lemma chunkName_lz4: "chunkNamed c fn \<Longrightarrow> HasSuffix fn (str ''.lz4'') \<longleftrightarrow> wcAlgo c = CompAlgoLZ4"
proof (cases "wcAlgo c")
  case CompAlgoNone
  assume "chunkNamed c fn"
  with CompAlgoNone obtain nano where fn: "fn = str ''default.'' @ showInt nano"
    by (auto simp: chunkNamed_def chunkName_def fileExtension_def)
  have "showInt nano \<noteq> []" by (simp add: showInt_def)
  then obtain d x where d: "showInt nano = d @ [x]" by (cases "showInt nano" rule: rev_cases) auto
  have "last (butlast fn) \<noteq> 0x7A"
  proof (cases d rule: rev_cases)
    case Nil
    then show ?thesis by (simp add: fn d str_def)
  next
    case (snoc d' y)
    then show ?thesis using showInt_chars [of y nano] by (auto simp: fn d isDigit_def butlast_append)
  qed
  moreover have "last (butlast fn) = 0x7A" if suffix: "HasSuffix fn (str ''.lz4'')"
  proof -
    from suffix obtain t where "fn = (t @ str ''.lz'') @ str ''4''" by (auto simp: HasSuffix_iff str_def)
    then show ?thesis by (simp add: butlast_append str_def)
  qed
  ultimately show ?thesis using CompAlgoNone by auto
next
  case CompAlgoLZ4
  assume "chunkNamed c fn"
  with CompAlgoLZ4 show ?thesis by (auto simp: chunkNamed_def chunkName_def fileExtension_def HasSuffix_iff)
qed

lemma rowsOf_records:
  assumes "\<forall>p \<in> set ps. fitsLine days p" "blockCodec (wcLz4 c)" "chunkNamed c fn" "closedAs c content (concat (map (encPoint days) ps))"
  shows "rowsOf days (wcLz4 c) pats isReverse zero (fn, content)
     = Some (concat (map (encPoint days \<circ> stored isReverse zero) (filter (\<lambda>p. \<not> matchesPattern pats (pName p)) ps)))"
proof -
  let ?plain = "concat (map (encPoint days) ps)"
  have df: "dataFile days ps ?plain"
    using assms(1) by (auto simp: dataFile_def intro: exI [of _ "[]"])
  have "plainContent c content = ?plain" by (rule closedAs_plain [OF assms(2,4)])
  then have "NewReader (\<lambda>_. Inr content :: unit + bytes) (fst \<circ> lz4ReadAll (wcLz4 c)) fn isReverse = Inr (freshReader ?plain isReverse)"
    using chunkName_lz4 [OF assms(3)] by (simp add: NewReader_def freshReader_def plainContent_def split: comp_algo.splits)
  from parseAndFilter_rows [OF df this, of pats zero] show ?thesis by (simp add: rowsOf_def)
qed

lemma rows_of_files:
  assumes "list_all2 (\<lambda>f ps. chunkNamed c (fst f) \<and> closedAs c (snd f) (concat (map (encPoint days) ps))) files pss"
    and "\<forall>p \<in> set (concat pss). fitsLine days p" "blockCodec (wcLz4 c)"
  shows "map (rowsOf days (wcLz4 c) pats isReverse zero) files = map (\<lambda>ps. Some (tableRows days pats isReverse zero ps)) pss"
  using assms(1,2)
proof (induction rule: list_all2_induct)
  case (Cons f files ps pss)
  then show ?case using rowsOf_records [of ps days c "fst f" "snd f", OF _ assms(3)] by (simp add: comp_def tableRows_def)
qed simp

lemma tableRows_concat: "concat (map (tableRows days pats isReverse zero) pss) = tableRows days pats isReverse zero (concat pss)"
  by (induction pss) (simp_all add: tableRows_def)

lemma groups_split:
  "concat groups = bs \<Longrightarrow> map wbBody bs = map enc pss \<Longrightarrow> \<exists>hs. map (map wbBody) groups = map (map enc) hs \<and> concat hs = pss"
proof (induction groups arbitrary: bs pss)
  case (Cons g groups)
  let ?n = "length g"
  have e: "map wbBody g @ map wbBody (concat groups) = map enc pss" using Cons.prems by auto
  have "map wbBody g = map enc (take ?n pss)" using arg_cong [OF e, of "take ?n"] by (simp add: take_map)
  moreover have "map wbBody (concat groups) = map enc (drop ?n pss)" using arg_cong [OF e, of "drop ?n"] by (simp add: drop_map)
  with Cons.IH [OF refl, of "drop ?n pss"] obtain hs where "map (map wbBody) groups = map (map enc) hs" "concat hs = drop ?n pss" by blast
  ultimately show ?case by (intro exI [of _ "take ?n pss # hs"]) simp
qed simp

lemma buffers_reach:
  assumes "list_all (wholeBuffer days) bs" "concat (map wbBody bs) = concat (map (encPoint days) pts)" "list_all smallName pts"
    and "goodTries tries" "quietTicks ts" "confirmsOk bs st" "blockCodec (wcLz4 c)"
  shows "\<exists>w rows. workerRun c now tries (feed ts bs) st = Some (w, fold confirmOne bs st)
     \<and> map (rowsOf days (wcLz4 c) pats isReverse zero) (wkClosed w) = map Some rows \<and> concat rows = tableRows days pats isReverse zero pts"
proof -
  have rcv: "received (feed ts bs) = bs" and good: "\<forall>ev \<in> set (feed ts bs). goodEvent ev"
    using assms(5) received_feed [of ts] good_feed [of ts] by (simp_all add: quietTicks_def)
  from workerRun_groups [OF assms(4) good, of st c now] assms(6) obtain w groups where
    w: "workerRun c now tries (feed ts bs) st = Some (w, fold confirmOne bs st)" "concat groups = bs" "list_all2 (holdsGroup c) (wkClosed w) groups"
    unfolding rcv by blast
  from buffers_split [OF assms(1-3)] obtain pss where
    pss: "map wbBody bs = map (\<lambda>ps. concat (map (encPoint days) ps)) pss" "concat pss = pts" "\<forall>p \<in> set pts. fitsLine days p" by blast
  from groups_split [OF w(2) pss(1)] obtain hs where
    hs: "map (map wbBody) groups = map (map (\<lambda>ps. concat (map (encPoint days) ps))) hs" "concat hs = pss" by blast
  have "concat (map (\<lambda>ps. concat (map (encPoint days) ps)) h) = concat (map (encPoint days) (concat h))" for h by (induction h) simp_all
  then have "map bodies groups = map (\<lambda>h. concat (map (encPoint days) (concat h))) hs"
    using arg_cong [OF hs(1), of "map concat"] by (simp add: bodies_def [abs_def] comp_def)
  then have "list_all2 (\<lambda>f ps. chunkNamed c (fst f) \<and> closedAs c (snd f) (concat (map (encPoint days) ps))) (wkClosed w) (map concat hs)"
    using w(3) by (auto simp: list_all2_conv_all_nth holdsGroup_def dest: map_eq_imp_length_eq) (metis length_map nth_map)
  moreover have "concat (map concat hs) = pts"
    using pss(2) hs(2) by (induction hs arbitrary: pss pts) auto
  ultimately have "map (rowsOf days (wcLz4 c) pats isReverse zero) (wkClosed w) = map Some (map (tableRows days pats isReverse zero) (map concat hs))"
    "concat (map (tableRows days pats isReverse zero) (map concat hs)) = tableRows days pats isReverse zero pts"
    using rows_of_files [of c days "wkClosed w" "map concat hs" pats isReverse zero] pss(3) assms(7)
    by (simp_all only: tableRows_concat) (simp add: comp_def)
  with w(1) show ?thesis by blast
qed

subsection \<open>Prometheus requests\<close>

lemma smallName_itemOut: "list_all smallName (itemOut now x)"
  by (simp add: itemOut_def itemPoint_def smallName_def acceptsName_def WriteBufferSize_def split: prod.split)

lemma smallName_promPoints: "list_all smallName (concat (map (promPoints b now) xs))"
  using smallName_itemOut by (fastforce simp: list_all_iff promPoints_def split: if_splits)

lemma confirmsOk_quiet: "list_all (\<lambda>wb. wbWg wb = None) bs \<Longrightarrow> confirmsOk bs st"
  by (induction bs) (simp_all add: confirmsOk_def)


lemma exampleSeries_name: "nameLenOk (length (taggedPath (promMetric (fst exampleSeries))))"
proof -
  have "promMetric (fst exampleSeries)
      = [str ''up'', Query (str ''dc''), Query (str ''eu''), Query (str ''job''), Query (str ''api server'')]"
    by (simp add: promMetric_def exampleSeries_def swapFirst_def escapedPairs_def)
  then show ?thesis
    using length_Query_le [of "str ''dc''"] length_Query_le [of "str ''eu''"] length_Query_le [of "str ''job''"]
      length_Query_le [of "str ''api server''"]
    by (simp add: length_taggedPath_from nameLenOk_def WriteBufferSize_def)
qed


subsection \<open>gRPC requests\<close>

lemma smallName_grpcOut:
  assumes "\<forall>x \<in> set xs. grpcValid now b x"
  shows "list_all smallName (concat (map (grpcOut now b) xs))"
  using assms by (fastforce simp: list_all_iff grpcOut_def grpcValid_def smallName_def WriteBufferSize_def split: if_splits prod.splits)

lemma confirmsOk_own:
  assumes "\<forall>x \<in> set bs. ownBuffer x" "length bs \<le> wgCount st 0"
  shows "confirmsOk bs st"
  unfolding confirmsOk_def
proof
  fix g
  show "length (filter (\<lambda>b. wbWg b = Some g) bs) \<le> wgCount st g"
  proof (cases g)
    case 0
    with assms(2) show ?thesis by (blast intro: order_trans [OF length_filter_le])
  next
    case (Suc g')
    then have "filter (\<lambda>b. wbWg b = Some g) bs = []" using assms(1) by (auto simp: filter_empty_conv ownBuffer_def)
    then show ?thesis by simp
  qed
qed

text \<open>
  C5. A confirmed gRPC request reaches the points table and is answered: the marshalled payload
  of the client is decoded and stored, the writer packs its buffers into chunk files, plain or
  LZ4, and confirms them, the waiting call returns without an error if at least one point was
  accepted, and the points uploader reads back exactly the rows of the accepted points, in
  order.
\<close>

theorem grpc_reaches_clickhouse:
  assumes "okPayload (Some ms)" "payloadSize (Some ms) < 2 ^ 63"
    and "grpcValidate env (baseTags b) (map Some ms) = Some (Inr vs)" "\<forall>x \<in> set (grpcItems vs). grpcValid now b x" "writeChan b = []"
    and "goodTries tries" "quietTicks ts" "blockCodec (wcLz4 c)"
  shows "\<exists>data sy1 b' w sy2 rows. marshalPayload (Some ms) = Some data
     \<and> carbonHandler env (\<lambda>_. SelSend) now True data sy b = Some (Inr (Waiting, sy1, b'))
     \<and> workerRun c start tries (feed ts (writeChan b')) sy1 = Some (w, sy2)
     \<and> waitResult sy2 = (if concat (map (grpcOut now b) (grpcItems vs)) = [] then None else Some None)
     \<and> map (rowsOf (envDays env) (wcLz4 c) pats isReverse zero) (wkClosed w) = map Some rows
     \<and> concat rows = tableRows (envDays env) pats isReverse zero (concat (map (grpcOut now b) (grpcItems vs)))"
proof -
  let ?pts = "concat (map (grpcOut now b) (grpcItems vs))"
  have m: "marshalPayload (Some ms) = Some (payloadTo (Some ms))"
    unfolding marshalPayload_def by (rule pbPayload.marshalled)
  with pbPayload.roundtrip [OF assms(1,2)] have u: "unmarshalPayload (payloadTo (Some ms)) = Some (Inr (Some ms))"
    by (simp add: marshalPayload_def)
  have "chanOk b" by (simp add: chanOk_def assms(5))
  from doStore_sync [OF assms(3,4) this, of sy] obtain sy1 b' bufs where
    r: "doStore env (\<lambda>_. SelSend) now (Some (map Some ms)) True sy b = Some (Waiting, sy1, b')" "writeChan b' = writeChan b @ bufs"
      "concat (map wbBody bufs) = encPoints env ?pts" "\<forall>wb \<in> set bufs. wbWg wb = Some 0 \<and> wbErrorChan wb = Some 0"
      "list_all (wholeBuffer (envDays env)) bufs" "wgCount sy1 0 = length bufs + (if ?pts = [] then 1 else 0)" "chanBuf sy1 0 = []" by blast
  have own: "\<forall>x \<in> set bufs. ownBuffer x" using r(4) by (simp add: ownBuffer_def)
  have "length bufs \<le> wgCount sy1 0" unfolding r(6) by (rule le_add1)
  note confirms = confirmsOk_own [OF own this]
  from buffers_reach [OF r(5,3) smallName_grpcOut [OF assms(4)] assms(6,7) confirms assms(8), of start pats isReverse zero] obtain w rows where
    w: "workerRun c start tries (feed ts bufs) sy1 = Some (w, fold confirmOne bufs sy1)"
      "map (rowsOf (envDays env) (wcLz4 c) pats isReverse zero) (wkClosed w) = map Some rows" "concat rows = tableRows (envDays env) pats isReverse zero ?pts"
    by blast
  have "wgCount (fold confirmOne bufs sy1) 0 = (if ?pts = [] then 1 else 0)" using fold_confirmOne_own [OF own, of sy1] by (simp only: r(6) diff_add_inverse)
  then have wait: "waitResult (fold confirmOne bufs sy1) = (if ?pts = [] then None else Some None)"
    by (simp only: waitResult_def fold_confirmOne_chan r(7) split: if_split) simp
  have "carbonHandler env (\<lambda>_. SelSend) now True (payloadTo (Some ms)) sy b = Some (Inr (Waiting, sy1, b'))"
    by (simp add: carbonHandler_def StoreSync_def u r(1))
  with m w wait r(2) assms(5) show ?thesis by (metis append_Nil)
qed

theorem grpc_reaches_clickhouse_witness:
  "\<exists>data sy1 b' w sy2 rows. marshalPayload (Some [(str ''a.b'', Some [(5, 6), (7, 8)])]) = Some data
     \<and> carbonHandler exampleEnv (\<lambda>_. SelSend) 9 True data exampleStore zeroBase = Some (Inr (Waiting, sy1, b'))
     \<and> workerRun (exampleWkConf 1 CompAlgoLZ4) 0 [exampleTry 1] (feed [[IdleFlush], [Tick 0 99 [exampleTry 6]]] (writeChan b')) sy1 = Some (w, sy2)
     \<and> waitResult sy2 = (if concat (map (grpcOut 9 zeroBase) (grpcItems [(str ''a.b'', [(5, 6), (7, 8)])])) = [] then None else Some None)
     \<and> map (rowsOf (envDays exampleEnv) (wcLz4 (exampleWkConf 1 CompAlgoLZ4)) [str ''b.*''] True False) (wkClosed w) = map Some rows
     \<and> concat rows = tableRows (envDays exampleEnv) [str ''b.*''] True False
         (concat (map (grpcOut 9 zeroBase) (grpcItems [(str ''a.b'', [(5, 6), (7, 8)])])))"
proof (rule grpc_reaches_clickhouse)
  show "okPayload (Some [(str ''a.b'', Some [(5, 6), (7, 8)])])"
    by (simp add: okPayload_def okMetric_def okPoint_def elems_def)
  show "payloadSize (Some [(str ''a.b'', Some [(5, 6), (7, 8)])]) < 2 ^ 63"
    by (simp add: payloadSize_def metricSize_def pointSize_def stringSize_def lenSize_def floatZero_def elems_def sov.simps)
qed (simp_all add: grpcItems_def grpcValid_def zeroBase_def Graphite_def DisabledTagConfig_def WriteBufferSize_def
    exampleTry_def quietTicks_def exampleLz4_codec)

end
