(* ===== verification/Proto_Read.thy ===== *)
theory Proto_Read
  imports Proto_Prom
begin

text \<open>
  The other messages of the generated code of \<^verbatim>\<open>helper/prompb\<close>: sets of labels (\<open>Labels\<close>) and the messages of remote reads, \<open>LabelMatcher\<close>,
  \<open>Query\<close>, \<open>QueryResult\<close>, \<open>ReadRequest\<close> and \<open>ReadResponse\<close>. Every one of them meets the contract of \<open>message_codec\<close>.
\<close>

text \<open>The type of a matcher is a 32-bit enumeration; its fields are type, name and value.\<close>

type_synonym prom_matcher = "32 word \<times> bytes \<times> bytes"

text \<open>Start, end and matchers.\<close>

type_synonym prom_query = "uint64 \<times> uint64 \<times> prom_matcher list"

subsection \<open>Encoding\<close>

definition labelsSize :: "label list \<Rightarrow> nat" where
  "labelsSize xs = sum_list (map (lenSize \<circ> labelSize) xs)"

definition labelsTo :: "label list \<Rightarrow> bytes" where
  "labelsTo xs = concat (map (messageField 0x0a labelSize labelTo) xs)"

definition matcherSize :: "prom_matcher \<Rightarrow> nat" where
  "matcherSize x = (case x of (t, name, v) \<Rightarrow> (if t = 0 then 0 else 1 + sov (scast t)) + stringSize name + stringSize v)"

definition matcherTo :: "prom_matcher \<Rightarrow> bytes" where
  "matcherTo x = (case x of (t, name, v) \<Rightarrow>
     (if t = 0 then [] else 0x08 # encodeVarint (scast t)) @ stringField 0x12 name @ stringField 0x1a v)"

definition querySize :: "prom_query \<Rightarrow> nat" where
  "querySize q = (case q of (start, stop, ms) \<Rightarrow>
     (if start = 0 then 0 else 1 + sov start) + (if stop = 0 then 0 else 1 + sov stop) + sum_list (map (lenSize \<circ> matcherSize) ms))"

definition queryTo :: "prom_query \<Rightarrow> bytes" where
  "queryTo q = (case q of (start, stop, ms) \<Rightarrow>
     (if start = 0 then [] else 0x08 # encodeVarint start) @ (if stop = 0 then [] else 0x10 # encodeVarint stop)
     @ concat (map (messageField 0x1a matcherSize matcherTo) ms))"

definition queryResultSize :: "prom_series list \<Rightarrow> nat" where
  "queryResultSize xs = sum_list (map (lenSize \<circ> timeSeriesSize) xs)"

definition queryResultTo :: "prom_series list \<Rightarrow> bytes" where
  "queryResultTo xs = concat (map (messageField 0x0a timeSeriesSize timeSeriesTo) xs)"

definition readRequestSize :: "prom_query list \<Rightarrow> nat" where
  "readRequestSize qs = sum_list (map (lenSize \<circ> querySize) qs)"

definition readRequestTo :: "prom_query list \<Rightarrow> bytes" where
  "readRequestTo qs = concat (map (messageField 0x0a querySize queryTo) qs)"

definition readResponseSize :: "prom_series list list \<Rightarrow> nat" where
  "readResponseSize rs = sum_list (map (lenSize \<circ> queryResultSize) rs)"

definition readResponseTo :: "prom_series list list \<Rightarrow> bytes" where
  "readResponseTo rs = concat (map (messageField 0x0a queryResultSize queryResultTo) rs)"

subsection \<open>Decoding\<close>

definition labelsField :: "label list field_handler" where
  "labelsField f wt l r m =
     (if f = 1 then lenField wt l r (\<lambda>bs. map_option (map_sum id (\<lambda>x. m @ [x])) (unmarshalLabel bs)) else UnknownField)"

definition unmarshalLabels :: "bytes \<Rightarrow> (proto_error + label list) option" where
  "unmarshalLabels = decodeMessage labelsField []"

definition matcherField :: "prom_matcher field_handler" where
  "matcherField f wt l r m =
     (if f = 1 then varintField wt r (\<lambda>t. (t, snd m))
      else if f = 2 then lenField wt l r (\<lambda>bs. Some (Inr (fst m, bs, snd (snd m))))
      else if f = 3 then lenField wt l r (\<lambda>bs. Some (Inr (fst m, fst (snd m), bs)))
      else UnknownField)"

definition unmarshalMatcher :: "bytes \<Rightarrow> (proto_error + prom_matcher) option" where
  "unmarshalMatcher = decodeMessage matcherField (0, [], [])"

definition queryField :: "prom_query field_handler" where
  "queryField f wt l r m =
     (if f = 1 then varintField wt r (\<lambda>t. (t, snd m))
      else if f = 2 then varintField wt r (\<lambda>t. (fst m, t, snd (snd m)))
      else if f = 3 then lenField wt l r (\<lambda>bs. map_option (map_sum id (\<lambda>x. (fst m, fst (snd m), snd (snd m) @ [x]))) (unmarshalMatcher bs))
      else UnknownField)"

definition unmarshalQuery :: "bytes \<Rightarrow> (proto_error + prom_query) option" where
  "unmarshalQuery = decodeMessage queryField (0, 0, [])"

definition queryResultField :: "prom_series list field_handler" where
  "queryResultField f wt l r m =
     (if f = 1 then lenField wt l r (\<lambda>bs. map_option (map_sum id (\<lambda>x. m @ [x])) (unmarshalTimeSeries bs)) else UnknownField)"

definition unmarshalQueryResult :: "bytes \<Rightarrow> (proto_error + prom_series list) option" where
  "unmarshalQueryResult = decodeMessage queryResultField []"

definition readRequestField :: "prom_query list field_handler" where
  "readRequestField f wt l r m =
     (if f = 1 then lenField wt l r (\<lambda>bs. map_option (map_sum id (\<lambda>x. m @ [x])) (unmarshalQuery bs)) else UnknownField)"

definition unmarshalReadRequest :: "bytes \<Rightarrow> (proto_error + prom_query list) option" where
  "unmarshalReadRequest = decodeMessage readRequestField []"

definition readResponseField :: "prom_series list list field_handler" where
  "readResponseField f wt l r m =
     (if f = 1 then lenField wt l r (\<lambda>bs. map_option (map_sum id (\<lambda>x. m @ [x])) (unmarshalQueryResult bs)) else UnknownField)"

definition unmarshalReadResponse :: "bytes \<Rightarrow> (proto_error + prom_series list list) option" where
  "unmarshalReadResponse = decodeMessage readResponseField []"

subsection \<open>Messages with one repeated field\<close>

text \<open>Four of the messages are a repeated field with tag 1; the contract of its elements gives theirs.\<close>

locale repeated_message = message_codec msgSize enc dec ok
  for msgSize :: "'m \<Rightarrow> nat" and enc dec ok +
  fixes listSize :: "'m list \<Rightarrow> nat" and listTo :: "'m list \<Rightarrow> bytes" and listField :: "'m list field_handler"
  assumes listSize_def: "listSize ms = sum_list (map (lenSize \<circ> msgSize) ms)"
    and listTo_def: "listTo ms = concat (map (messageField 0x0a msgSize enc) ms)"
    and listField_one: "listField 1 wt l r acc = lenField wt l r (\<lambda>bs. map_option (map_sum id (\<lambda>x. acc @ [x])) (dec bs))"
begin

lemma list_codec: "message_codec listSize listTo (decodeMessage listField []) (list_all ok)"
proof unfold_locales
  fix ms
  show "listSize ms = length (listTo ms)" by (simp only: listSize_def listTo_def fields_size [where tag = "0x0a"])
  show "decodeMessage listField [] (listTo ms) = Some (Inr ms)" if "list_all ok ms" "length (listTo ms) < 2 ^ 63"
    using repeated [of "0x0a" 1 listField "length (listTo ms)" "\<lambda>x m. m @ [x]" ms "[]" "[]"] that
    by (simp add: listTo_def listField_one fold_snoc list_all_iff decodeMessage_def)
qed

end

interpretation rpLabels: repeated_message labelSize labelTo unmarshalLabel "\<lambda>_. True" labelsSize labelsTo labelsField
  by unfold_locales (simp_all add: labelsSize_def labelsTo_def labelsField_def)

interpretation pbLabels: message_codec labelsSize labelsTo unmarshalLabels "list_all (\<lambda>_. True)"
  unfolding unmarshalLabels_def by (rule rpLabels.list_codec)

interpretation rpQueryResult: repeated_message timeSeriesSize timeSeriesTo unmarshalTimeSeries okSeries queryResultSize queryResultTo queryResultField
  by unfold_locales (simp_all add: queryResultSize_def queryResultTo_def queryResultField_def)

interpretation pbQueryResult: message_codec queryResultSize queryResultTo unmarshalQueryResult "list_all okSeries"
  unfolding unmarshalQueryResult_def by (rule rpQueryResult.list_codec)

interpretation rpReadResponse: repeated_message queryResultSize queryResultTo unmarshalQueryResult "list_all okSeries"
    readResponseSize readResponseTo readResponseField
  by unfold_locales (simp_all add: readResponseSize_def readResponseTo_def readResponseField_def)

interpretation pbReadResponse: message_codec readResponseSize readResponseTo unmarshalReadResponse "list_all (list_all okSeries)"
  unfolding unmarshalReadResponse_def by (rule rpReadResponse.list_codec)

subsection \<open>Matchers and queries\<close>

lemma tagOf_1a [simp]: "tagOf 0x1a 3 2"
  by (simp add: tagOf_def fieldNumber_def)

lemma ucast_scast_32: "ucast (scast (t :: 32 word) :: uint64) = t"
  by (rule bit_eqI) (simp add: bit_simps)

lemma unmarshalMatcher_to:
  assumes "length (matcherTo x) < 2 ^ 63"
  shows "unmarshalMatcher (matcherTo x) = Some (Inr x)"
proof -
  obtain t name v where x: "x = (t, name, v)" by (rule prod_cases3)
  let ?l = "length (matcherTo x)" let ?n = "stringField 0x12 name @ stringField 0x1a v"
  have to: "matcherTo x = (if t = 0 then [] else 0x08 # encodeVarint (scast t)) @ ?n" by (simp add: matcherTo_def x)
  have "decodeLoop matcherField ?l (0, [], []) (matcherTo x) = decodeLoop matcherField ?l (t, [], []) ?n"
    using decodeLoop_varint [of "0x08" 1 matcherField ?l "scast t" ?n "(0, [], [])" "\<lambda>t. (t, [], [])"]
    by (auto simp: to matcherField_def encodeVarint_eq ucast_scast_32)
  also have "\<dots> = decodeLoop matcherField ?l (t, name, []) (stringField 0x1a v)"
    using decodeLoop_string [of "0x12" 2 matcherField ?l "\<lambda>s m. (fst m, s, snd (snd m))" name "stringField 0x1a v" "(t, [], [])"] assms
    by (auto simp: to matcherField_def)
  also have "\<dots> = Some (Inr x)"
    using decodeLoop_string [of "0x1a" 3 matcherField ?l "\<lambda>s m. (fst m, fst (snd m), s)" v "[]" "(t, name, [])"] assms
    by (auto simp: matcherField_def to) (auto simp: x)
  finally show ?thesis by (simp add: unmarshalMatcher_def decodeMessage_def)
qed

interpretation pbMatcher: message_codec matcherSize matcherTo unmarshalMatcher "\<lambda>_. True"
proof unfold_locales
  fix x
  show "matcherSize x = length (matcherTo x)"
    using stringSize_eq [of "fst (snd x)" "0x12"] stringSize_eq [of "snd (snd x)" "0x1a"]
    by (cases x) (simp add: matcherSize_def matcherTo_def sov_eq encodeVarint_eq)
  show "length (matcherTo x) < 2 ^ 63 \<Longrightarrow> unmarshalMatcher (matcherTo x) = Some (Inr x)" by (rule unmarshalMatcher_to)
qed

lemma fold_snoc_third: "fold (\<lambda>x m. (fst m, fst (snd m), snd (snd m) @ [x])) xs (a, b, ys) = (a, b, ys @ xs)"
  by (induction xs arbitrary: ys) simp_all

lemma unmarshalQuery_to:
  assumes "length (queryTo q) < 2 ^ 63"
  shows "unmarshalQuery (queryTo q) = Some (Inr q)"
proof -
  obtain start stop ms where q: "q = (start, stop, ms)" by (rule prod_cases3)
  let ?l = "length (queryTo q)" let ?m = "concat (map (messageField 0x1a matcherSize matcherTo) ms)"
  let ?s = "(if stop = 0 then [] else 0x10 # encodeVarint stop) @ ?m"
  have to: "queryTo q = (if start = 0 then [] else 0x08 # encodeVarint start) @ ?s" by (simp add: queryTo_def q)
  have "decodeLoop queryField ?l (0, 0, []) (queryTo q) = decodeLoop queryField ?l (start, 0, []) ?s"
    using decodeLoop_varint [of "0x08" 1 queryField ?l start ?s "(0, 0, [])" "\<lambda>t. (t, 0, [])"]
    by (auto simp: to queryField_def encodeVarint_eq)
  also have "\<dots> = decodeLoop queryField ?l (start, stop, []) ?m"
    using decodeLoop_varint [of "0x10" 2 queryField ?l stop ?m "(start, 0, [])" "\<lambda>t. (start, t, [])"]
    by (auto simp: queryField_def encodeVarint_eq)
  also have "\<dots> = Some (Inr q)"
    using pbMatcher.repeated [of "0x1a" 3 queryField ?l "\<lambda>x m. (fst m, fst (snd m), snd (snd m) @ [x])" ms "[]" "(start, stop, [])"] assms
    by (simp add: queryField_def fold_snoc_third q) (simp add: to [unfolded q])
  finally show ?thesis by (simp add: unmarshalQuery_def decodeMessage_def)
qed

interpretation pbQuery: message_codec querySize queryTo unmarshalQuery "\<lambda>_. True"
proof unfold_locales
  fix q
  show "querySize q = length (queryTo q)"
    by (cases q) (simp add: querySize_def queryTo_def sov_eq encodeVarint_eq pbMatcher.fields_size [where tag = "0x1a"])
  show "length (queryTo q) < 2 ^ 63 \<Longrightarrow> unmarshalQuery (queryTo q) = Some (Inr q)" by (rule unmarshalQuery_to)
qed

interpretation rpReadRequest: repeated_message querySize queryTo unmarshalQuery "\<lambda>_. True" readRequestSize readRequestTo readRequestField
  by unfold_locales (simp_all add: readRequestSize_def readRequestTo_def readRequestField_def)

interpretation pbReadRequest: message_codec readRequestSize readRequestTo unmarshalReadRequest "list_all (\<lambda>_. True)"
  unfolding unmarshalReadRequest_def by (rule rpReadRequest.list_codec)

subsection \<open>Round trips\<close>

lemma read_request_roundtrip:
  "readRequestSize qs < 2 ^ 63 \<Longrightarrow> Option.bind (marshal readRequestSize readRequestTo qs) unmarshalReadRequest = Some (Inr qs)"
  by (rule pbReadRequest.roundtrip) (simp_all add: list_all_iff)

lemma read_response_roundtrip:
  "list_all (list_all okSeries) rs \<Longrightarrow> readResponseSize rs < 2 ^ 63 \<Longrightarrow>
     Option.bind (marshal readResponseSize readResponseTo rs) unmarshalReadResponse = Some (Inr rs)"
  by (rule pbReadResponse.roundtrip)

text \<open>
  \<^verbatim>\<open>remote.proto\<close> gives a query a fourth field, the hints; the generated code does not have it, and drops it.
\<close>

lemma query_hints_dropped: "unmarshalQuery [0x08, 5, 0x22, 1, 7] = Some (Inr (5, 0, []))"
proof -
  have "skipWire [0x22, 1, 7] = Some (Inr 3)" by (subst skipWire.simps) (simp add: Let_def wrap64_def)
  then have "decodeLoop queryField 5 (5, 0, []) [0x22, 1, 7] = Some (Inr (5, 0, []))"
    by (subst decodeLoop.simps) (simp add: Let_def fieldNumber_def queryField_def wrap64_def decodeLoop.simps [of _ _ _ "[]"])
  then have "decodeLoop queryField 5 (0, 0, []) [0x08, 5, 0x22, 1, 7] = Some (Inr (5, 0, []))"
    by (subst decodeLoop.simps) (simp add: Let_def fieldNumber_def queryField_def varintField_def)
  moreover have "length [0x08, 5, 0x22, 1, 7 :: byte] = 5" by simp
  ultimately show ?thesis unfolding unmarshalQuery_def decodeMessage_def by (simp only:)
qed

end
