(* ===== verification/Files.thy ===== *)
theory Files
  imports Prelude "HOL-Library.AList" "HOL-Library.Multiset"
begin

text \<open>
  \<^verbatim>\<open>writer/link.go\<close> and \<^verbatim>\<open>writer/cleanup.go\<close> over a model of the data directory. The directory
  holds data files and one subdirectory per upload table; a subdirectory holds symbolic links to
  the data files, renamed with a leading underscore once the table has the file. Every system
  call may also fail for a reason outside the model (permissions, disk): which calls of an
  operation do is its argument \<open>fails\<close>.
\<close>

subsection \<open>The file system\<close>

datatype dir_entry = Symlink bytes | Regular

record fs =
  fsFiles :: "(bytes \<times> bytes) list"
  fsDirs :: "(bytes \<times> (bytes \<times> dir_entry) list) list"

text \<open>Paths below the data directory: \<open>Join(d, fn)\<close> and \<open>Join(d, t, fn)\<close>.\<close>

datatype path = Top bytes | Sub bytes bytes

datatype syscall = SysStat path | SysEval path | SysMkdir bytes | SysSymlink path | SysRemove path | SysRename path | SysReadDir "bytes option" | SysOpen bytes

type_synonym faults = "syscall \<Rightarrow> bool"

datatype fs_error = PathError syscall | EmptyTables

datatype stat_result = StatOk | StatNotExist | StatError

definition fileOf :: "fs \<Rightarrow> bytes \<Rightarrow> bytes option" where
  "fileOf s fn = map_of (fsFiles s) fn"

definition dirOf :: "fs \<Rightarrow> bytes \<Rightarrow> (bytes \<times> dir_entry) list option" where
  "dirOf s t = map_of (fsDirs s) t"

definition entryOf :: "fs \<Rightarrow> bytes \<Rightarrow> bytes \<Rightarrow> dir_entry option" where
  "entryOf s t fn = Option.bind (dirOf s t) (\<lambda>es. map_of es fn)"

definition topExists :: "fs \<Rightarrow> bytes \<Rightarrow> bool" where
  "topExists s fn \<longleftrightarrow> fileOf s fn \<noteq> None \<or> dirOf s fn \<noteq> None"

text \<open>\<open>os.Stat\<close> follows links; below a plain file the error is not "does not exist".\<close>

definition osStat :: "faults \<Rightarrow> fs \<Rightarrow> path \<Rightarrow> stat_result" where
  "osStat fails s p =
     (if fails (SysStat p) then StatError
      else case p of
          Top fn \<Rightarrow> if topExists s fn then StatOk else StatNotExist
        | Sub t fn \<Rightarrow>
            (case dirOf s t of
               None \<Rightarrow> if fileOf s t \<noteq> None then StatError else StatNotExist
             | Some es \<Rightarrow>
                 (case map_of es fn of
                    None \<Rightarrow> StatNotExist
                  | Some Regular \<Rightarrow> StatOk
                  | Some (Symlink target) \<Rightarrow> if topExists s target then StatOk else StatNotExist)))"

text \<open>\<open>filepath.EvalSymlinks\<close> of an entry of a table directory: whether it returns no error.\<close>

definition evalSymlinks :: "faults \<Rightarrow> fs \<Rightarrow> path \<Rightarrow> bool" where
  "evalSymlinks fails s p \<longleftrightarrow> \<not> fails (SysEval p) \<and> osStat (\<lambda>_. False) s p = StatOk"

definition osMkdir :: "faults \<Rightarrow> bytes \<Rightarrow> fs \<Rightarrow> fs \<times> fs_error option" where
  "osMkdir fails t s =
     (if fails (SysMkdir t) \<or> topExists s t then (s, Some (PathError (SysMkdir t)))
      else (s\<lparr>fsDirs := AList.update t [] (fsDirs s)\<rparr>, None))"

definition osSymlink :: "faults \<Rightarrow> bytes \<Rightarrow> bytes \<Rightarrow> bytes \<Rightarrow> fs \<Rightarrow> fs \<times> fs_error option" where
  "osSymlink fails target t fn s =
     (case dirOf s t of
        None \<Rightarrow> (s, Some (PathError (SysSymlink (Sub t fn))))
      | Some es \<Rightarrow>
          if fails (SysSymlink (Sub t fn)) \<or> map_of es fn \<noteq> None then (s, Some (PathError (SysSymlink (Sub t fn))))
          else (s\<lparr>fsDirs := AList.update t (AList.update fn (Symlink target) es) (fsDirs s)\<rparr>, None))"

text \<open>\<open>os.Remove\<close> of a data file or of an entry of a table directory.\<close>

definition osRemove :: "faults \<Rightarrow> path \<Rightarrow> fs \<Rightarrow> fs \<times> fs_error option" where
  "osRemove fails p s =
     (if fails (SysRemove p) then (s, Some (PathError (SysRemove p)))
      else case p of
          Top fn \<Rightarrow>
            if fileOf s fn = None then (s, Some (PathError (SysRemove p)))
            else (s\<lparr>fsFiles := AList.delete fn (fsFiles s)\<rparr>, None)
        | Sub t fn \<Rightarrow>
            (case dirOf s t of
               None \<Rightarrow> (s, Some (PathError (SysRemove p)))
             | Some es \<Rightarrow>
                 if map_of es fn = None then (s, Some (PathError (SysRemove p)))
                 else (s\<lparr>fsDirs := AList.update t (AList.delete fn es) (fsDirs s)\<rparr>, None)))"

definition osRename :: "faults \<Rightarrow> bytes \<Rightarrow> bytes \<Rightarrow> bytes \<Rightarrow> fs \<Rightarrow> fs \<times> fs_error option" where
  "osRename fails t old new s =
     (case Option.bind (dirOf s t) (\<lambda>es. map_option (Pair es) (map_of es old)) of
        None \<Rightarrow> (s, Some (PathError (SysRename (Sub t old))))
      | Some (es, e) \<Rightarrow>
          if fails (SysRename (Sub t old)) then (s, Some (PathError (SysRename (Sub t old))))
          else (s\<lparr>fsDirs := AList.update t (AList.update new e (AList.delete old es)) (fsDirs s)\<rparr>, None))"

text \<open>\<open>ioutil.ReadDir\<close>: names in order, with a flag for directories.\<close>

definition readTop :: "faults \<Rightarrow> fs \<Rightarrow> fs_error + (bytes \<times> bool) list" where
  "readTop fails s =
     (if fails (SysReadDir None) then Inl (PathError (SysReadDir None))
      else Inr (sort_key fst (map (\<lambda>f. (fst f, False)) (fsFiles s) @ map (\<lambda>d. (fst d, True)) (fsDirs s))))"

definition readTable :: "faults \<Rightarrow> bytes \<Rightarrow> fs \<Rightarrow> fs_error + bytes list" where
  "readTable fails t s =
     (case dirOf s t of
        None \<Rightarrow> Inl (PathError (SysReadDir (Some t)))
      | Some es \<Rightarrow> if fails (SysReadDir (Some t)) then Inl (PathError (SysReadDir (Some t))) else Inr (sort (map fst es)))"

text \<open>A loop over a list that returns at the first error.\<close>

fun forErr :: "('a \<Rightarrow> 's \<Rightarrow> 's \<times> 'e option) \<Rightarrow> 'a list \<Rightarrow> 's \<Rightarrow> 's \<times> 'e option" where
  "forErr f [] s = (s, None)"
| "forErr f (x # xs) s = (case f x s of (s, None) \<Rightarrow> forErr f xs s | (s, Some e) \<Rightarrow> (s, Some e))"

subsection \<open>Linking\<close>

abbreviation doneName :: "bytes \<Rightarrow> bytes" where "doneName fn \<equiv> 95 # fn"

definition ensureDir :: "faults \<Rightarrow> bytes \<Rightarrow> fs \<Rightarrow> fs \<times> fs_error option" where
  "ensureDir fails t s = (if osStat fails s (Top t) = StatNotExist then osMkdir fails t s else (s, None))"

definition linkTable :: "faults \<Rightarrow> bytes \<Rightarrow> bytes \<Rightarrow> fs \<Rightarrow> fs \<times> fs_error option" where
  "linkTable fails fn t s =
     (case ensureDir fails t s of
        (s, Some e) \<Rightarrow> (s, Some e)
      | (s, None) \<Rightarrow>
          if osStat fails s (Sub t fn) \<noteq> StatNotExist then (s, None)
          else if osStat fails s (Sub t (doneName fn)) \<noteq> StatNotExist then (s, None)
          else osSymlink fails fn t fn s)"

definition Link :: "faults \<Rightarrow> bytes \<Rightarrow> bytes list \<Rightarrow> fs \<Rightarrow> fs \<times> fs_error option" where
  "Link fails fn tables s = forErr (linkTable fails fn) tables s"

definition isDataName :: "bytes \<times> bool \<Rightarrow> bool" where
  "isDataName f \<longleftrightarrow> \<not> snd f \<and> HasPrefix (fst f) (str ''default.'')"

definition LinkAll :: "faults \<Rightarrow> bytes list \<Rightarrow> fs \<Rightarrow> fs \<times> fs_error option" where
  "LinkAll fails uploaders s =
     (case readTop fails s of
        Inl err \<Rightarrow> (s, Some err)
      | Inr flist \<Rightarrow>
          forErr (\<lambda>f s. if snd f then (s, None) else if \<not> HasPrefix (fst f) (str ''default.'') then (s, None)
                        else Link fails (fst f) uploaders s) flist s)"

subsection \<open>Cleaning up\<close>

definition Cleanup :: "faults \<Rightarrow> bytes \<Rightarrow> bytes list \<Rightarrow> fs \<Rightarrow> fs \<times> bool \<times> fs_error option" where
  "Cleanup fails fn tables s =
     (if tables = [] then (s, False, Some EmptyTables)
      else if list_ex (\<lambda>t. osStat fails s (Sub t (doneName fn)) = StatNotExist) tables then (s, False, None)
      else (case osRemove fails (Top fn) s of
          (s, Some e) \<Rightarrow> (s, False, Some e)
        | (s, None) \<Rightarrow> (case forErr (\<lambda>t. osRemove fails (Sub t (doneName fn))) tables s of (s, err) \<Rightarrow> (s, True, err))))"

fun cleanupLoop :: "faults \<Rightarrow> bytes list \<Rightarrow> bytes list \<Rightarrow> nat \<Rightarrow> fs \<Rightarrow> fs \<times> nat \<times> fs_error option" where
  "cleanupLoop fails tables [] cnt s = (s, cnt, None)"
| "cleanupLoop fails tables (fn # fns) cnt s =
     (case Cleanup fails fn tables s of
        (s, removed, err) \<Rightarrow>
          (let cnt = (if removed then cnt - 1 else cnt)
           in if err \<noteq> None then (s, cnt, err) else cleanupLoop fails tables fns cnt s))"

definition dropBroken :: "faults \<Rightarrow> bytes \<Rightarrow> bytes \<Rightarrow> fs \<Rightarrow> fs \<times> fs_error option" where
  "dropBroken fails t fn s = (if \<not> evalSymlinks fails s (Sub t fn) then osRemove fails (Sub t fn) s else (s, None))"

definition dropBrokenAll :: "faults \<Rightarrow> bytes \<Rightarrow> fs \<Rightarrow> fs \<times> fs_error option" where
  "dropBrokenAll fails t s =
     (case readTable fails t s of Inl err \<Rightarrow> (s, Some err) | Inr flist \<Rightarrow> forErr (dropBroken fails t) flist s)"

text \<open>\<open>Writer.Cleanup\<close>; the number is the \<open>unhandled\<close> counter of the writer.\<close>

definition writerCleanup :: "faults \<Rightarrow> bytes list \<Rightarrow> fs \<times> uint32 \<Rightarrow> (fs \<times> uint32) \<times> fs_error option" where
  "writerCleanup fails uploaders = (\<lambda>(s, unhandled).
     (case forErr (ensureDir fails) uploaders s of
        (s, Some e) \<Rightarrow> ((s, unhandled), Some e)
      | (s, None) \<Rightarrow>
          (case readTop fails s of
             Inl err \<Rightarrow> ((s, unhandled), Some err)
           | Inr flist \<Rightarrow>
               (let unhandledList = map fst (filter isDataName flist)
                in case cleanupLoop fails uploaders unhandledList (length unhandledList) s of
                     (s, cnt, Some e) \<Rightarrow> ((s, of_nat cnt), Some e)
                   | (s, cnt, None) \<Rightarrow>
                       (case forErr (dropBrokenAll fails) uploaders s of (s, err) \<Rightarrow> ((s, of_nat cnt), err))))))"

subsection \<open>What the calls change\<close>

lemma topExists_cong: "fileOf s = fileOf s' \<Longrightarrow> dirOf s = dirOf s' \<Longrightarrow> topExists s = topExists s'"
  by (simp add: topExists_def fun_eq_iff)

lemma fileOf_simps [simp]:
  "fileOf (s\<lparr>fsDirs := ds\<rparr>) = fileOf s"
  "fileOf (s\<lparr>fsFiles := AList.delete fn (fsFiles s)\<rparr>) = (fileOf s)(fn := None)"
  "fileOf (s\<lparr>fsFiles := AList.update fn c (fsFiles s)\<rparr>) = (fileOf s)(fn \<mapsto> c)"
  by (simp_all add: fileOf_def fun_eq_iff delete_conv update_conv)

lemma dirOf_simps [simp]:
  "dirOf (s\<lparr>fsFiles := fs\<rparr>) = dirOf s"
  "dirOf (s\<lparr>fsDirs := AList.update t es (fsDirs s)\<rparr>) = (dirOf s)(t \<mapsto> es)"
  by (simp_all add: dirOf_def fun_eq_iff update_conv)

lemma entryOf_simps [simp]:
  "entryOf (s\<lparr>fsFiles := fs\<rparr>) = entryOf s"
  "entryOf (s\<lparr>fsDirs := AList.update t es (fsDirs s)\<rparr>) = (entryOf s)(t := map_of es)"
  by (simp_all add: entryOf_def fun_eq_iff)

lemma entryOf_dir: "dirOf s t = Some es \<Longrightarrow> map_of es = entryOf s t"
  by (simp add: entryOf_def fun_eq_iff)

lemma entryOf_no_dir [simp]: "dirOf s t = None \<Longrightarrow> entryOf s t = (\<lambda>_. None)"
  by (simp add: entryOf_def fun_eq_iff)

lemma map_of_alist [simp]:
  "map_of (AList.update k v xs) = (map_of xs)(k \<mapsto> v)" "map_of (AList.delete k xs) = (map_of xs)(k := None)"
  by (simp_all add: fun_eq_iff update_conv delete_conv)

text \<open>Only what a call is meant to change changes, whether it succeeds or not.\<close>

lemma ensureDir_keeps:
  assumes "ensureDir fails t s = (s', err)"
  shows "fileOf s' = fileOf s" and "entryOf s' = entryOf s"
  using assms by (auto simp: ensureDir_def osMkdir_def topExists_def fun_eq_iff split: if_splits)

lemma linkTable_effect:
  assumes "linkTable fails fn t s = (s', err)"
  shows "fileOf s' = fileOf s"
    and "entryOf s' = entryOf s \<or> entryOf s t fn = None \<and> entryOf s' = (entryOf s)(t := (entryOf s t)(fn \<mapsto> Symlink fn))"
proof -
  obtain s1 err1 where e: "ensureDir fails t s = (s1, err1)" by fastforce
  note keeps = ensureDir_keeps [OF e]
  show "fileOf s' = fileOf s"
    using assms e keeps by (auto simp: linkTable_def osSymlink_def split: option.splits if_splits)
  show "entryOf s' = entryOf s \<or> entryOf s t fn = None \<and> entryOf s' = (entryOf s)(t := (entryOf s t)(fn \<mapsto> Symlink fn))"
    using assms e keeps by (auto simp: linkTable_def osSymlink_def entryOf_dir split: option.splits if_splits)
qed

lemma osRemove_effect:
  assumes "osRemove fails p s = (s', err)"
  shows "fileOf s' = (case p of Top fn \<Rightarrow> if err = None then (fileOf s)(fn := None) else fileOf s | Sub _ _ \<Rightarrow> fileOf s)"
    and "entryOf s' = (case p of Top _ \<Rightarrow> entryOf s
      | Sub t fn \<Rightarrow> if err = None then (entryOf s)(t := (entryOf s t)(fn := None)) else entryOf s)"
  using assms by (auto simp: osRemove_def entryOf_dir split: path.splits option.splits if_splits)

lemma osRename_effect:
  assumes "osRename fails t old new s = (s', err)"
  shows "fileOf s' = fileOf s"
    and "entryOf s' = (if err = None then (entryOf s)(t := (entryOf s t)(old := None, new := entryOf s t old)) else entryOf s)"
    and "err = None \<Longrightarrow> entryOf s t old \<noteq> None"
  using assms by (auto simp: osRename_def entryOf_dir bind_eq_Some_conv fun_upd_twist split: option.splits if_splits)

text \<open>The entries a call may have removed.\<close>

definition fewer :: "fs \<Rightarrow> fs \<Rightarrow> bool" where
  "fewer s s' \<longleftrightarrow> (\<forall>t n. entryOf s' t n = entryOf s t n \<or> entryOf s' t n = None)"

lemma fewer_refl [simp]: "fewer s s"
  by (simp add: fewer_def)

lemma fewer_trans: "fewer s s1 \<Longrightarrow> fewer s1 s2 \<Longrightarrow> fewer s s2"
  unfolding fewer_def by metis

lemma osRemove_fewer: "osRemove fails p s = (s', err) \<Longrightarrow> fewer s s'"
  using osRemove_effect(2) [of fails p s s' err] by (auto simp: fewer_def split: path.splits if_splits)

lemma forErr_fewer:
  assumes "forErr (\<lambda>t. osRemove fails (Sub t (g t))) ts s = (s', err)"
  shows "fewer s s' \<and> fileOf s' = fileOf s"
  using assms
proof (induction ts arbitrary: s)
  case (Cons t ts)
  obtain s1 e1 where r: "osRemove fails (Sub t (g t)) s = (s1, e1)" by fastforce
  have one: "fewer s s1" "fileOf s1 = fileOf s" using osRemove_fewer [OF r] osRemove_effect(1) [OF r] by simp_all
  show ?case
  proof (cases e1)
    case None
    with Cons.prems r have "forErr (\<lambda>t. osRemove fails (Sub t (g t))) ts s1 = (s', err)" by simp
    from Cons.IH [OF this] one show ?thesis by (auto intro: fewer_trans)
  next
    case (Some e)
    with Cons.prems r one show ?thesis by simp
  qed
qed simp

text \<open>
  A file is removed only when every table has its marker, if \<open>os.Stat\<close> reports nothing but existence.
\<close>

lemma Cleanup_effect:
  assumes "Cleanup fails fn tables s = (s', removed, err)"
  shows "fewer s s'" and "fileOf s' = (if removed then (fileOf s)(fn := None) else fileOf s)"
    and "removed \<Longrightarrow> tables \<noteq> []"
    and "removed \<Longrightarrow> t \<in> set tables \<Longrightarrow> osStat fails s (Sub t (doneName fn)) \<noteq> StatNotExist"
  using assms osRemove_effect [of fails "Top fn" s] osRemove_fewer [of fails "Top fn" s]
  by (auto simp: Cleanup_def list_ex_iff split: if_splits prod.splits option.splits dest!: forErr_fewer
      intro: fewer_trans)

lemma osStat_marker:
  assumes "osStat fails s (Sub t n) \<noteq> StatNotExist" "\<not> fails (SysStat (Sub t n))" "fileOf s t = None"
  shows "entryOf s t n \<noteq> None"
  using assms by (auto simp: osStat_def entryOf_def split: option.splits)

lemma dropBroken_effect:
  assumes "dropBroken fails t n s = (s', err)"
  shows "fewer s s'" and "fileOf s' = fileOf s"
  using assms osRemove_fewer [of fails "Sub t n" s] osRemove_effect(1) [of fails "Sub t n" s]
  by (auto simp: dropBroken_def split: if_splits)

subsection \<open>Without faults\<close>

abbreviation calm :: faults where "calm \<equiv> \<lambda>_. False"

abbreviation dataName :: "bytes \<Rightarrow> bool" where "dataName fn \<equiv> HasPrefix fn (str ''default.'')"

text \<open>Every entry of a table directory is a link that \<open>Link\<close> made, renamed or not.\<close>

definition linksOk :: "fs \<Rightarrow> bool" where
  "linksOk s \<longleftrightarrow> (\<forall>t n e. entryOf s t n = Some e \<longrightarrow> (\<exists>fn. e = Symlink fn \<and> dataName fn \<and> (n = fn \<or> n = doneName fn)))"

definition tablesOk :: "bytes list \<Rightarrow> fs \<Rightarrow> bool" where
  "tablesOk tables s \<longleftrightarrow> (\<forall>t \<in> set tables. fileOf s t = None)"

lemma not_dataName_done [simp]: "\<not> HasPrefix (doneName fn) (100 # p)"
  by (simp add: HasPrefix_def)

lemma linksOk_entry:
  assumes "linksOk s" "dataName fn"
  shows "entryOf s t fn \<noteq> None \<Longrightarrow> entryOf s t fn = Some (Symlink fn)"
    and "entryOf s t (doneName fn) \<noteq> None \<Longrightarrow> entryOf s t (doneName fn) = Some (Symlink fn)"
proof -
  show "entryOf s t fn = Some (Symlink fn)" if "entryOf s t fn \<noteq> None"
  proof -
    from that obtain e where e: "entryOf s t fn = Some e" by auto
    with assms(1) obtain tgt where "e = Symlink tgt" "fn = tgt \<or> fn = doneName tgt" unfolding linksOk_def by blast
    with e assms(2) show ?thesis by auto
  qed
  show "entryOf s t (doneName fn) = Some (Symlink fn)" if "entryOf s t (doneName fn) \<noteq> None"
  proof -
    from that obtain e where e: "entryOf s t (doneName fn) = Some e" by auto
    with assms(1) obtain tgt where "e = Symlink tgt" "dataName tgt" "doneName fn = tgt \<or> doneName fn = doneName tgt"
      unfolding linksOk_def by blast
    with e show ?thesis by auto
  qed
qed

lemma osStat_calm:
  assumes "entryOf s t n = Some (Symlink fn) \<or> entryOf s t n = None" "fileOf s t = None"
  shows "osStat calm s (Sub t n) = (if entryOf s t n \<noteq> None \<and> topExists s fn then StatOk else StatNotExist)"
  using assms by (cases "dirOf s t") (auto simp: osStat_def entryOf_def)

lemma osStat_link:
  assumes "linksOk s" "dataName fn" "fileOf s fn \<noteq> None" "fileOf s t = None"
  shows "osStat calm s (Sub t fn) = (if entryOf s t fn \<noteq> None then StatOk else StatNotExist)"
    and "osStat calm s (Sub t (doneName fn)) = (if entryOf s t (doneName fn) \<noteq> None then StatOk else StatNotExist)"
proof -
  have "topExists s fn" using assms(3) by (simp add: topExists_def)
  then show "osStat calm s (Sub t fn) = (if entryOf s t fn \<noteq> None then StatOk else StatNotExist)"
    and "osStat calm s (Sub t (doneName fn)) = (if entryOf s t (doneName fn) \<noteq> None then StatOk else StatNotExist)"
    using osStat_calm [of s t fn fn] osStat_calm [of s t "doneName fn" fn] linksOk_entry [OF assms(1,2), of t] assms(4) by auto
qed

lemma ensureDir_calm:
  assumes "fileOf s t = None"
  shows "\<exists>s'. ensureDir calm t s = (s', None) \<and> fsFiles s' = fsFiles s \<and> entryOf s' = entryOf s
     \<and> dirOf s' = (if dirOf s t = None then (dirOf s)(t \<mapsto> []) else dirOf s)"
  using assms by (auto simp: ensureDir_def osMkdir_def osStat_def topExists_def fun_eq_iff)

text \<open>The entry that linking one file in one table leaves.\<close>

definition linked :: "bytes \<Rightarrow> bytes list \<Rightarrow> fs \<Rightarrow> bytes \<Rightarrow> bytes \<Rightarrow> dir_entry option" where
  "linked fn tables s t n =
     (if t \<in> set tables \<and> n = fn \<and> entryOf s t (doneName fn) = None then Some (Symlink fn) else entryOf s t n)"

lemma linkTable_calm:
  assumes "linksOk s" "dataName fn" "fileOf s fn \<noteq> None" "fileOf s t = None"
  shows "\<exists>s'. linkTable calm fn t s = (s', None) \<and> fsFiles s' = fsFiles s \<and> entryOf s' = linked fn [t] s"
proof -
  obtain s1 where s1: "ensureDir calm t s = (s1, None)" "fsFiles s1 = fsFiles s" "entryOf s1 = entryOf s"
      "dirOf s1 = (if dirOf s t = None then (dirOf s)(t \<mapsto> []) else dirOf s)"
    using ensureDir_calm [OF assms(4)] by blast
  have files: "fileOf s1 = fileOf s" by (simp add: fileOf_def fun_eq_iff s1(2))
  have ok: "linksOk s1" "fileOf s1 fn \<noteq> None" "fileOf s1 t = None" using assms by (simp_all add: linksOk_def s1(3) files)
  obtain es where es: "dirOf s1 t = Some es" using s1(4) by (auto split: if_splits)
  note st = osStat_link [OF ok(1) assms(2) ok(2,3)]
  have sym: "entryOf s t fn = None \<Longrightarrow> osSymlink calm fn t fn s1
      = (s1\<lparr>fsDirs := AList.update t (AList.update fn (Symlink fn) es) (fsDirs s1)\<rparr>, None)"
    using es s1(3) by (simp add: osSymlink_def entryOf_dir)
  show ?thesis
  proof (cases "entryOf s t fn = None \<and> entryOf s t (doneName fn) = None")
    case True
    then have "linkTable calm fn t s = (s1\<lparr>fsDirs := AList.update t (AList.update fn (Symlink fn) es) (fsDirs s1)\<rparr>, None)"
      using st sym by (simp add: linkTable_def s1(1,3))
    moreover have "(entryOf s)(t := (map_of es)(fn \<mapsto> Symlink fn)) = linked fn [t] s"
      using True es by (auto simp: linked_def fun_eq_iff entryOf_dir s1(3))
    ultimately show ?thesis by (simp add: s1(2,3))
  next
    case False
    then have "linkTable calm fn t s = (s1, None)" using st by (auto simp: linkTable_def s1(1,3))
    moreover have "entryOf s = linked fn [t] s"
      using False linksOk_entry(1) [OF assms(1,2), of t] by (auto simp: linked_def fun_eq_iff)
    ultimately show ?thesis using s1 by simp
  qed
qed

lemma linksOk_linked: "linksOk s \<Longrightarrow> dataName fn \<Longrightarrow> entryOf s' = linked fn ts s \<Longrightarrow> linksOk s'"
  by (auto simp: linksOk_def linked_def split: if_splits)

lemma Link_calm:
  assumes "linksOk s" "dataName fn" "fileOf s fn \<noteq> None" "tablesOk tables s"
  shows "\<exists>s'. Link calm fn tables s = (s', None) \<and> fsFiles s' = fsFiles s \<and> entryOf s' = linked fn tables s \<and> linksOk s'"
  using assms
proof (induction tables arbitrary: s)
  case Nil
  then show ?case by (simp add: Link_def linked_def fun_eq_iff)
next
  case (Cons t ts)
  obtain s1 where s1: "linkTable calm fn t s = (s1, None)" "fsFiles s1 = fsFiles s" "entryOf s1 = linked fn [t] s"
    using linkTable_calm [OF Cons.prems(1-3), of t] Cons.prems(4) by (auto simp: tablesOk_def)
  have files: "fileOf s1 = fileOf s" by (simp add: fileOf_def fun_eq_iff s1(2))
  have "linksOk s1" by (rule linksOk_linked [OF Cons.prems(1,2) s1(3)])
  moreover have "fileOf s1 fn \<noteq> None" "tablesOk ts s1" using Cons.prems(3,4) by (simp_all add: files tablesOk_def)
  ultimately obtain s' where s': "Link calm fn ts s1 = (s', None)" "fsFiles s' = fsFiles s1" "entryOf s' = linked fn ts s1" "linksOk s'"
    using Cons.IH [OF _ Cons.prems(2)] by blast
  have "linked fn ts s1 = linked fn (t # ts) s"
    by (auto simp: linked_def s1(3) fun_eq_iff)
  with s' s1 show ?case by (simp add: Link_def)
qed

definition linkedAll :: "bytes set \<Rightarrow> bytes list \<Rightarrow> fs \<Rightarrow> bytes \<Rightarrow> bytes \<Rightarrow> dir_entry option" where
  "linkedAll fns tables s t n =
     (if t \<in> set tables \<and> n \<in> fns \<and> entryOf s t (doneName n) = None then Some (Symlink n) else entryOf s t n)"

definition dataFiles :: "fs \<Rightarrow> bytes set" where
  "dataFiles s = {fn. fileOf s fn \<noteq> None \<and> dataName fn}"

abbreviation linkEntry :: "bytes list \<Rightarrow> bytes \<times> bool \<Rightarrow> fs \<Rightarrow> fs \<times> fs_error option" where
  "linkEntry tables \<equiv> \<lambda>f s. if snd f then (s, None) else if \<not> dataName (fst f) then (s, None) else Link calm (fst f) tables s"

lemma linkEntries_calm:
  assumes "linksOk s" "tablesOk tables s" "\<forall>f \<in> set fs. isDataName f \<longrightarrow> fileOf s (fst f) \<noteq> None"
  shows "\<exists>s'. forErr (linkEntry tables) fs s = (s', None) \<and> fsFiles s' = fsFiles s \<and> linksOk s'
     \<and> entryOf s' = linkedAll (fst ` {f \<in> set fs. isDataName f}) tables s"
  using assms
proof (induction fs arbitrary: s)
  case Nil
  then show ?case by (simp add: linkedAll_def fun_eq_iff)
next
  case (Cons f fs)
  show ?case
  proof (cases "isDataName f")
    case False
    then have "linkEntry tables f s = (s, None)" by (auto simp: isDataName_def)
    moreover have "{g \<in> set (f # fs). isDataName g} = {g \<in> set fs. isDataName g}" using False by auto
    ultimately show ?thesis using Cons.IH [OF Cons.prems(1,2)] Cons.prems(3) by simp
  next
    case True
    then have data: "dataName (fst f)" "linkEntry tables f s = Link calm (fst f) tables s" by (simp_all add: isDataName_def)
    from Link_calm [OF Cons.prems(1) data(1) _ Cons.prems(2)] Cons.prems(3) True obtain s1 where
      s1: "Link calm (fst f) tables s = (s1, None)" "fsFiles s1 = fsFiles s" "entryOf s1 = linked (fst f) tables s" "linksOk s1" by auto
    have files: "fileOf s1 = fileOf s" by (simp add: fileOf_def fun_eq_iff s1(2))
    from Cons.IH [OF s1(4)] Cons.prems(2,3) obtain s' where
      s': "forErr (linkEntry tables) fs s1 = (s', None)" "fsFiles s' = fsFiles s1" "linksOk s'"
        "entryOf s' = linkedAll (fst ` {f \<in> set fs. isDataName f}) tables s1"
      by (auto simp: files tablesOk_def)
    have "doneName a \<noteq> fst f" for a using data(1) by (cases "fst f") (auto simp: HasPrefix_def)
    from this this [symmetric] have "linkedAll (fst ` {f \<in> set fs. isDataName f}) tables s1 = linkedAll (fst ` {g \<in> set (f # fs). isDataName g}) tables s"
      using True data(1) by (auto simp: linkedAll_def linked_def s1(3) fun_eq_iff isDataName_def)
    with s' s1 data show ?thesis by simp
  qed
qed

lemma fileOf_in: "(\<exists>c. fileOf s fn = Some c) \<longleftrightarrow> fn \<in> fst ` set (fsFiles s)"
  using map_of_eq_None_iff [of "fsFiles s" fn] by (simp add: fileOf_def flip: not_None_eq)

lemma LinkAll_calm:
  assumes "linksOk s" "tablesOk tables s"
  shows "\<exists>s'. LinkAll calm tables s = (s', None) \<and> fileOf s' = fileOf s \<and> linksOk s'
     \<and> entryOf s' = linkedAll (dataFiles s) tables s"
proof -
  let ?l = "sort_key fst (map (\<lambda>f. (fst f, False)) (fsFiles s) @ map (\<lambda>d. (fst d, True)) (fsDirs s))"
  have names: "fst ` {f \<in> set ?l. isDataName f} = dataFiles s"
    by (auto simp: dataFiles_def isDataName_def fileOf_in image_iff) force+
  have "\<forall>f \<in> set ?l. isDataName f \<longrightarrow> fileOf s (fst f) \<noteq> None"
    by (force simp: isDataName_def fileOf_in)
  from linkEntries_calm [OF assms this] names obtain s' where
    "forErr (linkEntry tables) ?l s = (s', None)" "fsFiles s' = fsFiles s" "linksOk s'" "entryOf s' = linkedAll (dataFiles s) tables s" by auto
  then show ?thesis by (auto simp: LinkAll_def readTop_def fileOf_def fun_eq_iff)
qed

text \<open>
  At startup every data file found is linked into every table directory that does not yet
  hold its finished marker, and nothing else changes.
\<close>

theorem startup_links_all:
  assumes "linksOk s" "tablesOk tables s"
  shows "\<exists>s'. LinkAll calm tables s = (s', None) \<and> fileOf s' = fileOf s \<and> linksOk s'
     \<and> entryOf s' = linkedAll (dataFiles s) tables s"
  using assms by (rule LinkAll_calm)

subsection \<open>Sweeping\<close>

definition finishedIn :: "fs \<Rightarrow> bytes list \<Rightarrow> bytes \<Rightarrow> bool" where
  "finishedIn s tables fn \<longleftrightarrow> (\<forall>t \<in> set tables. entryOf s t (doneName fn) \<noteq> None)"

lemma removeMarkers_calm:
  assumes "distinct tables" "finishedIn s tables fn"
  shows "\<exists>s'. forErr (\<lambda>t. osRemove calm (Sub t (doneName fn))) tables s = (s', None) \<and> fsFiles s' = fsFiles s
     \<and> dom (dirOf s') = dom (dirOf s)
     \<and> entryOf s' = (\<lambda>t n. if t \<in> set tables \<and> n = doneName fn then None else entryOf s t n)"
  using assms
proof (induction tables arbitrary: s)
  case Nil
  then show ?case by simp
next
  case (Cons t ts)
  obtain es where es: "dirOf s t = Some es" "map_of es (doneName fn) \<noteq> None"
    using Cons.prems(2) by (cases "dirOf s t") (auto simp: finishedIn_def entryOf_def)
  let ?s = "s\<lparr>fsDirs := AList.update t (AList.delete (doneName fn) es) (fsDirs s)\<rparr>"
  have r: "osRemove calm (Sub t (doneName fn)) s = (?s, None)" using es by (simp add: osRemove_def)
  have e: "entryOf ?s = (\<lambda>t' n. if t' = t \<and> n = doneName fn then None else entryOf s t' n)"
    using es(1) by (auto simp: fun_eq_iff entryOf_dir)
  have "finishedIn ?s ts fn" using Cons.prems unfolding finishedIn_def e by auto
  from Cons.IH [OF _ this] Cons.prems(1) obtain s' where
    s': "forErr (\<lambda>t. osRemove calm (Sub t (doneName fn))) ts ?s = (s', None)" "fsFiles s' = fsFiles ?s" "dom (dirOf s') = dom (dirOf ?s)"
      "entryOf s' = (\<lambda>t n. if t \<in> set ts \<and> n = doneName fn then None else entryOf ?s t n)" unfolding distinct.simps by blast
  have "dom (dirOf ?s) = dom (dirOf s)" using es(1) by auto
  moreover have "entryOf s' = (\<lambda>t' n. if t' \<in> set (t # ts) \<and> n = doneName fn then None else entryOf s t' n)"
    unfolding s'(4) e by (auto simp: fun_eq_iff)
  ultimately show ?case using s'(1-3) r by simp
qed

text \<open>Names in a directory are distinct.\<close>

definition fsOk :: "fs \<Rightarrow> bool" where
  "fsOk s \<longleftrightarrow> distinct (map fst (fsFiles s)) \<and> (\<forall>t es. dirOf s t = Some es \<longrightarrow> distinct (map fst es))"

lemma fsOk_update:
  assumes "fsOk s"
  shows "distinct (map fst es) \<Longrightarrow> fsOk (s\<lparr>fsDirs := AList.update t es (fsDirs s)\<rparr>)"
    and "fsOk (s\<lparr>fsFiles := AList.delete fn (fsFiles s)\<rparr>)"
  using assms by (auto simp: fsOk_def distinct_delete)

lemma osRemove_fsOk: "fsOk s \<Longrightarrow> osRemove fails p s = (s', err) \<Longrightarrow> fsOk s'"
  by (auto simp: osRemove_def fsOk_def distinct_delete split: if_splits path.splits option.splits)

lemma ensureDir_fsOk: "fsOk s \<Longrightarrow> ensureDir fails t s = (s', err) \<Longrightarrow> fsOk s'"
  by (auto simp: ensureDir_def osMkdir_def fsOk_def split: if_splits)

lemma forErr_invariant:
  assumes "forErr f xs s = (s', err)" "I s" "\<And>x s s' err. x \<in> set xs \<Longrightarrow> I s \<Longrightarrow> f x s = (s', err) \<Longrightarrow> I s'"
  shows "I s'"
  using assms
proof (induction xs arbitrary: s)
  case (Cons x xs)
  obtain s1 e1 where x: "f x s = (s1, e1)" by fastforce
  have "I s1" using Cons.prems(3) [OF _ Cons.prems(2) x] by simp
  show ?case
  proof (cases e1)
    case None
    then have "forErr f xs s1 = (s', err)" using Cons.prems(1) x by simp
    then show ?thesis by (rule Cons.IH) (use \<open>I s1\<close> Cons.prems(3) in auto)
  next
    case (Some e)
    with Cons.prems(1) x \<open>I s1\<close> show ?thesis by simp
  qed
qed simp

lemma Cleanup_fsOk: "fsOk s \<Longrightarrow> Cleanup fails fn tables s = (s', removed, err) \<Longrightarrow> fsOk s'"
  by (auto simp: Cleanup_def split: if_splits prod.splits option.splits
      dest: osRemove_fsOk intro: forErr_invariant [where I = fsOk])

lemma cleanupLoop_fsOk: "fsOk s \<Longrightarrow> cleanupLoop fails tables fns cnt s = (s', cnt', err) \<Longrightarrow> fsOk s'"
proof (induction fns arbitrary: s cnt)
  case (Cons fn fns)
  obtain s1 r e where c: "Cleanup fails fn tables s = (s1, r, e)" by (metis prod_cases3)
  with Cons.IH [OF Cleanup_fsOk [OF Cons.prems(1) c]] Cleanup_fsOk [OF Cons.prems(1) c] Cons.prems(2)
  show ?case by (auto simp: Let_def split: if_splits)
qed simp

lemma Cleanup_calm:
  assumes "linksOk s" "dataName fn" "fileOf s fn \<noteq> None" "tablesOk tables s" "tables \<noteq> []" "distinct tables"
  shows "\<exists>s'. Cleanup calm fn tables s = (s', finishedIn s tables fn, None)
     \<and> fsFiles s' = (if finishedIn s tables fn then AList.delete fn (fsFiles s) else fsFiles s) \<and> dom (dirOf s') = dom (dirOf s)
     \<and> entryOf s' = (\<lambda>t n. if finishedIn s tables fn \<and> t \<in> set tables \<and> n = doneName fn then None else entryOf s t n)"
proof -
  have st: "osStat calm s (Sub t (doneName fn)) = StatNotExist \<longleftrightarrow> entryOf s t (doneName fn) = None" if "t \<in> set tables" for t
    using osStat_link(2) [OF assms(1-3), of t] assms(4) that by (auto simp: tablesOk_def)
  show ?thesis
  proof (cases "finishedIn s tables fn")
    case False
    then have "list_ex (\<lambda>t. osStat calm s (Sub t (doneName fn)) = StatNotExist) tables"
      using st by (auto simp: list_ex_iff finishedIn_def)
    with False assms(5) show ?thesis by (simp add: Cleanup_def)
  next
    case True
    let ?s = "s\<lparr>fsFiles := AList.delete fn (fsFiles s)\<rparr>"
    have "finishedIn ?s tables fn" using True by (simp add: finishedIn_def)
    from removeMarkers_calm [OF assms(6) this] obtain s' where
      s': "forErr (\<lambda>t. osRemove calm (Sub t (doneName fn))) tables ?s = (s', None)" "fsFiles s' = fsFiles ?s"
        "dom (dirOf s') = dom (dirOf ?s)" "entryOf s' = (\<lambda>t n. if t \<in> set tables \<and> n = doneName fn then None else entryOf ?s t n)" by blast
    have "\<not> list_ex (\<lambda>t. osStat calm s (Sub t (doneName fn)) = StatNotExist) tables"
      using True st by (auto simp: list_ex_iff finishedIn_def)
    moreover have "osRemove calm (Top fn) s = (?s, None)" using assms(3) by (simp add: osRemove_def)
    ultimately show ?thesis using True assms(5) s' by (simp add: Cleanup_def cong: if_cong)
  qed
qed

lemma linksOk_fewer: "linksOk s \<Longrightarrow> fewer s s' \<Longrightarrow> linksOk s'"
  unfolding linksOk_def fewer_def by (metis option.distinct(1))

lemma cleanupLoop_calm:
  assumes "linksOk s" "tablesOk tables s" "tables \<noteq> []" "distinct tables"
    and "distinct fns" "\<forall>fn \<in> set fns. dataName fn \<and> fileOf s fn \<noteq> None" "length fns \<le> cnt"
  shows "\<exists>s'. cleanupLoop calm tables fns cnt s = (s', cnt - length (filter (finishedIn s tables) fns), None)
     \<and> fileOf s' = (\<lambda>fn. if fn \<in> set fns \<and> finishedIn s tables fn then None else fileOf s fn) \<and> dom (dirOf s') = dom (dirOf s)
     \<and> entryOf s' = (\<lambda>t n. if t \<in> set tables \<and> (\<exists>fn \<in> set fns. finishedIn s tables fn \<and> n = doneName fn) then None else entryOf s t n)"
  using assms
proof (induction fns arbitrary: s cnt)
  case Nil
  then show ?case by simp
next
  case (Cons fn fns)
  let ?f = "finishedIn s tables fn"
  obtain s1 where s1: "Cleanup calm fn tables s = (s1, ?f, None)"
      "fsFiles s1 = (if ?f then AList.delete fn (fsFiles s) else fsFiles s)" "dom (dirOf s1) = dom (dirOf s)"
      "entryOf s1 = (\<lambda>t n. if ?f \<and> t \<in> set tables \<and> n = doneName fn then None else entryOf s t n)"
    using Cleanup_calm [OF Cons.prems(1) _ _ Cons.prems(2-4), of fn] Cons.prems(6) by auto
  have files: "fileOf s1 = (if ?f then (fileOf s)(fn := None) else fileOf s)"
    using s1(2) by (simp add: fileOf_def fun_eq_iff)
  have other: "finishedIn s1 tables g = finishedIn s tables g" if "g \<noteq> fn" for g
    using that by (simp add: finishedIn_def s1(4))
  have 1: "linksOk s1" using linksOk_fewer [OF Cons.prems(1) Cleanup_effect(1) [OF s1(1)]] .
  have 2: "tablesOk tables s1" using Cons.prems(2) by (simp add: tablesOk_def files)
  have 3: "\<forall>g \<in> set fns. dataName g \<and> fileOf s1 g \<noteq> None" using Cons.prems(5,6) by (auto simp: files)
  have 4: "length fns \<le> (if ?f then cnt - 1 else cnt)" using Cons.prems(7) by auto
  have 5: "distinct fns" using Cons.prems(5) by simp
  from Cons.IH [OF 1 2 Cons.prems(3,4) 5 3 4] obtain s' where s': "cleanupLoop calm tables fns (if ?f then cnt - 1 else cnt) s1
        = (s', (if ?f then cnt - 1 else cnt) - length (filter (finishedIn s1 tables) fns), None)"
      "fileOf s' = (\<lambda>fn. if fn \<in> set fns \<and> finishedIn s1 tables fn then None else fileOf s1 fn)" "dom (dirOf s') = dom (dirOf s1)"
      "entryOf s' = (\<lambda>t n. if t \<in> set tables \<and> (\<exists>fn \<in> set fns. finishedIn s1 tables fn \<and> n = doneName fn) then None else entryOf s1 t n)"
    by blast
  have same: "finishedIn s1 tables g = finishedIn s tables g" if "g \<in> set fns" for g
    using that Cons.prems(5) other by (metis distinct.simps(2))
  then have fil: "filter (finishedIn s1 tables) fns = filter (finishedIn s tables) fns" by (rule filter_cong [OF refl])
  have A: "cleanupLoop calm tables (fn # fns) cnt s = (s', cnt - length (filter (finishedIn s tables) (fn # fns)), None)"
    using s'(1) by (simp add: s1(1) fil)
  have B: "fileOf s' = (\<lambda>g. if g \<in> set (fn # fns) \<and> finishedIn s tables g then None else fileOf s g)"
    unfolding s'(2) using Cons.prems(5) by (auto simp: files fun_eq_iff same)
  have C: "entryOf s' = (\<lambda>t n. if t \<in> set tables \<and> (\<exists>g \<in> set (fn # fns). finishedIn s tables g \<and> n = doneName g) then None else entryOf s t n)"
    unfolding s'(4) s1(4) using Cons.prems(5) by (auto simp: fun_eq_iff same)
  have D: "dom (dirOf s') = dom (dirOf s)" using s'(3) s1(3) by simp
  show ?case by (intro exI [of _ s'] conjI) (fact A, fact B, fact D, fact C)
qed

definition brokenLink :: "fs \<Rightarrow> bytes \<Rightarrow> bytes \<Rightarrow> bool" where
  "brokenLink s t n \<longleftrightarrow> (\<exists>fn. entryOf s t n = Some (Symlink fn) \<and> \<not> topExists s fn)"

lemma evalSymlinks_broken:
  assumes "linksOk s" "entryOf s t n \<noteq> None"
  shows "evalSymlinks calm s (Sub t n) \<longleftrightarrow> \<not> brokenLink s t n"
proof -
  from assms(2) obtain e where e: "entryOf s t n = Some e" by auto
  with assms(1) obtain fn where "e = Symlink fn" unfolding linksOk_def by blast
  with e show ?thesis by (cases "dirOf s t") (auto simp: evalSymlinks_def osStat_def brokenLink_def entryOf_def)
qed

lemma topExists_dom: "fileOf s' = fileOf s \<Longrightarrow> dom (dirOf s') = dom (dirOf s) \<Longrightarrow> topExists s' = topExists s"
  by (auto simp: topExists_def fun_eq_iff domIff set_eq_iff)

lemma dropBroken_calm:
  assumes "linksOk s" "distinct ns" "\<forall>n \<in> set ns. entryOf s t n \<noteq> None"
  shows "\<exists>s'. forErr (dropBroken calm t) ns s = (s', None) \<and> fileOf s' = fileOf s \<and> dom (dirOf s') = dom (dirOf s)
     \<and> entryOf s' = (\<lambda>t' n. if t' = t \<and> n \<in> set ns \<and> brokenLink s t n then None else entryOf s t' n)"
  using assms
proof (induction ns arbitrary: s)
  case Nil
  then show ?case by simp
next
  case (Cons n ns)
  obtain es where es: "dirOf s t = Some es" using Cons.prems(3) by (cases "dirOf s t") auto
  let ?s = "if brokenLink s t n then s\<lparr>fsDirs := AList.update t (AList.delete n es) (fsDirs s)\<rparr> else s"
  have ne: "map_of es n \<noteq> None" using Cons.prems(3) entryOf_dir [OF es] by simp
  have d: "dropBroken calm t n s = (?s, None)"
    using evalSymlinks_broken [OF Cons.prems(1), of t n] Cons.prems(3) es ne by (auto simp: dropBroken_def osRemove_def)
  have "fileOf ?s = fileOf s" "dom (dirOf ?s) = dom (dirOf s)" using es by auto
  moreover have "entryOf ?s = (\<lambda>t' m. if t' = t \<and> m = n \<and> brokenLink s t n then None else entryOf s t' m)"
    using es by (auto simp: fun_eq_iff entryOf_dir)
  ultimately obtain s1 where s1: "dropBroken calm t n s = (s1, None)" "fileOf s1 = fileOf s" "dom (dirOf s1) = dom (dirOf s)"
    and e: "entryOf s1 = (\<lambda>t' m. if t' = t \<and> m = n \<and> brokenLink s t n then None else entryOf s t' m)" using d by blast
  have b: "brokenLink s1 t m = brokenLink s t m" if "m \<in> set ns" for m
    using that Cons.prems(2) by (auto simp: brokenLink_def e topExists_dom [OF s1(2,3)])
  have ok: "linksOk s1" using Cons.prems(1) by (rule linksOk_fewer) (simp add: fewer_def e)
  have "distinct ns" "\<forall>m \<in> set ns. entryOf s1 t m \<noteq> None" using Cons.prems(2,3) unfolding e by auto
  from Cons.IH [OF ok this] obtain s' where
    s': "forErr (dropBroken calm t) ns s1 = (s', None)" "fileOf s' = fileOf s1" "dom (dirOf s') = dom (dirOf s1)"
      "entryOf s' = (\<lambda>t' m. if t' = t \<and> m \<in> set ns \<and> brokenLink s1 t m then None else entryOf s1 t' m)" by blast
  have "entryOf s' = (\<lambda>t' m. if t' = t \<and> m \<in> set (n # ns) \<and> brokenLink s t m then None else entryOf s t' m)"
    unfolding s'(4) e using b by (auto simp: fun_eq_iff)
  with s'(1-3) s1 show ?case by (intro exI [of _ s']) simp
qed

lemma dropBroken_fsOk: "fsOk s \<Longrightarrow> dropBroken fails t n s = (s', err) \<Longrightarrow> fsOk s'"
  by (auto simp: dropBroken_def split: if_splits dest: osRemove_fsOk)

lemma dropBrokenAll_calm:
  assumes "fsOk s" "linksOk s" "dirOf s t \<noteq> None"
  shows "\<exists>s'. dropBrokenAll calm t s = (s', None) \<and> fsOk s' \<and> fileOf s' = fileOf s \<and> dom (dirOf s') = dom (dirOf s)
     \<and> entryOf s' = (\<lambda>t' n. if t' = t \<and> brokenLink s t n then None else entryOf s t' n)"
proof -
  obtain es where es: "dirOf s t = Some es" using assms(3) by auto
  then have dist: "distinct (sort (map fst es))" using assms(1) by (simp add: fsOk_def)
  have dom: "n \<in> set (sort (map fst es)) \<longleftrightarrow> entryOf s t n \<noteq> None" for n
    by (simp add: entryOf_dir [OF es, symmetric] map_of_eq_None_iff)
  from dropBroken_calm [OF assms(2) dist, of t] dom obtain s' where
    s': "forErr (dropBroken calm t) (sort (map fst es)) s = (s', None)" "fileOf s' = fileOf s" "dom (dirOf s') = dom (dirOf s)"
      "entryOf s' = (\<lambda>t' n. if t' = t \<and> n \<in> set (sort (map fst es)) \<and> brokenLink s t n then None else entryOf s t' n)" by blast
  have "fsOk s'" by (rule forErr_invariant [OF s'(1), where I = fsOk]) (use assms(1) dropBroken_fsOk in auto)
  moreover have "n \<in> set (sort (map fst es))" if "brokenLink s t n" for n using that dom by (auto simp: brokenLink_def)
  then have "entryOf s' = (\<lambda>t' n. if t' = t \<and> brokenLink s t n then None else entryOf s t' n)"
    unfolding s'(4) by (auto simp: fun_eq_iff)
  ultimately show ?thesis using s'(1-3) es by (simp add: dropBrokenAll_def readTable_def)
qed

lemma dropBrokenTables_calm:
  assumes "fsOk s" "linksOk s" "set ts \<subseteq> dom (dirOf s)"
  shows "\<exists>s'. forErr (dropBrokenAll calm) ts s = (s', None) \<and> fileOf s' = fileOf s
     \<and> dom (dirOf s') = dom (dirOf s) \<and> entryOf s' = (\<lambda>t n. if t \<in> set ts \<and> brokenLink s t n then None else entryOf s t n)"
  using assms
proof (induction ts arbitrary: s)
  case Nil
  then show ?case by simp
next
  case (Cons t ts)
  have "dirOf s t \<noteq> None" using Cons.prems(3) by auto
  from dropBrokenAll_calm [OF Cons.prems(1,2) this] obtain s1 where
    s1: "dropBrokenAll calm t s = (s1, None)" "fsOk s1" "fileOf s1 = fileOf s" "dom (dirOf s1) = dom (dirOf s)"
      "entryOf s1 = (\<lambda>t' n. if t' = t \<and> brokenLink s t n then None else entryOf s t' n)" by blast
  have ok: "linksOk s1" using Cons.prems(2) by (rule linksOk_fewer) (simp add: fewer_def s1(5))
  have "set ts \<subseteq> dom (dirOf s1)" using Cons.prems(3) s1(4) by auto
  from Cons.IH [OF s1(2) ok this] obtain s' where
    s': "forErr (dropBrokenAll calm) ts s1 = (s', None)" "fileOf s' = fileOf s1" "dom (dirOf s') = dom (dirOf s1)"
      "entryOf s' = (\<lambda>t n. if t \<in> set ts \<and> brokenLink s1 t n then None else entryOf s1 t n)" by blast
  have "topExists s1 = topExists s" using s1(3,4) by (rule topExists_dom)
  then have "brokenLink s1 t' n \<longleftrightarrow> brokenLink s t' n \<and> t' \<noteq> t" for t' n
    by (auto simp: brokenLink_def s1(5))
  then have "entryOf s' = (\<lambda>t' n. if t' \<in> set (t # ts) \<and> brokenLink s t' n then None else entryOf s t' n)"
    unfolding s'(4) s1(5) by (auto simp: fun_eq_iff)
  with s' s1 show ?case by (intro exI [of _ s']) simp
qed

lemma ensureDirs_calm:
  assumes "tablesOk ts s"
  shows "\<exists>s'. forErr (ensureDir calm) ts s = (s', None) \<and> fsFiles s' = fsFiles s \<and> entryOf s' = entryOf s
     \<and> dom (dirOf s') = dom (dirOf s) \<union> set ts"
  using assms
proof (induction ts arbitrary: s)
  case (Cons t ts)
  obtain s1 where s1: "ensureDir calm t s = (s1, None)" "fsFiles s1 = fsFiles s" "entryOf s1 = entryOf s"
      "dirOf s1 = (if dirOf s t = None then (dirOf s)(t \<mapsto> []) else dirOf s)"
    using ensureDir_calm [of s t] Cons.prems by (auto simp: tablesOk_def)
  have "dom (dirOf s1) = insert t (dom (dirOf s))" using s1(4) by (auto split: if_splits)
  moreover have "tablesOk ts s1" using Cons.prems by (simp add: tablesOk_def fileOf_def s1(2))
  ultimately show ?case using Cons.IH [of s1] s1 by auto
qed simp

lemma dataNames_readTop:
  assumes "fsOk s"
  defines "names \<equiv> map fst (filter isDataName (sort_key fst (map (\<lambda>f. (fst f, False)) (fsFiles s) @ map (\<lambda>d. (fst d, True)) (fsDirs s))))"
  shows "set names = dataFiles s" and "distinct names"
proof -
  show "set names = dataFiles s"
    by (auto simp: names_def dataFiles_def isDataName_def fileOf_in image_iff) force+
  let ?l = "map (\<lambda>f. (fst f, False)) (fsFiles s) @ map (\<lambda>d. (fst d, True)) (fsDirs s)"
  have "filter isDataName ?l = map (\<lambda>f. (fst f, False)) (filter (\<lambda>f. dataName (fst f)) (fsFiles s))"
    by (simp add: isDataName_def filter_map comp_def)
  then have "names = map fst (sort_key fst (map (\<lambda>f. (fst f, False)) (filter (\<lambda>f. dataName (fst f)) (fsFiles s))))"
    unfolding names_def filter_sort by (simp only:)
  then have "mset names = mset (map fst (filter (\<lambda>f. dataName (fst f)) (fsFiles s)))"
    by (simp add: image_mset.compositionality comp_def)
  moreover have "distinct (map fst (filter (\<lambda>f. dataName (fst f)) (fsFiles s)))"
    using assms(1) by (simp add: fsOk_def distinct_map_filter)
  ultimately show "distinct names" by (metis mset_eq_imp_distinct_iff)
qed

definition sweptFiles :: "bytes list \<Rightarrow> fs \<Rightarrow> bytes \<Rightarrow> bytes option" where
  "sweptFiles tables s fn = (if dataName fn \<and> finishedIn s tables fn then None else fileOf s fn)"

definition sweptEntry :: "fs \<Rightarrow> dir_entry option \<Rightarrow> dir_entry option" where
  "sweptEntry s' e = (case e of Some (Symlink fn) \<Rightarrow> if topExists s' fn then e else None | _ \<Rightarrow> e)"

lemma sweptEntry_broken: "sweptEntry s (entryOf s t n) = (if brokenLink s t n then None else entryOf s t n)"
  by (auto simp: sweptEntry_def brokenLink_def split: option.splits dir_entry.splits)

lemma writerCleanup_calm:
  assumes "fsOk s" "linksOk s" "tablesOk tables s" "tables \<noteq> []" "distinct tables" "dataFiles s \<inter> dom (dirOf s) = {}"
  shows "\<exists>s'. writerCleanup calm tables (s, unhandled) = ((s', of_nat (card (dataFiles s'))), None)
     \<and> fileOf s' = sweptFiles tables s
     \<and> entryOf s' = (\<lambda>t n. if t \<in> set tables then sweptEntry s' (entryOf s t n) else entryOf s t n)"
proof -
  obtain s1 where s1: "forErr (ensureDir calm) tables s = (s1, None)" "fsFiles s1 = fsFiles s" "entryOf s1 = entryOf s"
      "dom (dirOf s1) = dom (dirOf s) \<union> set tables"
    using ensureDirs_calm [OF assms(3)] by blast
  have f1: "fileOf s1 = fileOf s" by (simp add: fileOf_def fun_eq_iff s1(2))
  have ok1: "fsOk s1" by (rule forErr_invariant [OF s1(1), where I = fsOk]) (use assms(1) ensureDir_fsOk in auto)
  have l1: "linksOk s1" "tablesOk tables s1" using assms(2,3) by (simp_all add: linksOk_def tablesOk_def s1(3) f1)
  let ?names = "map fst (filter isDataName (sort_key fst (map (\<lambda>f. (fst f, False)) (fsFiles s1) @ map (\<lambda>d. (fst d, True)) (fsDirs s1))))"
  note names = dataNames_readTop [OF ok1]
  have d1: "dataFiles s1 = dataFiles s" by (simp add: dataFiles_def f1)
  have fin: "finishedIn s1 = finishedIn s" by (simp add: finishedIn_def fun_eq_iff s1(3))
  have "\<forall>fn \<in> set ?names. dataName fn \<and> fileOf s1 fn \<noteq> None" unfolding names(1) by (simp add: dataFiles_def)
  from cleanupLoop_calm [OF l1 assms(4,5) names(2) this order_refl] obtain s2 where
    s2: "cleanupLoop calm tables ?names (length ?names) s1 = (s2, length ?names - length (filter (finishedIn s tables) ?names), None)"
      "fileOf s2 = (\<lambda>fn. if fn \<in> dataFiles s \<and> finishedIn s tables fn then None else fileOf s fn)" "dom (dirOf s2) = dom (dirOf s1)"
      "entryOf s2 = (\<lambda>t n. if t \<in> set tables \<and> (\<exists>fn \<in> dataFiles s. finishedIn s tables fn \<and> n = doneName fn) then None else entryOf s t n)"
    unfolding names(1) d1 fin f1 s1(3) by blast
  have files: "fileOf s2 = sweptFiles tables s"
    unfolding s2(2) by (auto simp: sweptFiles_def dataFiles_def fun_eq_iff)
  have ok2: "fsOk s2" by (rule cleanupLoop_fsOk [OF ok1 s2(1)])
  have l2: "linksOk s2" using assms(2) by (rule linksOk_fewer) (simp add: fewer_def s2(4))
  have "set tables \<subseteq> dom (dirOf s2)" using s1(4) s2(3) by auto
  from dropBrokenTables_calm [OF ok2 l2 this] obtain s3 where
    s3: "forErr (dropBrokenAll calm) tables s2 = (s3, None)" "fileOf s3 = fileOf s2" "dom (dirOf s3) = dom (dirOf s2)"
      "entryOf s3 = (\<lambda>t n. if t \<in> set tables \<and> brokenLink s2 t n then None else entryOf s2 t n)" by blast
  have top: "topExists s3 = topExists s2" using s3(2,3) by (rule topExists_dom)
  have count: "length ?names - length (filter (finishedIn s tables) ?names) = card (dataFiles s3)"
  proof -
    have "dataFiles s3 = set (filter (\<lambda>fn. \<not> finishedIn s tables fn) ?names)"
      unfolding set_filter names(1) d1 by (auto simp: dataFiles_def s3(2) files sweptFiles_def)
    then have "card (dataFiles s3) = length (filter (\<lambda>fn. \<not> finishedIn s tables fn) ?names)"
      using distinct_card [OF distinct_filter [OF names(2)]] by simp
    then show ?thesis using sum_length_filter_compl [of "finishedIn s tables" ?names] by simp
  qed
  have "entryOf s3 t n = sweptEntry s3 (entryOf s t n)" if t: "t \<in> set tables" for t n
  proof (cases "\<exists>fn \<in> dataFiles s. finishedIn s tables fn \<and> n = doneName fn")
    case True
    then obtain fn where fn: "fn \<in> dataFiles s" "finishedIn s tables fn" "n = doneName fn" by blast
    then have "entryOf s t n = Some (Symlink fn)"
      using linksOk_entry(2) [OF assms(2), of fn t] t by (auto simp: dataFiles_def finishedIn_def)
    moreover have "fileOf s fn \<noteq> None" using fn(1) by (simp add: dataFiles_def)
    then have "fn \<notin> set tables" using assms(3) by (auto simp: tablesOk_def)
    then have "fn \<notin> dom (dirOf s2)" using fn(1) assms(6) unfolding s2(3) s1(4) by blast
    then have "\<not> topExists s3 fn" using fn by (simp add: top topExists_def s2(2) domIff)
    ultimately show ?thesis using t fn by (auto simp: s3(4) s2(4) sweptEntry_def)
  next
    case False
    then have "entryOf s2 t n = entryOf s t n" by (auto simp: s2(4))
    moreover have "sweptEntry s3 e = sweptEntry s2 e" for e unfolding sweptEntry_def top ..
    ultimately have "sweptEntry s3 (entryOf s t n) = sweptEntry s2 (entryOf s2 t n)" by simp
    then show ?thesis using t by (simp add: s3(4) sweptEntry_broken)
  qed
  then have "entryOf s3 = (\<lambda>t n. if t \<in> set tables then sweptEntry s3 (entryOf s t n) else entryOf s t n)"
    by (auto simp: fun_eq_iff s3(4) s2(4))
  moreover have "writerCleanup calm tables (s, unhandled) = ((s3, of_nat (card (dataFiles s3))), None)"
    using s1(1) s2(1) s3(1) count by (simp add: writerCleanup_def readTop_def Let_def)
  ultimately show ?thesis using s3(2) files by (intro exI [of _ s3]) simp
qed

text \<open>
  C29. The cleanup removes exactly the data files that every table has marked as finished, with
  their markers and all broken links, and counts the files that are left.
\<close>

theorem cleanup_sweeps:
  assumes "fsOk s" "linksOk s" "tablesOk tables s" "tables \<noteq> []" "distinct tables" "dataFiles s \<inter> dom (dirOf s) = {}"
  shows "\<exists>s'. writerCleanup calm tables (s, unhandled) = ((s', of_nat (card (dataFiles s'))), None)
     \<and> fileOf s' = sweptFiles tables s
     \<and> entryOf s' = (\<lambda>t n. if t \<in> set tables then sweptEntry s' (entryOf s t n) else entryOf s t n)"
  using assms by (rule writerCleanup_calm)

text \<open>An error of \<open>os.Stat\<close> that is not "does not exist" counts as a marker.\<close>

lemma cleanup_stat_error:
  assumes "tables \<noteq> []" "\<forall>t \<in> set tables. fails (SysStat (Sub t (doneName fn)))" "\<not> fails (SysRemove (Top fn))" "fileOf s fn \<noteq> None"
  shows "fileOf (fst (Cleanup fails fn tables s)) fn = None"
proof -
  have "\<not> list_ex (\<lambda>t. osStat fails s (Sub t (doneName fn)) = StatNotExist) tables"
    using assms(2) by (simp add: list_ex_iff osStat_def)
  moreover obtain s' err where f: "forErr (\<lambda>t. osRemove fails (Sub t (doneName fn))) tables (s\<lparr>fsFiles := AList.delete fn (fsFiles s)\<rparr>) = (s', err)"
    by fastforce
  moreover have "fileOf s' fn = None" using forErr_fewer [OF f] by simp
  ultimately show ?thesis using assms(1,3,4) by (auto simp: Cleanup_def osRemove_def)
qed

definition exampleFs :: fs where
  "exampleFs = \<lparr>fsFiles = [(str ''default.1'', [1]), (str ''default.2'', [2])],
     fsDirs = [(str ''t'', [(doneName (str ''default.1''), Symlink (str ''default.1'')), (str ''default.2'', Symlink (str ''default.2''))])]\<rparr>"

lemma exampleFs_ok:
  "fsOk exampleFs" "linksOk exampleFs" "tablesOk [str ''t''] exampleFs" "tablesOk [str ''t'', str ''u''] exampleFs"
  "dataFiles exampleFs \<inter> dom (dirOf exampleFs) = {}"
  by (auto simp: exampleFs_def fsOk_def linksOk_def tablesOk_def dataFiles_def fileOf_def dirOf_def entryOf_def HasPrefix_def dom_def
      split: if_splits)

theorem startup_links_all_witness:
  "\<exists>s'. LinkAll calm [str ''t'', str ''u''] exampleFs = (s', None) \<and> fileOf s' = fileOf exampleFs \<and> linksOk s'
     \<and> entryOf s' = linkedAll (dataFiles exampleFs) [str ''t'', str ''u''] exampleFs"
  by (rule startup_links_all [OF exampleFs_ok(2,4)])

theorem cleanup_sweeps_witness:
  "\<exists>s'. writerCleanup calm [str ''t''] (exampleFs, 7) = ((s', of_nat (card (dataFiles s'))), None)
     \<and> fileOf s' = sweptFiles [str ''t''] exampleFs
     \<and> entryOf s' = (\<lambda>t n. if t \<in> set [str ''t''] then sweptEntry s' (entryOf exampleFs t n) else entryOf exampleFs t n)"
  by (rule cleanup_sweeps [OF exampleFs_ok(1-3) _ _ exampleFs_ok(5)]) simp_all

end
