(* ===== verification/Up_Base.thy ===== *)
theory Up_Base
  imports Files Up_Cache
begin

text \<open>
  \<^verbatim>\<open>uploader/base.go\<close>, \<^verbatim>\<open>uploader/uploader.go\<close> and \<^verbatim>\<open>uploader/config.go\<close>: the queue of files of one
  table. A scanner lists the table directory and puts new files into the channel; workers take
  them, run the handler of the uploader and rename the links of the files the table has. The
  goroutines are interleaved: the scanner's position in its list (\<open>ubScan\<close>, \<open>ubSending\<close>) and the
  files the workers are handling (\<open>ubActive\<close>) are part of the state. A file is named by its base
  name, the table directory being the same for all.
\<close>

subsection \<open>Configuration\<close>

record 'h up_config =
  ucType :: bytes
  ucTableName :: bytes
  ucTimeout :: "int option"
  ucDate :: bytes
  ucTreeDate :: "int option"
  ucZeroTimestamp :: bool
  ucTLS :: "'h option"
  ucThreads :: int
  ucURL :: bytes
  ucCacheTTL :: "int option"
  ucIgnoredPatterns :: "bytes list"
  ucCompressData :: bool
  ucIgnoredTaggedMetrics :: "bytes list"
  ucHash :: bytes
  ucDisableDailyIndex :: bool
  ucHashFunc :: "(bytes \<Rightarrow> bytes) option"
  ucClient :: "(int \<times> 'h option) option"

datatype 'e config_error = DateError 'e | UnknownHash bytes | TLSError 'e | URLError 'e

definition minuteNs :: int where "minuteNs = 60000000000"

text \<open>
  \<open>Config.Parse\<close>: dates, the client TLS options and URLs are parsed by the given functions. The
  client is its timeout and its TLS transport.
\<close>

definition configParse ::
  "(bytes \<Rightarrow> 'e + int) \<Rightarrow> (bytes \<Rightarrow> uint64) \<Rightarrow> ('h \<Rightarrow> 'e + 'h \<times> bytes list) \<Rightarrow> (bytes \<Rightarrow> 'e + bytes) \<Rightarrow>
   'h up_config \<Rightarrow> 'e config_error + 'h up_config" where
  "configParse parseDate city parseTLS urlScheme cfg =
     (case (if ucDate cfg = [] then Inr cfg
            else map_sum DateError (\<lambda>d. cfg\<lparr>ucTreeDate := Some d\<rparr>) (parseDate (ucDate cfg))) of
        Inl e \<Rightarrow> Inl e
      | Inr cfg \<Rightarrow>
          (let cfg = (case ucTimeout cfg of None \<Rightarrow> cfg\<lparr>ucTimeout := Some minuteNs\<rparr> | Some _ \<Rightarrow> cfg)
           in case knownHash city (ucHash cfg) of
                None \<Rightarrow> Inl (UnknownHash (ucHash cfg))
              | Some f \<Rightarrow>
                  (let cfg = cfg\<lparr>ucHashFunc := Some f, ucClient := Some (the (ucTimeout cfg), None)\<rparr>
                   in case ucTLS cfg of
                        None \<Rightarrow> Inr cfg
                      | Some tls \<Rightarrow>
                          (case parseTLS tls of
                             Inl e \<Rightarrow> Inl (TLSError e)
                           | Inr (tlsConfig, warns) \<Rightarrow>
                               (case urlScheme (ucURL cfg) of
                                  Inl e \<Rightarrow> Inl (URLError e)
                                | Inr scheme \<Rightarrow>
                                    Inr (if scheme = str ''https'' then cfg\<lparr>ucClient := Some (the (ucTimeout cfg), Some tlsConfig)\<rparr>
                                         else cfg))))))"

subsection \<open>State\<close>

definition queueCap :: nat where "queueCap = 1024"

record up_base =
  ubQueue :: "bytes list"
  ubInQueue :: "bytes list"
  ubScan :: "bytes list"
  ubSending :: "bytes option"
  ubActive :: "bytes list"
  ubLeft :: uint32
  ubUploaded :: uint32
  ubUploadedMetrics :: uint64
  ubUploadTime :: uint64
  ubErrors :: uint32
  ubDelay :: int
  ubUnhandled :: uint32

definition newBase :: up_base where
  "newBase = \<lparr>ubQueue = [], ubInQueue = [], ubScan = [], ubSending = None, ubActive = [], ubLeft = 0, ubUploaded = 0,
     ubUploadedMetrics = 0, ubUploadTime = 0, ubErrors = 0, ubDelay = 0, ubUnhandled = 0\<rparr>"

datatype uploader_kind = UPoints bool | UTree | USeries bool | UTagged | UIndex

definition uploaderKind :: "bytes \<Rightarrow> uploader_kind option" where
  "uploaderKind ty =
     (if ty = str ''points'' then Some (UPoints False) else if ty = str ''tree'' then Some UTree
      else if ty = str ''points-reverse'' then Some (UPoints True) else if ty = str ''series'' then Some (USeries False)
      else if ty = str ''series-reverse'' then Some (USeries True) else if ty = str ''tagged'' then Some UTagged
      else if ty = str ''index'' then Some UIndex else None)"

text \<open>The columns each constructor puts into its query.\<close>

definition uploaderQuery :: "uploader_kind \<Rightarrow> 'h up_config \<Rightarrow> bytes" where
  "uploaderQuery k cfg = ucTableName cfg @
     (case k of
        UPoints _ \<Rightarrow> str '' (Path, Value, Time, Date, Timestamp)''
      | UTagged \<Rightarrow> str '' (Date, Tag1, Path, Tags, Version)''
      | UTree \<Rightarrow> if ucTreeDate cfg = None then str '' (Level, Path, Version)'' else str '' (Date, Level, Path, Version)''
      | _ \<Rightarrow> str '' (Date, Level, Path, Version)'')"

definition uploaderNew :: "'h up_config \<Rightarrow> bytes + uploader_kind \<times> bytes \<times> 'h up_config \<times> up_base" where
  "uploaderNew config =
     (let c = (if ucThreads config < 1 then config\<lparr>ucThreads := 1\<rparr> else config)
      in case uploaderKind (ucType c) of
           None \<Rightarrow> Inl (ucType c)
         | Some k \<Rightarrow> Inr (k, uploaderQuery k c, c, newBase))"

subsection \<open>Statistics\<close>

text \<open>\<open>Base.Stat\<close>: what is sent, in order; the totals are taken out of the counters.\<close>

definition baseStat :: "up_base \<Rightarrow> (string \<times> int) list \<times> up_base" where
  "baseStat u =
     ([(''uploaded'', uint (ubUploaded u)), (''uploaded_metrics'', uint (ubUploadedMetrics u)), (''upload_time'', uint (ubUploadTime u)),
       (''errors'', uint (ubErrors u)), (''delay'', ubDelay u), (''unhandled'', uint (ubUnhandled u))],
      u\<lparr>ubUploaded := 0, ubUploadedMetrics := 0, ubUploadTime := 0, ubErrors := 0\<rparr>)"

subsection \<open>Scanning\<close>

text \<open>
  \<open>scanDir\<close> up to its loop: the files of the table directory and the age of the oldest, or \<open>None\<close>
  when listing fails. \<open>lstat\<close> gives the modification time of a link, \<open>None\<close> an error.
\<close>

fun scanFiles :: "(bytes \<Rightarrow> int option) \<Rightarrow> int \<Rightarrow> bytes list \<Rightarrow> int \<Rightarrow> bytes list \<Rightarrow> (int \<times> bytes list) option" where
  "scanFiles lstat now [] delay files = Some (delay, files)"
| "scanFiles lstat now (f # fs) delay files =
     (if \<not> HasPrefix f (str ''default.'') then scanFiles lstat now fs delay files
      else (case lstat f of
          None \<Rightarrow> None
        | Some mtime \<Rightarrow> (let d = now - mtime in scanFiles lstat now fs (if delay < d then d else delay) (files @ [f]))))"

definition scanDir :: "faults \<Rightarrow> (bytes \<Rightarrow> int option) \<Rightarrow> int \<Rightarrow> bytes \<Rightarrow> fs \<Rightarrow> up_base \<Rightarrow> up_base" where
  "scanDir fails lstat now t s u =
     (case readTable fails t s of
        Inl _ \<Rightarrow> u
      | Inr flist \<Rightarrow>
          (case scanFiles lstat now flist 0 [] of
             None \<Rightarrow> u
           | Some (delay, files) \<Rightarrow>
               (let u = (if delay \<ge> 0 then u\<lparr>ubDelay := delay\<rparr> else u); n = of_nat (length files);
                    u = u\<lparr>ubUnhandled := n, ubLeft := n\<rparr>
                in if files = [] then u else u\<lparr>ubScan := sort files\<rparr>)))"

text \<open>One turn of its loop: the part under the lock, and the send.\<close>

definition scanNext :: "up_base \<Rightarrow> up_base" where
  "scanNext u =
     (case ubScan u of
        [] \<Rightarrow> u
      | fn # fns \<Rightarrow>
          if fn \<in> set (ubInQueue u) then u\<lparr>ubScan := fns\<rparr>
          else u\<lparr>ubScan := fns, ubInQueue := fn # ubInQueue u, ubSending := Some fn\<rparr>)"

definition scanSend :: "up_base \<Rightarrow> up_base" where
  "scanSend u =
     (case ubSending u of
        None \<Rightarrow> u
      | Some fn \<Rightarrow>
          if length (ubQueue u) < queueCap
          then (let n = ubLeft u - 1 in u\<lparr>ubQueue := ubQueue u @ [fn], ubSending := None, ubLeft := n, ubUnhandled := n\<rparr>)
          else u)"

text \<open>The context is done: the scanner returns.\<close>

definition scanCancel :: "up_base \<Rightarrow> up_base" where
  "scanCancel u = u\<lparr>ubScan := [], ubSending := None\<rparr>"

subsection \<open>Uploading\<close>

definition MarkAsFinished :: "faults \<Rightarrow> bytes \<Rightarrow> bytes \<Rightarrow> fs \<Rightarrow> fs" where
  "MarkAsFinished fails t fn s = fst (osRename fails t fn (doneName fn) s)"

definition RemoveFromQueue :: "bytes \<Rightarrow> up_base \<Rightarrow> up_base" where
  "RemoveFromQueue fn u = u\<lparr>ubInQueue := removeAll fn (ubInQueue u)\<rparr>"

text \<open>A turn of \<open>uploadWorker\<close>: taking a file, and what follows the return of the handler.\<close>

definition workerTake :: "up_base \<Rightarrow> (bytes \<times> up_base) option" where
  "workerTake u = (case ubQueue u of [] \<Rightarrow> None | fn # q \<Rightarrow> Some (fn, u\<lparr>ubQueue := q, ubActive := fn # ubActive u\<rparr>))"

definition workerDone :: "faults \<Rightarrow> bytes \<Rightarrow> bytes \<Rightarrow> uint64 \<times> 'e option \<Rightarrow> uint64 \<Rightarrow> fs \<times> up_base \<Rightarrow> fs \<times> up_base" where
  "workerDone fails t fn res ms = (\<lambda>(s, u).
     let (n, err) = res;
         u = u\<lparr>ubUploadTime := ubUploadTime u + ms, ubActive := removeAll fn (ubActive u)\<rparr>;
         u = (if err \<noteq> None then u\<lparr>ubErrors := ubErrors u + 1\<rparr>
              else u\<lparr>ubUploaded := ubUploaded u + 1, ubUploadedMetrics := ubUploadedMetrics u + n\<rparr>);
         s = (if err = None then MarkAsFinished fails t fn s else s)
     in (s, RemoveFromQueue fn u))"

subsection \<open>Inserting into ClickHouse\<close>

record response =
  rsStatus :: int
  rsException :: bytes
  rsBody :: bytes

datatype 'e insert_error = BadURL 'e | BadRequest 'e | DoFailed 'e | Exception bytes int bytes | BadStatus int bytes

definition insertQuery :: "bytes \<Rightarrow> bytes" where
  "insertQuery table = str ''INSERT INTO '' @ table @ str '' FORMAT RowBinary''"

text \<open>
  \<open>insertRowBinary\<close>: \<open>withQuery\<close> is \<open>url.Parse\<close> and the replaced query, \<open>newRequest\<close> and \<open>send\<close> are the HTTP
  client, \<open>gzip\<close> the compressed body. With compression the header is added before the error of
  \<open>http.NewRequest\<close> is looked at, so that error is a nil dereference.
\<close>

definition insertRowBinary ::
  "(bytes \<Rightarrow> bytes \<Rightarrow> 'e + bytes) \<Rightarrow> (bytes \<Rightarrow> bytes \<Rightarrow> 'e + 'r) \<Rightarrow> (bool \<Rightarrow> 'r \<Rightarrow> 'e + response) \<Rightarrow> (bytes \<Rightarrow> bytes) \<Rightarrow>
   'h up_config \<Rightarrow> bytes \<Rightarrow> bytes \<Rightarrow> 'e insert_error option option" where
  "insertRowBinary withQuery newRequest send gzip cfg table data =
     (case withQuery (ucURL cfg) (insertQuery table) of
        Inl e \<Rightarrow> Some (Some (BadURL e))
      | Inr queryURL \<Rightarrow>
          (case newRequest queryURL (if ucCompressData cfg then gzip data else data) of
             Inl e \<Rightarrow> if ucCompressData cfg then None else Some (Some (BadRequest e))
           | Inr req \<Rightarrow>
               (case send (ucCompressData cfg) req of
                  Inl e \<Rightarrow> Some (Some (DoFailed e))
                | Inr resp \<Rightarrow>
                    Some (if rsException resp \<noteq> [] \<and> rsException resp \<noteq> str ''0''
                          then Some (Exception (rsException resp) (rsStatus resp) (rsBody resp))
                          else if rsStatus resp \<noteq> 200 then Some (BadStatus (rsStatus resp) (rsBody resp))
                          else None))))"

subsection \<open>Interleaving\<close>

text \<open>
  The steps of the scanner and the workers of one table. When the context is done the scanner
  returns and is not started again, so \<open>scanCancel\<close> is not a step here.
\<close>

inductive up_step :: "bytes \<Rightarrow> fs \<times> up_base \<Rightarrow> fs \<times> up_base \<Rightarrow> bool" for t where
  scanning: "ubScan u = [] \<Longrightarrow> ubSending u = None \<Longrightarrow> up_step t (s, u) (s, scanDir fails lstat now t s u)"
| advance: "ubSending u = None \<Longrightarrow> up_step t (s, u) (s, scanNext u)"
| sending: "up_step t (s, u) (s, scanSend u)"
| taking: "workerTake u = Some (fn, u') \<Longrightarrow> up_step t (s, u) (s, u')"
| finished: "fn \<in> set (ubActive u) \<Longrightarrow> workerDone fails t fn (n, err :: nat option) ms (s, u) = st \<Longrightarrow> up_step t (s, u) st"
| stats: "up_step t (s, u) (s, snd (baseStat u))"

definition held :: "up_base \<Rightarrow> bytes list" where
  "held u = ubActive u @ ubQueue u @ (case ubSending u of None \<Rightarrow> [] | Some fn \<Rightarrow> [fn])"

text \<open>The files a worker, the channel or the scanner holds are distinct, and they are those of \<open>inQueue\<close>.\<close>

definition queueInv :: "up_base \<Rightarrow> bool" where
  "queueInv u \<longleftrightarrow> distinct (held u) \<and> set (ubInQueue u) = set (held u) \<and> length (ubQueue u) \<le> queueCap"

lemma queueInv_new: "queueInv newBase"
  by (simp add: queueInv_def held_def newBase_def)

lemma scanDir_keeps:
  "ubQueue (scanDir fails lstat now t s u) = ubQueue u" "ubInQueue (scanDir fails lstat now t s u) = ubInQueue u"
  "ubActive (scanDir fails lstat now t s u) = ubActive u" "ubSending (scanDir fails lstat now t s u) = ubSending u"
  by (auto simp: scanDir_def Let_def split: sum.splits option.splits)

lemma queueInv_scanNext: "queueInv u \<Longrightarrow> ubSending u = None \<Longrightarrow> queueInv (scanNext u)"
  by (auto simp: queueInv_def held_def scanNext_def split: list.splits)

lemma queueInv_scanSend: "queueInv u \<Longrightarrow> queueInv (scanSend u)"
  by (auto simp: queueInv_def held_def scanSend_def Let_def split: option.splits)

lemma queueInv_workerTake: "queueInv u \<Longrightarrow> workerTake u = Some (fn, u') \<Longrightarrow> queueInv u'"
  by (auto simp: queueInv_def held_def workerTake_def split: list.splits option.splits)

lemma queueInv_workerDone:
  assumes "queueInv u" "fn \<in> set (ubActive u)" "workerDone fails t fn res ms (s, u) = (s', u')"
  shows "queueInv u'"
proof -
  have "ubActive u' = removeAll fn (ubActive u)" "ubInQueue u' = removeAll fn (ubInQueue u)" "ubQueue u' = ubQueue u" "ubSending u' = ubSending u"
    using assms(3) by (auto simp: workerDone_def RemoveFromQueue_def Let_def split: prod.splits if_splits)
  with assms(1,2) show ?thesis by (auto simp: queueInv_def held_def distinct_removeAll split: option.splits)
qed

lemma up_step_inv: "up_step t st st' \<Longrightarrow> queueInv (snd st) \<Longrightarrow> queueInv (snd st')"
proof (induction rule: up_step.induct)
  case (scanning u s fails lstat now)
  then show ?case by (simp add: queueInv_def held_def scanDir_keeps)
next
  case (finished fn u fails n err ms s st)
  then show ?case by (cases st) (auto intro: queueInv_workerDone)
qed (auto simp: queueInv_scanNext queueInv_scanSend queueInv_workerTake, simp add: queueInv_def held_def baseStat_def)

text \<open>
  C30. However the scanner and the workers of a table are interleaved, the files in the channel,
  in the hands of the scanner and of the workers are distinct and are the ones marked as queued,
  so no file is uploaded twice at the same time.
\<close>

theorem single_upload:
  assumes "(up_step t)\<^sup>*\<^sup>* (s0, newBase) (s, u)"
  shows "distinct (held u) \<and> set (ubInQueue u) = set (held u) \<and> length (ubQueue u) \<le> queueCap"
proof -
  from assms have "queueInv (snd (s, u))"
    by (induction rule: rtranclp_induct) (auto simp: queueInv_new intro: up_step_inv)
  then show ?thesis by (simp add: queueInv_def)
qed

subsection \<open>Every file is offered\<close>

lemma scanFiles_eq:
  assumes "\<forall>f \<in> set fs. dataName f \<longrightarrow> lstat f \<noteq> None"
  shows "\<exists>delay'. scanFiles lstat now fs delay files = Some (delay', files @ filter dataName fs)"
  using assms
proof (induction fs arbitrary: delay files)
  case (Cons f fs)
  then show ?case
    using Cons.IH [of "now - the (lstat f)" "files @ [f]"] Cons.IH [of delay "files @ [f]"] Cons.IH [of delay files]
    by (auto simp: Let_def)
qed simp

text \<open>The loop of \<open>scanDir\<close> while the channel has room.\<close>

fun scanRun :: "nat \<Rightarrow> up_base \<Rightarrow> up_base" where
  "scanRun 0 u = u"
| "scanRun (Suc n) u = scanRun n (scanSend (scanNext u))"

lemma scanRun_queue:
  assumes "ubSending u = None" "distinct (ubScan u)" "length (ubQueue u) + length (ubScan u) \<le> queueCap"
  shows "ubQueue (scanRun (length (ubScan u)) u) = ubQueue u @ filter (\<lambda>f. f \<notin> set (ubInQueue u)) (ubScan u)"
  using assms
proof (induction "ubScan u" arbitrary: u)
  case (Cons f fs)
  let ?u = "scanSend (scanNext u)"
  have sc: "ubScan u = f # fs" using Cons.hyps(2) by simp
  have step: "ubScan ?u = fs" "ubSending ?u = None"
      "ubQueue ?u = ubQueue u @ (if f \<in> set (ubInQueue u) then [] else [f])"
      "set (ubInQueue ?u) = insert f (set (ubInQueue u))"
    using sc Cons.prems(1,3) by (auto simp: scanNext_def scanSend_def Let_def)
  have "ubQueue (scanRun (length fs) ?u) = ubQueue ?u @ filter (\<lambda>f. f \<notin> set (ubInQueue ?u)) fs"
    using Cons.hyps(1) [of ?u] step sc Cons.prems(2,3) by (simp split: if_splits)
  moreover have "filter (\<lambda>g. g \<noteq> f \<and> g \<notin> set (ubInQueue u)) fs = filter (\<lambda>g. g \<notin> set (ubInQueue u)) fs"
    by (rule filter_cong) (use sc Cons.prems(2) in auto)
  ultimately show ?case by (simp add: sc step)
qed simp

lemma scanRun_idle: "ubScan u = [] \<Longrightarrow> ubSending u = None \<Longrightarrow> scanRun n u = u"
  by (induction n) (simp_all add: scanNext_def scanSend_def)

lemma scanRun_add: "scanRun (m + n) u = scanRun n (scanRun m u)"
  by (induction m arbitrary: u) simp_all

lemma scanRun_done:
  assumes "ubSending u = None" "length (ubQueue u) + length (ubScan u) \<le> queueCap"
  shows "ubScan (scanRun (length (ubScan u)) u) = [] \<and> ubSending (scanRun (length (ubScan u)) u) = None"
  using assms
proof (induction "ubScan u" arbitrary: u)
  case (Cons f fs)
  let ?u = "scanSend (scanNext u)"
  have sc: "ubScan u = f # fs" using Cons.hyps(2) by simp
  have "ubScan ?u = fs" "ubSending ?u = None" "length (ubQueue ?u) \<le> Suc (length (ubQueue u))"
    using sc Cons.prems by (auto simp: scanNext_def scanSend_def Let_def)
  with Cons.hyps(1) [of ?u] sc Cons.prems show ?case by simp
qed simp


lemma exampleFs_table:
  "dirOf exampleFs (str ''t'') = Some [(doneName (str ''default.1''), Symlink (str ''default.1'')), (str ''default.2'', Symlink (str ''default.2''))]"
  by (simp add: exampleFs_def dirOf_def)


definition exampleBase :: up_base where
  "exampleBase = scanSend (scanNext (scanDir calm (\<lambda>_. Some 5) 9 (str ''t'') exampleFs newBase))"

lemma exampleBase_reached: "(up_step (str ''t''))\<^sup>*\<^sup>* (exampleFs, newBase) (exampleFs, exampleBase)"
proof -
  let ?u = "scanDir calm (\<lambda>_. Some 5) 9 (str ''t'') exampleFs newBase"
  have "(up_step (str ''t''))\<^sup>*\<^sup>* (exampleFs, newBase) (exampleFs, ?u)" by (rule r_into_rtranclp, rule scanning) (simp_all add: newBase_def)
  also have "up_step (str ''t'') (exampleFs, ?u) (exampleFs, scanNext ?u)"
    by (rule advance) (simp add: scanDir_keeps newBase_def)
  also have "up_step (str ''t'') (exampleFs, scanNext ?u) (exampleFs, exampleBase)"
    unfolding exampleBase_def by (rule sending)
  finally show ?thesis by simp
qed

theorem single_upload_witness:
  "distinct (held exampleBase) \<and> set (ubInQueue exampleBase) = set (held exampleBase) \<and> length (ubQueue exampleBase) \<le> queueCap"
  by (rule single_upload [OF exampleBase_reached])

text \<open>
  An insert counts as accepted exactly when the request was sent, the response has status
  200 and ClickHouse reports no exception code.
\<close>

theorem insert_accepted:
  "insertRowBinary withQuery newRequest send gzip cfg table data = Some None \<longleftrightarrow>
     (\<exists>queryURL req resp. withQuery (ucURL cfg) (insertQuery table) = Inr queryURL
        \<and> newRequest queryURL (if ucCompressData cfg then gzip data else data) = Inr req
        \<and> send (ucCompressData cfg) req = Inr resp
        \<and> rsException resp \<in> {[], str ''0''} \<and> rsStatus resp = 200)"
  by (auto simp: insertRowBinary_def split: sum.splits)

end
