(* ===== verification/Up_Extra.thy ===== *)
theory Up_Extra
  imports RB_Writer Up_Filter Up_Base "HOL-Library.Multiset"
begin

text \<open>
  Smaller parts of the uploaders: the goroutine that compresses the body of an insert (\<^verbatim>\<open>base.go\<close>), the debug printer of the
  pattern tree (\<^verbatim>\<open>filter.go\<close>) and the URL parser that \<^verbatim>\<open>tagged.go\<close> keeps beside its own.
\<close>

subsection \<open>Compressed bodies\<close>

text \<open>
  The gzip writer: a state, the bytes a write passes on, and the bytes that closing adds. The reader of the result may
  close its end; the sink then takes no more bytes.
\<close>

record 's gzip_writer =
  gzState :: 's
  gzWrite :: "bytes \<Rightarrow> 's \<Rightarrow> bytes \<times> 's"
  gzClose :: "'s \<Rightarrow> bytes"

datatype 'e pipe_end = PipeEOF | PipeClosed | PipeError 'e | PipeWriteFailed

text \<open>\<open>io.Copy(gw, data)\<close> over what is written to the source pipe.\<close>

fun gzCopy :: "bytes list \<Rightarrow> 's gzip_writer \<Rightarrow> sink \<Rightarrow> 's gzip_writer \<times> sink \<times> bool" where
  "gzCopy [] gw out = (gw, out, True)"
| "gzCopy (p # ps) gw out =
     (case gzWrite gw p (gzState gw) of
        (z, s) \<Rightarrow>
          (case sinkWrite z out of (out, ok) \<Rightarrow> if ok then gzCopy ps (gw\<lparr>gzState := s\<rparr>) out else (gw\<lparr>gzState := s\<rparr>, out, False)))"

text \<open>
  \<open>compress\<close>: the source ends with an error or without; the results are what the reader gets, how its input ends, and what
  the source pipe tells its writer from then on.
\<close>

definition compress :: "'s gzip_writer \<Rightarrow> bytes list \<Rightarrow> 'e option \<Rightarrow> sink \<Rightarrow> sink \<times> 'e pipe_end \<times> 'e pipe_end" where
  "compress gw data srcErr out =
     (case gzCopy data gw out of
        (_, out, False) \<Rightarrow> (out, PipeWriteFailed, PipeWriteFailed)
      | (gw, out, True) \<Rightarrow>
          (case srcErr of
             Some e \<Rightarrow> (out, PipeError e, PipeError e)
           | None \<Rightarrow>
               (case sinkWrite (gzClose gw (gzState gw)) out of
                  (out, False) \<Rightarrow> (out, PipeWriteFailed, PipeWriteFailed)
                | (out, True) \<Rightarrow> (out, PipeEOF, PipeClosed))))"

text \<open>The compressed stream of complete data.\<close>

fun gzStream :: "bytes list \<Rightarrow> 's gzip_writer \<Rightarrow> bytes" where
  "gzStream [] gw = gzClose gw (gzState gw)"
| "gzStream (p # ps) gw = (case gzWrite gw p (gzState gw) of (z, s) \<Rightarrow> z @ gzStream ps (gw\<lparr>gzState := s\<rparr>))"

lemma sinkWrite_True: "sinkWrite p out = (out', True) \<Longrightarrow> skData out' = skData out @ p"
  by (auto simp: sinkWrite_def split: option.splits if_splits)

lemma gzCopy_stream:
  "gzCopy data gw out = (gw', out', True) \<Longrightarrow> skData out @ gzStream data gw = skData out' @ gzClose gw' (gzState gw')"
proof (induction data gw out rule: gzCopy.induct)
  case (2 p ps gw out)
  obtain z s where z: "gzWrite gw p (gzState gw) = (z, s)" by fastforce
  obtain out1 ok where o: "sinkWrite z out = (out1, ok)" by fastforce
  with 2(2) z have ok: "ok" "gzCopy ps (gw\<lparr>gzState := s\<rparr>) out1 = (gw', out', True)" by (auto split: if_splits)
  from "2.IH" [OF z [symmetric] o [symmetric] ok] sinkWrite_True [of z out out1] o ok(1) z show ?case by simp
qed simp

text \<open>
  The reader sees a regular end exactly when the source ended without an error and everything was taken, and then it has the
  whole compressed stream: a body that was cut short never looks complete to the server.
\<close>

lemma compress_complete:
  assumes "compress gw data srcErr out = (out', reader, source)"
  shows "reader = PipeEOF \<longleftrightarrow> srcErr = None \<and> source = PipeClosed"
    and "reader = PipeEOF \<Longrightarrow> skData out' = skData out @ gzStream data gw"
    and "srcErr = Some e \<Longrightarrow> reader = PipeError e \<or> reader = PipeWriteFailed"
proof -
  obtain gw1 out1 ok where c: "gzCopy data gw out = (gw1, out1, ok)" by (rule prod_cases3)
  obtain out2 ok2 where s: "sinkWrite (gzClose gw1 (gzState gw1)) out1 = (out2, ok2)" by fastforce
  show "reader = PipeEOF \<longleftrightarrow> srcErr = None \<and> source = PipeClosed" "srcErr = Some e \<Longrightarrow> reader = PipeError e \<or> reader = PipeWriteFailed"
    using assms c s by (cases ok; cases srcErr; cases ok2; auto simp: compress_def)+
  show "skData out' = skData out @ gzStream data gw" if "reader = PipeEOF"
  proof -
    have "ok" "srcErr = None" "ok2" "out' = out2" using that assms c s by (cases ok; cases srcErr; cases ok2; auto simp: compress_def)+
    with gzCopy_stream [of data gw out gw1 out1] sinkWrite_True [of "gzClose gw1 (gzState gw1)" out1 out2] c s show ?thesis by simp
  qed
qed

subsection \<open>The printer of the pattern tree\<close>

lemma child_smaller: "x \<in> set (sort_key fst (childNodes root)) \<Longrightarrow> size (snd x) < size root"
  by (cases root; cases x) (auto dest: size_list_estimation' [where f = "size_prod (\<lambda>_. 0) size" and y = "size (snd x)"])

function stringInner :: "nat \<Rightarrow> patternTreeNode \<Rightarrow> bytes" where
  "stringInner depth root =
     concat (map (\<lambda>x. replicate depth 9 @ fst x @ [10] @ stringInner (depth + 1) (snd x)) (sort_key fst (childNodes root)))"
  by pat_completeness auto
termination by (relation "measure (\<lambda>(depth, root). size root)") (simp_all add: child_smaller del: set_sort)

declare stringInner.simps [simp del]

text \<open>The text does not depend on the order in which the map gives its keys.\<close>

lemma stringInner_order:
  assumes "mset cs = mset cs'" "distinct (map fst cs)"
  shows "stringInner depth (Node cs) = stringInner depth (Node cs')"
proof -
  have "sort_key fst cs = sort_key fst cs'"
    by (rule sort_key_inj_key_eq) (use assms in \<open>simp_all add: distinct_map\<close>)
  then show ?thesis by (simp add: stringInner.simps [of _ "Node cs"] stringInner.simps [of _ "Node cs'"])
qed

lemma stringInner_example:
  "stringInner 0 (Node [(str ''k'', Node []), (str ''a'', Node [(str ''b'', Node [])])]) = str ''a'' @ [10, 9] @ str ''b'' @ [10] @ str ''k'' @ [10]"
proof -
  have leaf: "stringInner d (Node []) = []" for d by (subst stringInner.simps) simp
  have "stringInner 1 (Node [(str ''b'', Node [])]) = [9] @ str ''b'' @ [10]" by (subst stringInner.simps) (simp add: leaf)
  with leaf show ?thesis by (subst stringInner.simps) simp
qed

subsection \<open>The URL parser\<close>

text \<open>
  \<open>urlParse\<close>; \<open>parse\<close> is \<open>url.Parse\<close>, \<open>unescape\<close> is \<open>url.PathUnescape\<close> and \<open>setPath\<close> the assignment to the field. A name with a
  query has its path unescaped apart from it.
\<close>

definition urlParse :: "(bytes \<Rightarrow> 'e + 'u) \<Rightarrow> (bytes \<Rightarrow> 'e + bytes) \<Rightarrow> (bytes \<Rightarrow> 'u \<Rightarrow> 'u) \<Rightarrow> bytes \<Rightarrow> 'e + 'u" where
  "urlParse parse unescape setPath rawurl =
     (case IndexByte rawurl cQuest of
        None \<Rightarrow> parse rawurl
      | Some p \<Rightarrow>
          (case parse (drop p rawurl) of
             Inl e \<Rightarrow> Inl e
           | Inr m \<Rightarrow> (case unescape (take p rawurl) of Inl e \<Rightarrow> Inl e | Inr path \<Rightarrow> Inr (setPath path m))))"

end
