(* ===== verification/RB_BufferOps.thy ===== *)
theory RB_BufferOps
  imports RB_Buffer
begin

text \<open>
  The write buffer of \<^verbatim>\<open>helper/RowBinary/write_buffer.go\<close> as an object: whatever sequence of its operations is
  applied, as long as none panics the used part stays inside the array, and every operation but
  \<open>Reset\<close> only appends.
\<close>

subsection \<open>Every operation appends\<close>

definition extends :: "write_buffer \<Rightarrow> write_buffer \<Rightarrow> bool" where
  "extends wb wb' \<longleftrightarrow> (\<exists>p. wb' = appendWb p wb \<and> length p \<le> FreeSize wb)"

lemma extends_refl [simp]: "extends wb wb"
  unfolding extends_def by (rule exI [of _ "[]"]) (simp add: appendWb_def)

lemma extends_trans [trans]: "extends wb wb1 \<Longrightarrow> extends wb1 wb2 \<Longrightarrow> extends wb wb2"
proof -
  assume "extends wb wb1" "extends wb1 wb2"
  then obtain p q where "wb1 = appendWb p wb" "length p \<le> FreeSize wb" "wb2 = appendWb q wb1" "length q \<le> FreeSize wb1"
    unfolding extends_def by blast
  then have "wb2 = appendWb (p @ q) wb" "length (p @ q) \<le> FreeSize wb" by (simp_all add: appendWb_def FreeSize_def wbUsed_def)
  then show ?thesis unfolding extends_def by blast
qed

lemma putTo_extends: "putTo p wb = Some wb' \<Longrightarrow> extends wb wb'"
  unfolding extends_def putTo_if by (auto split: if_splits)

lemma copyTo_extends: "extends wb (copyTo p wb)"
  unfolding extends_def copyTo_appendWb by auto

lemma WriteBytes_extends: "WriteBytes p wb = Some wb' \<Longrightarrow> extends wb wb'"
  unfolding WriteBytes_def by (auto simp: bind_eq_Some_conv intro: extends_trans [OF putTo_extends copyTo_extends])

lemma WriteString_extends: "WriteString p wb = Some wb' \<Longrightarrow> extends wb wb'"
  unfolding WriteString_def by (auto simp: bind_eq_Some_conv intro: extends_trans [OF putTo_extends copyTo_extends])

lemma WriteTagged_loop_extends: "WriteTagged_loop i ts wb = Some wb' \<Longrightarrow> extends wb wb'"
proof (induction ts arbitrary: i wb)
  case (Cons t ts)
  then obtain wb1 where wb1: "(if 0 < i then putTo [taggedSep i] wb else Some wb) = Some wb1" "WriteTagged_loop (Suc i) ts (copyTo t wb1) = Some wb'"
    by (auto simp: bind_eq_Some_conv)
  have "extends wb wb1" using wb1(1) by (auto split: if_splits intro: putTo_extends)
  also have "extends wb1 (copyTo t wb1)" by (rule copyTo_extends)
  also have "extends (copyTo t wb1) wb'" using wb1(2) by (rule Cons.IH)
  finally show ?case .
qed simp

lemma WriteTagged_extends: "WriteTagged ts wb = Some wb' \<Longrightarrow> extends wb wb'"
  unfolding WriteTagged_def
  by (auto simp: bind_eq_Some_conv Let_def split: if_splits intro: extends_trans [OF putTo_extends WriteTagged_loop_extends])

lemma WriteReversePath_loop_extends: "WriteReversePath_loop p wb = Some wb' \<Longrightarrow> extends wb wb'"
proof (induction p wb rule: WriteReversePath_loop.induct)
  case (1 p wb)
  show ?case
  proof (cases "LastIndexByte p cDot")
    case None
    with 1(2) show ?thesis by (auto simp: WriteReversePath_loop.simps [of p] intro: copyTo_extends)
  next
    case (Some i)
    with 1(2) obtain wb1 where wb1: "putTo [cDot] (copyTo (drop (Suc i) p) wb) = Some wb1" "WriteReversePath_loop (take i p) wb1 = Some wb'"
      by (auto simp: WriteReversePath_loop.simps [of p] bind_eq_Some_conv Let_def)
    have "extends wb (copyTo (drop (Suc i) p) wb)" by (rule copyTo_extends)
    also have "extends (copyTo (drop (Suc i) p) wb) wb1" using wb1(1) by (rule putTo_extends)
    also have "extends wb1 wb'" using 1(1) [OF Some refl wb1] .
    finally show ?thesis .
  qed
qed

lemma WriteReversePath_extends: "WriteReversePath p wb = Some wb' \<Longrightarrow> extends wb wb'"
  unfolding WriteReversePath_def
  by (auto simp: bind_eq_Some_conv intro: extends_trans [OF putTo_extends WriteReversePath_loop_extends])

lemmas write_extends = WriteBytes_extends WriteString_extends WriteTagged_extends WriteReversePath_extends putTo_extends copyTo_extends

text \<open>The fixed fields of a record.\<close>

lemma record_extends:
  assumes "do { wb \<leftarrow> putTo a wb; wb \<leftarrow> putTo b wb; wb \<leftarrow> putTo c wb; putTo d wb } = Some wb'"
  shows "extends wb wb'"
proof -
  from assms obtain wb1 wb2 wb3 where "putTo a wb = Some wb1" "putTo b wb1 = Some wb2" "putTo c wb2 = Some wb3" "putTo d wb3 = Some wb'"
    by (auto simp: bind_eq_Some_conv)
  from this [THEN putTo_extends] show ?thesis by (blast intro: extends_trans)
qed

lemma WriteGraphitePoint_extends: "WriteGraphitePoint days name v t ver wb = Some wb' \<Longrightarrow> extends wb wb'"
  unfolding WriteGraphitePoint_def write_defs
  by (subst (asm) bind_eq_Some_conv) (blast intro: extends_trans [OF WriteBytes_extends record_extends])

lemma WriteGraphitePointTagged_extends: "WriteGraphitePointTagged days labels v t ver wb = Some wb' \<Longrightarrow> extends wb wb'"
  unfolding WriteGraphitePointTagged_def write_defs
  by (subst (asm) bind_eq_Some_conv) (blast intro: extends_trans [OF WriteTagged_extends record_extends])

subsection \<open>The buffer as an object\<close>

inductive wb_step :: "(uint32 \<Rightarrow> uint16) \<Rightarrow> write_buffer \<Rightarrow> write_buffer \<Rightarrow> bool" for days where
  Reset: "wb_step days wb (Reset wb)"
| Write: "wb_step days wb (Write p wb)"
| WriteBytes: "WriteBytes p wb = Some wb' \<Longrightarrow> wb_step days wb wb'"
| WriteString: "WriteString p wb = Some wb' \<Longrightarrow> wb_step days wb wb'"
| WriteTagged: "WriteTagged ts wb = Some wb' \<Longrightarrow> wb_step days wb wb'"
| WriteReversePath: "WriteReversePath p wb = Some wb' \<Longrightarrow> wb_step days wb wb'"
| WriteUVarint: "WriteUVarint x wb = Some wb' \<Longrightarrow> wb_step days wb wb'"
| WriteFloat64: "WriteFloat64 v wb = Some wb' \<Longrightarrow> wb_step days wb wb'"
| WriteUint16: "WriteUint16 y wb = Some wb' \<Longrightarrow> wb_step days wb wb'"
| WriteUint32: "WriteUint32 z wb = Some wb' \<Longrightarrow> wb_step days wb wb'"
| WriteUint64: "WriteUint64 x wb = Some wb' \<Longrightarrow> wb_step days wb wb'"
| WriteGraphitePoint: "WriteGraphitePoint days name v t ver wb = Some wb' \<Longrightarrow> wb_step days wb wb'"
| WriteGraphitePointTagged: "WriteGraphitePointTagged days ts v t ver wb = Some wb' \<Longrightarrow> wb_step days wb wb'"

lemma wb_step_extends: "wb_step days wb wb' \<Longrightarrow> wb' = Reset wb \<or> extends wb wb'"
  by (induction rule: wb_step.induct)
    (auto simp: write_defs intro: write_extends WriteGraphitePoint_extends WriteGraphitePointTagged_extends)

lemma wb_ok_extends: "wb_ok wb \<Longrightarrow> extends wb wb' \<Longrightarrow> wb_ok wb'"
  by (auto simp: extends_def wb_ok_def wbUsed_def FreeSize_def)

text \<open>
  C35. After any sequence of operations on a write buffer, none of which panics, the used and
  the free part together are the buffer: the write position never leaves it.
\<close>

theorem buffer_type:
  assumes "(wb_step days)\<^sup>*\<^sup>* newWriteBuffer wb"
  shows "wbUsed wb + FreeSize wb = WriteBufferSize"
proof -
  have "wb_ok wb"
    using assms
  proof (induction rule: rtranclp_induct)
    case base
    show ?case by (simp add: wb_ok_def newWriteBuffer_def wbUsed_def)
  next
    case (step wb wb')
    from wb_step_extends [OF step.hyps(2)] step.IH show ?case
      by (auto intro: wb_ok_extends) (simp add: wb_ok_def Reset_def wbUsed_def)
  qed
  then show ?thesis by (simp add: wb_ok_def FreeSize_def)
qed

theorem buffer_type_witness:
  "wbUsed (Write (str ''abc'') newWriteBuffer) + FreeSize (Write (str ''abc'') newWriteBuffer) = WriteBufferSize"
  by (rule buffer_type, rule r_into_rtranclp, rule wb_step.Write)

end
