(* ===== verification/RB_Client.thy ===== *)
theory RB_Client
  imports RB_Writer
begin

text \<open>
  \<^verbatim>\<open>helper/RowBinary/reader/reader.go\<close>: the RowBinary client reader. The wrapped reader is the list of
  the bytes it still delivers. A result is \<open>None\<close> for a panic; otherwise the error or the value, with
  the bytes left.
\<close>

datatype client_error = EOF | UnexpectedEOF | ErrUvarintOverflow | ErrUnexpectedEnd

type_synonym 'a reading = "((client_error + 'a) \<times> bytes) option"

definition CheckError :: "client_error \<Rightarrow> client_error" where
  "CheckError err = (if err = EOF then ErrUnexpectedEnd else err)"

definition clientBuf :: nat where "clientBuf = 65536"

text \<open>\<open>read\<close>: the slice of the buffer panics beyond its capacity; \<open>io.ReadFull\<close> tells an empty from a short source.\<close>

definition clientRead :: "nat \<Rightarrow> bytes \<Rightarrow> bytes reading" where
  "clientRead want src =
     (if want > clientBuf then None
      else if want \<le> length src then Some (Inr (take want src), drop want src)
      else Some (Inl (if src = [] then EOF else UnexpectedEOF), []))"

fun clientUvarint_loop :: "nat \<Rightarrow> uint64 \<Rightarrow> nat \<Rightarrow> bytes \<Rightarrow> (client_error + uint64) \<times> bytes" where
  "clientUvarint_loop i x s [] = (Inl (if 8 \<le> i then ErrUvarintOverflow else EOF), [])"
| "clientUvarint_loop i x s (b # bs) =
     (if 8 \<le> i then (Inl ErrUvarintOverflow, b # bs)
      else if b < 0x80 then
        (if i > 9 \<or> i = 9 \<and> b > 1 then (Inl ErrUvarintOverflow, bs)
         else (Inr (x OR push_bit s (ucast b)), bs))
      else clientUvarint_loop (Suc i) (x OR push_bit s (ucast (b AND 0x7f))) (s + 7) bs)"

definition clientReadUvarint :: "bytes \<Rightarrow> (client_error + uint64) \<times> bytes" where
  "clientReadUvarint src = clientUvarint_loop 0 0 0 src"

definition mapReading :: "('a \<Rightarrow> 'b) \<Rightarrow> 'a reading \<Rightarrow> 'b reading" where
  "mapReading f r = (case r of None \<Rightarrow> None | Some (Inl e, s) \<Rightarrow> Some (Inl e, s) | Some (Inr x, s) \<Rightarrow> Some (Inr (f x), s))"

definition ReadUint8 :: "bytes \<Rightarrow> byte reading" where "ReadUint8 src = mapReading hd (clientRead 1 src)"
definition ReadUint16 :: "bytes \<Rightarrow> uint16 reading" where "ReadUint16 src = mapReading leGet (clientRead 2 src)"
definition ReadUint32 :: "bytes \<Rightarrow> uint32 reading" where "ReadUint32 src = mapReading leGet (clientRead 4 src)"
definition ReadUint64 :: "bytes \<Rightarrow> uint64 reading" where "ReadUint64 src = mapReading leGet (clientRead 8 src)"
definition ReadFloat64 :: "bytes \<Rightarrow> float64 reading" where "ReadFloat64 src = mapReading leGet (clientRead 8 src)"

definition ReadStringBytes :: "bytes \<Rightarrow> bytes reading" where
  "ReadStringBytes src =
     (case clientReadUvarint src of
        (Inl e, src) \<Rightarrow> Some (Inl e, src)
      | (Inr u, src) \<Rightarrow> if u = 0 then Some (Inr [], src) else clientRead (unat u) src)"

definition ReadString :: "bytes \<Rightarrow> bytes reading" where
  "ReadString src = ReadStringBytes src"

definition DateUint16 :: "uint16 \<Rightarrow> int" where
  "DateUint16 n = uint n * 86400"

definition ReadDate :: "bytes \<Rightarrow> int reading" where
  "ReadDate src = mapReading DateUint16 (ReadUint16 src)"

text \<open>On an error \<open>ReadStringList\<close> also returns the strings read so far.\<close>

fun ReadStringList_loop :: "nat \<Rightarrow> bytes list \<Rightarrow> bytes \<Rightarrow> ((client_error option \<times> bytes list) \<times> bytes) option" where
  "ReadStringList_loop 0 sList src = Some ((None, sList), src)"
| "ReadStringList_loop (Suc n) sList src =
     (case ReadString src of
        None \<Rightarrow> None
      | Some (Inl e, src) \<Rightarrow> Some ((Some e, sList @ replicate (Suc n) []), src)
      | Some (Inr s, src) \<Rightarrow> ReadStringList_loop n (sList @ [s]) src)"

definition ReadStringList :: "bytes \<Rightarrow> ((client_error option \<times> bytes list) \<times> bytes) option" where
  "ReadStringList src =
     (case clientReadUvarint src of
        (Inl e, src) \<Rightarrow> Some ((Some e, []), src)
      | (Inr u, src) \<Rightarrow> if u = 0 then Some ((None, []), src) else ReadStringList_loop (unat u) [] src)"

record client_point =
  cpPath :: bytes
  cpValue :: float64
  cpTimestamp :: uint32
  cpDays :: uint16
  cpVersion :: uint32

definition thenRead :: "'a reading \<Rightarrow> ('a \<Rightarrow> bytes \<Rightarrow> 'b reading) \<Rightarrow> 'b reading" where
  "thenRead r f = (case r of None \<Rightarrow> None | Some (Inl e, s) \<Rightarrow> Some (Inl (CheckError e), s) | Some (Inr x, s) \<Rightarrow> f x s)"

text \<open>Only the end of input before the path is a clean end; the partial point of an error is left out.\<close>

definition ReadGraphitePoint :: "bytes \<Rightarrow> client_point reading" where
  "ReadGraphitePoint src =
     (case ReadString src of
        None \<Rightarrow> None
      | Some (Inl e, src) \<Rightarrow> Some (Inl e, src)
      | Some (Inr path, src) \<Rightarrow>
          thenRead (ReadFloat64 src) (\<lambda>value src.
          thenRead (ReadUint32 src) (\<lambda>timestamp src.
          thenRead (ReadUint16 src) (\<lambda>days src.
          thenRead (ReadUint32 src) (\<lambda>version src.
            Some (Inr \<lparr>cpPath = path, cpValue = value, cpTimestamp = timestamp, cpDays = days, cpVersion = version\<rparr>, src))))))"

text \<open>The loop of a client: points until an error; \<open>fuel\<close> bounds the number of points.\<close>

fun readPoints :: "nat \<Rightarrow> bytes \<Rightarrow> (client_point list \<times> client_error) option" where
  "readPoints 0 src = None"
| "readPoints (Suc fuel) src =
     (case ReadGraphitePoint src of
        None \<Rightarrow> None
      | Some (Inl e, src) \<Rightarrow> Some ([], e)
      | Some (Inr p, src) \<Rightarrow> map_option (\<lambda>(ps, e). (p # ps, e)) (readPoints fuel src))"

subsection \<open>Reading back what was written\<close>

lemma clientUvarint_put:
  assumes "i + length (putUvarint y) \<le> 8"
  shows "clientUvarint_loop i x (7 * i) (putUvarint y @ rest) = (Inr (x OR push_bit (7 * i) y), rest)"
  using assms
proof (induction y arbitrary: i x rule: putUvarint.induct)
  case (1 y)
  show ?case
  proof (cases "y < 0x80")
    case True
    then have "(ucast y :: byte) < 0x80" by (simp add: word_less_nat_alt unat_ucast_byte_small)
    with True "1.prems" show ?thesis by (simp add: putUvarint_small ucast_ucast_small)
  next
    case False
    have len: "Suc i + length (putUvarint (drop_bit 7 y)) \<le> 8" using "1.prems" False by (simp add: putUvarint_big)
    then have i: "i < 8" by simp
    have "clientUvarint_loop i x (7 * i) (putUvarint y @ rest)
        = clientUvarint_loop (Suc i) (x OR push_bit (7 * i) (take_bit 7 y)) (7 * Suc i) (putUvarint (drop_bit 7 y) @ rest)"
      using i high_bit_set [of y]
      by (simp only: putUvarint_big [OF False] append_Cons clientUvarint_loop.simps ucast_low7 if_False mult_Suc_right add.commute) simp
    also have "\<dots> = (Inr (x OR push_bit (7 * i) (take_bit 7 y) OR push_bit (7 * Suc i) (drop_bit 7 y)), rest)"
      using "1.IH" [OF False len] by (simp add: or.assoc)
    also have "x OR push_bit (7 * i) (take_bit 7 y) OR push_bit (7 * Suc i) (drop_bit 7 y) = x OR push_bit (7 * i) y"
      by (subst (2) push_bit_split7) (simp only: mult_Suc_right add.commute or.assoc)
    finally show ?thesis .
  qed
qed

lemma clientReadUvarint_put:
  "unat y < 2 ^ 56 \<Longrightarrow> clientReadUvarint (putUvarint y @ rest) = (Inr y, rest)"
  using clientUvarint_put [of 0 y 0 rest] length_putUvarint_le [of 8 y] by (simp add: clientReadUvarint_def)

lemma clientRead_append: "length xs = n \<Longrightarrow> n \<le> clientBuf \<Longrightarrow> clientRead n (xs @ ys) = Some (Inr xs, ys)"
  by (auto simp: clientRead_def)

lemma unat_of_nat_buf: "n \<le> clientBuf \<Longrightarrow> unat (of_nat n :: uint64) = n"
  by (simp add: clientBuf_def take_bit_nat_eq_self unsigned_of_nat)

lemma ReadString_enc:
  assumes "length s \<le> clientBuf"
  shows "ReadString (encString s @ rest) = Some (Inr s, rest)"
proof -
  have u: "unat (of_nat (length s) :: uint64) = length s" using assms by (rule unat_of_nat_buf)
  then have "(of_nat (length s) :: uint64) = 0 \<longleftrightarrow> s = []" by (metis length_0_conv unat_0_iff)
  moreover have "clientReadUvarint (putUvarint (of_nat (length s)) @ s @ rest) = (Inr (of_nat (length s)), s @ rest)"
    using assms u by (intro clientReadUvarint_put) (simp add: clientBuf_def)
  ultimately show ?thesis
    using clientRead_append [of s "length s" rest] assms u by (simp add: ReadString_def ReadStringBytes_def encString_def)
qed

definition clientPoint :: "(uint32 \<Rightarrow> uint16) \<Rightarrow> point \<Rightarrow> client_point" where
  "clientPoint days p = \<lparr>cpPath = pName p, cpValue = pValue p, cpTimestamp = pTime p, cpDays = days (pTime p), cpVersion = pVersion p\<rparr>"

lemma ReadGraphitePoint_enc:
  assumes "length (pName p) \<le> clientBuf"
  shows "ReadGraphitePoint (encPoint days p @ rest) = Some (Inr (clientPoint days p), rest)"
  by (simp add: ReadGraphitePoint_def encPoint_def ReadString_enc [OF assms] thenRead_def ReadFloat64_def ReadUint32_def
      ReadUint16_def mapReading_def clientRead_append clientBuf_def clientPoint_def)

lemma ReadGraphitePoint_end: "ReadGraphitePoint [] = Some (Inl EOF, [])"
  by (simp add: ReadGraphitePoint_def ReadString_def ReadStringBytes_def clientReadUvarint_def)

lemma readPoints_enc:
  assumes "\<forall>p \<in> set ps. length (pName p) \<le> clientBuf" "length ps < fuel"
  shows "readPoints fuel (concat (map (encPoint days) ps)) = Some (map (clientPoint days) ps, EOF)"
  using assms
proof (induction ps arbitrary: fuel)
  case Nil
  then show ?case by (cases fuel) (simp_all add: ReadGraphitePoint_end)
next
  case (Cons p ps)
  then show ?case by (cases fuel) (simp_all add: ReadGraphitePoint_enc)
qed

text \<open>
  The client reader reads back every point of a stream whose names fit its buffer and then
  reports the end of file.
\<close>

theorem client_roundtrip:
  assumes "\<forall>p \<in> set ps. length (pName p) \<le> clientBuf"
  shows "readPoints (Suc (length ps)) (concat (map (encPoint days) ps)) = Some (map (clientPoint days) ps, EOF)"
  using readPoints_enc [OF assms, of "Suc (length ps)"] by simp

theorem client_roundtrip_witness:
  "readPoints (Suc (length [\<lparr>pName = str ''a.b'', pValue = 5, pTime = 6, pVersion = 7\<rparr>]))
       (concat (map (encPoint (\<lambda>t. 1)) [\<lparr>pName = str ''a.b'', pValue = 5, pTime = 6, pVersion = 7\<rparr>]))
     = Some (map (clientPoint (\<lambda>t. 1)) [\<lparr>pName = str ''a.b'', pValue = 5, pTime = 6, pVersion = 7\<rparr>], EOF)"
  by (rule client_roundtrip) (simp add: clientBuf_def)

text \<open>
  A point whose name is longer than the 65536-byte buffer makes the client reader panic.
\<close>

theorem client_long_name_panic:
  assumes "clientBuf < length (pName p)" "length (pName p) < 2 ^ 56"
  shows "ReadGraphitePoint (encPoint days p @ rest) = None"
proof -
  let ?n = "of_nat (length (pName p)) :: uint64"
  have u: "unat ?n = length (pName p)" using assms(2) by (simp add: take_bit_nat_eq_self unsigned_of_nat)
  then have "?n \<noteq> 0" using assms(1) unat_0_iff [of ?n] by auto
  moreover have "clientReadUvarint (encPoint days p @ rest) = (Inr ?n, drop (length (putUvarint ?n)) (encPoint days p @ rest))"
    using clientReadUvarint_put [of ?n] assms(2) u by (simp add: encPoint_def encString_def)
  ultimately show ?thesis
    using assms(1) u by (simp add: ReadGraphitePoint_def ReadString_def ReadStringBytes_def clientRead_def)
qed

theorem client_long_name_panic_witness:
  "ReadGraphitePoint (encPoint (\<lambda>t. 1) \<lparr>pName = replicate 65537 97, pValue = 5, pTime = 6, pVersion = 7\<rparr> @ []) = None"
  by (rule client_long_name_panic) (simp_all add: clientBuf_def)

end
