(* ===== verification/Recv_Stream.thy ===== *)
theory Recv_Stream
  imports Recv_Plain
begin

text \<open>
  \<^verbatim>\<open>receiver/tcp.go\<close>, \<^verbatim>\<open>receiver/udp.go\<close>: cutting the received bytes into buffers of whole lines for the
  parser threads. What the network delivers is a list of events; the loops are folds over it. The
  current time is part of an event. Sockets, deadlines and the accept loop are not modelled.
\<close>

subsection \<open>TCP connections\<close>

datatype read_event =
    ReadData bytes uint32
  | ReadFailed bool uint32  \<comment> \<open>whether the error is \<open>io.EOF\<close>\<close>

record tcp_conn =
  tcBase :: base
  tcBuffer :: rcv_buffer
  tcParseChan :: "rcv_buffer list"
  tcUnfinished :: "bytes option"  \<comment> \<open>the warning about an unfinished line\<close>
  tcClosed :: bool

text \<open>\<open>conn.Read(p)\<close> stores at most \<open>len(p)\<close> bytes.\<close>

definition readRoom :: "rcv_buffer \<Rightarrow> nat" where
  "readRoom b = bufferSize - length (rbBody b)"

definition countError :: "base \<Rightarrow> base" where
  "countError b = b\<lparr>stat := (stat b)\<lparr>errors := errors (stat b) + 1\<rparr>\<rparr>"

definition addActive :: "uint64 \<Rightarrow> base \<Rightarrow> base" where
  "addActive d b = b\<lparr>stat := (stat b)\<lparr>active := active (stat b) + d\<rparr>\<rparr>"

definition splitBuffer :: "rcv_buffer \<Rightarrow> rcv_buffer list \<times> rcv_buffer" where
  "splitBuffer buffer =
     (let chunkSize = (case LastIndexByte (rbBody buffer) cLF of None \<Rightarrow> 0 | Some i \<Rightarrow> i + 1) in
      if chunkSize > 0 then
        (let newBuffer = GetBuffer buffer;
             (newBuffer, buffer) =
               (if chunkSize < length (rbBody buffer)
                then (newBuffer\<lparr>rbBody := drop chunkSize (rbBody buffer)\<rparr>,
                      buffer\<lparr>rbBody := take chunkSize (rbBody buffer)\<rparr>)
                else (newBuffer, buffer))
         in ([buffer], newBuffer))
      else ([], buffer))"

definition tcpStep :: "read_event \<Rightarrow> tcp_conn \<Rightarrow> tcp_conn" where
  "tcpStep ev c =
     (if tcClosed c then c
      else
      (case ev of
         ReadFailed isEof now \<Rightarrow>
           (let c = c\<lparr>tcBuffer := (tcBuffer c)\<lparr>rbTime := now\<rparr>\<rparr> in
            (if isEof then
               (if rbBody (tcBuffer c) \<noteq> [] then c\<lparr>tcUnfinished := Some (rbBody (tcBuffer c))\<rparr> else c)
             else c\<lparr>tcBase := countError (tcBase c)\<rparr>)\<lparr>tcClosed := True\<rparr>)
       | ReadData d now \<Rightarrow>
           (let buffer = (tcBuffer c)\<lparr>rbTime := now, rbBody := rbBody (tcBuffer c) @ take (readRoom (tcBuffer c)) d\<rparr>;
                (out, buffer) = splitBuffer buffer
            in c\<lparr>tcBuffer := buffer, tcParseChan := tcParseChan c @ out\<rparr>)))"

definition HandleConnection :: "read_event list \<Rightarrow> base \<Rightarrow> tcp_conn" where
  "HandleConnection events b =
     (let c = fold tcpStep events
                \<lparr>tcBase = addActive 1 b, tcBuffer = \<lparr>rbTime = 0, rbBody = []\<rparr>, tcParseChan = [], tcUnfinished = None, tcClosed = False\<rparr>
      in if tcClosed c then c\<lparr>tcBase := addActive (- 1) (tcBase c)\<rparr> else c)"

subsection \<open>UDP packets\<close>

datatype udp_event =
    UdpError bool  \<comment> \<open>whether the socket is closed\<close>
  | UdpPacket bytes uint32

record udp_rcv =
  uBase :: base
  uParseChan :: "rcv_buffer list"
  uClosed :: bool

definition receiveStep :: "udp_event \<Rightarrow> udp_rcv \<Rightarrow> udp_rcv" where
  "receiveStep ev u =
     (if uClosed u then u
      else
      (case ev of
         UdpError isClosed \<Rightarrow>
           if isClosed then u\<lparr>uClosed := True\<rparr> else u\<lparr>uBase := countError (uBase u)\<rparr>
       | UdpPacket d now \<Rightarrow>
           (let body = take bufferSize d; n = length body in
            if n > 0 then
              (let chunkSize = (case LastIndexByte body cLF of None \<Rightarrow> 0 | Some i \<Rightarrow> i + 1) in
               if chunkSize > 0
               then u\<lparr>uParseChan := uParseChan u @ [\<lparr>rbTime = now, rbBody = take chunkSize body\<rparr>]\<rparr>
               else u)
            else u)))"

definition receiveWorker :: "udp_event list \<Rightarrow> base \<Rightarrow> udp_rcv" where
  "receiveWorker events b = fold receiveStep events \<lparr>uBase = b, uParseChan = [], uClosed = False\<rparr>"

subsection \<open>Nothing is lost between the socket and the parser\<close>

definition eventData :: "read_event \<Rightarrow> bytes" where
  "eventData ev = (case ev of ReadData d _ \<Rightarrow> d | ReadFailed _ _ \<Rightarrow> [])"

definition sentBytes :: "tcp_conn \<Rightarrow> bytes" where
  "sentBytes c = concat (map rbBody (tcParseChan c))"

definition wholeLines :: "bytes \<Rightarrow> bool" where
  "wholeLines p \<longleftrightarrow> p = [] \<or> last p = cLF"

lemma splitBuffer_spec:
  assumes "splitBuffer b = (out, b')"
  shows "concat (map rbBody out) @ rbBody b' = rbBody b" "cLF \<notin> set (rbBody b')"
    "\<forall>x \<in> set out. rbBody x \<noteq> [] \<and> last (rbBody x) = cLF \<and> length (rbBody x) \<le> length (rbBody b) \<and> rbTime x = rbTime b"
proof -
  have "(concat (map rbBody out) @ rbBody b' = rbBody b \<and> cLF \<notin> set (rbBody b'))
     \<and> (\<forall>x \<in> set out. rbBody x \<noteq> [] \<and> last (rbBody x) = cLF \<and> length (rbBody x) \<le> length (rbBody b) \<and> rbTime x = rbTime b)"
  proof (cases "LastIndexByte (rbBody b) cLF")
    case None
    with assms show ?thesis by (auto simp: splitBuffer_def LastIndexByte_None)
  next
    case (Some i)
    note i = LastIndexByte_SomeD [OF Some]
    have last: "take (Suc i) (rbBody b) \<noteq> []" "last (take (Suc i) (rbBody b)) = cLF"
      using i last_take_nth [of "Suc i" "rbBody b"] by auto
    show ?thesis
    proof (cases "Suc i < length (rbBody b)")
      case True
      with assms Some i last show ?thesis by (auto simp: splitBuffer_def GetBuffer_def Let_def)
    next
      case False
      with i have "length (rbBody b) = Suc i" by simp
      with assms Some i last show ?thesis by (auto simp: splitBuffer_def GetBuffer_def Let_def)
    qed
  qed
  then show "concat (map rbBody out) @ rbBody b' = rbBody b" "cLF \<notin> set (rbBody b')"
    "\<forall>x \<in> set out. rbBody x \<noteq> [] \<and> last (rbBody x) = cLF \<and> length (rbBody x) \<le> length (rbBody b) \<and> rbTime x = rbTime b"
    by blast+
qed

text \<open>The invariant of a connection that has received the bytes \<open>w\<close>.\<close>

definition connInv :: "bytes \<Rightarrow> tcp_conn \<Rightarrow> bool" where
  "connInv w c \<longleftrightarrow> sentBytes c @ rbBody (tcBuffer c) = w \<and> cLF \<notin> set (rbBody (tcBuffer c))
     \<and> length (rbBody (tcBuffer c)) \<le> bufferSize
     \<and> (\<forall>b \<in> set (tcParseChan c). rbBody b \<noteq> [] \<and> last (rbBody b) = cLF \<and> length (rbBody b) \<le> bufferSize)"

lemma tcpStep_data:
  assumes "connInv w c" "\<not> tcClosed c"
  shows "connInv (w @ take (readRoom (tcBuffer c)) d) (tcpStep (ReadData d now) c)"
    "\<not> tcClosed (tcpStep (ReadData d now) c)"
proof -
  let ?b = "(tcBuffer c)\<lparr>rbTime := now, rbBody := rbBody (tcBuffer c) @ take (readRoom (tcBuffer c)) d\<rparr>"
  obtain out b' where s: "splitBuffer ?b = (out, b')" by fastforce
  have len: "length (rbBody ?b) \<le> bufferSize"
    using assms(1) by (auto simp: connInv_def readRoom_def)
  from splitBuffer_spec [OF s] have b': "length (rbBody b') \<le> bufferSize"
    using len by (metis length_append le_add2 le_trans)
  show "connInv (w @ take (readRoom (tcBuffer c)) d) (tcpStep (ReadData d now) c)"
    using assms splitBuffer_spec [OF s] len b' s
    by (force simp: connInv_def tcpStep_def sentBytes_def)
  show "\<not> tcClosed (tcpStep (ReadData d now) c)" using assms s by (simp add: tcpStep_def)
qed

text \<open>Go's contract of \<open>Read\<close>: a read delivers at most what the slice holds. Whether the events
  respect it depends on the buffer before each read.\<close>

fun eventsFit :: "read_event list \<Rightarrow> tcp_conn \<Rightarrow> bool" where
  "eventsFit [] c = True"
| "eventsFit (ev # evs) c =
     (length (eventData ev) \<le> readRoom (tcBuffer c) \<and> eventsFit evs (tcpStep ev c))"

lemma connInv_fold:
  "connInv w c \<Longrightarrow> \<not> tcClosed c \<Longrightarrow> eventsFit evs c \<Longrightarrow> \<forall>ev \<in> set evs. \<exists>d t. ev = ReadData d t \<Longrightarrow>
     connInv (w @ concat (map eventData evs)) (fold tcpStep evs c) \<and> \<not> tcClosed (fold tcpStep evs c)"
proof (induction evs arbitrary: w c)
  case (Cons ev evs)
  then obtain d t where ev: "ev = ReadData d t" by auto
  with Cons.prems(3) have "take (readRoom (tcBuffer c)) d = d" by (simp add: eventData_def)
  with tcpStep_data [OF Cons.prems(1,2), of d t] ev
  have "connInv (w @ eventData ev) (tcpStep ev c)" "\<not> tcClosed (tcpStep ev c)" by (simp_all add: eventData_def)
  with Cons.IH [of "w @ eventData ev" "tcpStep ev c"] Cons.prems show ?case by simp
qed simp

lemma bufferLines_append:
  assumes "wholeLines p"
  shows "bufferLines (p @ q) = bufferLines p @ bufferLines q"
proof (cases p rule: rev_cases)
  case (snoc p' x)
  with assms have "x = cLF" by (simp add: wholeLines_def)
  with snoc show ?thesis
    by (simp add: bufferLines_def splitOn_append_sep butlast_append)
qed (simp add: bufferLines_def)

lemma bufferLines_concat:
  "\<forall>b \<in> set bs. rbBody b \<noteq> [] \<and> last (rbBody b) = cLF \<Longrightarrow>
     bufferLines (concat (map rbBody bs)) = concat (map (bufferLines \<circ> rbBody) bs)
     \<and> wholeLines (concat (map rbBody bs))"
proof (induction bs)
  case (Cons b bs)
  then have "wholeLines (rbBody b)" by (simp add: wholeLines_def)
  with Cons bufferLines_append [OF this] show ?case by (auto simp: wholeLines_def last_append)
qed (simp add: bufferLines_def wholeLines_def)

definition newConn :: "base \<Rightarrow> tcp_conn" where
  "newConn b = \<lparr>tcBase = addActive 1 b, tcBuffer = \<lparr>rbTime = 0, rbBody = []\<rparr>, tcParseChan = [],
     tcUnfinished = None, tcClosed = False\<rparr>"

lemma connInv_new: "connInv [] (newConn b)"
  by (simp add: connInv_def newConn_def sentBytes_def)

lemma HandleConnection_data:
  assumes "\<forall>ev \<in> set evs. \<exists>d t. ev = ReadData d t" "eventsFit evs (newConn b)"
  shows "connInv (concat (map eventData evs)) (HandleConnection evs b)"
proof -
  have "\<not> tcClosed (newConn b)" by (simp add: newConn_def)
  with connInv_fold [OF connInv_new this assms(2,1)] show ?thesis
    by (simp add: HandleConnection_def newConn_def Let_def)
qed

text \<open>
  C18. However TCP splits the byte stream into reads, the buffers handed to the parser are whole
  lines and together with the rest kept for the next read are exactly the bytes received.
\<close>

theorem tcp_segmentation:
  assumes "\<forall>ev \<in> set evs. \<exists>d t. ev = ReadData d t" "eventsFit evs (newConn b)"
  shows "concat (map (bufferLines \<circ> rbBody) (tcParseChan (HandleConnection evs b)))
       = bufferLines (concat (map eventData evs))
     \<and> (\<forall>x \<in> set (tcParseChan (HandleConnection evs b)). length (rbBody x) \<le> bufferSize \<and> \<not> unfinished (rbBody x))"
proof -
  let ?c = "HandleConnection evs b"
  have inv: "connInv (concat (map eventData evs)) ?c" using assms by (rule HandleConnection_data)
  then have bs: "\<forall>x \<in> set (tcParseChan ?c). rbBody x \<noteq> [] \<and> last (rbBody x) = cLF" by (simp add: connInv_def)
  have cur: "bufferLines (rbBody (tcBuffer ?c)) = []"
    using inv bufferLines_IndexByte(3) [of "rbBody (tcBuffer ?c)"] by (simp add: connInv_def IndexByte_None)
  have "bufferLines (concat (map eventData evs)) = bufferLines (sentBytes ?c) @ bufferLines (rbBody (tcBuffer ?c))"
    using inv bufferLines_concat [OF bs] bufferLines_append [of "sentBytes ?c" "rbBody (tcBuffer ?c)"]
    by (metis connInv_def sentBytes_def)
  moreover have "\<not> unfinished (rbBody x)" if "x \<in> set (tcParseChan ?c)" for x
  proof -
    from bs that obtain p where "rbBody x = p @ [cLF]" by (metis append_butlast_last_id)
    then show ?thesis by (simp add: unfinished_def splitOn_append_sep)
  qed
  ultimately show ?thesis
    using inv cur bufferLines_concat [OF bs] by (simp add: connInv_def sentBytes_def)
qed

theorem tcp_segmentation_witness:
  "concat (map (bufferLines \<circ> rbBody) (tcParseChan (HandleConnection
       [ReadData (str ''a 1'') 1, ReadData (str '' 2'' @ cLF # str ''b 3 4'' @ [cLF] @ str ''c'') 2] zeroBase)))
     = bufferLines (str ''a 1 2'' @ cLF # str ''b 3 4'' @ [cLF] @ str ''c'')"
  using tcp_segmentation [of "[ReadData (str ''a 1'') 1, ReadData (str '' 2'' @ cLF # str ''b 3 4'' @ [cLF] @ str ''c'') 2]" zeroBase]
  by (simp add: eventData_def readRoom_def newConn_def bufferSize_def tcpStep_def splitBuffer_def)

text \<open>
  A line longer than the receive buffer fills it; from then on the connection makes no
  progress.
\<close>

theorem tcp_full_buffer_stuck:
  assumes "length (rbBody (tcBuffer c)) = bufferSize" "cLF \<notin> set (rbBody (tcBuffer c))" "\<not> tcClosed c"
  shows "\<exists>t. fold tcpStep (map (\<lambda>(d, t). ReadData d t) ds) c = c\<lparr>tcBuffer := (tcBuffer c)\<lparr>rbTime := t\<rparr>\<rparr>"
proof -
  have step: "tcpStep (ReadData d t) (c\<lparr>tcBuffer := (tcBuffer c)\<lparr>rbTime := t'\<rparr>\<rparr>)
      = c\<lparr>tcBuffer := (tcBuffer c)\<lparr>rbTime := t\<rparr>\<rparr>" for d t t'
    using assms by (simp add: tcpStep_def readRoom_def splitBuffer_def)
  have "\<exists>t. fold tcpStep (map (\<lambda>(d, t). ReadData d t) ds) (c\<lparr>tcBuffer := (tcBuffer c)\<lparr>rbTime := t'\<rparr>\<rparr>)
      = c\<lparr>tcBuffer := (tcBuffer c)\<lparr>rbTime := t\<rparr>\<rparr>" for t'
  proof (induction ds arbitrary: t')
    case (Cons x ds)
    then show ?case by (cases x) (simp add: step)
  qed auto
  from this [of "rbTime (tcBuffer c)"] show ?thesis by simp
qed

theorem tcp_full_buffer_stuck_witness:
  "\<exists>t. fold tcpStep (map (\<lambda>(d, t). ReadData d t) [(str ''x'' @ [cLF], 1), (str ''y'', 2)])
        ((newConn zeroBase)\<lparr>tcBuffer := \<lparr>rbTime = 0, rbBody = replicate bufferSize 97\<rparr>\<rparr>)
      = (newConn zeroBase)\<lparr>tcBuffer := \<lparr>rbTime = t, rbBody = replicate bufferSize 97\<rparr>\<rparr>"
  using tcp_full_buffer_stuck [of "(newConn zeroBase)\<lparr>tcBuffer := \<lparr>rbTime = 0, rbBody = replicate bufferSize 97\<rparr>\<rparr>"
      "[(str ''x'' @ [cLF], 1), (str ''y'', 2)]"]
  by (simp add: newConn_def)

subsection \<open>UDP: the complete lines of every packet\<close>

lemma receiveStep_packet:
  assumes "\<not> uClosed u" "length d \<le> bufferSize"
  shows "concat (map (bufferLines \<circ> rbBody) (uParseChan (receiveStep (UdpPacket d now) u)))
      = concat (map (bufferLines \<circ> rbBody) (uParseChan u)) @ bufferLines d"
    "\<not> uClosed (receiveStep (UdpPacket d now) u)"
proof -
  show "\<not> uClosed (receiveStep (UdpPacket d now) u)"
    using assms by (simp add: receiveStep_def Let_def)
  show "concat (map (bufferLines \<circ> rbBody) (uParseChan (receiveStep (UdpPacket d now) u)))
      = concat (map (bufferLines \<circ> rbBody) (uParseChan u)) @ bufferLines d"
  proof (cases "LastIndexByte d cLF")
    case None
    then have "bufferLines d = []"
      using bufferLines_IndexByte(3) [of d] by (simp add: LastIndexByte_None IndexByte_None)
    with None assms show ?thesis by (simp add: receiveStep_def)
  next
    case (Some i)
    note i = LastIndexByte_SomeD [OF Some]
    have "wholeLines (take (Suc i) d)" using i last_take_nth [of "Suc i" d] by (simp add: wholeLines_def)
    then have "bufferLines d = bufferLines (take (Suc i) d) @ bufferLines (drop (Suc i) d)"
      by (metis append_take_drop_id bufferLines_append)
    moreover have "bufferLines (drop (Suc i) d) = []"
      using bufferLines_IndexByte(3) [of "drop (Suc i) d"] i by (simp add: IndexByte_None)
    ultimately show ?thesis using Some assms i by (auto simp: receiveStep_def)
  qed
qed

text \<open>
  Of every datagram the UDP receiver hands on exactly the part up to its last newline, in
  one buffer.
\<close>

theorem udp_lines:
  assumes "\<forall>p \<in> set ps. length (fst p) \<le> bufferSize"
  shows "concat (map (bufferLines \<circ> rbBody) (uParseChan (receiveWorker (map (\<lambda>(d, t). UdpPacket d t) ps) b)))
      = concat (map (bufferLines \<circ> fst) ps)"
proof -
  have "\<not> uClosed u \<Longrightarrow> concat (map (bufferLines \<circ> rbBody) (uParseChan (fold receiveStep (map (\<lambda>(d, t). UdpPacket d t) ps) u)))
      = concat (map (bufferLines \<circ> rbBody) (uParseChan u)) @ concat (map (bufferLines \<circ> fst) ps)" for u
    using assms
  proof (induction ps arbitrary: u)
    case (Cons p ps)
    then show ?case by (cases p) (simp add: receiveStep_packet [unfolded comp_def])
  qed simp
  then show ?thesis by (simp add: receiveWorker_def)
qed

theorem udp_lines_witness:
  "concat (map (bufferLines \<circ> rbBody) (uParseChan (receiveWorker
       (map (\<lambda>(d, t). UdpPacket d t) [(str ''a 1 2'' @ [cLF], 1), (str ''b 3 4'' @ [cLF] @ str ''c'', 2)]) zeroBase)))
     = concat (map (bufferLines \<circ> fst) [(str ''a 1 2'' @ [cLF], 1 :: uint32), (str ''b 3 4'' @ [cLF] @ str ''c'', 2)])"
  by (rule udp_lines) (simp add: bufferSize_def)

end
