(* ===== verification/Recv_Listen.thy ===== *)
theory Recv_Listen
  imports Recv_Stream Recv_Messages "HOL-Library.Multiset"
begin

text \<open>
  The goroutines of a listening receiver: \<open>Listen\<close> and the concurrent side of \<open>HandleConnection\<close> in
  \<^verbatim>\<open>receiver/tcp.go\<close> and \<^verbatim>\<open>receiver/pickle.go\<close>, and the servers of \<^verbatim>\<open>receiver/prometheus.go\<close>,
  \<^verbatim>\<open>receiver/telegraf_http_json.go\<close> and \<^verbatim>\<open>receiver/grpc.go\<close>. The steps of all goroutines are interleaved in any order.
\<close>

subsection \<open>Connections and parser threads\<close>

text \<open>
  A handler reads, or is blocked sending a message to the parsers: the send has no alternative. Every
  handler has a watcher that closes the connection when the context is done.
\<close>

datatype 'b conn_pc = Reading | Sending 'b | ConnDone

record ('c, 'b) conn =
  cnState :: 'c
  cnPc :: "'b conn_pc"
  cnClosed :: bool
  cnWatcher :: bool

datatype 'b parser_pc = PIdle | PBusy 'b | PDone

record ('c, 'b) server =
  svCancelled :: bool
  svListening :: bool
  svCloser :: bool
  svAcceptor :: bool
  svConns :: "('c, 'b) conn list"
  svParsers :: "'b parser_pc list"
  svRead :: "'b list"  \<comment> \<open>history: the messages read\<close>
  svParsed :: "'b list"  \<comment> \<open>history: the messages parsed\<close>

definition listenServer :: "nat \<Rightarrow> ('c, 'b) server" where
  "listenServer threads =
     \<lparr>svCancelled = False, svListening = True, svCloser = True, svAcceptor = True, svConns = [],
      svParsers = replicate threads PIdle, svRead = [], svParsed = []\<rparr>"

definition freshConn :: "'c \<Rightarrow> ('c, 'b) conn" where
  "freshConn c = \<lparr>cnState = c, cnPc = Reading, cnClosed = False, cnWatcher = True\<rparr>"

text \<open>
  The handler after a read: \<open>fin\<close> is a read error, on which it returns and its deferred calls close the
  connection.
\<close>

definition afterRead :: "'c \<times> 'b list \<times> bool \<Rightarrow> ('c, 'b) conn \<Rightarrow> ('c, 'b) conn" where
  "afterRead r c = (case r of (c', out, fin) \<Rightarrow>
     c\<lparr>cnState := c', cnPc := (if fin then ConnDone else case out of [] \<Rightarrow> Reading | b # _ \<Rightarrow> Sending b),
       cnClosed := (if fin then True else cnClosed c)\<rparr>)"

inductive server_step :: "('ev \<Rightarrow> 'c \<Rightarrow> 'c \<times> 'b list \<times> bool) \<Rightarrow> 'c \<Rightarrow> ('c, 'b) server \<Rightarrow> ('c, 'b) server \<Rightarrow> bool" for rd c0 where
  cancel: "server_step rd c0 s (s\<lparr>svCancelled := True\<rparr>)"
| close_listener: "svCancelled s \<Longrightarrow> svCloser s \<Longrightarrow> server_step rd c0 s (s\<lparr>svListening := False, svCloser := False\<rparr>)"
| accept: "svAcceptor s \<Longrightarrow> svListening s \<Longrightarrow> server_step rd c0 s (s\<lparr>svConns := svConns s @ [freshConn c0]\<rparr>)"
| accept_closed: "svAcceptor s \<Longrightarrow> \<not> svListening s \<Longrightarrow> server_step rd c0 s (s\<lparr>svAcceptor := False\<rparr>)"
| read: "i < length (svConns s) \<Longrightarrow> cnPc (svConns s ! i) = Reading \<Longrightarrow> \<not> cnClosed (svConns s ! i) \<Longrightarrow>
     server_step rd c0 s (s\<lparr>svConns := (svConns s)[i := afterRead (rd ev (cnState (svConns s ! i))) (svConns s ! i)],
       svRead := svRead s @ fst (snd (rd ev (cnState (svConns s ! i))))\<rparr>)"
| read_closed: "i < length (svConns s) \<Longrightarrow> cnPc (svConns s ! i) = Reading \<Longrightarrow> cnClosed (svConns s ! i) \<Longrightarrow>
     server_step rd c0 s (s\<lparr>svConns := (svConns s)[i := (svConns s ! i)\<lparr>cnPc := ConnDone\<rparr>]\<rparr>)"
| watch: "i < length (svConns s) \<Longrightarrow> cnWatcher (svConns s ! i) \<Longrightarrow> svCancelled s \<or> cnPc (svConns s ! i) = ConnDone \<Longrightarrow>
     server_step rd c0 s (s\<lparr>svConns := (svConns s)[i := (svConns s ! i)\<lparr>cnWatcher := False, cnClosed := True\<rparr>]\<rparr>)"
| send: "i < length (svConns s) \<Longrightarrow> cnPc (svConns s ! i) = Sending b \<Longrightarrow> j < length (svParsers s) \<Longrightarrow> svParsers s ! j = PIdle \<Longrightarrow>
     server_step rd c0 s (s\<lparr>svConns := (svConns s)[i := (svConns s ! i)\<lparr>cnPc := Reading\<rparr>], svParsers := (svParsers s)[j := PBusy b]\<rparr>)"
| parse: "j < length (svParsers s) \<Longrightarrow> svParsers s ! j = PBusy b \<Longrightarrow>
     server_step rd c0 s (s\<lparr>svParsers := (svParsers s)[j := PIdle], svParsed := svParsed s @ [b]\<rparr>)"
| parser_exit: "j < length (svParsers s) \<Longrightarrow> svParsers s ! j = PIdle \<Longrightarrow> svCancelled s \<Longrightarrow>
     server_step rd c0 s (s\<lparr>svParsers := (svParsers s)[j := PDone]\<rparr>)"

text \<open>All goroutines have returned: the wait in \<open>Stop\<close> is over.\<close>

definition quiet :: "('c, 'b) server \<Rightarrow> bool" where
  "quiet s \<longleftrightarrow> \<not> svCloser s \<and> \<not> svAcceptor s \<and> list_all (\<lambda>c. cnPc c = ConnDone \<and> \<not> cnWatcher c) (svConns s)
     \<and> list_all (\<lambda>p. p = PDone) (svParsers s)"

text \<open>The messages a handler is sending, and those being parsed.\<close>

fun pending :: "'b conn_pc \<Rightarrow> 'b list" where
  "pending (Sending b) = [b]"
| "pending _ = []"

fun busy :: "'b parser_pc \<Rightarrow> 'b list" where
  "busy (PBusy b) = [b]"
| "busy _ = []"

definition blockedSends :: "('c, 'b) server \<Rightarrow> 'b list" where
  "blockedSends s = concat (map (pending \<circ> cnPc) (svConns s))"

definition beingParsed :: "('c, 'b) server \<Rightarrow> 'b list" where
  "beingParsed s = concat (map busy (svParsers s))"

subsection \<open>Every message is parsed once\<close>

text \<open>Replacing one element of a list, seen through a multiset.\<close>

lemma mset_concat_update:
  assumes "i < length xs"
  shows "mset (concat (map f (xs[i := y]))) + mset (f (xs ! i)) = mset (concat (map f xs)) + mset (f y)"
proof -
  have xs: "xs = take i xs @ xs ! i # drop (Suc i) xs" using assms by (rule id_take_nth_drop)
  have upd: "xs[i := y] = take i xs @ y # drop (Suc i) xs" using assms by (rule upd_conv_take_nth_drop)
  show ?thesis by (subst xs, subst upd) (simp add: ac_simps)
qed

locale message_reader =
  fixes rd :: "'ev \<Rightarrow> 'c \<Rightarrow> 'c \<times> 'b list \<times> bool"
  assumes one_message: "rd ev c = (c', out, fin) \<Longrightarrow> length out \<le> 1"
    and none_at_end: "rd ev c = (c', out, True) \<Longrightarrow> out = []"
begin

lemma pending_afterRead:
  assumes "cnPc c = Reading"
  shows "pending (cnPc (afterRead (rd ev (cnState c)) c)) = fst (snd (rd ev (cnState c)))"
proof -
  obtain c' out fin where r: "rd ev (cnState c) = (c', out, fin)" by (metis prod_cases3)
  show ?thesis
    using one_message [OF r] none_at_end [of ev "cnState c" c' out] r
    by (cases fin; cases out) (auto simp: afterRead_def)
qed

lemma conserved_step:
  assumes "server_step rd c0 s s'" "mset (svRead s) = mset (svParsed s) + mset (beingParsed s) + mset (blockedSends s)"
  shows "mset (svRead s') = mset (svParsed s') + mset (beingParsed s') + mset (blockedSends s')"
  using assms
proof (induction rule: server_step.induct)
  case (read i s ev)
  from mset_concat_update [OF read.hyps(1), of "pending \<circ> cnPc"] read pending_afterRead [OF read.hyps(2), of ev] show ?case
    by (simp add: blockedSends_def beingParsed_def)
next
  case (send i s b j)
  from mset_concat_update [OF send.hyps(1), of "pending \<circ> cnPc" "(svConns s ! i)\<lparr>cnPc := Reading\<rparr>"]
    mset_concat_update [OF send.hyps(3), of busy "PBusy b"] send show ?case
    by (simp add: blockedSends_def beingParsed_def)
next
  case (parse j s b)
  from mset_concat_update [OF parse.hyps(1), of busy PIdle] parse show ?case
    by (simp add: blockedSends_def beingParsed_def)
next
  case (parser_exit j s)
  from mset_concat_update [OF parser_exit.hyps(1), of busy PDone] parser_exit show ?case
    by (simp add: blockedSends_def beingParsed_def)
next
  case (read_closed i s)
  from mset_concat_update [OF read_closed.hyps(1), of "pending \<circ> cnPc" "(svConns s ! i)\<lparr>cnPc := ConnDone\<rparr>"] read_closed show ?case
    by (simp add: blockedSends_def beingParsed_def)
next
  case (watch i s)
  from mset_concat_update [OF watch.hyps(1), of "pending \<circ> cnPc" "(svConns s ! i)\<lparr>cnWatcher := False, cnClosed := True\<rparr>"] watch show ?case
    by (simp add: blockedSends_def beingParsed_def)
qed (auto simp: blockedSends_def beingParsed_def freshConn_def)

lemma conserved:
  assumes "(server_step rd c0)\<^sup>*\<^sup>* (listenServer n) s"
  shows "mset (svRead s) = mset (svParsed s) + mset (beingParsed s) + mset (blockedSends s)"
  using assms
proof (induction rule: rtranclp_induct)
  case base
  show ?case by (induction n) (simp_all add: listenServer_def beingParsed_def blockedSends_def)
qed (rule conserved_step)

end

subsection \<open>When Stop can return\<close>

definition serverInv :: "('c, 'b) server \<Rightarrow> bool" where
  "serverInv s \<longleftrightarrow> (svCloser s \<or> \<not> svListening s) \<and> list_all (\<lambda>c. cnWatcher c \<or> cnClosed c) (svConns s)"

lemma serverInv_step: "server_step rd c0 s s' \<Longrightarrow> serverInv s \<Longrightarrow> serverInv s'"
  by (induction rule: server_step.induct)
    (auto simp: serverInv_def list_all_length nth_list_update nth_append afterRead_def freshConn_def split: prod.splits)

lemma serverInv_reach:
  assumes "(server_step rd c0)\<^sup>*\<^sup>* (listenServer n) s"
  shows "serverInv s"
  using assms
proof (induction rule: rtranclp_induct)
  case base
  show ?case by (simp add: serverInv_def listenServer_def)
qed (rule serverInv_step)

definition stoppable :: "('c, 'b) server \<Rightarrow> bool" where
  "stoppable s \<longleftrightarrow> blockedSends s = [] \<or> \<not> list_all (\<lambda>p. p = PDone) (svParsers s)"

lemma blockedSends_Nil: "blockedSends s = [] \<longleftrightarrow> list_all (\<lambda>c. pending (cnPc c) = []) (svConns s)"
  by (simp add: blockedSends_def list_all_iff)

text \<open>A blocked send and no parser: this stays so for ever.\<close>

lemma stuck_iff:
  "\<not> stoppable s \<longleftrightarrow> (\<exists>n < length (svConns s). pending (cnPc (svConns s ! n)) \<noteq> []) \<and> (\<forall>j < length (svParsers s). svParsers s ! j = PDone)"
  by (auto simp: stoppable_def blockedSends_Nil list_all_length)

lemma stuck_step:
  assumes "server_step rd c0 s s'" "\<not> stoppable s"
  shows "\<not> stoppable s'"
proof -
  from assms(2) obtain n where n: "n < length (svConns s)" "pending (cnPc (svConns s ! n)) \<noteq> []"
    and dead: "\<forall>j < length (svParsers s). svParsers s ! j = PDone" unfolding stuck_iff by blast
  from assms(1) show ?thesis
    unfolding stuck_iff using n dead
    by (induction rule: server_step.induct) (auto simp: nth_list_update nth_append intro!: exI [of _ n])
qed

lemma stuck_for_ever:
  assumes "(server_step rd c0)\<^sup>*\<^sup>* s s'" "\<not> stoppable s"
  shows "\<not> quiet s'"
proof -
  have "\<not> stoppable s'"
    using assms(1)
  proof (induction rule: rtranclp_induct)
    case base
    show ?case by (rule assms(2))
  qed (rule stuck_step)
  then show ?thesis by (auto simp: stoppable_def quiet_def blockedSends_Nil list_all_iff)
qed

text \<open>The goroutines still to return, weighted by the steps each has before it.\<close>

fun pcLoad :: "'b conn_pc \<Rightarrow> nat" where
  "pcLoad Reading = 2"
| "pcLoad (Sending _) = 5"
| "pcLoad ConnDone = 0"

fun parserLoad :: "'b parser_pc \<Rightarrow> nat" where
  "parserLoad PIdle = 1"
| "parserLoad (PBusy _) = 2"
| "parserLoad PDone = 0"

definition connLoad :: "('c, 'b) conn \<Rightarrow> nat" where
  "connLoad c = pcLoad (cnPc c) + (if cnWatcher c then 1 else 0)"

definition serverLoad :: "('c, 'b) server \<Rightarrow> nat" where
  "serverLoad s = sum_list (map connLoad (svConns s)) + sum_list (map parserLoad (svParsers s))
     + (if svCloser s then 1 else 0) + (if svAcceptor s then 1 else 0)"

lemma sum_list_replaced: "i < length xs \<Longrightarrow> sum_list (map f (xs[i := y])) + f (xs ! i) = sum_list (map f xs) + (f y :: nat)"
proof (induction xs arbitrary: i)
  case (Cons x xs)
  then show ?case by (cases i) (force split: nat.splits)+
qed simp

definition toward :: "('ev \<Rightarrow> 'c \<Rightarrow> 'c \<times> 'b list \<times> bool) \<Rightarrow> 'c \<Rightarrow> ('c, 'b) server \<Rightarrow> bool" where
  "toward rd c0 s \<longleftrightarrow> (\<exists>s'. server_step rd c0 s s' \<and> svCancelled s' \<and> stoppable s' \<and> serverLoad s' < serverLoad s)"

lemma towardI:
  "server_step rd c0 s s' \<Longrightarrow> svCancelled s' \<Longrightarrow> stoppable s' \<Longrightarrow> serverLoad s' < serverLoad s \<Longrightarrow> toward rd c0 s"
  unfolding toward_def by blast

lemma toward_parsers:
  assumes "svCancelled s" "stoppable s" "\<not> (blockedSends s = [] \<and> list_all (\<lambda>p. p = PDone) (svParsers s))"
  shows "toward rd c0 s"
proof (cases "list_all (\<lambda>p. p = PDone) (svParsers s)")
  case True
  then show ?thesis using assms(2,3) by (simp add: stoppable_def)
next
  case False
  then obtain j where j: "j < length (svParsers s)" "svParsers s ! j \<noteq> PDone" by (auto simp: list_all_length)
  note load = sum_list_replaced [OF j(1), of parserLoad]
  show ?thesis
  proof (cases "svParsers s ! j")
    case (PBusy b)
    have "stoppable (s\<lparr>svParsers := (svParsers s)[j := PIdle], svParsed := svParsed s @ [b]\<rparr>)"
      using j(1) by (auto simp: stoppable_def list_all_length intro!: exI [of _ j])
    then show ?thesis
      by (rule towardI [OF parse [OF j(1) PBusy], rotated]) (use assms(1) load [of PIdle] PBusy in \<open>simp_all add: serverLoad_def\<close>)
  next
    case PIdle
    show ?thesis
    proof (cases "blockedSends s = []")
      case True
      then have "stoppable (s\<lparr>svParsers := (svParsers s)[j := PDone]\<rparr>)" by (simp add: stoppable_def blockedSends_def)
      then show ?thesis
        by (rule towardI [OF parser_exit [OF j(1) PIdle assms(1)], rotated]) (use assms(1) load [of PDone] PIdle in \<open>simp_all add: serverLoad_def\<close>)
    next
      case False
      then obtain i where i: "i < length (svConns s)" "pending (cnPc (svConns s ! i)) \<noteq> []"
        by (auto simp: blockedSends_Nil list_all_length)
      then obtain b where b: "cnPc (svConns s ! i) = Sending b" by (cases "cnPc (svConns s ! i)") auto
      let ?s = "s\<lparr>svConns := (svConns s)[i := (svConns s ! i)\<lparr>cnPc := Reading\<rparr>], svParsers := (svParsers s)[j := PBusy b]\<rparr>"
      have "stoppable ?s" using j(1) by (auto simp: stoppable_def list_all_length intro!: exI [of _ j])
      moreover have "serverLoad ?s < serverLoad s"
        using sum_list_replaced [OF i(1), of connLoad "(svConns s ! i)\<lparr>cnPc := Reading\<rparr>"] load [of "PBusy b"] PIdle b
        by (simp add: serverLoad_def connLoad_def)
      ultimately show ?thesis
        by (intro towardI [OF send [OF i(1) b j(1) PIdle]]) (use assms(1) in simp_all)
    qed
  qed (use j(2) in simp)
qed

lemma toward_rest:
  assumes "svCancelled s" "serverInv s" "blockedSends s = []" "list_all (\<lambda>p. p = PDone) (svParsers s)" "\<not> quiet s"
  shows "toward rd c0 s"
proof -
  have stop: "stoppable (s\<lparr>svListening := False, svCloser := False\<rparr>)" "stoppable (s\<lparr>svAcceptor := False\<rparr>)"
    using assms(3) by (simp_all add: stoppable_def blockedSends_def)
  have stop_conn: "stoppable (s\<lparr>svConns := (svConns s)[i := c]\<rparr>)" if "i < length (svConns s)" "pending (cnPc c) = []" for i c
    using assms(3) that by (auto simp: stoppable_def blockedSends_Nil list_all_length nth_list_update)
  consider (closer) "svCloser s" | (acceptor) "\<not> svCloser s" "svAcceptor s"
    | (conn) i where "i < length (svConns s)" "cnPc (svConns s ! i) \<noteq> ConnDone \<or> cnWatcher (svConns s ! i)"
    using assms(4,5) by (auto simp: quiet_def list_all_length)
  then show ?thesis
  proof cases
    case closer
    then show ?thesis
      by (intro towardI [OF close_listener [OF assms(1) closer]])
        (use assms(1) stop in \<open>simp_all add: serverLoad_def\<close>)
  next
    case acceptor
    then have "\<not> svListening s" using assms(2) by (simp add: serverInv_def)
    then show ?thesis
      by (intro towardI [OF accept_closed [OF acceptor(2)]])
        (use acceptor assms(1) stop in \<open>simp_all add: serverLoad_def\<close>)
  next
    case conn
    let ?c = "svConns s ! i"
    have p: "pending (cnPc ?c) = []" using assms(3) conn(1) by (simp add: blockedSends_Nil list_all_length)
    show ?thesis
    proof (cases "cnWatcher ?c")
      case True
      let ?c' = "?c\<lparr>cnWatcher := False, cnClosed := True\<rparr>"
      have "serverLoad (s\<lparr>svConns := (svConns s)[i := ?c']\<rparr>) < serverLoad s"
        using sum_list_replaced [OF conn(1), of connLoad ?c'] True by (simp add: serverLoad_def connLoad_def)
      then show ?thesis
        by (intro towardI [OF watch [OF conn(1) True]]) (use assms(1) stop_conn [OF conn(1), of ?c'] p in simp_all)
    next
      case False
      then have r: "cnPc ?c = Reading" using conn(2) p by (cases "cnPc ?c") auto
      have closed: "cnClosed ?c" using assms(2) conn(1) False by (auto simp: serverInv_def list_all_length)
      let ?c' = "?c\<lparr>cnPc := ConnDone\<rparr>"
      have "serverLoad (s\<lparr>svConns := (svConns s)[i := ?c']\<rparr>) < serverLoad s"
        using sum_list_replaced [OF conn(1), of connLoad ?c'] r by (simp add: serverLoad_def connLoad_def)
      then show ?thesis
        by (intro towardI [OF read_closed [OF conn(1) r closed]]) (use assms(1) stop_conn [OF conn(1), of ?c'] in simp_all)
    qed
  qed
qed

lemma stop_reaches_quiet:
  assumes "svCancelled s" "serverInv s" "stoppable s"
  shows "\<exists>s'. (server_step rd c0)\<^sup>*\<^sup>* s s' \<and> quiet s'"
  using assms
proof (induction "serverLoad s" arbitrary: s rule: less_induct)
  case less
  show ?case
  proof (cases "quiet s")
    case False
    have "toward rd c0 s"
      using toward_parsers [OF less.prems(1,3)] toward_rest [OF less.prems(1,2) _ _ False] by blast
    then obtain s1 where s1: "server_step rd c0 s s1" "svCancelled s1" "stoppable s1" "serverLoad s1 < serverLoad s"
      unfolding toward_def by blast
    from less.hyps [OF s1(4,2) serverInv_step [OF s1(1) less.prems(2)] s1(3)] s1(1) show ?thesis
      by (meson converse_rtranclp_into_rtranclp)
  qed blast
qed

lemma stop_iff_stoppable:
  assumes "(server_step rd c0)\<^sup>*\<^sup>* (listenServer n) s" "svCancelled s"
  shows "(\<exists>s'. (server_step rd c0)\<^sup>*\<^sup>* s s' \<and> quiet s') \<longleftrightarrow> stoppable s"
proof
  assume "\<exists>s'. (server_step rd c0)\<^sup>*\<^sup>* s s' \<and> quiet s'"
  then obtain s' where "(server_step rd c0)\<^sup>*\<^sup>* s s'" "quiet s'" by blast
  with stuck_for_ever [of rd c0 s s'] show "stoppable s" by argo
qed (rule stop_reaches_quiet [OF assms(2) serverInv_reach [OF assms(1)]])

subsection \<open>The stream receivers\<close>

text \<open>A read of the TCP and of the pickle handler: the new state, the message to send, and whether the handler returns.\<close>

definition tcpRead :: "read_event \<Rightarrow> tcp_conn \<Rightarrow> tcp_conn \<times> rcv_buffer list \<times> bool" where
  "tcpRead ev c = (let c' = tcpStep ev (c\<lparr>tcParseChan := []\<rparr>) in (c'\<lparr>tcParseChan := []\<rparr>, tcParseChan c', tcClosed c'))"

definition frameRead :: "frame_event \<Rightarrow> pickle_conn \<Rightarrow> pickle_conn \<times> bytes list \<times> bool" where
  "frameRead ev c = (let c' = frameStep ev (c\<lparr>pcParseChan := []\<rparr>) in (c'\<lparr>pcParseChan := []\<rparr>, pcParseChan c', pcClosed c'))"

lemma splitBuffer_one: "length (fst (splitBuffer b)) \<le> 1"
  by (simp add: splitBuffer_def Let_def split: prod.split)

interpretation tr: message_reader tcpRead
proof
  fix ev c c' out fin
  assume r: "tcpRead ev c = (c', out, fin)"
  show "length out \<le> 1"
  proof (cases ev)
    case (ReadData d now)
    let ?b = "(tcBuffer c)\<lparr>rbTime := now, rbBody := rbBody (tcBuffer c) @ take (readRoom (tcBuffer c)) d\<rparr>"
    show ?thesis using r ReadData splitBuffer_one [of ?b] by (auto simp: tcpRead_def tcpStep_def Let_def split: prod.splits if_splits)
  qed (use r in \<open>auto simp: tcpRead_def tcpStep_def Let_def split: if_splits\<close>)
next
  fix ev c c' out
  assume "tcpRead ev c = (c', out, True)"
  then show "out = []" by (cases ev) (auto simp: tcpRead_def tcpStep_def Let_def split: if_splits prod.splits)
qed

interpretation pr: message_reader frameRead
proof
  fix ev c c' out fin
  assume "frameRead ev c = (c', out, fin)"
  then show "length out \<le> 1" by (cases ev) (auto simp: frameRead_def frameStep_def Let_def split: if_splits)
next
  fix ev c c' out
  assume "frameRead ev c = (c', out, True)"
  then show "out = []" by (cases ev) (auto simp: frameRead_def frameStep_def Let_def split: if_splits)
qed

text \<open>
  The state a handler starts in. The counters of the receiver are shared in the code; here every
  handler has its own copy, which no step looks at.
\<close>

definition freshTcp :: "base \<Rightarrow> tcp_conn" where
  "freshTcp b = \<lparr>tcBase = addActive 1 b, tcBuffer = \<lparr>rbTime = 0, rbBody = []\<rparr>, tcParseChan = [], tcUnfinished = None, tcClosed = False\<rparr>"

definition freshPickle :: "base \<Rightarrow> pickle_conn" where
  "freshPickle b = \<lparr>pcBase = addActive 1 b, pcParseChan = [], pcClosed = False\<rparr>"

type_synonym tcp_server = "(tcp_conn, rcv_buffer) server"

text \<open>A run: a line arrives, the receiver is stopped, and the only parser returns before it takes the line.\<close>

definition demoLine :: rcv_buffer where "demoLine = \<lparr>rbTime = 5, rbBody = str ''a 1 1'' @ [cLF]\<rparr>"

definition demoAccepted :: tcp_server where
  "demoAccepted = (listenServer 1)\<lparr>svConns := svConns (listenServer 1 :: tcp_server) @ [freshConn (freshTcp zeroBase)]\<rparr>"

definition demoSending :: tcp_server where
  "demoSending =
     (let r = tcpRead (ReadData (rbBody demoLine) 5) (cnState (svConns demoAccepted ! 0))
      in demoAccepted\<lparr>svConns := (svConns demoAccepted)[0 := afterRead r (svConns demoAccepted ! 0)], svRead := svRead demoAccepted @ fst (snd r)\<rparr>)"

definition demoStopping :: tcp_server where "demoStopping = demoSending\<lparr>svCancelled := True\<rparr>"

definition demoStuck :: tcp_server where "demoStuck = demoStopping\<lparr>svParsers := (svParsers demoStopping)[0 := PDone]\<rparr>"

lemmas demo_defs = demoAccepted_def demoSending_def demoStopping_def demoStuck_def listenServer_def freshConn_def Let_def

lemma demo_read: "tcpRead (ReadData (rbBody demoLine) 5) (freshTcp zeroBase)
     = ((freshTcp zeroBase)\<lparr>tcBuffer := \<lparr>rbTime = 5, rbBody = []\<rparr>\<rparr>, [demoLine], False)"
  by (simp add: tcpRead_def tcpStep_def freshTcp_def demoLine_def readRoom_def bufferSize_def splitBuffer_def GetBuffer_def Let_def)

lemma demo_reached: "(server_step tcpRead (freshTcp zeroBase))\<^sup>*\<^sup>* (listenServer 1) demoStuck"
proof -
  let ?step = "server_step tcpRead (freshTcp zeroBase)"
  have "?step (listenServer 1) demoAccepted"
    unfolding demoAccepted_def by (rule accept) (simp_all add: listenServer_def)
  moreover have "?step demoAccepted demoSending"
    unfolding demoSending_def Let_def by (rule read) (simp_all add: demo_defs)
  moreover have "?step demoSending demoStopping" unfolding demoStopping_def by (rule cancel)
  moreover have "?step demoStopping demoStuck"
    unfolding demoStuck_def by (rule parser_exit) (simp_all add: demo_defs)
  ultimately show ?thesis by (meson rtranclp.rtrancl_into_rtrancl rtranclp.rtrancl_refl)
qed

lemma demo_blocked: "svCancelled demoStuck \<and> \<not> stoppable demoStuck"
  by (simp add: demo_defs stoppable_def blockedSends_def afterRead_def demo_read)

text \<open>
  C34. However connection handlers, parser threads and the stop of a TCP receiver are
  interleaved, every buffer read is parsed once, is being parsed, or waits in a blocked handler;
  none is lost or parsed twice.
\<close>

theorem tcp_buffers_once:
  fixes s :: tcp_server
  assumes "(server_step tcpRead (freshTcp b))\<^sup>*\<^sup>* (listenServer threads) s"
  shows "mset (svRead s) = mset (svParsed s) + mset (beingParsed s) + mset (blockedSends s)"
  using assms by (rule tr.conserved)

theorem tcp_buffers_once_witness:
  "mset (svRead demoStuck) = mset (svParsed demoStuck) + mset (beingParsed demoStuck) + mset (blockedSends demoStuck)"
  by (rule tcp_buffers_once [OF demo_reached])

lemma pickle_messages_once:
  assumes "(server_step frameRead (freshPickle b))\<^sup>*\<^sup>* (listenServer threads) s"
  shows "mset (svRead s) = mset (svParsed s) + mset (beingParsed s) + mset (blockedSends s)"
  using assms by (rule pr.conserved)

text \<open>
  C33. After the context of a TCP receiver is cancelled its Stop can return, in some
  continuation of its goroutines, exactly if no connection handler is blocked handing a buffer
  to the parsers or some parser thread is still running; otherwise it never returns.
\<close>

theorem tcp_stop:
  fixes s :: tcp_server
  assumes "(server_step tcpRead (freshTcp b))\<^sup>*\<^sup>* (listenServer threads) s" "svCancelled s"
  shows "(\<exists>s'. (server_step tcpRead (freshTcp b))\<^sup>*\<^sup>* s s' \<and> quiet s')
     \<longleftrightarrow> blockedSends s = [] \<or> \<not> list_all (\<lambda>p. p = PDone) (svParsers s)"
  using stop_iff_stoppable [OF assms] by (simp add: stoppable_def)

theorem tcp_stop_witness:
  "(\<exists>s'. (server_step tcpRead (freshTcp zeroBase))\<^sup>*\<^sup>* demoStuck s' \<and> quiet s')
     \<longleftrightarrow> blockedSends demoStuck = [] \<or> \<not> list_all (\<lambda>p. p = PDone) (svParsers demoStuck)"
  by (rule tcp_stop [OF demo_reached]) (simp add: demo_blocked)

text \<open>
  So a receiver may never stop: the handler is blocked in its send, all parsers have returned, and
  \<open>Stop\<close> waits for the handler.
\<close>

lemma tcp_stop_hangs:
  "\<exists>s :: tcp_server. (server_step tcpRead (freshTcp zeroBase))\<^sup>*\<^sup>* (listenServer 1) s \<and> svCancelled s
     \<and> (\<forall>s'. (server_step tcpRead (freshTcp zeroBase))\<^sup>*\<^sup>* s s' \<longrightarrow> \<not> quiet s')"
  using demo_reached demo_blocked stuck_for_ever [of tcpRead "freshTcp zeroBase" demoStuck] by (intro exI [of _ demoStuck]) simp

subsection \<open>The HTTP and gRPC servers\<close>

text \<open>
  \<open>http.Server.Serve\<close> returns only with an error, and the goroutine that called it then logs at level
  fatal, which ends the process. \<open>grpc.Server.Serve\<close> returns without an error once \<open>Stop\<close> was called.
\<close>

datatype server_kind = HttpServer | GrpcServer

record http_server =
  hsCancelled :: bool
  hsStopped :: bool  \<comment> \<open>the listener was closed, or the gRPC server stopped\<close>
  hsCloser :: bool
  hsServing :: bool
  hsExited :: bool  \<comment> \<open>the process has ended\<close>

definition listenHttp :: http_server where
  "listenHttp = \<lparr>hsCancelled = False, hsStopped = False, hsCloser = True, hsServing = True, hsExited = False\<rparr>"

definition serveReturns :: "server_kind \<Rightarrow> bool \<Rightarrow> http_server \<Rightarrow> http_server" where
  "serveReturns kind failed s =
     (if kind = HttpServer \<or> failed then s\<lparr>hsExited := True\<rparr> else s\<lparr>hsServing := False, hsStopped := True\<rparr>)"

inductive http_step :: "server_kind \<Rightarrow> http_server \<Rightarrow> http_server \<Rightarrow> bool" for kind where
  cancel: "\<not> hsExited s \<Longrightarrow> http_step kind s (s\<lparr>hsCancelled := True\<rparr>)"
| closer: "\<not> hsExited s \<Longrightarrow> hsCancelled s \<Longrightarrow> hsCloser s \<Longrightarrow> http_step kind s (s\<lparr>hsStopped := True, hsCloser := False\<rparr>)"
| serve_stopped: "\<not> hsExited s \<Longrightarrow> hsServing s \<Longrightarrow> hsStopped s \<Longrightarrow> http_step kind s (serveReturns kind False s)"
| serve_failed: "\<not> hsExited s \<Longrightarrow> hsServing s \<Longrightarrow> \<not> hsStopped s \<Longrightarrow> http_step kind s (serveReturns kind True s)"

definition httpQuiet :: "http_server \<Rightarrow> bool" where
  "httpQuiet s \<longleftrightarrow> \<not> hsCloser s \<and> \<not> hsServing s"

lemma http_serves: "(http_step HttpServer)\<^sup>*\<^sup>* listenHttp s \<Longrightarrow> hsServing s \<and> (hsCloser s \<or> hsStopped s)"
proof (induction rule: rtranclp_induct)
  case (step s s')
  from step.hyps(2) step.IH show ?case by cases (simp_all add: serveReturns_def)
qed (simp add: listenHttp_def)

lemma http_cancelled_exits:
  assumes "hsCancelled s" "hsServing s" "hsCloser s \<or> hsStopped s"
  shows "\<exists>s'. (http_step HttpServer)\<^sup>*\<^sup>* s s' \<and> hsExited s'"
proof (cases "hsExited s")
  case False
  let ?s1 = "if hsStopped s then s else s\<lparr>hsStopped := True, hsCloser := False\<rparr>"
  have "(http_step HttpServer)\<^sup>*\<^sup>* s ?s1"
    using closer [OF False assms(1), of HttpServer] assms(3) by auto
  moreover have "http_step HttpServer ?s1 (serveReturns HttpServer False ?s1)"
    using False assms(2) by (intro serve_stopped) simp_all
  ultimately have "(http_step HttpServer)\<^sup>*\<^sup>* s (serveReturns HttpServer False ?s1)" by (rule rtranclp.rtrancl_into_rtrancl)
  then show ?thesis by (intro exI [of _ "serveReturns HttpServer False ?s1"]) (simp add: serveReturns_def)
qed blast

text \<open>
  Stopping an HTTP receiver (Prometheus or Telegraf) never completes: Serve only returns
  with an error, the goroutine logs it as fatal and the process ends.
\<close>

theorem http_stop_exits:
  assumes "(http_step HttpServer)\<^sup>*\<^sup>* listenHttp s" "hsCancelled s"
  shows "\<not> httpQuiet s \<and> (\<exists>s'. (http_step HttpServer)\<^sup>*\<^sup>* s s' \<and> hsExited s')"
  using http_serves [OF assms(1)] http_cancelled_exits [OF assms(2)] by (simp add: httpQuiet_def)

theorem http_stop_exits_witness:
  "\<not> httpQuiet (listenHttp\<lparr>hsCancelled := True\<rparr>)
     \<and> (\<exists>s'. (http_step HttpServer)\<^sup>*\<^sup>* (listenHttp\<lparr>hsCancelled := True\<rparr>) s' \<and> hsExited s')"
  by (rule http_stop_exits, rule r_into_rtranclp, rule http_step.cancel) (simp_all add: listenHttp_def)

text \<open>The gRPC server stops without ending the process.\<close>

lemma grpc_stop_returns: "\<exists>s'. (http_step GrpcServer)\<^sup>*\<^sup>* (listenHttp\<lparr>hsCancelled := True\<rparr>) s' \<and> httpQuiet s' \<and> \<not> hsExited s'"
proof -
  let ?s0 = "listenHttp\<lparr>hsCancelled := True\<rparr>"
  let ?s1 = "?s0\<lparr>hsStopped := True, hsCloser := False\<rparr>"
  have "http_step GrpcServer ?s0 ?s1" by (rule closer) (simp_all add: listenHttp_def)
  moreover have "http_step GrpcServer ?s1 (serveReturns GrpcServer False ?s1)" by (rule serve_stopped) (simp_all add: listenHttp_def)
  ultimately have "(http_step GrpcServer)\<^sup>*\<^sup>* ?s0 (serveReturns GrpcServer False ?s1)"
    by (meson rtranclp.rtrancl_into_rtrancl rtranclp.rtrancl_refl)
  then show ?thesis
    by (intro exI [of _ "serveReturns GrpcServer False ?s1"]) (simp add: serveReturns_def httpQuiet_def listenHttp_def)
qed

end
