(* ===== verification/Recv_Telegraf.thy ===== *)
theory Recv_Telegraf
  imports Recv_Messages
begin

text \<open>
  \<^verbatim>\<open>receiver/telegraf_http_json.go\<close>: metrics from Telegraf as JSON. The JSON decoder is outside: its
  result is an argument. The iteration orders of the two Go maps are arguments too.
\<close>

datatype json_value = JNumber float64 | JBool bool | JOther

record telegraf_metric =
  tmName :: bytes
  tmTimestamp :: uint64
  tmFields :: "(bytes \<times> json_value) list"
  tmTags :: gomap

fun writeKeys :: "gomap \<Rightarrow> nat \<Rightarrow> bytes list \<Rightarrow> bytes \<Rightarrow> bytes" where
  "writeKeys tags i [] res = res"
| "writeKeys tags i (k # ks) res =
     (let res = (if i > 0 then res @ [cAmp] else res);
          key = (if k = str ''name'' then str ''_name'' else k);
          value = (case map_of tags k of None \<Rightarrow> [] | Some v \<Rightarrow> v)
      in writeKeys tags (i + 1) ks (res @ Query key @ [cEq] @ Query value))"

definition TelegrafEncodeTags :: "(gomap \<Rightarrow> gomap) \<Rightarrow> gomap \<Rightarrow> bytes" where
  "TelegrafEncodeTags iter tags =
     (if length tags < 1 then []
      else if length tags = 1 then (case hd (iter tags) of (k, v) \<Rightarrow> Query k @ [cEq] @ Query v)
      else writeKeys tags 0 (sort (map fst (iter tags))) [])"

definition fieldValue :: "json_value \<Rightarrow> float64 option" where
  "fieldValue vi = (case vi of JNumber v \<Rightarrow> Some v | JBool b \<Rightarrow> Some (if b then 0x3FF0000000000000 else 0) | JOther \<Rightarrow> None)"

definition telegrafName :: "bytes \<Rightarrow> bytes \<Rightarrow> bytes \<Rightarrow> bytes \<Rightarrow> bytes" where
  "telegrafName concat_c name f tags =
     Path name @ (if f \<noteq> str ''value'' then concat_c @ Path f else []) @ [cQuest] @ tags"

text \<open>The fields of one metric, in iteration order; a dropped point ends the metric.\<close>

fun fieldLoop ::
  "rcv_env \<Rightarrow> bool \<Rightarrow> telegraf_metric \<Rightarrow> bytes \<Rightarrow> (bytes \<times> json_value) list \<Rightarrow> base \<times> writer \<Rightarrow> (base \<times> writer) option" where
  "fieldLoop env send m tags [] s = Some s"
| "fieldLoop env send m tags ((f, vi) # fs) (b, w) =
     (case fieldValue vi of
        None \<Rightarrow> fieldLoop env send m tags fs (b, w)
      | Some v \<Rightarrow>
          if IsNaN v then fieldLoop env send m tags fs (b, w)
          else
            (let name = telegrafName (concatCharacter b) (tmName m) f tags;
                 (b, d) = isDropString (envFmtFloat env) name (wNow w) (ucast (tmTimestamp m)) v b
             in if d then Some (b, w)
                else (case WritePoint (envDays env) send name v (tmTimestamp m) w of
                        None \<Rightarrow> None
                      | Some w \<Rightarrow> fieldLoop env send m tags fs (b, w))))"

definition telegrafProcess ::
  "rcv_env \<Rightarrow> ((bytes \<times> json_value) list \<Rightarrow> (bytes \<times> json_value) list) \<Rightarrow> bool \<Rightarrow> uint32 \<Rightarrow> telegraf_metric list option \<Rightarrow> base \<Rightarrow>
   (bool \<times> base) option" where
  "telegrafProcess env iterF send now data b =
     (case data of
        None \<Rightarrow> Some (False, b)
      | Some ms \<Rightarrow>
          (case rangeLoop (\<lambda>m. fieldLoop env send m (TelegrafEncodeTags (envIter env) (tmTags m)) (iterF (tmFields m))) ms
                  (b, NewWriter now (writeChan b)) of
             None \<Rightarrow> None
           | Some (b, w) \<Rightarrow> (let w = Flush send w in Some (True, countSamples w (b\<lparr>writeChan := wChan w\<rparr>)))))"

text \<open>
  \<open>ServeHTTP\<close>: \<open>None\<close> as body is a read error, \<open>parseJSON\<close> the JSON decoder. A body that cannot be read or decoded gives status
  500.
\<close>

definition telegrafServeHTTP ::
  "rcv_env \<Rightarrow> ((bytes \<times> json_value) list \<Rightarrow> (bytes \<times> json_value) list) \<Rightarrow> bool \<Rightarrow> uint32 \<Rightarrow> (bytes \<Rightarrow> telegraf_metric list option) \<Rightarrow>
   bytes option \<Rightarrow> base \<Rightarrow> (http_status \<times> base) option" where
  "telegrafServeHTTP env iterF send now parseJSON body b =
     (case body of
        None \<Rightarrow> Some (StatusInternalServerError, b)
      | Some bs \<Rightarrow>
          map_option (\<lambda>(ok, b). (if ok then StatusOK else StatusInternalServerError, b)) (telegrafProcess env iterF send now (parseJSON bs) b))"

subsection \<open>Tags\<close>

definition telegrafKey :: "nat \<Rightarrow> bytes \<Rightarrow> bytes" where
  "telegrafKey n k = (if 2 \<le> n \<and> k = str ''name'' then str ''_name'' else k)"

definition telegrafPair :: "gomap \<Rightarrow> bytes \<Rightarrow> bytes" where
  "telegrafPair tags k = Query (telegrafKey (length tags) k) @ [cEq] @ Query (the (map_of tags k))"

lemma writeKeys_later:
  assumes "2 \<le> length tags" "set ks \<subseteq> dom (map_of tags)" "i > 0"
  shows "writeKeys tags i ks res = res @ concat (map (\<lambda>k. cAmp # telegrafPair tags k) ks)"
  using assms(2,3)
proof (induction ks arbitrary: i res)
  case (Cons k ks)
  then obtain v where "map_of tags k = Some v" by auto
  with Cons assms(1) show ?case by (simp add: telegrafPair_def telegrafKey_def Let_def)
qed simp

lemma writeKeys_eq:
  assumes "2 \<le> length tags" "set ks \<subseteq> dom (map_of tags)"
  shows "writeKeys tags 0 ks [] = joinWith [cAmp] (map (telegrafPair tags) ks)"
proof (cases ks)
  case (Cons k ks')
  then obtain v where "map_of tags k = Some v" using assms(2) by auto
  with Cons assms show ?thesis
    by (simp add: writeKeys_later joinWith_concat telegrafPair_def telegrafKey_def Let_def comp_def)
qed simp

text \<open>
  The tag part of a Telegraf name does not depend on the iteration order of the Go map: the
  tags sorted by key, with name renamed to _name when there are at least two.
\<close>

theorem telegraf_tags_canonical:
  assumes "distinct (map fst tags)" "mset (iter tags) = mset tags"
  shows "TelegrafEncodeTags iter tags = joinWith [cAmp] (map (telegrafPair tags) (sort (map fst tags)))"
proof -
  have keys: "sort (map fst (iter tags)) = sort (map fst tags)"
    using assms(2) by (metis mset_map properties_for_sort mset_sort sorted_sort)
  consider "tags = []" | k v where "tags = [(k, v)]" | "2 \<le> length tags"
    by (cases tags; cases "tl tags") auto
  then show ?thesis
  proof cases
    case 2
    then have "iter tags = [(k, v)]" using assms(2) by simp
    with 2 show ?thesis by (simp add: TelegrafEncodeTags_def telegrafPair_def telegrafKey_def)
  next
    case 3
    have "set (sort (map fst tags)) \<subseteq> dom (map_of tags)" by (simp add: dom_map_of_conv_image_fst)
    from writeKeys_eq [OF 3 this] 3 show ?thesis by (simp add: TelegrafEncodeTags_def keys)
  qed (simp add: TelegrafEncodeTags_def)
qed

theorem telegraf_tags_canonical_witness:
  "TelegrafEncodeTags rev [(str ''name'', str ''x''), (str ''dc'', str ''y'')]
     = joinWith [cAmp] (map (telegrafPair [(str ''name'', str ''x''), (str ''dc'', str ''y'')])
         (sort (map fst [(str ''name'', str ''x''), (str ''dc'', str ''y'')])))"
  by (rule telegraf_tags_canonical) simp_all

subsection \<open>Points\<close>

text \<open>The items of one metric: the fields up to the first dropped point.\<close>

fun telegrafItems :: "uint32 \<Rightarrow> base \<Rightarrow> telegraf_metric \<Rightarrow> bytes \<Rightarrow> (bytes \<times> json_value) list \<Rightarrow> item list" where
  "telegrafItems now b m tags [] = []"
| "telegrafItems now b m tags ((f, vi) # fs) =
     (case fieldValue vi of
        None \<Rightarrow> telegrafItems now b m tags fs
      | Some v \<Rightarrow>
          if IsNaN v then telegrafItems now b m tags fs
          else (let name = telegrafName (concatCharacter b) (tmName m) f tags in
                if dropsPoint b now name (ucast (tmTimestamp m)) then []
                else (name, v, tmTimestamp m) # telegrafItems now b m tags fs))"

definition sameRcv :: "base \<Rightarrow> base \<Rightarrow> bool" where
  "sameRcv b b' \<longleftrightarrow> sameConfig b b' \<and> concatCharacter b' = concatCharacter b"

lemma isDropBytes_concat: "isDropBytes f nm n t v b = (b', d) \<Longrightarrow> concatCharacter b' = concatCharacter b"
  by (auto simp: isDropBytes_def isDrop_def isDropMetricNameTooLong_def saveDropped_def Let_def split: if_splits)

definition fieldsFit :: "base \<Rightarrow> telegraf_metric \<Rightarrow> bytes \<Rightarrow> (bytes \<times> json_value) list \<Rightarrow> bool" where
  "fieldsFit b m tags fs \<longleftrightarrow> (\<forall>(f, vi) \<in> set fs. nameLenOk (length (telegrafName (concatCharacter b) (tmName m) f tags)))"

lemma fieldLoop_ok:
  assumes "writerInv (envDays env) now w" "sameRcv b0 b" "fieldsFit b0 m tags fs"
  shows "\<exists>b' w'. fieldLoop env True m tags fs (b, w) = Some (b', w') \<and> writerInv (envDays env) now w' \<and> sameRcv b0 b'
     \<and> writerStream w' = writerStream w @ encPoints env (concat (map (itemOut now) (telegrafItems now b0 m tags fs)))"
  using assms
proof (induction fs arbitrary: b w)
  case (Cons fvi fs)
  obtain f vi where fvi: "fvi = (f, vi)" by (cases fvi)
  have rest: "fieldsFit b0 m tags fs" using Cons.prems(3) by (simp add: fieldsFit_def)
  consider (skip) "\<forall>v. fieldValue vi = Some v \<longrightarrow> IsNaN v" | (v) v where "fieldValue vi = Some v" "\<not> IsNaN v" by auto
  then show ?case
  proof cases
    case skip
    with Cons.IH [OF Cons.prems(1,2) rest] show ?thesis by (cases "fieldValue vi") (auto simp: fvi)
  next
    case v
    define name where "name = telegrafName (concatCharacter b0) (tmName m) f tags"
    have name': "telegrafName (concatCharacter b) (tmName m) f tags = name" using Cons.prems(2) by (simp add: sameRcv_def name_def)
    obtain b' d where d: "isDropBytes (envFmtFloat env) name now (ucast (tmTimestamp m)) v b = (b', d)" by fastforce
    have b': "sameRcv b0 b'" "d = dropsPoint b0 now name (ucast (tmTimestamp m))"
      using isDropBytes_same [OF d] isDropBytes_concat [OF d] Cons.prems(2) sameConfig_trans dropsPoint_config
      by (auto simp: sameRcv_def)
    have items: "telegrafItems now b0 m tags (fvi # fs) = (if d then [] else (name, v, tmTimestamp m) # telegrafItems now b0 m tags fs)"
      using v b' by (simp add: fvi name_def [symmetric] Let_def)
    have run: "fieldLoop env True m tags (fvi # fs) (b, w) = (if d then Some (b', w) else
        (case WritePoint (envDays env) True name v (tmTimestamp m) w of None \<Rightarrow> None | Some w \<Rightarrow> fieldLoop env True m tags fs (b', w)))"
      using v d writerInv_now [OF Cons.prems(1)] by (simp add: fvi name' isDropString_eq Let_def)
    show ?thesis
    proof (cases d)
      case True
      with run items b' Cons.prems(1) show ?thesis by auto
    next
      case False
      have "nameLenOk (length name)" using Cons.prems(3) by (simp add: fieldsFit_def fvi name_def)
      from WritePoint_cases [OF Cons.prems(1) this, of v "tmTimestamp m"] obtain w1 chunks where
        w1: "WritePoint (envDays env) True name v (tmTimestamp m) w = Some w1" "writerInv (envDays env) now w1"
        "writerSent w1 = writerSent w @ chunks"
        "concat chunks @ writerCur w1 = writerCur w @ encPoints env (itemOut now (name, v, tmTimestamp m))" by blast
      then have "writerStream w1 = writerStream w @ encPoints env (itemOut now (name, v, tmTimestamp m))"
        by (simp add: writerStream_def)
      with Cons.IH [OF w1(2) b'(1) rest] False run items w1(1) show ?thesis by auto
    qed
  qed
qed simp

lemma telegrafProcess_request:
  assumes "\<forall>m \<in> set ms. fieldsFit b m (TelegrafEncodeTags (envIter env) (tmTags m)) (iterF (tmFields m))"
    and "list_all (wholeBuffer (envDays env)) (writeChan b)"
  shows "\<exists>b'. telegrafProcess env iterF True now (Some ms) b = Some (True, b') \<and> list_all (wholeBuffer (envDays env)) (writeChan b')
     \<and> concat (chanBytes b') = concat (chanBytes b) @ encPoints env (concat (map (itemOut now) (concat (map (\<lambda>m.
           telegrafItems now b m (TelegrafEncodeTags (envIter env) (tmTags m)) (iterF (tmFields m))) ms))))"
proof -
  let ?step = "\<lambda>m. fieldLoop env True m (TelegrafEncodeTags (envIter env) (tmTags m)) (iterF (tmFields m))"
  let ?items = "\<lambda>m. telegrafItems now b m (TelegrafEncodeTags (envIter env) (tmTags m)) (iterF (tmFields m))"
  have loop: "\<exists>b' w'. rangeLoop ?step ms (b1, w) = Some (b', w') \<and> writerInv (envDays env) now w'
     \<and> writerStream w' = writerStream w @ encPoints env (concat (map (itemOut now) (concat (map ?items ms))))"
    if "writerInv (envDays env) now w" "sameRcv b b1" for b1 w
    using that assms(1)
  proof (induction ms arbitrary: b1 w)
    case (Cons m ms)
    from fieldLoop_ok [OF Cons.prems(1,2)] Cons.prems(3) obtain b2 w2 where
      "?step m (b1, w) = Some (b2, w2)" "writerInv (envDays env) now w2" "sameRcv b b2"
      "writerStream w2 = writerStream w @ encPoints env (concat (map (itemOut now) (?items m)))"
      by (metis list.set_intros(1))
    with Cons.IH [of w2 b2] Cons.prems(3) show ?case by auto
  qed simp
  have "sameRcv b b" by (simp add: sameRcv_def)
  from loop [OF writerInv_new [OF assms(2)] this] obtain b' w' where r: "rangeLoop ?step ms (b, NewWriter now (writeChan b)) = Some (b', w')"
    "writerInv (envDays env) now w'" "writerStream w' = writerStream (NewWriter now (writeChan b)) @ encPoints env (concat (map (itemOut now) (concat (map ?items ms))))" by blast
  moreover have "writerStream (NewWriter now (writeChan b)) = concat (chanBytes b)"
    by (simp add: writerStream_def NewWriter_def writerCur_def writerSent_def chanBytes_def)
  ultimately show ?thesis
    using Flush_chan [of w'] writerInv_Flush [of "envDays env" now w'] by (simp add: telegrafProcess_def chanBytes_def Let_def)
qed

text \<open>
  C22. The points of a Telegraf request are stored in order under the escaped name, the fields
  of one metric up to the first dropped one.
\<close>

theorem telegraf_request:
  assumes "\<forall>m \<in> set ms. fieldsFit b m (TelegrafEncodeTags (envIter env) (tmTags m)) (iterF (tmFields m))"
    and "list_all (wholeBuffer (envDays env)) (writeChan b)"
  shows "\<exists>b'. telegrafProcess env iterF True now (Some ms) b = Some (True, b') \<and> list_all (wholeBuffer (envDays env)) (writeChan b')
     \<and> concat (chanBytes b') = concat (chanBytes b) @ encPoints env (concat (map (itemOut now) (concat (map (\<lambda>m.
           telegrafItems now b m (TelegrafEncodeTags (envIter env) (tmTags m)) (iterF (tmFields m))) ms))))"
  by (rule telegrafProcess_request [OF assms])

definition exampleTelegraf :: telegraf_metric where
  "exampleTelegraf = \<lparr>tmName = str ''cpu'', tmTimestamp = 60,
     tmFields = [(str ''value'', JBool True), (str ''x'', JOther)], tmTags = []\<rparr>"

theorem telegraf_request_witness:
  "\<exists>b'. telegrafProcess exampleEnv id True 60 (Some [exampleTelegraf]) zeroBase = Some (True, b') \<and> list_all (wholeBuffer (envDays exampleEnv)) (writeChan b')
     \<and> concat (chanBytes b') = concat (chanBytes zeroBase) @ encPoints exampleEnv (concat (map (itemOut 60) (concat (map (\<lambda>m.
           telegrafItems 60 zeroBase m (TelegrafEncodeTags (envIter exampleEnv) (tmTags m)) (id (tmFields m))) [exampleTelegraf]))))"
  by (rule telegraf_request)
    (simp_all add: exampleTelegraf_def fieldsFit_def zeroBase_def chanOk_def nameLenOk_def WriteBufferSize_def telegrafName_def
      TelegrafEncodeTags_def exampleEnv_def Path_def length_escape hexCount_def shouldEscape_def)

end
