(* ===== verification/Recv_PromAgree.thy ===== *)
theory Recv_PromAgree
  imports Recv_Prometheus
begin

text \<open>
  The Prometheus receiver has two decoders (\<^verbatim>\<open>receiver/prometheus.go\<close>): the hand-written \<open>unpackFast\<close>, which is in
  use, and \<open>unpackDefault\<close> over the generated code. Here: on a well-formed request they send the
  same buffers to the writer.
\<close>

subsection \<open>The generated decoder reads the encoding of the fast one\<close>

lemma decodeLoop_prefixed:
  assumes "tagOf tag f 2" "\<And>r. h f 2 l r m = lenField 2 l r use" "use x = Some (Inr m')"
    and "l < 2 ^ 63" "length x + length rest \<le> l"
  shows "decodeLoop h l m (tag # lenPrefixed x @ rest) = decodeLoop h l m' rest"
  using decodeLoop_len [OF assms(1), of h l x rest m use] assms(2-5) by (simp add: lenPrefixed_def)

lemma lenPrefixed_grows: "length x + length rest \<le> length (lenPrefixed x @ rest)"
  by (simp add: lenPrefixed_def)

lemma unmarshalLabel_enc:
  assumes "labelFits l"
  shows "unmarshalLabel (0x0a # lenPrefixed (fst l) @ 0x12 # lenPrefixed (snd l)) = Some (Inr l)"
proof -
  let ?b = "0x12 # lenPrefixed (snd l)" let ?l = "length (0x0a # lenPrefixed (fst l) @ ?b)"
  have l: "?l < 2 ^ 63" by (rule encLabel_body_length [OF assms])
  have "decodeLoop labelField ?l ([], []) (0x0a # lenPrefixed (fst l) @ ?b) = decodeLoop labelField ?l (fst l, []) ?b"
    using lenPrefixed_grows [of "fst l" ?b]
    by (intro decodeLoop_prefixed [OF _ _ _ l, where f = 1 and use = "\<lambda>bs. Some (Inr (bs, []))"]) (simp_all add: labelField_def)
  also have "\<dots> = Some (Inr l)"
    using decodeLoop_prefixed [OF _ _ _ l, of "0x12" 2 labelField "(fst l, [])" "\<lambda>bs. Some (Inr (fst l, bs))" "snd l" l "[]"]
      lenPrefixed_grows [of "snd l" "[]"]
    by (simp add: labelField_def)
  finally show ?thesis by (simp add: unmarshalLabel_def decodeMessage_def)
qed

lemma unmarshalSample_enc: "unmarshalSample (0x09 # putUint64 v @ 0x10 # putUvarint t) = Some (Inr (v, t))"
proof -
  have "decodeLoop sampleField l (0, 0) (0x09 # putUint64 v @ 0x10 # putUvarint t)
      = decodeLoop sampleField l (v, 0) (0x10 # putUvarint t)" for l
    using decodeLoop_double [of "0x09" 1 sampleField l v "0x10 # putUvarint t" "(0, 0)" "\<lambda>v. (v, 0)"]
    by (simp add: sampleField_def)
  also have "\<dots> l = Some (Inr (v, t))" for l
    using decodeLoop_varint [of "0x10" 2 sampleField l t "[]" "(v, 0)" "\<lambda>t. (v, t)"] by (simp add: sampleField_def)
  finally show ?thesis by (simp add: unmarshalSample_def decodeMessage_def)
qed

lemma decodeLoop_labels:
  assumes "\<forall>x \<in> set ls. labelFits x" "l < 2 ^ 63" "length (concat (map encLabel ls) @ rest) \<le> l"
  shows "decodeLoop timeSeriesField l (ls0, ss) (concat (map encLabel ls) @ rest) = decodeLoop timeSeriesField l (ls0 @ ls, ss) rest"
  using assms
proof (induction ls arbitrary: ls0)
  case (Cons x ls)
  let ?rest = "concat (map encLabel ls) @ rest" let ?b = "0x0a # lenPrefixed (fst x) @ 0x12 # lenPrefixed (snd x)"
  have enc: "encLabel x @ ?rest = 0x0a # lenPrefixed ?b @ ?rest" by (simp add: encLabel_def)
  with Cons.prems(3) have "length (0x0a # lenPrefixed ?b @ ?rest) \<le> l" by (simp only: list.map concat.simps append_assoc)
  then have len: "length ?b + length ?rest \<le> l" using lenPrefixed_grows [of ?b ?rest] by (simp only: list.size)
  have "decodeLoop timeSeriesField l (ls0, ss) (encLabel x @ ?rest) = decodeLoop timeSeriesField l (ls0 @ [x], ss) ?rest"
    unfolding enc
    by (rule decodeLoop_prefixed [OF _ _ _ Cons.prems(2) len, where f = 1
          and use = "\<lambda>bs. map_option (map_sum id (\<lambda>x. (ls0 @ [x], ss))) (unmarshalLabel bs)"])
      (use unmarshalLabel_enc [of x] Cons.prems(1) in \<open>simp_all add: timeSeriesField_def\<close>)
  with Cons show ?case by simp
qed simp

lemma decodeLoop_samples:
  assumes "l < 2 ^ 63" "length (concat (map encSample ss)) \<le> l"
  shows "decodeLoop timeSeriesField l (ls, ss0) (concat (map encSample ss)) = Some (Inr (ls, ss0 @ ss))"
  using assms(2)
proof (induction ss arbitrary: ss0)
  case (Cons x ss)
  obtain v t where x: "x = (v, t)" by fastforce
  let ?rest = "concat (map encSample ss)" let ?b = "0x09 # putUint64 v @ 0x10 # putUvarint t"
  have enc: "encSample x @ ?rest = 0x12 # lenPrefixed ?b @ ?rest" by (simp add: encSample_def x)
  with Cons.prems have "length (0x12 # lenPrefixed ?b @ ?rest) \<le> l" by (simp only: list.map concat.simps)
  then have len: "length ?b + length ?rest \<le> l" using lenPrefixed_grows [of ?b ?rest] by (simp only: list.size)
  have "decodeLoop timeSeriesField l (ls, ss0) (encSample x @ ?rest) = decodeLoop timeSeriesField l (ls, ss0 @ [x]) ?rest"
    unfolding enc
    by (rule decodeLoop_prefixed [OF _ _ _ assms(1) len, where f = 2
          and use = "\<lambda>bs. map_option (map_sum id (\<lambda>x. (ls, ss0 @ [x]))) (unmarshalSample bs)"])
      (use unmarshalSample_enc [of v t] x in \<open>simp_all add: timeSeriesField_def\<close>)
  with Cons show ?case by simp
qed simp

lemma unmarshalTimeSeries_enc:
  assumes "seriesFits x"
  shows "unmarshalTimeSeries (encSeriesBody x) = Some (Inr x)"
proof -
  have len: "length (encSeriesBody x) < 2 ^ 63" "\<forall>l \<in> set (fst x). labelFits l" using assms by (simp_all add: seriesFits_def)
  then show ?thesis
    using decodeLoop_labels [of "fst x" "length (encSeriesBody x)" "concat (map encSample (snd x))" "[]" "[]"]
      decodeLoop_samples [of "length (encSeriesBody x)" "snd x" "fst x" "[]"]
    by (cases x) (simp add: unmarshalTimeSeries_def decodeMessage_def encSeriesBody_def)
qed

lemma unmarshal_encRequest:
  assumes "\<forall>x \<in> set xs. seriesFits x" "length (encRequest xs) < 2 ^ 63"
  shows "unmarshalWriteRequest (encRequest xs) = Some (Inr xs)"
proof -
  have "decodeLoop writeRequestField l acc (encRequest ys) = Some (Inr (acc @ ys))"
    if "\<forall>x \<in> set ys. seriesFits x" "l < 2 ^ 63" "length (encRequest ys) \<le> l" for l acc ys
    using that
  proof (induction ys arbitrary: acc)
    case (Cons y ys)
    have enc: "encRequest (y # ys) = 0x0a # lenPrefixed (encSeriesBody y) @ encRequest ys" by (simp add: encRequest_def)
    with Cons.prems have len: "length (encSeriesBody y) + length (encRequest ys) \<le> l"
      using lenPrefixed_grows [of "encSeriesBody y" "encRequest ys"] by simp
    have "decodeLoop writeRequestField l acc (encRequest (y # ys)) = decodeLoop writeRequestField l (acc @ [y]) (encRequest ys)"
      unfolding enc
      by (rule decodeLoop_prefixed [OF _ _ _ Cons.prems(2) len, where f = 1
            and use = "\<lambda>bs. map_option (map_sum id (\<lambda>x. acc @ [x])) (unmarshalTimeSeries bs)"])
        (use unmarshalTimeSeries_enc [of y] Cons.prems(1) in \<open>simp_all add: writeRequestField_def\<close>)
    with Cons enc show ?case by simp
  qed (simp add: encRequest_def)
  from this [of xs "length (encRequest xs)" "[]"] assms show ?thesis
    by (simp add: unmarshalWriteRequest_def decodeMessage_def)
qed

subsection \<open>The samples are stored alike\<close>

text \<open>Receivers that differ in their counters and lists of dropped points only, with the same writer.\<close>

definition storesAlike :: "base \<Rightarrow> base \<times> writer \<Rightarrow> base \<times> writer \<Rightarrow> bool" where
  "storesAlike b0 s t \<longleftrightarrow> sameConfig b0 (fst s) \<and> sameConfig b0 (fst t) \<and> snd s = snd t"

lemma store_alike:
  assumes "storesAlike b0 s t" "metric \<noteq> []" "\<not> nameTooLong b0 (taggedPath metric)"
  shows "rel_option (storesAlike b0) (storeSample env send metric x s) (storeDefault env send (taggedPath metric) (Some x) t)"
proof -
  obtain b w b' v ts where p: "s = (b, w)" "t = (b', w)" "x = (v, ts)" and same: "sameConfig b0 b" "sameConfig b0 b'"
    using assms(1) by (metis prod.exhaust_sel storesAlike_def)
  show ?thesis
  proof (cases "IsNaN v")
    case True
    with p assms(1) show ?thesis by (simp add: storeSample_def storeDefault_def)
  next
    case False
    let ?W = "WritePoint (envDays env) send (taggedPath metric) v (div1000 ts) w"
    obtain b1 d1 b2 d2 where
      1: "isDropBytes (envFmtFloat env) [] (wNow w) (ucast (div1000 ts)) v b = (b1, d1)" and
      2: "isDropBytes (envFmtFloat env) (taggedPath metric) (wNow w) (ucast (div1000 ts)) v b' = (b2, d2)" by fastforce
    have "sameConfig b0 b1" "sameConfig b0 b2"
      using isDropBytes_same [OF 1] isDropBytes_same [OF 2] same sameConfig_trans by blast+
    moreover have "d1 = dropsPoint b0 (wNow w) [] (ucast (div1000 ts))"
      "d2 = dropsPoint b0 (wNow w) (taggedPath metric) (ucast (div1000 ts))"
      using isDropBytes_same [OF 1] isDropBytes_same [OF 2] same dropsPoint_config by blast+
    moreover from this assms(3) have "d2 = d1" by (auto simp: dropsPoint_def nameTooLong_def)
    moreover have "storeSample env send metric x s = (if d1 then Some (b1, w) else map_option (Pair b1) ?W)"
      using False p 1 assms(2) by (simp add: storeSample_def isDropString_eq WritePointTagged_eq map_conv_bind_option comp_def)
    moreover have "storeDefault env send (taggedPath metric) (Some x) t = (if d2 then Some (b2, w) else map_option (Pair b2) ?W)"
      using False p 2 by (simp add: storeDefault_def isDropString_eq map_conv_bind_option comp_def)
    ultimately show ?thesis by (cases ?W) (simp_all add: storesAlike_def)
  qed
qed

text \<open>The series whose names both decoders make alike.\<close>

definition seriesAgrees :: "base \<Rightarrow> prom_series \<Rightarrow> bool" where
  "seriesAgrees b x \<longleftrightarrow> seriesFits x \<and> 2 \<le> length (fst x)
     \<and> (\<forall>l \<in> set (fst x). fst l = str ''__name__'' \<longrightarrow> Path (snd l) = snd l)
     \<and> \<not> nameTooLong b (Prometheus (fst x))"

lemma seriesAgrees_name: "seriesAgrees b x \<Longrightarrow> taggedPath (promMetric (fst x)) = Prometheus (fst x)"
proof -
  assume x: "seriesAgrees b x"
  then obtain i where i: "nameIndex (fst x) = Some i" by (auto simp: seriesAgrees_def seriesFits_def)
  then have "i < length (fst x)" "fst (fst x ! i) = str ''__name__''" using nameIndex_SomeD by blast+
  with x have "Path (snd (fst x ! i)) = snd (fst x ! i)" by (simp add: seriesAgrees_def)
  with i x show ?thesis by (intro prometheus_names_agree [of "fst x" i]) (simp_all add: seriesAgrees_def)
qed

lemma series_alike:
  assumes "\<forall>x \<in> set xs. seriesAgrees b x"
  shows "rel_option (storesAlike b)
     (rangeLoop (\<lambda>x. rangeLoop (storeSample env send (promMetric (fst x))) (snd x)) xs (b, w))
     (rangeLoop (\<lambda>(labels, samples) s. rangeLoop (storeDefault env send (Prometheus labels)) (map Some samples) s) xs (b, w))"
proof (rule rangeLoop_rel)
  show "storesAlike b (b, w) (b, w)" by (simp add: storesAlike_def)
next
  fix x s t assume x: "x \<in> set xs" and st: "storesAlike b s t"
  obtain ls ss where x2: "x = (ls, ss)" by fastforce
  have agree: "seriesAgrees b (ls, ss)" using x x2 assms by simp
  note name = seriesAgrees_name [OF this]
  have "promMetric ls \<noteq> []" using agree by (auto simp: seriesAgrees_def seriesFits_def promMetric_def)
  with agree name have step: "rel_option (storesAlike b) (storeSample env send (promMetric ls) y s) (storeDefault env send (Prometheus ls) (Some y) t)"
    if "storesAlike b s t" for y s t
    using store_alike [OF that, of "promMetric ls" env send y] by (simp add: seriesAgrees_def)
  have "rel_option (storesAlike b) (rangeLoop (storeSample env send (promMetric ls)) ss s)
      (rangeLoop (\<lambda>y. storeDefault env send (Prometheus ls) (Some y)) ss t)"
    by (rule rangeLoop_rel [OF step st])
  then show "rel_option (storesAlike b) (rangeLoop (storeSample env send (promMetric (fst x))) (snd x) s)
      ((\<lambda>(labels, samples) s. rangeLoop (storeDefault env send (Prometheus labels)) (map Some samples) s) x t)"
    by (simp add: x2 rangeLoop_map)
qed



end
