(* ===== verification/Up_Tree.thy ===== *)
theory Up_Tree
  imports Up_Points
begin

text \<open>
  \<^verbatim>\<open>uploader/tree.go\<close>: the uploader of the tree table, one row per path and per proper prefix of a path.
  The prefixes of a path, each with its trailing dot, are the list \<open>dotPrefixes\<close>.
\<close>

subsection \<open>The loop\<close>

text \<open>\<open>writePathLevel\<close>: the writes of one row, given up at the first error.\<close>

definition writePathLevel :: "uint16 \<Rightarrow> uint32 \<Rightarrow> bytes \<Rightarrow> nat \<Rightarrow> sink \<Rightarrow> sink \<times> bool" where
  "writePathLevel days version p level out =
     (let (out, ok) = (if days > 0 then ioWriteUint16 days out else (out, True)) in
      if \<not> ok then (out, False)
      else let (out, ok) = ioWriteUint32 (of_nat level) out in
      if \<not> ok then (out, False)
      else let (out, ok) = ioWriteBytes p out in
      if \<not> ok then (out, False)
      else ioWriteUint32 version out)"

text \<open>
  The loop over the shorter prefixes, counting the level \<open>l\<close> down to 1. Without a dot the index is -1:
  the segment is empty and cutting \<open>p\<close> before it panics. The flag says whether every write succeeded.
\<close>

fun treePrefixes :: "uint16 \<Rightarrow> uint32 \<Rightarrow> nat \<Rightarrow> bytes \<Rightarrow> bytes list \<Rightarrow> sink \<Rightarrow> (bytes list \<times> sink \<times> bool) option" where
  "treePrefixes days version 0 p newSeries out = Some (newSeries, out, True)"
| "treePrefixes days version (Suc l) p newSeries out =
     (let index = LastIndexByte p cDot;
          segment = (case index of None \<Rightarrow> [] | Some i \<Rightarrow> take (i + 1) p)
      in if segment \<in> set newSeries then Some (newSeries, out, True)
         else (let newSeries = newSeries @ [segment];
                   (out, ok) = writePathLevel days version segment (Suc l) out
               in if \<not> ok then Some (newSeries, out, False)
                  else (case index of
                      None \<Rightarrow> None
                    | Some i \<Rightarrow> treePrefixes days version l (take i p) newSeries out)))"

definition treeBody ::
  "CMap \<Rightarrow> uint16 \<Rightarrow> uint32 \<Rightarrow> reader \<Rightarrow> bytes \<Rightarrow> uint64 \<times> bytes list \<times> sink \<Rightarrow>
   (uint64 \<times> sink + uint64 \<times> bytes list \<times> sink) option" where
  "treeBody existsCache days version r name = (\<lambda>(n, newSeries, out).
     if IndexByte name cQuest \<noteq> None then Some (Inr (n, newSeries, out))
     else if Exists existsCache name then Some (Inr (n, newSeries, out))
     else if name \<in> set newSeries then Some (Inr (n, newSeries, out))
     else
     (let n = n + 1;
          level = pathLevel name;
          newSeries = newSeries @ [name];
          (out, ok) = writePathLevel days version name level out
      in if \<not> ok then Some (Inl (n, out))
         else (case treePrefixes days version (level - 1) name newSeries out of
             None \<Rightarrow> None
           | Some (newSeries, out, ok) \<Rightarrow> Some (if ok then Inr (n, newSeries, out) else Inl (n, out)))))"

text \<open>\<open>treeDate\<close>: the configured date in seconds, if any.\<close>

definition treeParseFile ::
  "(uint32 \<Rightarrow> uint16) \<Rightarrow> (bytes \<Rightarrow> 'e + bytes) \<Rightarrow> (bytes \<Rightarrow> bytes) \<Rightarrow> uint32 option \<Rightarrow> CMap \<Rightarrow> uint32 \<Rightarrow> bytes \<Rightarrow> sink \<Rightarrow>
   (uint64 \<times> bytes list \<times> 'e parse_error option \<times> sink) option" where
  "treeParseFile TimestampToDays open_file lz4 treeDate existsCache version filename out =
     (case NewReader open_file lz4 filename False of
        Inl err \<Rightarrow> Some (0, [], Some (OpenError err), out)
      | Inr reader \<Rightarrow>
          (let days = (case treeDate of None \<Rightarrow> 0 | Some t \<Rightarrow> TimestampToDays t) in
           case readLoop TimestampToDays (treeBody existsCache days version) reader (0, [], out) of
             None \<Rightarrow> None
           | Some (Inl (n, out)) \<Rightarrow> Some (n, [], Some WriteError, out)
           | Some (Inr (n, newSeries, out)) \<Rightarrow> Some (n, newSeries, None, out)))"

subsection \<open>Prefixes\<close>

function dotPrefixes :: "bytes \<Rightarrow> bytes list" where
  "dotPrefixes p = (case LastIndexByte p cDot of None \<Rightarrow> [] | Some i \<Rightarrow> take (i + 1) p # dotPrefixes (take i p))"
  by pat_completeness auto
termination
  by (relation "measure length") (auto dest: LastIndexByte_SomeD)

declare dotPrefixes.simps [simp del]

text \<open>The level of a key: the number of its components, not counting the empty one after a final dot.\<close>

definition treeLevel :: "bytes \<Rightarrow> nat" where
  "treeLevel k = (if k \<noteq> [] \<and> last k = cDot then count_list k cDot else Suc (count_list k cDot))"

definition treeRow :: "uint16 \<Rightarrow> uint32 \<Rightarrow> bytes \<Rightarrow> bytes" where
  "treeRow days version k =
     (if days > 0 then putUint16 days else []) @ putUint32 (of_nat (treeLevel k)) @ encString k @ putUint32 version"

lemma dotPrefixes_None: "LastIndexByte p cDot = None \<Longrightarrow> dotPrefixes p = []"
  by (subst dotPrefixes.simps) simp

lemma dotPrefixes_Some: "LastIndexByte p cDot = Some i \<Longrightarrow> dotPrefixes p = take (Suc i) p # dotPrefixes (take i p)"
  by (subst dotPrefixes.simps) simp

lemma take_last_dot:
  assumes "LastIndexByte p cDot = Some i"
  shows "take (Suc i) p = take i p @ [cDot]" and "count_list p cDot = Suc (count_list (take i p) cDot)"
proof -
  show "take (Suc i) p = take i p @ [cDot]"
    using LastIndexByte_SomeD [OF assms] by (simp add: take_Suc_conv_app_nth)
  have "p = take i p @ cDot # drop (Suc i) p" "cDot \<notin> set (drop (Suc i) p)"
    using LastIndexByte_split [OF assms] LastIndexByte_SomeD [OF assms] by auto
  then have "count_list p cDot = count_list (take i p @ cDot # drop (Suc i) p) cDot" "count_list (drop (Suc i) p) cDot = 0" by auto
  then show "count_list p cDot = Suc (count_list (take i p) cDot)" by simp
qed

lemma dotPrefixes_snoc_dot [simp]: "dotPrefixes (p @ [cDot]) = (p @ [cDot]) # dotPrefixes p"
  by (subst dotPrefixes_Some [of _ "length p"]) simp_all

lemma dotPrefixes_suffix: "dotPrefixes p = A @ q # B \<Longrightarrow> dotPrefixes q = q # B"
proof (induction p arbitrary: A rule: dotPrefixes.induct)
  case (1 p)
  show ?case
  proof (cases "LastIndexByte p cDot")
    case None
    with "1.prems" show ?thesis by (simp add: dotPrefixes_None)
  next
    case (Some i)
    note eq = dotPrefixes_Some [OF Some]
    show ?thesis
    proof (cases A)
      case Nil
      with eq "1.prems" have "q = take i p @ [cDot]" "B = dotPrefixes (take i p)" by (simp_all add: take_last_dot(1) [OF Some])
      then show ?thesis by simp
    next
      case (Cons a A')
      with eq "1.prems" have "dotPrefixes (take i p) = A' @ q # B" by simp
      with 1(1) [OF Some] show ?thesis by blast
    qed
  qed
qed

lemma length_dotPrefixes: "length (dotPrefixes p) = count_list p cDot"
proof (induction p rule: dotPrefixes.induct)
  case (1 p)
  show ?case
  proof (cases "LastIndexByte p cDot")
    case None
    then show ?thesis by (simp add: dotPrefixes_None LastIndexByte_None)
  next
    case (Some i)
    with 1 [OF Some] show ?thesis by (simp add: dotPrefixes_Some [OF Some] take_last_dot(2) [OF Some])
  qed
qed

lemma dotPrefixes_shorter: "q \<in> set (dotPrefixes p) \<Longrightarrow> length q \<le> length p \<and> q \<noteq> [] \<and> last q = cDot"
proof (induction p rule: dotPrefixes.induct)
  case (1 p)
  show ?case
  proof (cases "LastIndexByte p cDot")
    case None
    with "1.prems" show ?thesis by (simp add: dotPrefixes_None)
  next
    case (Some i)
    with "1.IH" [OF Some] show ?thesis
      using LastIndexByte_SomeD [OF Some] "1.prems" by (auto simp: dotPrefixes_Some [OF Some] take_last_dot(1) [OF Some])
  qed
qed

lemma distinct_dotPrefixes: "distinct (dotPrefixes p)"
proof (induction p rule: dotPrefixes.induct)
  case (1 p)
  show ?case
  proof (cases "LastIndexByte p cDot")
    case (Some i)
    have "take (Suc i) p \<notin> set (dotPrefixes (take i p))"
      using dotPrefixes_shorter [of "take (Suc i) p" "take i p"] LastIndexByte_SomeD [OF Some] by auto
    with 1 [OF Some] Some show ?thesis by (simp add: dotPrefixes_Some [OF Some])
  qed (simp add: dotPrefixes_None)
qed

subsection \<open>The rows of a path\<close>

lemma writePathLevel_ok:
  "skLimit out = None \<Longrightarrow> level = treeLevel k \<Longrightarrow>
     writePathLevel days version k level out = (out\<lparr>skData := skData out @ treeRow days version k\<rparr>, True)"
  by (simp add: writePathLevel_def treeRow_def ioWriteUint16_def ioWriteUint32_def)

text \<open>The walk stops at the first prefix already there.\<close>

definition freshPrefixes :: "bytes list \<Rightarrow> bytes \<Rightarrow> bytes list" where
  "freshPrefixes seen p = takeWhile (\<lambda>q. q \<notin> set seen) (dotPrefixes p)"

lemma takeWhile_notin_extend:
  "x \<notin> set xs \<Longrightarrow> takeWhile (\<lambda>q. q \<notin> set (seen @ [x])) xs = takeWhile (\<lambda>q. q \<notin> set seen) xs"
  by (rule takeWhile_cong) auto

lemma treePrefixes_ok:
  assumes "skLimit out = None" "l = count_list p cDot"
  shows "treePrefixes days version l p seen out
     = Some (seen @ freshPrefixes seen p, out\<lparr>skData := skData out @ concat (map (treeRow days version) (freshPrefixes seen p))\<rparr>, True)"
  using assms
proof (induction l arbitrary: p seen out)
  case 0
  then have "dotPrefixes p = []" by (simp flip: length_dotPrefixes)
  then show ?case by (simp add: freshPrefixes_def)
next
  case (Suc l)
  from Suc.prems(2) have "cDot \<in> set p" by (metis count_notin nat.distinct(1))
  then obtain i where i: "LastIndexByte p cDot = Some i" by (cases "LastIndexByte p cDot") (auto simp: LastIndexByte_None)
  let ?seg = "take (Suc i) p"
  have seg: "?seg = take i p @ [cDot]" and l: "l = count_list (take i p) cDot"
    using take_last_dot [OF i] Suc.prems(2) by simp_all
  have pre: "dotPrefixes p = ?seg # dotPrefixes (take i p)" by (rule dotPrefixes_Some [OF i])
  show ?case
  proof (cases "?seg \<in> set seen")
    case True
    then show ?thesis using i pre by (simp add: freshPrefixes_def)
  next
    case False
    have lev: "Suc l = treeLevel ?seg" by (simp add: seg treeLevel_def l)
    have "?seg \<notin> set (dotPrefixes (take i p))" using distinct_dotPrefixes [of p] pre by simp
    then have fresh: "freshPrefixes (seen @ [?seg]) (take i p) = takeWhile (\<lambda>q. q \<notin> set seen) (dotPrefixes (take i p))"
      unfolding freshPrefixes_def by (rule takeWhile_notin_extend)
    let ?out = "out\<lparr>skData := skData out @ treeRow days version ?seg\<rparr>"
    have "treePrefixes days version (Suc l) p seen out = treePrefixes days version l (take i p) (seen @ [?seg]) ?out"
      using False i writePathLevel_ok [OF Suc.prems(1) lev, of days version] by (simp add: Let_def)
    also have "\<dots> = Some ((seen @ [?seg]) @ freshPrefixes (seen @ [?seg]) (take i p),
        ?out\<lparr>skData := skData ?out @ concat (map (treeRow days version) (freshPrefixes (seen @ [?seg]) (take i p)))\<rparr>, True)"
      by (rule Suc.IH) (simp_all add: Suc.prems(1) l)
    finally show ?thesis unfolding fresh using False pre by (simp add: freshPrefixes_def)
  qed
qed

text \<open>A list of keys that holds every prefix of each of its keys.\<close>

definition prefixClosed :: "bytes list \<Rightarrow> bool" where
  "prefixClosed seen \<longleftrightarrow> (\<forall>k \<in> set seen. set (dotPrefixes k) \<subseteq> set seen)"

lemma freshPrefixes_all:
  assumes "\<forall>k \<in> set seen \<inter> set (dotPrefixes p). set (dotPrefixes k) \<subseteq> set seen"
  shows "set seen \<union> set (freshPrefixes seen p) = set seen \<union> set (dotPrefixes p)"
proof -
  let ?t = "takeWhile (\<lambda>q. q \<notin> set seen) (dotPrefixes p)" and ?d = "dropWhile (\<lambda>q. q \<notin> set seen) (dotPrefixes p)"
  have split: "dotPrefixes p = ?t @ ?d" by simp
  have "set ?d \<subseteq> set seen"
  proof (cases ?d)
    case (Cons q B)
    then have q: "q \<in> set seen" using hd_dropWhile [of "\<lambda>q. q \<notin> set seen" "dotPrefixes p"] by auto
    have eq: "dotPrefixes p = ?t @ q # B" unfolding Cons [symmetric] by simp
    then have "dotPrefixes q = q # B" by (rule dotPrefixes_suffix)
    moreover have "q \<in> set (dotPrefixes p)" by (subst eq) simp
    ultimately have "set (q # B) \<subseteq> set seen" using assms q by (metis IntI)
    then show ?thesis unfolding Cons .
  next
    case Nil
    show ?thesis unfolding Nil by simp
  qed
  moreover have "set (dotPrefixes p) = set ?t \<union> set ?d" by (subst split) (rule set_append)
  ultimately show ?thesis unfolding freshPrefixes_def by auto
qed

lemma dotPrefixes_mono: "q \<in> set (dotPrefixes p) \<Longrightarrow> set (dotPrefixes q) \<subseteq> set (dotPrefixes p)"
  using split_list [of q "dotPrefixes p"] dotPrefixes_suffix by fastforce

lemma prefixClosed_fresh:
  assumes "prefixClosed seen"
  shows "prefixClosed (seen @ freshPrefixes seen p)" and "set (seen @ freshPrefixes seen p) = set seen \<union> set (dotPrefixes p)"
proof -
  show eq: "set (seen @ freshPrefixes seen p) = set seen \<union> set (dotPrefixes p)"
    using freshPrefixes_all [of seen p] assms by (auto simp: prefixClosed_def)
  show "prefixClosed (seen @ freshPrefixes seen p)"
    unfolding prefixClosed_def eq using assms dotPrefixes_mono by (fastforce simp: prefixClosed_def)
qed

lemma prefixClosed_add:
  assumes "prefixClosed seen" "p \<notin> set (dotPrefixes p)"
  shows "prefixClosed ((seen @ [p]) @ freshPrefixes (seen @ [p]) p)"
    and "set ((seen @ [p]) @ freshPrefixes (seen @ [p]) p) = set seen \<union> insert p (set (dotPrefixes p))"
proof -
  have "\<forall>k \<in> set (seen @ [p]) \<inter> set (dotPrefixes p). set (dotPrefixes k) \<subseteq> set (seen @ [p])"
    using assms by (auto simp: prefixClosed_def)
  from freshPrefixes_all [OF this]
  show eq: "set ((seen @ [p]) @ freshPrefixes (seen @ [p]) p) = set seen \<union> insert p (set (dotPrefixes p))" by auto
  show "prefixClosed ((seen @ [p]) @ freshPrefixes (seen @ [p]) p)"
    unfolding prefixClosed_def eq using assms(1) dotPrefixes_mono by (fastforce simp: prefixClosed_def)
qed

subsection \<open>The tree table\<close>

definition treeStep ::
  "CMap \<Rightarrow> uint16 \<Rightarrow> uint32 \<Rightarrow> point \<Rightarrow> uint64 \<times> bytes list \<times> sink \<Rightarrow> (uint64 \<times> sink + uint64 \<times> bytes list \<times> sink) option" where
  "treeStep c days version q s = treeBody c days version (freshReader [] False) (pName q) s"

lemma treeStep_skip:
  "\<not> untagged q \<or> Exists c (pName q) \<or> pName q \<in> set seen \<Longrightarrow> treeStep c days version q (n, seen, out) = Some (Inr (n, seen, out))"
  by (auto simp: treeStep_def treeBody_def untagged_def IndexByte_None)

lemma treeStep_new:
  assumes "untagged q" "\<not> Exists c (pName q)" "pName q \<notin> set seen" "skLimit out = None" "pName q = [] \<or> last (pName q) \<noteq> cDot"
  defines "new \<equiv> pName q # freshPrefixes (seen @ [pName q]) (pName q)"
  shows "treeStep c days version q (n, seen, out)
     = Some (Inr (n + 1, seen @ new, out\<lparr>skData := skData out @ concat (map (treeRow days version) new)\<rparr>))"
proof -
  have level: "pathLevel (pName q) = treeLevel (pName q)" using assms(5) by (auto simp: pathLevel_eq treeLevel_def)
  have l: "pathLevel (pName q) - 1 = count_list (pName q) cDot" by (simp add: pathLevel_eq)
  let ?out = "out\<lparr>skData := skData out @ treeRow days version (pName q)\<rparr>"
  have "treePrefixes days version (pathLevel (pName q) - 1) (pName q) (seen @ [pName q]) ?out
      = Some ((seen @ [pName q]) @ freshPrefixes (seen @ [pName q]) (pName q),
          ?out\<lparr>skData := skData ?out @ concat (map (treeRow days version) (freshPrefixes (seen @ [pName q]) (pName q)))\<rparr>, True)"
    by (rule treePrefixes_ok [OF _ l]) (simp add: assms(4))
  then show ?thesis
    using assms writePathLevel_ok [OF assms(4) level, of days version]
    by (simp add: treeStep_def treeBody_def untagged_def IndexByte_None Let_def)
qed

text \<open>What the loop has done after some points: every new path and all its prefixes, each once.\<close>

definition treeKeys :: "CMap \<Rightarrow> point set \<Rightarrow> bytes set" where
  "treeKeys c P = (\<Union>p \<in> {p \<in> P. untagged p \<and> \<not> Exists c (pName p)}. insert (pName p) (set (dotPrefixes (pName p))))"

definition treeInv :: "CMap \<Rightarrow> uint16 \<Rightarrow> uint32 \<Rightarrow> point set \<Rightarrow> bytes list \<times> sink \<Rightarrow> bool" where
  "treeInv c days version P s \<longleftrightarrow> distinct (fst s) \<and> prefixClosed (fst s) \<and> set (fst s) = treeKeys c P
     \<and> snd s = \<lparr>skData = concat (map (treeRow days version) (fst s)), skLimit = None\<rparr>"

lemma treeKeys_insert:
  "treeKeys c (insert p P) = (if untagged p \<and> \<not> Exists c (pName p) then insert (pName p) (set (dotPrefixes (pName p))) else {}) \<union> treeKeys c P"
  by (auto simp: treeKeys_def)

lemma treeInv_step:
  assumes inv: "treeInv c days version P (seen, out)" and q: "pName q = [] \<or> last (pName q) \<noteq> cDot"
  shows "\<exists>n' seen' out'. treeStep c days version q (n, seen, out) = Some (Inr (n', seen', out')) \<and> treeInv c days version (insert q P) (seen', out')"
proof -
  have np: "pName q \<notin> set (dotPrefixes (pName q))" using q dotPrefixes_shorter by blast
  consider (out) "\<not> untagged q \<or> Exists c (pName q)" | (seen) "untagged q" "\<not> Exists c (pName q)" "pName q \<in> set seen"
    | (new) "untagged q" "\<not> Exists c (pName q)" "pName q \<notin> set seen" by blast
  then show ?thesis
  proof cases
    case out
    then have "treeKeys c (insert q P) = treeKeys c P" by (auto simp: treeKeys_insert)
    with out inv treeStep_skip [of q c seen days version n] show ?thesis by (auto simp: treeInv_def)
  next
    case seen
    then have "insert (pName q) (set (dotPrefixes (pName q))) \<subseteq> treeKeys c P"
      using inv by (auto simp: treeInv_def prefixClosed_def)
    then have "treeKeys c (insert q P) = treeKeys c P" by (auto simp: treeKeys_insert)
    with seen inv treeStep_skip [of q c seen days version n] show ?thesis by (auto simp: treeInv_def)
  next
    case new
    let ?seen = "(seen @ [pName q]) @ freshPrefixes (seen @ [pName q]) (pName q)"
    have closed: "prefixClosed seen" using inv by (simp add: treeInv_def)
    have "distinct (freshPrefixes (seen @ [pName q]) (pName q))"
      unfolding freshPrefixes_def by (simp add: distinct_dotPrefixes)
    moreover have "set (freshPrefixes (seen @ [pName q]) (pName q)) \<inter> set (seen @ [pName q]) = {}"
      unfolding freshPrefixes_def using set_takeWhileD by fastforce
    ultimately have dist: "distinct ?seen" using inv new by (auto simp: treeInv_def)
    have "set ?seen = treeKeys c (insert q P)"
      unfolding prefixClosed_add(2) [OF closed np] using inv new by (auto simp: treeKeys_insert treeInv_def)
    with treeStep_new [OF new, of out days version n] q inv dist prefixClosed_add(1) [OF closed np] show ?thesis
      by (simp add: treeInv_def)
  qed
qed

lemma treeInv_fold:
  assumes "\<forall>q \<in> set ps. pName q = [] \<or> last (pName q) \<noteq> cDot" "treeInv c days version P (seen, out)"
  shows "\<exists>n' seen' out'. foldPoints (treeStep c days version) ps (n, seen, out) = Some (Inr (n', seen', out'))
     \<and> treeInv c days version (set ps \<union> P) (seen', out')"
  using assms
proof (induction ps arbitrary: n seen out P)
  case (Cons q ps)
  from treeInv_step [OF Cons.prems(2), of q n] Cons.prems(1) obtain n1 seen1 out1 where
    1: "treeStep c days version q (n, seen, out) = Some (Inr (n1, seen1, out1))" "treeInv c days version (insert q P) (seen1, out1)" by auto
  from Cons.IH [OF _ 1(2), of n1] Cons.prems(1) 1(1) show ?case by simp
qed auto



end
