(* ===== verification/Tools.thy ===== *)
theory Tools
  imports Proto_Carbon Up_Tree Strconv
begin

text \<open>
  The stand-alone programs beside the daemon: the load generator of the gRPC receiver
  (\<^verbatim>\<open>receiver/grpc_sender/loadtest.go\<close>) and the experiment that lists the nodes of a metric tree
  (\<^verbatim>\<open>uploader/tree/main.go\<close>). The load generator makes requests that the receiver accepts; the experiment lists the nodes that the
  tree uploader writes.
\<close>

subsection \<open>The load generator\<close>

definition loadName :: "int \<Rightarrow> nat \<Rightarrow> nat \<Rightarrow> bytes" where
  "loadName host plugin value =
     str ''loadtest.host'' @ showInt host @ str ''.plugin'' @ itoa plugin @ str ''.stuff'' @ itoa value @ str ''.value''"

text \<open>The metrics of one request; \<open>clock\<close> and \<open>norm\<close> are what the calls for the metric with the given number return.\<close>

definition loadRequest :: "(nat \<Rightarrow> uint32) \<Rightarrow> (nat \<Rightarrow> float64) \<Rightarrow> nat \<Rightarrow> nat \<Rightarrow> int \<Rightarrow> nat \<Rightarrow> grpc_metric list" where
  "loadRequest clock norm first values host plugin =
     map (\<lambda>value. (loadName host plugin value, Some [(norm (first + value), clock (first + value))])) [0..<values]"

text \<open>The requests in the order of the slots they are stored in; a slice with nothing appended is not nil.\<close>

definition makeRequests ::
  "(nat \<Rightarrow> uint32) \<Rightarrow> (nat \<Rightarrow> float64) \<Rightarrow> nat \<Rightarrow> nat \<Rightarrow> nat \<Rightarrow> int \<Rightarrow> grpc_payload list" where
  "makeRequests clock norm hosts plugins values hostStart =
     concat (map (\<lambda>host. map (\<lambda>plugin.
       Some (loadRequest clock norm ((host * plugins + plugin) * values) values (int host + hostStart) plugin)) [0..<plugins]) [0..<hosts])"

lemma length_makeRequests: "length (makeRequests clock norm hosts plugins values hostStart) = hosts * plugins"
  by (simp add: makeRequests_def length_concat comp_def sum_list_triv)

text \<open>
  One round of the main loop: the number of queries grows with every request that \<open>StoreSync\<close> accepts; an error ends the
  process (\<open>None\<close>). \<open>storeSync\<close> is the remote call.
\<close>

definition loadRound :: "(grpc_payload \<Rightarrow> 'w \<Rightarrow> bool \<times> 'w) \<Rightarrow> grpc_payload list \<Rightarrow> nat \<times> 'w \<Rightarrow> (nat \<times> 'w) option" where
  "loadRound storeSync = rangeLoop (\<lambda>req (queries, w). case storeSync req w of (ok, w) \<Rightarrow> if ok then Some (queries + 1, w) else None)"

text \<open>
  \<open>main\<close> without the printing: the number of rounds is that of the clocks given, since the loop does not end by itself.
  \<open>dialed\<close>: whether the connection was made; otherwise the process ends.
\<close>

definition loadMain ::
  "bool \<Rightarrow> (grpc_payload \<Rightarrow> 'w \<Rightarrow> bool \<times> 'w) \<Rightarrow> int \<Rightarrow> ((nat \<Rightarrow> uint32) \<times> (nat \<Rightarrow> float64)) list \<Rightarrow> 'w \<Rightarrow> 'w option" where
  "loadMain dialed storeSync hostFactor rounds w =
     (if \<not> dialed then None
      else
        (let hosts = 1000; plugins = 50; values = 10; hostStart = (hostFactor - 1) * int hosts
         in rangeLoop (\<lambda>(clock, norm) w.
              map_option snd (loadRound storeSync (makeRequests clock norm hosts plugins values hostStart) (0, w))) rounds w))"

subsection \<open>Test helpers\<close>

definition Max_int :: "int \<Rightarrow> int \<Rightarrow> int" where
  "Max_int a b = (if a \<ge> b then a else b)"

lemma Max_int_max: "Max_int a b = max a b"
  by (simp add: Max_int_def)

text \<open>\<open>GetFreeTCPPort\<close>; \<open>resolve\<close> and \<open>listen\<close> are the functions of package \<^verbatim>\<open>net\<close>, the second giving the address of the listener.\<close>

definition GetFreeTCPPort :: "(bytes \<Rightarrow> 'e + 'a) \<Rightarrow> ('a \<Rightarrow> 'e + bytes) \<Rightarrow> bytes \<Rightarrow> bytes \<times> 'e option" where
  "GetFreeTCPPort resolve listen name =
     (let name = (if name = [] then str ''127.0.0.1:0'' else if cColon \<notin> set name then name @ str '':0'' else name)
      in case resolve name of
           Inl e \<Rightarrow> (name, Some e)
         | Inr addr \<Rightarrow> (case listen addr of Inl e \<Rightarrow> (name, Some e) | Inr l \<Rightarrow> (l, None)))"

lemma length_itoa_le: "0 < k \<Longrightarrow> n < 10 ^ k \<Longrightarrow> length (itoa n) \<le> k"
proof (induction k arbitrary: n)
  case (Suc k)
  show ?case
  proof (cases "n < 10")
    case True
    then show ?thesis by (subst itoa.simps) simp
  next
    case False
    with Suc.prems have "0 < k" by (cases k) simp_all
    moreover have "n div 10 < 10 ^ k" using Suc.prems(2) by (simp add: less_mult_imp_div_less mult.commute)
    ultimately show ?thesis using Suc.IH [of "n div 10"] False by (subst itoa.simps) simp
  qed
qed simp

lemma length_itoa_int: "n < 2 ^ 63 \<Longrightarrow> length (itoa n) \<le> 19"
  by (rule length_itoa_le) simp_all

lemma length_showInt: "\<bar>i\<bar> < 2 ^ 63 \<Longrightarrow> length (showInt i) \<le> 20"
  using length_itoa_int [of "nat i"] length_itoa_int [of "nat (- i)"] by (cases "i < 0") (simp_all add: showInt_def nat_less_iff)

lemma length_loadName: "\<bar>host\<bar> < 2 ^ 63 \<Longrightarrow> plugin < 2 ^ 63 \<Longrightarrow> value < 2 ^ 63 \<Longrightarrow> length (loadName host plugin value) \<le> 100"
  using length_showInt [of host] length_itoa_int [of plugin] length_itoa_int [of "value"] by (simp add: loadName_def)

lemma loadName_semi: "cSemi \<notin> set (loadName host plugin value)"
proof -
  have "cSemi \<notin> set (itoa n)" for n using itoa_digits [of cSemi n] by (auto simp: isDigit_def)
  then show ?thesis by (simp add: loadName_def showInt_def)
qed

lemma grpcValidate_plain:
  "\<forall>m \<in> set ms. cSemi \<notin> set (fst m) \<and> fst m \<noteq> [] \<and> length (fst m) \<le> 16384 \<and> (\<exists>ps. snd m = Some ps \<and> ps \<noteq> []) \<Longrightarrow>
     grpcValidate env DisabledTagConfig (map Some ms) = Some (Inr (map (\<lambda>m. (fst m, elems (snd m))) ms))"
proof (induction ms)
  case (Cons m ms)
  obtain n ps where "m = (n, Some ps)" using Cons.prems by (cases m) auto
  with Cons show ?case by (simp add: Graphite_def DisabledTagConfig_def elems_def)
qed simp

text \<open>Without tag rules the receiver accepts every request of the load generator, with the names and points as they were made.\<close>

theorem load_requests_valid:
  assumes "p \<in> set (makeRequests clock norm hosts plugins values hostStart)"
    and "\<bar>hostStart\<bar> + int hosts < 2 ^ 63" "plugins < 2 ^ 63" "values < 2 ^ 63"
  shows "grpcValidate env DisabledTagConfig (map Some (elems p)) = Some (Inr (map (\<lambda>m. (fst m, elems (snd m))) (elems p)))"
proof (rule grpcValidate_plain, rule ballI)
  fix m assume m: "m \<in> set (elems p)"
  from assms(1) obtain host plugin first where h: "host < hosts" "plugin < plugins"
    "p = Some (loadRequest clock norm first values (int host + hostStart) plugin)"
    by (auto simp: makeRequests_def)
  with m obtain "value" where v: "value < values" "m = (loadName (int host + hostStart) plugin value, Some [(norm (first + value), clock (first + value))])"
    by (auto simp: elems_def loadRequest_def)
  have "length (loadName (int host + hostStart) plugin value) \<le> 100" using h v assms(2-4) by (intro length_loadName) linarith+
  with loadName_semi [of "int host + hostStart" plugin "value"]
  show "cSemi \<notin> set (fst m) \<and> fst m \<noteq> [] \<and> length (fst m) \<le> 16384 \<and> (\<exists>ps. snd m = Some ps \<and> ps \<noteq> [])"
    using v by (auto simp: loadName_def)
qed

theorem load_requests_valid_witness:
  "grpcValidate exampleEnv DisabledTagConfig (map Some (elems (makeRequests (\<lambda>_. 9) (\<lambda>_. 5) 1000 50 10 0 ! 3)))
     = Some (Inr (map (\<lambda>m. (fst m, elems (snd m))) (elems (makeRequests (\<lambda>_. 9) (\<lambda>_. 5) 1000 50 10 0 ! 3))))"
  by (rule load_requests_valid [OF nth_mem]) (simp_all add: length_makeRequests)

text \<open>A round that ends has stored every request.\<close>

lemma loadRound_counts: "loadRound storeSync reqs (queries, w) = Some (queries', w') \<Longrightarrow> queries' = queries + length reqs"
proof (induction reqs arbitrary: queries w)
  case (Cons r reqs)
  obtain ok w1 where "storeSync r w = (ok, w1)" by fastforce
  with Cons.prems Cons.IH [of "queries + 1" w1] show ?case by (cases ok) (simp_all add: loadRound_def)
qed (simp add: loadRound_def)

subsection \<open>The tree lister\<close>

text \<open>The keys put into the map \<open>uniq\<close> so far, and the rows printed: date, level and key.\<close>

record lister =
  tlUniq :: "bytes list"
  tlOut :: "(bytes \<times> nat \<times> bytes) list"

definition printNode :: "bytes \<Rightarrow> nat \<Rightarrow> bytes \<Rightarrow> lister \<Rightarrow> lister" where
  "printNode date level key st = st\<lparr>tlUniq := tlUniq st @ [key], tlOut := tlOut st @ [(date, level, key)]\<rparr>"

function listPrefixes :: "bytes \<Rightarrow> bytes \<Rightarrow> nat \<Rightarrow> nat \<Rightarrow> lister \<Rightarrow> nat \<times> lister" where
  "listPrefixes date metric offset level st =
     (case IndexByte (drop offset metric) cDot of
        None \<Rightarrow> (level, st)
      | Some p \<Rightarrow>
          (let key = take (offset + p + 1) metric;
               st = (if key \<in> set (tlUniq st) then st else printNode date level key st)
           in listPrefixes date metric (offset + p + 1) (level + 1) st))"
  by pat_completeness auto
termination
  by (relation "measure (\<lambda>(date, metric, offset, level, st). length metric - offset)") (auto dest: IndexByte_SomeD)

declare listPrefixes.simps [simp del]

text \<open>A line that has no fourth column, or one of less than eight bytes, panics unless its metric is known.\<close>

definition listLine :: "bytes \<Rightarrow> lister \<Rightarrow> lister option" where
  "listLine line st =
     (let row = splitOn 9 line; metric = hd row in
      if metric \<in> set (tlUniq st) then Some st
      else if length row \<le> 3 \<or> length (row ! 3) < 8 then None
      else
        (let date = take 8 (row ! 3) @ str ''01''; (level, st) = listPrefixes date metric 0 1 st
         in Some (printNode date level metric st)))"

definition listTree :: "bytes list \<Rightarrow> (lister \<times> nat) option" where
  "listTree input = map_option (\<lambda>st. (st, length (remdups (tlUniq st)))) (rangeLoop listLine input \<lparr>tlUniq = [], tlOut = []\<rparr>)"

text \<open>Every key is printed when it is added, once, with its level.\<close>

definition listerInv :: "lister \<Rightarrow> bool" where
  "listerInv st \<longleftrightarrow> tlUniq st = map (snd \<circ> snd) (tlOut st) \<and> distinct (tlUniq st) \<and> (\<forall>(d, l, k) \<in> set (tlOut st). l = treeLevel k)"

lemma printNode_inv: "listerInv st \<Longrightarrow> key \<notin> set (tlUniq st) \<Longrightarrow> level = treeLevel key \<Longrightarrow> listerInv (printNode date level key st)"
  by (auto simp: listerInv_def printNode_def)

text \<open>The keys of the dots from an offset on.\<close>

definition dotKeys :: "nat \<Rightarrow> bytes \<Rightarrow> bytes set" where
  "dotKeys off p = {take (Suc i) p | i. off \<le> i \<and> i < length p \<and> p ! i = cDot}"

lemma set_dotPrefixes: "set (dotPrefixes p) = dotKeys 0 p"
proof (induction p rule: dotPrefixes.induct)
  case (1 p)
  show ?case
  proof (cases "LastIndexByte p cDot")
    case None
    then have "\<forall>i < length p. p ! i \<noteq> cDot" by (metis LastIndexByte_None nth_mem)
    then show ?thesis using None by (auto simp: dotPrefixes_None dotKeys_def)
  next
    case (Some i)
    note i = LastIndexByte_SomeD [OF Some]
    have last: "j \<le> i" if "j < length p" "p ! j = cDot" for j
    proof (rule ccontr)
      assume "\<not> j \<le> i"
      with that i have "drop (Suc i) p ! (j - Suc i) = cDot" "j - Suc i < length (drop (Suc i) p)" by simp_all
      with i show False by (metis nth_mem)
    qed
    have "dotKeys 0 p = insert (take (Suc i) p) (dotKeys 0 (take i p))"
    proof
      show "dotKeys 0 p \<subseteq> insert (take (Suc i) p) (dotKeys 0 (take i p))"
      proof
        fix k assume "k \<in> dotKeys 0 p"
        then obtain j where j: "j < length p" "p ! j = cDot" "k = take (Suc j) p" by (auto simp: dotKeys_def)
        with last [of j] show "k \<in> insert (take (Suc i) p) (dotKeys 0 (take i p))"
          by (cases "j = i") (auto simp: dotKeys_def min_def)
      qed
      show "insert (take (Suc i) p) (dotKeys 0 (take i p)) \<subseteq> dotKeys 0 p"
        using i by (auto simp: dotKeys_def min_def)
    qed
    with 1 [OF Some] show ?thesis by (simp add: dotPrefixes_Some [OF Some])
  qed
qed

lemma dotKeys_step:
  assumes "IndexByte (drop off p) cDot = Some j"
  shows "dotKeys off p = insert (take (Suc (off + j)) p) (dotKeys (Suc (off + j)) p)"
proof -
  note j = IndexByte_SomeD [OF assms]
  have first: "off + j \<le> i" if "off \<le> i" "i < length p" "p ! i = cDot" for i
  proof (rule ccontr)
    assume "\<not> off + j \<le> i"
    with that have "i - off < j" by linarith
    with that j have "take j (drop off p) ! (i - off) = cDot" "i - off < length (take j (drop off p))" by simp_all
    with j show False by (metis nth_mem)
  qed
  show ?thesis
  proof
    show "dotKeys off p \<subseteq> insert (take (Suc (off + j)) p) (dotKeys (Suc (off + j)) p)"
    proof
      fix k assume "k \<in> dotKeys off p"
      then obtain i where i: "off \<le> i" "i < length p" "p ! i = cDot" "k = take (Suc i) p" by (auto simp: dotKeys_def)
      with first [of i] show "k \<in> insert (take (Suc (off + j)) p) (dotKeys (Suc (off + j)) p)"
        by (cases "i = off + j") (auto simp: dotKeys_def)
    qed
    show "insert (take (Suc (off + j)) p) (dotKeys (Suc (off + j)) p) \<subseteq> dotKeys off p"
      using j by (auto simp: dotKeys_def)
  qed
qed

lemma count_to_dot:
  assumes "IndexByte (drop off p) cDot = Some j"
  shows "take (Suc (off + j)) p \<noteq> []" "last (take (Suc (off + j)) p) = cDot"
    "count_list (take (Suc (off + j)) p) cDot = Suc (count_list (take off p) cDot)"
    "count_list (drop off p) cDot = Suc (count_list (drop (Suc (off + j)) p) cDot)"
proof -
  note j = IndexByte_SomeD [OF assms]
  have d: "drop off p = take j (drop off p) @ cDot # drop (Suc (off + j)) p"
    using IndexByte_split [OF assms] by (simp add: add.commute)
  have t: "take (Suc (off + j)) p = take off p @ take j (drop off p) @ [cDot]"
    using j take_add [of off "Suc j" p] take_Suc_conv_app_nth [of j "drop off p"] by simp
  then show "take (Suc (off + j)) p \<noteq> []" "last (take (Suc (off + j)) p) = cDot" by simp_all
  have z: "count_list (take j (drop off p)) cDot = 0" using j by simp
  show "count_list (take (Suc (off + j)) p) cDot = Suc (count_list (take off p) cDot)" by (simp add: t z)
  show "count_list (drop off p) cDot = Suc (count_list (drop (Suc (off + j)) p) cDot)" by (subst d) (simp add: z)
qed

lemma listPrefixes_spec:
  assumes "listerInv st" "level = Suc (count_list (take off metric) cDot)"
  shows "\<exists>st'. listPrefixes date metric off level st = (level + count_list (drop off metric) cDot, st')
     \<and> listerInv st' \<and> set (tlUniq st') = set (tlUniq st) \<union> dotKeys off metric"
  using assms
proof (induction date metric off level st rule: listPrefixes.induct)
  case (1 date metric off level st)
  show ?case
  proof (cases "IndexByte (drop off metric) cDot")
    case None
    then have none: "cDot \<notin> set (drop off metric)" by (simp add: IndexByte_None)
    have "metric ! i \<noteq> cDot" if "off \<le> i" "i < length metric" for i
    proof -
      have "drop off metric ! (i - off) \<in> set (drop off metric)" using that by (intro nth_mem) simp
      with none that show ?thesis by auto
    qed
    then have "dotKeys off metric = {}" by (auto simp: dotKeys_def)
    with None none "1.prems" show ?thesis by (subst listPrefixes.simps) simp
  next
    case (Some j)
    note c = count_to_dot [OF Some]
    let ?key = "take (Suc (off + j)) metric"
    let ?st = "if ?key \<in> set (tlUniq st) then st else printNode date level ?key st"
    have "level = treeLevel ?key" using c "1.prems"(2) by (simp add: treeLevel_def)
    then have inv: "listerInv ?st" using printNode_inv [OF "1.prems"(1), of ?key level date] "1.prems"(1) by simp
    have u: "set (tlUniq ?st) = insert ?key (set (tlUniq st))" by (auto simp: printNode_def)
    have "\<exists>st'. listPrefixes date metric (Suc (off + j)) (Suc level) ?st = (Suc level + count_list (drop (Suc (off + j)) metric) cDot, st')
        \<and> listerInv st' \<and> set (tlUniq st') = set (tlUniq ?st) \<union> dotKeys (Suc (off + j)) metric"
      if "Suc level = Suc (count_list (take (Suc (off + j)) metric) cDot)"
      using "1.IH" [OF Some refl refl] inv that by (simp only: Suc_eq_plus1)
    with c(3) "1.prems"(2) obtain st' where
      "listPrefixes date metric (Suc (off + j)) (Suc level) ?st = (Suc level + count_list (drop (Suc (off + j)) metric) cDot, st')"
      "listerInv st'" "set (tlUniq st') = set (tlUniq ?st) \<union> dotKeys (Suc (off + j)) metric" by auto
    then show ?thesis
      using Some c(4) u dotKeys_step [OF Some] by (subst listPrefixes.simps) (simp add: Let_def)
  qed
qed

definition lineMetric :: "bytes \<Rightarrow> bytes" where
  "lineMetric line = hd (splitOn 9 line)"

definition treeNodes :: "bytes \<Rightarrow> bytes set" where
  "treeNodes metric = insert metric (set (dotPrefixes metric))"

text \<open>A metric that is known came with its prefixes, or is itself a prefix, which ends with a dot.\<close>

definition nodesClosed :: "lister \<Rightarrow> bool" where
  "nodesClosed st \<longleftrightarrow> (\<forall>k \<in> set (tlUniq st). set (dotPrefixes k) \<subseteq> set (tlUniq st))"

lemma plain_level: "metric = [] \<or> last metric \<noteq> cDot \<Longrightarrow> treeLevel metric = Suc (count_list metric cDot)"
  by (auto simp: treeLevel_def)

lemma listLine_spec:
  assumes "listLine line st = Some st'" "listerInv st" "nodesClosed st" "lineMetric line = [] \<or> last (lineMetric line) \<noteq> cDot"
  shows "listerInv st' \<and> nodesClosed st' \<and> set (tlUniq st') = set (tlUniq st) \<union> treeNodes (lineMetric line)"
proof (cases "lineMetric line \<in> set (tlUniq st)")
  case True
  with assms show ?thesis by (auto simp: listLine_def lineMetric_def nodesClosed_def treeNodes_def Let_def)
next
  case False
  let ?m = "lineMetric line" let ?d = "take 8 (splitOn 9 line ! 3) @ str ''01''"
  from listPrefixes_spec [OF assms(2), of 1 0 ?m ?d] obtain st1 where
    st1: "listPrefixes ?d ?m 0 1 st = (1 + count_list ?m cDot, st1)" "listerInv st1" "set (tlUniq st1) = set (tlUniq st) \<union> dotKeys 0 ?m"
    by auto
  with assms(1) False have st': "st' = printNode ?d (1 + count_list ?m cDot) ?m st1"
    by (auto simp: listLine_def lineMetric_def Let_def split: if_splits)
  have "?m \<notin> set (dotPrefixes ?m)" using dotPrefixes_shorter [of ?m ?m] assms(4) by auto
  with False st1(3) have "?m \<notin> set (tlUniq st1)" by (simp add: set_dotPrefixes)
  from printNode_inv [OF st1(2) this] have "listerInv st'" using plain_level [OF assms(4)] by (simp add: st')
  moreover have u: "set (tlUniq st') = set (tlUniq st) \<union> treeNodes ?m"
    using st1(3) by (auto simp: st' printNode_def treeNodes_def set_dotPrefixes)
  moreover have "set (dotPrefixes k) \<subseteq> set (tlUniq st')" if "k \<in> set (tlUniq st')" for k
  proof (cases "k \<in> set (tlUniq st)")
    case True
    with assms(3) u show ?thesis by (auto simp: nodesClosed_def)
  next
    case False
    with that u have "k = ?m \<or> k \<in> set (dotPrefixes ?m)" by (auto simp: treeNodes_def)
    then show ?thesis using dotPrefixes_mono [of k ?m] u by (auto simp: treeNodes_def)
  qed
  ultimately show ?thesis by (simp add: nodesClosed_def)
qed

lemma listLines_spec:
  assumes "rangeLoop listLine input st = Some st'" "listerInv st" "nodesClosed st"
    and "\<forall>line \<in> set input. lineMetric line = [] \<or> last (lineMetric line) \<noteq> cDot"
  shows "listerInv st' \<and> set (tlUniq st') = set (tlUniq st) \<union> (\<Union>line \<in> set input. treeNodes (lineMetric line))"
  using assms
proof (induction input arbitrary: st)
  case (Cons line input)
  from Cons.prems(1) obtain st1 where st1: "listLine line st = Some st1" "rangeLoop listLine input st1 = Some st'"
    by (auto split: option.splits)
  from listLine_spec [OF st1(1) Cons.prems(2,3)] Cons.prems(4) Cons.IH [OF st1(2)] show ?case by auto
qed simp

text \<open>
  If no metric ends with a dot, the tree lister prints every metric and every prefix that ends with a dot, which are the nodes
  the tree uploader writes, once, with the level of the uploader, and ends with their number.
\<close>

theorem tree_lister:
  assumes "listTree input = Some (st, n)" "\<forall>line \<in> set input. lineMetric line = [] \<or> last (lineMetric line) \<noteq> cDot"
  shows "distinct (map (snd \<circ> snd) (tlOut st)) \<and> (snd \<circ> snd) ` set (tlOut st) = (\<Union>line \<in> set input. treeNodes (lineMetric line))
     \<and> (\<forall>(date, level, key) \<in> set (tlOut st). level = treeLevel key) \<and> n = length (tlOut st)"
proof -
  let ?st0 = "\<lparr>tlUniq = [], tlOut = []\<rparr>"
  have run: "rangeLoop listLine input ?st0 = Some st" and n: "n = length (remdups (tlUniq st))"
    using assms(1) by (auto simp: listTree_def)
  have "listerInv ?st0" "nodesClosed ?st0" by (simp_all add: listerInv_def nodesClosed_def)
  from listLines_spec [OF run this assms(2)]
  have inv: "listerInv st" and keys: "set (tlUniq st) = (\<Union>line \<in> set input. treeNodes (lineMetric line))" by simp_all
  have "set (tlUniq st) = (snd \<circ> snd) ` set (tlOut st)" "length (tlUniq st) = length (tlOut st)" using inv by (simp_all add: listerInv_def)
  moreover have "distinct (map (snd \<circ> snd) (tlOut st))" using inv unfolding listerInv_def by metis
  ultimately show ?thesis using inv keys n by (simp add: listerInv_def distinct_remdups_id)
qed

text \<open>A metric that ends with a dot is printed twice.\<close>

lemma tree_lister_final_dot:
  "listTree [str ''a.'' @ 9 # 9 # 9 # str ''2024-01-15'']
     = Some (\<lparr>tlUniq = [str ''a.'', str ''a.''], tlOut = [(str ''2024-01-01'', 1, str ''a.''), (str ''2024-01-01'', 2, str ''a.'')]\<rparr>, 1)"
  by (simp add: listTree_def listLine_def listPrefixes.simps printNode_def Let_def)

end
