(* ===== verification/Up_Index.thy ===== *)
theory Up_Index
  imports Up_Tree
begin

text \<open>
  \<^verbatim>\<open>uploader/index.go\<close>: the uploader of the index table. A path gets a row for the tree, one for each of its
  prefixes, one with its components reversed and, unless disabled, the same two for the day. The
  buffers come from a pool; \<open>getIndexBuffer\<close> takes any and empties what it must.
\<close>

subsection \<open>The parser\<close>

definition ReverseLevelOffset :: nat where "ReverseLevelOffset = 10000"
definition TreeLevelOffset :: nat where "TreeLevelOffset = 20000"
definition ReverseTreeLevelOffset :: nat where "ReverseTreeLevelOffset = 30000"
definition DefaultTreeDate :: uint16 where "DefaultTreeDate = 42"

record index_buffers =
  ixWb :: write_buffer
  ixNewUniq :: "bytes list"
  ixReverseName :: bytes

definition newIndexBuffer :: index_buffers where
  "newIndexBuffer = \<lparr>ixWb = newWriteBuffer, ixNewUniq = [], ixReverseName = replicate 256 0\<rparr>"

definition getIndexBuffer :: "index_buffers \<Rightarrow> index_buffers" where
  "getIndexBuffer b = b\<lparr>ixWb := Reset (ixWb b), ixNewUniq := []\<rparr>"

definition sizeOfRow :: "nat \<Rightarrow> nat" where
  "sizeOfRow len = SIZE_INT16 + SIZE_INT32 + len + SIZE_INT32"

text \<open>The loop over the prefixes; the flag is \<open>errBufOverflow\<close>.\<close>

fun indexPrefixes ::
  "uint16 \<Rightarrow> uint32 \<Rightarrow> nat \<Rightarrow> bytes \<Rightarrow> nat \<Rightarrow> index_buffers \<Rightarrow> (bool \<times> index_buffers) option" where
  "indexPrefixes treeDate version 0 p sizeIndex b = Some (False, b)"
| "indexPrefixes treeDate version (Suc l) p sizeIndex b =
     (let index = LastIndexByte p cDot;
          segment = (case index of None \<Rightarrow> [] | Some i \<Rightarrow> take (i + 1) p)
      in if segment \<in> set (ixNewUniq b) then Some (False, b)
         else (let sizeIndex = sizeIndex + sizeOfRow (length segment)
               in if sizeIndex \<ge> FreeSize (ixWb b) then Some (True, b)
                  else (let b = b\<lparr>ixNewUniq := ixNewUniq b @ [segment]\<rparr> in
                    case writePathRow treeDate (Suc l + TreeLevelOffset) segment version (ixWb b) of
                      None \<Rightarrow> None
                    | Some wb \<Rightarrow>
                        (case index of
                           None \<Rightarrow> None
                         | Some i \<Rightarrow> indexPrefixes treeDate version l (take i p) sizeIndex (b\<lparr>ixWb := wb\<rparr>)))))"

text \<open>The reversed row of the tree and, unless disabled, the two rows of the day.\<close>

definition indexTail ::
  "bytes \<Rightarrow> bytes \<Rightarrow> nat \<Rightarrow> uint16 \<Rightarrow> uint16 \<Rightarrow> uint32 \<Rightarrow> bool \<Rightarrow> write_buffer \<Rightarrow> write_buffer option" where
  "indexTail name reverseName level treeDate days version disableDailyIndex wb = do {
     wb \<leftarrow> writePathRow treeDate (level + ReverseTreeLevelOffset) reverseName version wb;
     if disableDailyIndex then Some wb
     else do {
       wb \<leftarrow> writePathRow days level name version wb;
       writePathRow days (level + ReverseLevelOffset) reverseName version wb } }"

definition indexParseName ::
  "bytes \<Rightarrow> bytes \<Rightarrow> uint16 \<Rightarrow> uint16 \<Rightarrow> uint32 \<Rightarrow> bool \<Rightarrow> index_buffers \<Rightarrow> (bool \<times> index_buffers) option" where
  "indexParseName name reverseName treeDate days version disableDailyIndex b =
     (let sizeIndex = 2 * sizeOfRow (length name) in
      if sizeIndex \<ge> FreeSize (ixWb b) then Some (True, b)
      else
      (let b = b\<lparr>ixWb := Reset (ixWb b)\<rparr>; level = pathLevel name in do {
         wb \<leftarrow> writePathRow treeDate (level + TreeLevelOffset) name version (ixWb b);
         (overflow, b) \<leftarrow> indexPrefixes treeDate version (level - 1) name sizeIndex (b\<lparr>ixWb := wb\<rparr>);
         if overflow then Some (True, b)
         else do {
           wb \<leftarrow> indexTail name reverseName level treeDate days version disableDailyIndex (ixWb b);
           Some (False, b\<lparr>ixWb := wb\<rparr>) } }))"

text \<open>The reversed name goes into the buffer, which is replaced when it is too short.\<close>

definition reverseInto :: "bytes \<Rightarrow> index_buffers \<Rightarrow> (bytes \<times> index_buffers) option" where
  "reverseInto name b =
     (let buf = (if length name > length (ixReverseName b) then replicate (length name * 2) 0 else ixReverseName b) in do {
        reverseName \<leftarrow> ReverseBytesTo (take (length name) buf) name;
        Some (reverseName, b\<lparr>ixReverseName := reverseName @ drop (length name) buf\<rparr>) })"

definition indexBody ::
  "(bytes \<Rightarrow> bytes) \<Rightarrow> CMap \<Rightarrow> uint16 \<Rightarrow> uint32 \<Rightarrow> bool \<Rightarrow> reader \<Rightarrow> bytes \<Rightarrow> uint64 \<times> bytes list \<times> index_buffers \<times> sink \<Rightarrow>
   (uint64 \<times> sink + uint64 \<times> bytes list \<times> index_buffers \<times> sink) option" where
  "indexBody hashFunc existsCache treeDate version disableDailyIndex r name = (\<lambda>(n, newSeries, b, out).
     if IndexByte name cQuest \<noteq> None then Some (Inr (n, newSeries, b, out))
     else do {
       days \<leftarrow> Days r;
       let key = dayKey days (hashFunc name);
       if Exists existsCache key then Some (Inr (n, newSeries, b, out))
       else if key \<in> set newSeries then Some (Inr (n, newSeries, b, out))
       else do {
         let newSeries = newSeries @ [key];
         let n = n + 1;
         (reverseName, b) \<leftarrow> reverseInto name b;
         (overflow, b) \<leftarrow> indexParseName name reverseName treeDate days version disableDailyIndex b;
         if overflow then Some (Inr (n, newSeries, b, out))
         else (let (out, ok) = sinkWrite (Bytes (ixWb b)) out
               in Some (if ok then Inr (n, newSeries, b, out) else Inl (n, out))) } })"

definition indexParseFile ::
  "(uint32 \<Rightarrow> uint16) \<Rightarrow> (bytes \<Rightarrow> 'e + bytes) \<Rightarrow> (bytes \<Rightarrow> bytes) \<Rightarrow> (bytes \<Rightarrow> bytes) option \<Rightarrow> uint32 option \<Rightarrow> bool \<Rightarrow>
   index_buffers \<Rightarrow> CMap \<Rightarrow> uint32 \<Rightarrow> bytes \<Rightarrow> sink \<Rightarrow> (uint64 \<times> bytes list \<times> 'e parse_error option \<times> sink) option" where
  "indexParseFile TimestampToDays open_file lz4 hashFunc treeDate disableDailyIndex pooled existsCache version filename out =
     (case NewReader open_file lz4 filename False of
        Inl err \<Rightarrow> Some (0, [], Some (OpenError err), out)
      | Inr reader \<Rightarrow>
          (let indexBuf = getIndexBuffer pooled;
               date = (case treeDate of None \<Rightarrow> DefaultTreeDate | Some t \<Rightarrow> TimestampToDays t);
               hash = (case hashFunc of None \<Rightarrow> keepOriginal | Some f \<Rightarrow> f)
           in case readLoop TimestampToDays (indexBody hash existsCache date version disableDailyIndex) reader (0, [], indexBuf, out) of
                None \<Rightarrow> None
              | Some (Inl (n, out)) \<Rightarrow> Some (n, [], Some WriteError, out)
              | Some (Inr (n, newSeries, b, out)) \<Rightarrow> Some (n, newSeries, None, out)))"

subsection \<open>Rows\<close>

type_synonym index_row = "uint16 \<times> nat \<times> bytes"

definition encRow :: "uint32 \<Rightarrow> index_row \<Rightarrow> bytes" where
  "encRow version = (\<lambda>(d, level, path). pathRow d level path version)"

abbreviation encRows :: "uint32 \<Rightarrow> index_row list \<Rightarrow> bytes" where
  "encRows version rows \<equiv> concat (map (encRow version) rows)"

definition prefixRow :: "uint16 \<Rightarrow> bytes \<Rightarrow> index_row" where
  "prefixRow treeDate q = (treeDate, treeLevel q + TreeLevelOffset, q)"

definition pathRows :: "uint16 \<Rightarrow> uint16 \<Rightarrow> bool \<Rightarrow> bytes \<Rightarrow> index_row list" where
  "pathRows treeDate days disableDailyIndex name =
     (treeDate, pathLevel name + ReverseTreeLevelOffset, reversePath name) #
     (if disableDailyIndex then []
      else [(days, pathLevel name, name), (days, pathLevel name + ReverseLevelOffset, reversePath name)])"

definition indexGroup :: "uint16 \<Rightarrow> uint16 \<Rightarrow> bool \<Rightarrow> bytes list \<Rightarrow> bytes \<Rightarrow> index_row list" where
  "indexGroup treeDate days disableDailyIndex uniq name =
     (treeDate, pathLevel name + TreeLevelOffset, name) # map (prefixRow treeDate) (freshPrefixes uniq name)
     @ pathRows treeDate days disableDailyIndex name"

definition maxIndexName :: nat where "maxIndexName = 255"

text \<open>What the rows of one name of at most \<open>maxIndexName\<close> bytes can take.\<close>

definition maxGroup :: nat where "maxGroup = 69412"

lemma length_row: "length path \<le> maxIndexName \<Longrightarrow> length (encRow version (d, level, path)) \<le> length path + 13"
  using length_pathRow [of path] by (simp add: encRow_def maxIndexName_def WriteBufferSize_def)

lemma writePathRow_enc:
  "length (encRow version (d, level, path)) \<le> FreeSize wb \<Longrightarrow>
     writePathRow d level path version wb = Some (appendWb (encRow version (d, level, path)) wb)"
  by (simp add: encRow_def writePathRow_ok)

lemma length_encRows:
  assumes "\<forall>(d, level, path) \<in> set rows. length path \<le> m" "m \<le> maxIndexName"
  shows "length (encRows version rows) \<le> length rows * (m + 13)"
  using assms(1)
proof (induction rows)
  case (Cons r rows)
  obtain d level path where r: "r = (d, level, path)" by (cases r)
  have "length path \<le> m" using Cons.prems by (simp add: r)
  with length_row [of path version d level] assms(2) have "length (encRow version r) \<le> m + 13" by (simp add: r)
  with Cons show ?case by simp
qed simp

lemma freshPrefixes_bounds:
  "q \<in> set (freshPrefixes uniq p) \<Longrightarrow> length q \<le> length p" "length (freshPrefixes uniq p) \<le> count_list p cDot"
  using dotPrefixes_shorter set_takeWhileD length_takeWhile_le [of "\<lambda>q. q \<notin> set uniq" "dotPrefixes p"]
  by (fastforce simp: freshPrefixes_def length_dotPrefixes)+

lemma indexPrefixes_ok:
  assumes "l = count_list p cDot" "length p \<le> m" "m \<le> maxIndexName"
    and "sz + l * (m + 10) + l * (m + 13) < FreeSize (ixWb b)"
  shows "indexPrefixes treeDate version l p sz b = Some (False,
     b\<lparr>ixNewUniq := ixNewUniq b @ freshPrefixes (ixNewUniq b) p,
       ixWb := appendWb (encRows version (map (prefixRow treeDate) (freshPrefixes (ixNewUniq b) p))) (ixWb b)\<rparr>)"
  using assms
proof (induction l arbitrary: p sz b)
  case 0
  then have "dotPrefixes p = []" by (simp flip: length_dotPrefixes)
  then show ?case by (simp add: freshPrefixes_def)
next
  case (Suc l)
  from Suc.prems(1) have "cDot \<in> set p" by (metis count_notin nat.distinct(1))
  then obtain i where i: "LastIndexByte p cDot = Some i" by (cases "LastIndexByte p cDot") (auto simp: LastIndexByte_None)
  let ?seg = "take (Suc i) p" let ?row = "prefixRow treeDate ?seg"
  have seg: "?seg = take i p @ [cDot]" and l: "l = count_list (take i p) cDot"
    using take_last_dot [OF i] Suc.prems(1) by simp_all
  have pre: "dotPrefixes p = ?seg # dotPrefixes (take i p)" by (rule dotPrefixes_Some [OF i])
  show ?case
  proof (cases "?seg \<in> set (ixNewUniq b)")
    case True
    then show ?thesis using i pre by (simp add: freshPrefixes_def)
  next
    case False
    have lev: "Suc l = treeLevel ?seg" by (simp add: seg treeLevel_def l)
    have len: "length ?seg \<le> m" using Suc.prems(2) by simp
    have row: "length (encRow version ?row) \<le> m + 13"
      using length_row [of ?seg version treeDate "treeLevel ?seg + TreeLevelOffset"] len Suc.prems(3) by (simp add: prefixRow_def)
    let ?b = "b\<lparr>ixNewUniq := ixNewUniq b @ [?seg], ixWb := appendWb (encRow version ?row) (ixWb b)\<rparr>"
    have w: "writePathRow treeDate (Suc l + TreeLevelOffset) ?seg version (ixWb b) = Some (appendWb (encRow version ?row) (ixWb b))"
      unfolding prefixRow_def lev [symmetric]
      by (rule writePathRow_enc) (use row Suc.prems(4) in \<open>simp add: prefixRow_def lev [symmetric]\<close>)
    have "\<not> sz + sizeOfRow (length ?seg) \<ge> FreeSize (ixWb b)"
      using len Suc.prems(4) by (simp add: sizeOfRow_def SIZE_INT16_def SIZE_INT32_def)
    then have "indexPrefixes treeDate version (Suc l) p sz b = indexPrefixes treeDate version l (take i p) (sz + sizeOfRow (length ?seg)) ?b"
      using False i w by (simp add: Let_def)
    also have "\<dots> = Some (False, ?b\<lparr>ixNewUniq := ixNewUniq ?b @ freshPrefixes (ixNewUniq ?b) (take i p),
       ixWb := appendWb (encRows version (map (prefixRow treeDate) (freshPrefixes (ixNewUniq ?b) (take i p)))) (ixWb ?b)\<rparr>)"
      by (rule Suc.IH) (use l len row Suc.prems(2-4) in \<open>auto simp: sizeOfRow_def SIZE_INT16_def SIZE_INT32_def\<close>)
    also have "freshPrefixes (ixNewUniq ?b) (take i p) = takeWhile (\<lambda>q. q \<notin> set (ixNewUniq b)) (dotPrefixes (take i p))"
    proof -
      have "?seg \<notin> set (dotPrefixes (take i p))" using distinct_dotPrefixes [of p] pre by simp
      from takeWhile_notin_extend [OF this, of "ixNewUniq b"] show ?thesis by (simp add: freshPrefixes_def)
    qed
    finally show ?thesis using False pre by (simp add: freshPrefixes_def)
  qed
qed

lemma length_indexGroup:
  assumes "length name \<le> maxIndexName"
  shows "length (encRows version (indexGroup treeDate days disable uniq name)) \<le> maxGroup"
proof -
  let ?g = "indexGroup treeDate days disable uniq name"
  have "\<forall>(d, level, path) \<in> set ?g. length path \<le> maxIndexName"
    using assms freshPrefixes_bounds(1) [of _ uniq name] by (fastforce simp: indexGroup_def prefixRow_def pathRows_def split: if_splits)
  from length_encRows [OF this] have "length (encRows version ?g) \<le> length ?g * 268" by (simp add: maxIndexName_def)
  moreover have "length ?g \<le> 4 + length (freshPrefixes uniq name)" by (simp add: indexGroup_def pathRows_def)
  moreover have "length (freshPrefixes uniq name) \<le> 255"
    using freshPrefixes_bounds(2) [of uniq name] count_le_length [of name cDot] assms by (simp add: maxIndexName_def)
  ultimately show ?thesis by (simp add: maxGroup_def)
qed

lemma indexParseName_ok:
  assumes "length name \<le> maxIndexName" "wbUsed (ixWb b) \<le> maxGroup"
  shows "indexParseName name (reversePath name) treeDate days version disable b = Some (False,
     b\<lparr>ixNewUniq := ixNewUniq b @ freshPrefixes (ixNewUniq b) name,
       ixWb := appendWb (encRows version (indexGroup treeDate days disable (ixNewUniq b) name)) (Reset (ixWb b))\<rparr>)"
proof -
  let ?u = "ixNewUniq b" and ?l = "count_list name cDot" and ?L = "length name"
  let ?head = "(treeDate, pathLevel name + TreeLevelOffset, name)"
  let ?pre = "map (prefixRow treeDate) (freshPrefixes ?u name)"
  let ?rev = "(treeDate, pathLevel name + ReverseTreeLevelOffset, reversePath name)"
  have L: "?L \<le> 255" "?l \<le> 255" using assms(1) count_le_length [of name cDot] by (simp_all add: maxIndexName_def)
  have row: "length (encRow version (d, level, q)) \<le> 268" if "length q = ?L" for d level q
    using length_row [of q version d level] that assms(1) L by simp
  have free: "FreeSize (Reset (ixWb b)) = 524288" by (simp add: FreeSize_def wbUsed_def WriteBufferSize_def)
  have chk: "\<not> 2 * sizeOfRow ?L \<ge> FreeSize (ixWb b)"
    using assms(2) L by (simp add: FreeSize_def sizeOfRow_def SIZE_INT16_def SIZE_INT32_def WriteBufferSize_def maxGroup_def)
  let ?b1 = "b\<lparr>ixWb := appendWb (encRow version ?head) (Reset (ixWb b))\<rparr>"
  let ?wb2 = "appendWb (encRows version (?head # ?pre)) (Reset (ixWb b))"
  have 1: "writePathRow treeDate (pathLevel name + TreeLevelOffset) name version (Reset (ixWb b))
      = Some (appendWb (encRow version ?head) (Reset (ixWb b)))"
    by (rule writePathRow_enc) (use row [of name treeDate "pathLevel name + TreeLevelOffset"] free in simp)
  have bound: "?l * (?L + 10) + ?l * (?L + 13) \<le> 255 * 265 + 255 * 268"
    using L by (intro add_mono mult_mono) auto
  have 2: "indexPrefixes treeDate version ?l name (2 * sizeOfRow ?L) ?b1
      = Some (False, b\<lparr>ixNewUniq := ?u @ freshPrefixes ?u name, ixWb := ?wb2\<rparr>)"
    using indexPrefixes_ok [OF refl, of name ?L "2 * sizeOfRow ?L" ?b1 treeDate version] assms(1) free bound L
      row [of name treeDate "pathLevel name + TreeLevelOffset"]
    by (simp add: sizeOfRow_def SIZE_INT16_def SIZE_INT32_def)
  have used: "length (encRows version (?head # ?pre)) + length (encRows version (pathRows treeDate days disable name)) \<le> maxGroup"
    using length_indexGroup [OF assms(1), of version treeDate days disable ?u] by (simp add: indexGroup_def)
  have 3: "indexTail name (reversePath name) (pathLevel name) treeDate days version disable ?wb2
      = Some (appendWb (encRows version (pathRows treeDate days disable name)) ?wb2)"
    using used free by (simp add: indexTail_def pathRows_def writePathRow_enc maxGroup_def split: if_splits)
  have l: "pathLevel name - 1 = ?l" by (simp add: pathLevel_eq)
  show ?thesis
    unfolding indexParseName_def Let_def l using chk 1 2 3 by (simp add: indexGroup_def)
qed

lemma reverseInto_ok:
  "\<exists>rn. reverseInto name b = Some (reversePath name, b\<lparr>ixReverseName := rn\<rparr>)"
proof -
  let ?buf = "if length name > length (ixReverseName b) then replicate (length name * 2) 0 else ixReverseName b"
  have "length (take (length name) ?buf) = length name" by auto
  from ReverseBytesTo_eq [OF this] show ?thesis by (auto simp: reverseInto_def Let_def)
qed

subsection \<open>The index table\<close>

definition indexStep ::
  "(uint32 \<Rightarrow> uint16) \<Rightarrow> (bytes \<Rightarrow> bytes) \<Rightarrow> CMap \<Rightarrow> uint16 \<Rightarrow> uint32 \<Rightarrow> bool \<Rightarrow> point \<Rightarrow>
   uint64 \<times> bytes list \<times> index_buffers \<times> sink \<Rightarrow> (uint64 \<times> sink + uint64 \<times> bytes list \<times> index_buffers \<times> sink) option" where
  "indexStep days h c treeDate version disable q s =
     indexBody h c treeDate version disable ((freshReader [] False)\<lparr>rLine := encPoint days q\<rparr>) (pName q) s"

definition hashKey :: "(uint32 \<Rightarrow> uint16) \<Rightarrow> (bytes \<Rightarrow> bytes) \<Rightarrow> point \<Rightarrow> bytes" where
  "hashKey days h p = dayKey (days (pTime p)) (h (pName p))"

lemma Days_of_line: "Days ((freshReader [] False)\<lparr>rLine := encPoint days q\<rparr>) = Some (days (pTime q))"
  by (rule accessors_encPoint) simp

lemma indexBody_step:
  "rLine r = encPoint days q \<Longrightarrow> indexBody h c treeDate version disable r (pName q) s = indexStep days h c treeDate version disable q s"
  unfolding indexStep_def indexBody_def using accessors_encPoint(2) [of r days q] Days_of_line [of days q]
  by (simp cong: if_cong)

lemma indexStep_skip:
  "\<not> untagged q \<or> Exists c (hashKey days h q) \<or> hashKey days h q \<in> set seen \<Longrightarrow>
     indexStep days h c treeDate version disable q (n, seen, b, out) = Some (Inr (n, seen, b, out))"
  using Days_of_line [of days q] by (auto simp: indexStep_def indexBody_def untagged_def hashKey_def IndexByte_None Let_def)

lemma indexStep_new:
  assumes "untagged q" "\<not> Exists c (hashKey days h q)" "hashKey days h q \<notin> set seen" "skLimit out = None"
    and "length (pName q) \<le> maxIndexName" "wbUsed (ixWb b) \<le> maxGroup"
  shows "\<exists>b'. indexStep days h c treeDate version disable q (n, seen, b, out)
       = Some (Inr (n + 1, seen @ [hashKey days h q], b',
           out\<lparr>skData := skData out @ encRows version (indexGroup treeDate (days (pTime q)) disable (ixNewUniq b) (pName q))\<rparr>))
     \<and> ixNewUniq b' = ixNewUniq b @ freshPrefixes (ixNewUniq b) (pName q) \<and> wbUsed (ixWb b') \<le> maxGroup"
proof -
  obtain rn where rn: "reverseInto (pName q) b = Some (reversePath (pName q), b\<lparr>ixReverseName := rn\<rparr>)"
    using reverseInto_ok by blast
  let ?g = "indexGroup treeDate (days (pTime q)) disable (ixNewUniq b) (pName q)"
  let ?b' = "b\<lparr>ixReverseName := rn, ixNewUniq := ixNewUniq b @ freshPrefixes (ixNewUniq b) (pName q),
     ixWb := appendWb (encRows version ?g) (Reset (ixWb b))\<rparr>"
  have "indexParseName (pName q) (reversePath (pName q)) treeDate (days (pTime q)) version disable (b\<lparr>ixReverseName := rn\<rparr>) = Some (False, ?b')"
    using indexParseName_ok [of "pName q" "b\<lparr>ixReverseName := rn\<rparr>" treeDate "days (pTime q)" version disable] assms(5,6) by simp
  then have "indexStep days h c treeDate version disable q (n, seen, b, out)
       = Some (Inr (n + 1, seen @ [hashKey days h q], ?b', out\<lparr>skData := skData out @ encRows version ?g\<rparr>))"
    using assms(1-4) rn Days_of_line [of days q]
    by (simp add: indexStep_def indexBody_def untagged_def hashKey_def IndexByte_None Let_def Bytes_def)
  moreover have "wbUsed (ixWb ?b') \<le> maxGroup"
    using length_indexGroup [OF assms(5), of version treeDate "days (pTime q)" disable "ixNewUniq b"] by (simp add: wbUsed_def)
  ultimately show ?thesis by auto
qed

text \<open>The rows the table must get for a set of points.\<close>

definition newPoints :: "(uint32 \<Rightarrow> uint16) \<Rightarrow> (bytes \<Rightarrow> bytes) \<Rightarrow> CMap \<Rightarrow> point set \<Rightarrow> point set" where
  "newPoints days h c P = {p \<in> P. untagged p \<and> \<not> Exists c (hashKey days h p)}"

definition indexTable :: "(uint32 \<Rightarrow> uint16) \<Rightarrow> uint16 \<Rightarrow> bool \<Rightarrow> point set \<Rightarrow> index_row set" where
  "indexTable days treeDate disable P = (\<Union>p \<in> P.
     insert (treeDate, pathLevel (pName p) + TreeLevelOffset, pName p)
       (prefixRow treeDate ` set (dotPrefixes (pName p)) \<union> set (pathRows treeDate (days (pTime p)) disable (pName p))))"

definition indexInv ::
  "(uint32 \<Rightarrow> uint16) \<Rightarrow> (bytes \<Rightarrow> bytes) \<Rightarrow> CMap \<Rightarrow> uint16 \<Rightarrow> uint32 \<Rightarrow> bool \<Rightarrow> point set \<Rightarrow> bytes list \<times> index_buffers \<times> sink \<Rightarrow> bool" where
  "indexInv days h c treeDate version disable P = (\<lambda>(seen, b, out). distinct seen
     \<and> set seen = hashKey days h ` newPoints days h c P
     \<and> prefixClosed (ixNewUniq b) \<and> set (ixNewUniq b) = (\<Union>p \<in> newPoints days h c P. set (dotPrefixes (pName p)))
     \<and> wbUsed (ixWb b) \<le> maxGroup
     \<and> (\<exists>rows. out = \<lparr>skData = encRows version rows, skLimit = None\<rparr> \<and> set rows = indexTable days treeDate disable (newPoints days h c P)))"

lemma newPoints_insert:
  "newPoints days h c (insert q P) = (if untagged q \<and> \<not> Exists c (hashKey days h q) then {q} else {}) \<union> newPoints days h c P"
  by (auto simp: newPoints_def)

lemma set_indexGroup:
  "set (indexGroup treeDate d disable uniq name) = insert (treeDate, pathLevel name + TreeLevelOffset, name)
     (prefixRow treeDate ` set (freshPrefixes uniq name) \<union> set (pathRows treeDate d disable name))"
  by (auto simp: indexGroup_def)

lemma union_swap: "U \<subseteq> T \<Longrightarrow> U \<union> F = U \<union> D \<Longrightarrow> T \<union> insert x (F \<union> R) = insert x (D \<union> R) \<union> T"
  by blast

lemma indexInv_step:
  assumes inv: "indexInv days h c treeDate version disable P (seen, b, out)"
    and inj: "inj_on h (pName ` insert q P)" and len: "length (pName q) \<le> maxIndexName"
  shows "\<exists>n' s'. indexStep days h c treeDate version disable q (n, seen, b, out) = Some (Inr (n', s'))
     \<and> indexInv days h c treeDate version disable (insert q P) s'"
proof -
  let ?N = "newPoints days h c P"
  obtain rows where rows: "out = \<lparr>skData = encRows version rows, skLimit = None\<rparr>" "set rows = indexTable days treeDate disable ?N"
    using inv by (auto simp: indexInv_def)
  have seen: "set seen = hashKey days h ` ?N" and uniq: "prefixClosed (ixNewUniq b)" "set (ixNewUniq b) = (\<Union>p \<in> ?N. set (dotPrefixes (pName p)))"
    and used: "wbUsed (ixWb b) \<le> maxGroup" using inv by (auto simp: indexInv_def)
  consider (out) "\<not> untagged q \<or> Exists c (hashKey days h q)"
    | (seen) "untagged q" "\<not> Exists c (hashKey days h q)" "hashKey days h q \<in> set seen"
    | (new) "untagged q" "\<not> Exists c (hashKey days h q)" "hashKey days h q \<notin> set seen" by blast
  then show ?thesis
  proof cases
    case out
    then have "newPoints days h c (insert q P) = ?N" by (auto simp: newPoints_insert)
    with out inv indexStep_skip [of q c days h seen treeDate version disable n] show ?thesis by (auto simp: indexInv_def)
  next
    case seen
    then obtain p where p: "p \<in> ?N" "hashKey days h p = hashKey days h q" using \<open>set seen = hashKey days h ` ?N\<close> by auto
    then have same: "days (pTime p) = days (pTime q)" "h (pName p) = h (pName q)" by (simp_all add: hashKey_def dayKey_inj)
    have "p \<in> P" using p(1) by (simp add: newPoints_def)
    then have "pName p = pName q" by (intro inj_onD [OF inj same(2)]) simp_all
    with p(1) same have "indexTable days treeDate disable (newPoints days h c (insert q P)) = indexTable days treeDate disable ?N"
        "(\<Union>p \<in> newPoints days h c (insert q P). set (dotPrefixes (pName p))) = (\<Union>p \<in> ?N. set (dotPrefixes (pName p)))"
        "hashKey days h ` newPoints days h c (insert q P) = hashKey days h ` ?N"
      using p(2) seen(1,2) imageI [OF p(1), of "hashKey days h"] by (auto simp: newPoints_insert indexTable_def)
    with seen inv indexStep_skip [of q c days h seen treeDate version disable n] show ?thesis
      by (auto simp: indexInv_def)
  next
    case new
    let ?g = "indexGroup treeDate (days (pTime q)) disable (ixNewUniq b) (pName q)"
    from indexStep_new [OF new _ len used, of out treeDate version disable n] rows(1) obtain b' where
      st: "indexStep days h c treeDate version disable q (n, seen, b, out)
        = Some (Inr (n + 1, seen @ [hashKey days h q], b', out\<lparr>skData := skData out @ encRows version ?g\<rparr>))"
      "ixNewUniq b' = ixNewUniq b @ freshPrefixes (ixNewUniq b) (pName q)" "wbUsed (ixWb b') \<le> maxGroup" by auto
    have N: "newPoints days h c (insert q P) = insert q ?N" using new by (simp add: newPoints_insert)
    have fresh: "set (ixNewUniq b) \<union> set (freshPrefixes (ixNewUniq b) (pName q)) = set (ixNewUniq b) \<union> set (dotPrefixes (pName q))"
      using prefixClosed_fresh(2) [OF uniq(1), of "pName q"] by simp
    have "prefixRow treeDate ` set (ixNewUniq b) \<subseteq> indexTable days treeDate disable ?N"
      unfolding uniq(2) by (auto simp: indexTable_def)
    moreover have "prefixRow treeDate ` set (ixNewUniq b) \<union> prefixRow treeDate ` set (freshPrefixes (ixNewUniq b) (pName q))
        = prefixRow treeDate ` set (ixNewUniq b) \<union> prefixRow treeDate ` set (dotPrefixes (pName q))"
      using fresh by (metis image_Un)
    moreover have "indexTable days treeDate disable (insert q ?N) = insert (treeDate, pathLevel (pName q) + TreeLevelOffset, pName q)
       (prefixRow treeDate ` set (dotPrefixes (pName q)) \<union> set (pathRows treeDate (days (pTime q)) disable (pName q)))
       \<union> indexTable days treeDate disable ?N" by (simp add: indexTable_def)
    ultimately have tab: "set (rows @ ?g) = indexTable days treeDate disable (insert q ?N)"
      unfolding set_append rows(2) set_indexGroup by (simp only: union_swap)
    have "indexInv days h c treeDate version disable (insert q P)
        (seen @ [hashKey days h q], b', out\<lparr>skData := skData out @ encRows version ?g\<rparr>)"
      unfolding indexInv_def N
      using inv new st(2,3) prefixClosed_fresh [OF uniq(1), of "pName q"] uniq(2) seen tab rows(1)
      by (auto simp: indexInv_def intro!: exI [of _ "rows @ ?g"])
    with st(1) show ?thesis by blast
  qed
qed

lemma indexInv_fold:
  assumes "\<forall>q \<in> set ps. length (pName q) \<le> maxIndexName" "inj_on h (pName ` (set ps \<union> P))"
    and "indexInv days h c treeDate version disable P s"
  shows "\<exists>n' s'. foldPoints (indexStep days h c treeDate version disable) ps (n, s) = Some (Inr (n', s'))
     \<and> indexInv days h c treeDate version disable (set ps \<union> P) s'"
  using assms
proof (induction ps arbitrary: n s P)
  case (Cons q ps)
  obtain seen b out where s: "s = (seen, b, out)" by (cases s)
  have "inj_on h (pName ` insert q P)" using Cons.prems(2) by (rule inj_on_subset) auto
  from indexInv_step [OF Cons.prems(3) [unfolded s] this, of n] Cons.prems(1) obtain n1 s1 where
    1: "indexStep days h c treeDate version disable q (n, s) = Some (Inr (n1, s1))" "indexInv days h c treeDate version disable (insert q P) s1"
    by (auto simp: s)
  from Cons.IH [OF _ _ 1(2), of n1] Cons.prems(1,2) 1(1) show ?case by (simp add: s)
qed auto



subsection \<open>Long names\<close>

lemma writePathRow_panic:
  assumes "FreeSize wb < length (pathRow d level name version)"
  shows "writePathRow d level name version wb = None"
proof (cases "2 + 4 + length (putUvarint (of_nat (length name))) \<le> FreeSize wb")
  case True
  let ?wb = "copyTo name (appendWb (putUint16 d @ putUint32 (of_nat level) @ putUvarint (of_nat (length name))) wb)"
  have "writePathRow d level name version wb = putTo (putUint32 version) ?wb"
    using True by (simp add: writePathRow_def WriteUint16_def WriteUint32_def WriteBytes_def putTo_if)
  moreover have "FreeSize ?wb < 4"
    using assms True by (simp add: pathRow_def encString_def)
  ultimately show ?thesis by (simp add: putTo_if)
next
  case False
  then show ?thesis by (simp add: writePathRow_def WriteUint16_def WriteUint32_def WriteBytes_def putTo_if)
qed

lemma writePathRow_if:
  "writePathRow d level name version wb = (if length (pathRow d level name version) \<le> FreeSize wb
     then Some (appendWb (pathRow d level name version) wb) else None)"
  using writePathRow_ok writePathRow_panic by simp

text \<open>
  The size check of the index uploader accounts for two rows with the name: a name that passes it but
  does not fit all rows makes it panic.
\<close>

theorem index_long_name_panic:
  assumes "wbUsed (ixWb b) = 0" "cDot \<notin> set name" "131072 \<le> length name" "length name < 262134"
    and "length reverseName = length name"
  shows "indexParseName name reverseName treeDate days version False b = None"
proof -
  let ?row = "\<lambda>level. pathRow treeDate level name version"
  let ?wb1 = "appendWb (?row (1 + TreeLevelOffset)) (Reset (ixWb b))"
  have level: "pathLevel name = 1" using assms(2) by (simp add: pathLevel_eq)
  have len: "length (pathRow d l nm version) = length (putUvarint (of_nat (length nm))) + length nm + 10" for d l nm
    by (simp add: pathRow_def encString_def)
  have uv: "0 < length (putUvarint x)" for x by simp
  have free: "FreeSize (Reset (ixWb b)) = 524288" by (simp add: FreeSize_def wbUsed_def WriteBufferSize_def)
  have small: "length (putUvarint (of_nat (length name))) \<le> 3"
    using assms(4) by (intro length_uvarint_buffer) (simp add: WriteBufferSize_def)
  have "writePathRow treeDate (1 + TreeLevelOffset) name version (Reset (ixWb b)) = Some ?wb1"
    by (rule writePathRow_ok) (use assms(4) small free in \<open>simp add: len\<close>)
  moreover have "\<not> 2 * sizeOfRow (length name) \<ge> FreeSize (ixWb b)"
    using assms(1,4) by (simp add: FreeSize_def sizeOfRow_def SIZE_INT16_def SIZE_INT32_def WriteBufferSize_def)
  moreover have "indexTail name reverseName 1 treeDate days version False ?wb1 = None"
  proof -
    have big: "524288 < 4 * (length (putUvarint (of_nat (length name))) + length name + 10)"
      using assms(3) uv [of "of_nat (length name)"] by (simp only: Suc_le_eq [symmetric]) arith
    show ?thesis
      unfolding indexTail_def using free big assms(5) by (simp add: writePathRow_if len)
  qed
  ultimately show ?thesis by (simp add: indexParseName_def level Let_def)
qed

theorem index_long_name_panic_witness:
  "indexParseName (replicate 131072 97) (replicate 131072 97) 42 1 9 False newIndexBuffer = None"
  by (rule index_long_name_panic) (simp_all add: newIndexBuffer_def)

text \<open>
  The size check of the index uploader looks at the buffer before resetting it: after a
  large previous row a path is skipped but its key is still returned as uploaded.
\<close>

theorem index_series_lost:
  assumes "untagged q" "\<not> Exists c (hashKey days h q)" "hashKey days h q \<notin> set seen"
    and "FreeSize (ixWb b) \<le> 2 * (length (pName q) + 10)"
  shows "\<exists>b'. indexStep days h c treeDate version disable q (n, seen, b, out) = Some (Inr (n + 1, seen @ [hashKey days h q], b', out))"
proof -
  obtain rn where rn: "reverseInto (pName q) b = Some (reversePath (pName q), b\<lparr>ixReverseName := rn\<rparr>)"
    using reverseInto_ok by blast
  have "indexParseName (pName q) (reversePath (pName q)) treeDate (days (pTime q)) version disable (b\<lparr>ixReverseName := rn\<rparr>)
      = Some (True, b\<lparr>ixReverseName := rn\<rparr>)"
    using assms(4) by (simp add: indexParseName_def sizeOfRow_def SIZE_INT16_def SIZE_INT32_def Let_def)
  with rn assms(1-3) Days_of_line [of days q] show ?thesis
    by (simp add: indexStep_def indexBody_def untagged_def hashKey_def IndexByte_None Let_def)
qed

theorem index_series_lost_witness:
  "\<exists>b'. indexStep (\<lambda>_. 1) keepOriginal NewCMap 42 9 False \<lparr>pName = str ''a.b'', pValue = 1, pTime = 86400, pVersion = 2\<rparr>
       (0, [], newIndexBuffer\<lparr>ixWb := newWriteBuffer\<lparr>wbBody := replicate 524270 0\<rparr>\<rparr>, \<lparr>skData = [], skLimit = None\<rparr>)
     = Some (Inr (0 + 1, [] @ [hashKey (\<lambda>_. 1) keepOriginal \<lparr>pName = str ''a.b'', pValue = 1, pTime = 86400, pVersion = 2\<rparr>], b',
         \<lparr>skData = [], skLimit = None\<rparr>))"
  by (rule index_series_lost)
    (simp_all add: untagged_def cm.known_lookup [OF cmapOk_New] cm.lookup_fresh FreeSize_def wbUsed_def WriteBufferSize_def)

end
