(* ===== verification/Up_Tagged.thy ===== *)
theory Up_Tagged
  imports Up_Index GraphiteTags
begin

text \<open>
  \<^verbatim>\<open>uploader/tagged.go\<close>: the uploader of the tagged table. A tagged path is split into its name and its
  tags; the table gets one row per tag, each with all tags of the path. The buffers come from a pool.
\<close>

subsection \<open>Splitting a tagged path\<close>

datatype tags_error = IncompleteTags bytes | InvalidNameTag bytes | ErrBufOverflow

text \<open>\<open>url.PathUnescape\<close>: strict, and a plus sign is itself.\<close>

fun PathUnescape :: "bytes \<Rightarrow> bytes option" where
  "PathUnescape [] = Some []"
| "PathUnescape (c # s) =
     (if c = cPercent then
        (case s of
           a # b # s' \<Rightarrow> if ishex a \<and> ishex b then map_option (\<lambda>r. (push_bit 4 (unhex a) OR unhex b) # r) (PathUnescape s') else None
         | _ \<Rightarrow> None)
      else map_option (\<lambda>r. c # r) (PathUnescape s))"

function tagsParse_loop :: "bytes \<Rightarrow> (bytes \<times> bytes) list \<Rightarrow> (bytes \<times> bytes) list" where
  "tagsParse_loop args tags =
     (case IndexByte args cEq of
        None \<Rightarrow> tags
      | Some delim \<Rightarrow>
          (let key = Unescape (take delim args); v = drop (delim + 1) args in
           case IndexByte v cAmp of
             None \<Rightarrow> AList.update key (Unescape args) tags
           | Some e \<Rightarrow>
               (let e = e + (delim + 1)
                in tagsParse_loop (drop (e + 1) args) (AList.update key (Unescape (take e args)) tags))))"
  by pat_completeness auto
termination
  by (relation "measure (\<lambda>(args, tags). length args)") (auto dest: IndexByte_SomeD)

declare tagsParse_loop.simps [simp del]

definition tagsParse :: "bytes \<Rightarrow> tags_error + bytes \<times> (bytes \<times> bytes) list" where
  "tagsParse path =
     (case IndexByte path cQuest of
        None \<Rightarrow> Inl (IncompleteTags path)
      | Some delim \<Rightarrow>
          if delim < 1 then Inl (IncompleteTags path)
          else (case PathUnescape (take delim path) of
              None \<Rightarrow> Inl (InvalidNameTag path)
            | Some name \<Rightarrow> Inr (name, tagsParse_loop (drop (delim + 1) path) [])))"

record tags_buffers =
  tbWb :: write_buffer
  tbTagsBuf :: write_buffer
  tbNameBuf :: bytes
  tbTag1 :: "bytes list"
  tbTagsParse :: "bytes list"

definition newTagsBuffer :: tags_buffers where
  "newTagsBuffer = \<lparr>tbWb = newWriteBuffer, tbTagsBuf = newWriteBuffer, tbNameBuf = [], tbTag1 = [], tbTagsParse = []\<rparr>"

definition getTagsBuffer :: "tags_buffers \<Rightarrow> tags_buffers" where
  "getTagsBuffer b = b\<lparr>tbWb := Reset (tbWb b), tbTagsBuf := Reset (tbTagsBuf b)\<rparr>"

function tagsSlice_loop :: "bytes \<Rightarrow> bytes list \<Rightarrow> bytes \<Rightarrow> bytes list \<times> bytes" where
  "tagsSlice_loop args tags nameBuf =
     (case IndexByte args cEq of
        None \<Rightarrow> (tags, nameBuf)
      | Some delim \<Rightarrow>
          (let v = drop (delim + 1) args in
           case IndexByte v cAmp of
             None \<Rightarrow> (let (t, nameBuf) = UnescapeTo args nameBuf in (tags @ [t], nameBuf))
           | Some e \<Rightarrow>
               (let (t, nameBuf) = UnescapeTo (take (e + delim + 1) args) nameBuf; e = e + (delim + 1)
                in tagsSlice_loop (drop (e + 1) args) (tags @ [t]) nameBuf)))"
  by pat_completeness auto
termination
  by (relation "measure (\<lambda>(args, tags, nameBuf). length args)") (auto dest: IndexByte_SomeD)

declare tagsSlice_loop.simps [simp del]

definition tagsParseToSlice :: "bytes \<Rightarrow> tags_buffers \<Rightarrow> tags_buffers \<times> (tags_error + bytes \<times> bytes \<times> bytes list)" where
  "tagsParseToSlice path b =
     (case IndexByte path cQuest of
        None \<Rightarrow> (b, Inl (IncompleteTags path))
      | Some delim \<Rightarrow>
          if delim < 1 then (b, Inl (IncompleteTags path))
          else (let (name, nameTag, nameBuf) = UnescapeNameTo (take delim path) [];
                    (tags, nameBuf) = tagsSlice_loop (drop (delim + 1) path) [] nameBuf
                in (b\<lparr>tbNameBuf := nameBuf, tbTagsParse := tags\<rparr>, Inr (name, nameTag, tags))))"

subsection \<open>The rows of one path\<close>

text \<open>The sum that is checked against the free space, for a row with a tag of the given length.\<close>

definition tagRowSize :: "nat \<Rightarrow> nat \<Rightarrow> nat" where
  "tagRowSize tagLen nameLen = SIZE_INT16 + SIZE_INT64 + tagLen + SIZE_INT64 + nameLen + SIZE_INT64 + SIZE_INT16"

fun tagsLoop ::
  "bool \<Rightarrow> nat \<Rightarrow> bytes list \<Rightarrow> nat \<Rightarrow> nat \<Rightarrow> tags_buffers \<Rightarrow> (tags_buffers \<times> (tags_error + nat \<times> nat)) option" where
  "tagsLoop ignoreAllButName nameLen [] sizeTags tagsWritten b = Some (b, Inr (sizeTags, tagsWritten))"
| "tagsLoop ignoreAllButName nameLen (t # ts) sizeTags tagsWritten b =
     (let sizeTags = sizeTags + tagRowSize (length t) nameLen in
      if sizeTags \<ge> FreeSize (tbWb b) then Some (b, Inl ErrBufOverflow)
      else (case WriteString t (tbTagsBuf b) of
          None \<Rightarrow> None
        | Some tagsBuf \<Rightarrow>
            tagsLoop ignoreAllButName nameLen ts sizeTags (tagsWritten + 1)
              (b\<lparr>tbTagsBuf := tagsBuf, tbTag1 := (if ignoreAllButName then tbTag1 b else tbTag1 b @ [t])\<rparr>)))"

fun tagRows :: "uint16 \<Rightarrow> bytes \<Rightarrow> nat \<Rightarrow> bytes \<Rightarrow> uint32 \<Rightarrow> bytes list \<Rightarrow> write_buffer \<Rightarrow> write_buffer option" where
  "tagRows days name tagsWritten tags version [] wb = Some wb"
| "tagRows days name tagsWritten tags version (t # ts) wb = do {
     wb \<leftarrow> WriteUint16 days wb;
     wb \<leftarrow> WriteString t wb;
     wb \<leftarrow> WriteString name wb;
     wb \<leftarrow> WriteUVarint (of_nat tagsWritten) wb;
     wb \<leftarrow> WriteUint32 version (Write tags wb);
     tagRows days name tagsWritten tags version ts wb }"

definition taggedParseName ::
  "bytes list \<Rightarrow> bytes \<Rightarrow> uint16 \<Rightarrow> uint32 \<Rightarrow> tags_buffers \<Rightarrow> (tags_buffers \<times> tags_error option) option" where
  "taggedParseName ignoredMetrics name days version b =
     (case tagsParseToSlice name b of
        (b, Inl err) \<Rightarrow> Some (b, Some err)
      | (b, Inr (mPath, nameTag, tags)) \<Rightarrow>
          (case WriteString nameTag (Reset (tbTagsBuf b)) of
             None \<Rightarrow> None
           | Some tagsBuf \<Rightarrow>
               (let b = b\<lparr>tbWb := Reset (tbWb b), tbTagsBuf := tagsBuf, tbTag1 := [nameTag]\<rparr>;
                    ignoreAllButName = (mPath \<in> set ignoredMetrics \<or> str ''*'' \<in> set ignoredMetrics)
                in case tagsLoop ignoreAllButName (length name) tags (tagRowSize (length mPath) (length name)) 1 b of
                     None \<Rightarrow> None
                   | Some (b, Inl err) \<Rightarrow> Some (b, Some err)
                   | Some (b, Inr (sizeTags, tagsWritten)) \<Rightarrow>
                       (let sizeTags = sizeTags + length (tbTag1 b) * wbUsed (tbTagsBuf b) in
                        if sizeTags \<ge> FreeSize (tbWb b) then Some (b, Some ErrBufOverflow)
                        else (case tagRows days name tagsWritten (Bytes (tbTagsBuf b)) version (tbTag1 b) (tbWb b) of
                            None \<Rightarrow> None
                          | Some wb \<Rightarrow> Some (b\<lparr>tbWb := wb\<rparr>, None))))))"

subsection \<open>The file\<close>

definition taggedBody ::
  "(bytes \<Rightarrow> bytes) \<Rightarrow> bytes list \<Rightarrow> CMap \<Rightarrow> uint32 \<Rightarrow> reader \<Rightarrow> bytes \<Rightarrow> uint64 \<times> bytes list \<times> tags_buffers \<times> sink \<Rightarrow>
   (uint64 \<times> sink + uint64 \<times> bytes list \<times> tags_buffers \<times> sink) option" where
  "taggedBody hashFunc ignoredMetrics existsCache version r name = (\<lambda>(n, newTagged, b, out).
     if IndexByte name cQuest = None then Some (Inr (n, newTagged, b, out))
     else do {
       days \<leftarrow> Days r;
       let key = dayKey days (hashFunc name);
       if Exists existsCache key then Some (Inr (n, newTagged, b, out))
       else if key \<in> set newTagged then Some (Inr (n, newTagged, b, out))
       else do {
         let n = n + 1;
         (b, err) \<leftarrow> taggedParseName ignoredMetrics name days version b;
         if err \<noteq> None then Some (Inr (n, newTagged, b, out))
         else (let (out, ok) = sinkWrite (Bytes (tbWb b)) out
               in Some (if ok then Inr (n, newTagged @ [key], b, out) else Inl (n, out))) } })"

definition taggedParseFile ::
  "(uint32 \<Rightarrow> uint16) \<Rightarrow> (bytes \<Rightarrow> 'e + bytes) \<Rightarrow> (bytes \<Rightarrow> bytes) \<Rightarrow> (bytes \<Rightarrow> bytes) option \<Rightarrow> bytes list \<Rightarrow>
   tags_buffers \<Rightarrow> CMap \<Rightarrow> uint32 \<Rightarrow> bytes \<Rightarrow> sink \<Rightarrow> (uint64 \<times> bytes list \<times> 'e parse_error option \<times> sink) option" where
  "taggedParseFile TimestampToDays open_file lz4 hashFunc ignoredMetrics pooled existsCache version filename out =
     (case NewReader open_file lz4 filename False of
        Inl err \<Rightarrow> Some (0, [], Some (OpenError err), out)
      | Inr reader \<Rightarrow>
          (let hash = (case hashFunc of None \<Rightarrow> keepOriginal | Some f \<Rightarrow> f) in
           case readLoop TimestampToDays (taggedBody hash ignoredMetrics existsCache version) reader (0, [], getTagsBuffer pooled, out) of
             None \<Rightarrow> None
           | Some (Inl (n, out)) \<Rightarrow> Some (n, [], Some WriteError, out)
           | Some (Inr (n, newTagged, b, out)) \<Rightarrow> Some (n, newTagged, None, out)))"

subsection \<open>What a tagged path means\<close>

function tagParts :: "bytes \<Rightarrow> bytes list" where
  "tagParts args =
     (case IndexByte args cEq of
        None \<Rightarrow> []
      | Some d \<Rightarrow>
          (case IndexByte (drop (d + 1) args) cAmp of
             None \<Rightarrow> [args]
           | Some e \<Rightarrow> take (e + d + 1) args # tagParts (drop (e + (d + 1) + 1) args)))"
  by pat_completeness auto
termination
  by (relation "measure length") (auto dest: IndexByte_SomeD)

declare tagParts.simps [simp del]

lemma tagsSlice_loop_eq: "fst (tagsSlice_loop args tags nameBuf) = tags @ map Unescape (tagParts args)"
proof (induction args tags nameBuf rule: tagsSlice_loop.induct)
  case (1 args tags nameBuf)
  show ?case
  proof (cases "IndexByte args cEq")
    case None
    then show ?thesis by (simp add: tagsSlice_loop.simps [of args] tagParts.simps [of args])
  next
    case (Some d)
    show ?thesis
    proof (cases "IndexByte (drop (d + 1) args) cAmp")
      case None
      with Some show ?thesis
        by (simp add: tagsSlice_loop.simps [of args] tagParts.simps [of args] UnescapeTo_eq Unescape_eq)
    next
      case e: (Some e)
      let ?u = "UnescapeTo (take (e + d + 1) args) nameBuf"
      have "fst (tagsSlice_loop (drop (e + (d + 1) + 1) args) (tags @ [fst ?u]) (snd ?u))
          = (tags @ [fst ?u]) @ map Unescape (tagParts (drop (e + (d + 1) + 1) args))"
        using 1 [OF Some refl e, of ?u "fst ?u" "snd ?u"] by simp
      with Some e show ?thesis
        by (simp add: tagsSlice_loop.simps [of args] tagParts.simps [of args] UnescapeTo_eq Unescape_eq)
    qed
  qed
qed

text \<open>The parts of a path whose name ends at \<open>delim\<close>: the name, its tag and the other tags.\<close>

definition pathName :: "bytes \<Rightarrow> bytes" where
  "pathName path = Unescape (takeWhile (\<lambda>c. c \<noteq> cQuest) path)"

definition pathTags :: "bytes \<Rightarrow> bytes list" where
  "pathTags path = map Unescape (tagParts (drop 1 (dropWhile (\<lambda>c. c \<noteq> cQuest) path)))"

definition nameTagOf :: "bytes \<Rightarrow> bytes" where
  "nameTagOf path = str ''__name__='' @ pathName path"

lemma IndexByte_takeWhile:
  assumes "IndexByte p c = Some i"
  shows "take i p = takeWhile (\<lambda>x. x \<noteq> c) p" and "drop (Suc i) p = drop 1 (dropWhile (\<lambda>x. x \<noteq> c) p)"
  using assms by (induction p arbitrary: i) (auto split: if_splits)

lemma tagsParseToSlice_eq:
  assumes "IndexByte path cQuest = Some delim" "0 < delim"
  shows "\<exists>nameBuf. tagsParseToSlice path b
     = (b\<lparr>tbNameBuf := nameBuf, tbTagsParse := pathTags path\<rparr>, Inr (pathName path, nameTagOf path, pathTags path))"
proof -
  obtain nm nt nb where u: "UnescapeNameTo (take delim path) [] = (nm, nt, nb)" by (metis prod_cases3)
  obtain ts nb' where t: "tagsSlice_loop (drop (delim + 1) path) [] nb = (ts, nb')" by fastforce
  have "nm = pathName path" "nt = nameTagOf path"
    using UnescapeNameTo_eq [of "take delim path" "[]"] u
    by (simp_all add: pathName_def nameTagOf_def IndexByte_takeWhile(1) [OF assms(1)])
  moreover have "ts = pathTags path"
    using tagsSlice_loop_eq [of "drop (delim + 1) path" "[]" nb] t
    by (simp add: pathTags_def IndexByte_takeWhile(2) [OF assms(1)])
  ultimately show ?thesis using assms u t by (auto simp: tagsParseToSlice_def)
qed

definition tagRow :: "uint16 \<Rightarrow> bytes \<Rightarrow> nat \<Rightarrow> bytes \<Rightarrow> uint32 \<Rightarrow> bytes \<Rightarrow> bytes" where
  "tagRow days name cnt tags version t =
     putUint16 days @ encString t @ encString name @ putUvarint (of_nat cnt) @ tags @ putUint32 version"

definition isIgnored :: "bytes list \<Rightarrow> bytes \<Rightarrow> bool" where
  "isIgnored ignored path \<longleftrightarrow> pathName path \<in> set ignored \<or> str ''*'' \<in> set ignored"

definition firstTags :: "bytes list \<Rightarrow> bytes \<Rightarrow> bytes list" where
  "firstTags ignored path = nameTagOf path # (if isIgnored ignored path then [] else pathTags path)"

definition tagsColumn :: "bytes \<Rightarrow> bytes" where
  "tagsColumn path = concat (map encString (nameTagOf path # pathTags path))"

definition taggedRows :: "bytes list \<Rightarrow> uint16 \<Rightarrow> uint32 \<Rightarrow> bytes \<Rightarrow> bytes" where
  "taggedRows ignored days version path =
     concat (map (tagRow days path (Suc (length (pathTags path))) (tagsColumn path) version) (firstTags ignored path))"

text \<open>The sum the code checks against the size of the buffer.\<close>

definition taggedSize :: "bytes list \<Rightarrow> bytes \<Rightarrow> nat" where
  "taggedSize ignored path = tagRowSize (length (pathName path)) (length path)
     + sum_list (map (\<lambda>t. tagRowSize (length t) (length path)) (pathTags path))
     + length (firstTags ignored path) * length (tagsColumn path)"

subsection \<open>Sizes\<close>

lemma length_unescape: "length (unescape_loop s sb) \<le> length sb + length s"
proof (induction s sb rule: unescape_loop.induct)
  case (2 c rest sb)
  show ?case
  proof (cases "c = cPercent")
    case True
    show ?thesis
    proof (cases rest rule: remdups_adj.cases)
      case (3 a b rest')
      from 2(1) [OF True 3 refl] True 3 show ?thesis by (auto split: if_splits)
    qed (simp_all add: True)
  qed (use 2(2,3) in auto)
qed simp

lemma length_Unescape: "length (Unescape s) \<le> length s"
  using length_unescape [of s "[]"] by (simp add: Unescape_eq)

lemmas tag_sizes = tagRowSize_def SIZE_INT16_def SIZE_INT64_def

text \<open>The loop over the tags either collects them all or stops at the size check.\<close>

lemma tagsLoop_result:
  assumes "FreeSize (tbWb b) = WriteBufferSize" "wbUsed (tbTagsBuf b) \<le> sz"
  shows "if sz + sum_list (map (\<lambda>t. tagRowSize (length t) nameLen) ts) < WriteBufferSize
     then tagsLoop ig nameLen ts sz cnt b = Some (b\<lparr>tbTagsBuf := appendWb (concat (map encString ts)) (tbTagsBuf b),
         tbTag1 := tbTag1 b @ (if ig then [] else ts)\<rparr>, Inr (sz + sum_list (map (\<lambda>t. tagRowSize (length t) nameLen) ts), cnt + length ts))
     else ts \<noteq> [] \<longrightarrow> (\<exists>b'. tagsLoop ig nameLen ts sz cnt b = Some (b', Inl ErrBufOverflow))"
  using assms
proof (induction ts arbitrary: sz cnt b)
  case (Cons t ts)
  let ?sz = "sz + tagRowSize (length t) nameLen"
  show ?case
  proof (cases "?sz < WriteBufferSize")
    case False
    then show ?thesis using Cons.prems(1) by auto
  next
    case True
    then have len: "length t < 2 * WriteBufferSize" by (simp add: tag_sizes)
    have enc: "wbUsed (tbTagsBuf b) + length (encString t) \<le> ?sz"
      using length_encString [OF len] Cons.prems(2) by (simp add: tag_sizes)
    then have w: "WriteString t (tbTagsBuf b) = Some (appendWb (encString t) (tbTagsBuf b))"
      using True by (intro WriteString_ok) (simp add: FreeSize_def)
    let ?b = "b\<lparr>tbTagsBuf := appendWb (encString t) (tbTagsBuf b), tbTag1 := (if ig then tbTag1 b else tbTag1 b @ [t])\<rparr>"
    have step: "tagsLoop ig nameLen (t # ts) sz cnt b = tagsLoop ig nameLen ts ?sz (cnt + 1) ?b"
      using True Cons.prems(1) w by (simp add: Let_def)
    from Cons.IH [of ?b ?sz "cnt + 1"] Cons.prems(1) enc True show ?thesis
      unfolding step by (cases ts) (auto simp: add.assoc split: if_splits)
  qed
qed simp

lemma tagRows_ok:
  assumes "length (concat (map (tagRow days name cnt tags version) ts)) \<le> FreeSize wb"
  shows "tagRows days name cnt tags version ts wb = Some (appendWb (concat (map (tagRow days name cnt tags version) ts)) wb)"
  using assms
proof (induction ts arbitrary: wb)
  case (Cons t ts)
  let ?row = "tagRow days name cnt tags version t"
  have "length ?row \<le> FreeSize wb" using Cons.prems by simp
  then have "tagRows days name cnt tags version (t # ts) wb = tagRows days name cnt tags version ts (appendWb ?row wb)"
    by (simp add: tagRow_def WriteUint16_def WriteUint32_def WriteUVarint_def WriteString_ok Write_def putTo_ok copyTo_ok)
  with Cons.IH [of "appendWb ?row wb"] Cons.prems show ?case by simp
qed simp

lemma length_tagRow:
  assumes "length t < WriteBufferSize" "length name < WriteBufferSize" "cnt < WriteBufferSize"
  shows "length (tagRow days name cnt tags version t) \<le> length t + length name + length tags + 15"
  using length_encString [of t] length_encString [of name] length_uvarint_buffer [of cnt] assms
  by (simp add: tagRow_def)

text \<open>The check is safe: what it admits fits.\<close>

lemma taggedRows_fit:
  assumes "taggedSize ignored path < WriteBufferSize"
  shows "length (taggedRows ignored days version path) \<le> WriteBufferSize"
proof -
  let ?L = "length path" and ?T = "tagsColumn path" and ?n = "Suc (length (pathTags path))"
  have sum_len: "28 * length ts \<le> sum_list (map (\<lambda>t. tagRowSize (length t) ?L) ts)"
      "t \<in> set ts \<Longrightarrow> tagRowSize (length t) ?L \<le> sum_list (map (\<lambda>t. tagRowSize (length t) ?L) ts)" for t and ts :: "bytes list"
    by (induction ts) (auto simp: tag_sizes)
  have bounds: "length (pathName path) + ?L + 28 < WriteBufferSize" "?n < WriteBufferSize"
      "t \<in> set (pathTags path) \<Longrightarrow> length t + 28 < WriteBufferSize" for t
    using assms sum_len(1) [of "pathTags path"] sum_len(2) [of t "pathTags path"] by (auto simp: taggedSize_def tag_sizes)
  have rows: "length (concat (map (tagRow days path ?n ?T version) ts)) \<le> sum_list (map (\<lambda>t. length t + ?L + 15) ts) + length ts * length ?T"
    if "\<forall>t \<in> set ts. length t < WriteBufferSize" for ts
    using that
  proof (induction ts)
    case (Cons t ts)
    with length_tagRow [of t path ?n days ?T version] bounds(1,2) show ?case by simp
  qed simp
  have name: "length (nameTagOf path) = length (pathName path) + 9" by (simp add: nameTagOf_def)
  have "length t < WriteBufferSize" if "t \<in> set (firstTags ignored path)" for t
    using that bounds(1) bounds(3) [of t] name by (auto simp: firstTags_def split: if_splits)
  then have "\<forall>t \<in> set (firstTags ignored path). length t < WriteBufferSize" by blast
  from rows [OF this] have "length (taggedRows ignored days version path)
      \<le> sum_list (map (\<lambda>t. length t + ?L + 15) (firstTags ignored path)) + length (firstTags ignored path) * length ?T"
    by (simp add: taggedRows_def)
  moreover have "sum_list (map (\<lambda>t. length t + ?L + 15) (pathTags path)) \<le> sum_list (map (\<lambda>t. tagRowSize (length t) ?L) (pathTags path))"
    by (rule sum_list_mono) (simp add: tag_sizes)
  then have "sum_list (map (\<lambda>t. length t + ?L + 15) (firstTags ignored path))
      \<le> tagRowSize (length (pathName path)) ?L + sum_list (map (\<lambda>t. tagRowSize (length t) ?L) (pathTags path))"
    using name by (auto simp: firstTags_def tag_sizes)
  ultimately show ?thesis using assms by (simp add: taggedSize_def)
qed

text \<open>What \<open>parseName\<close> does with a path that has a name and a query: no panic, and rows exactly when they fit.\<close>

lemma taggedParseName_result:
  assumes q: "IndexByte name cQuest = Some delim" "0 < delim" and len: "length name + 19 \<le> lineSize"
  shows "\<exists>b'. taggedParseName ignored name days version b
     = Some (b', if taggedSize ignored name < WriteBufferSize then None else Some ErrBufOverflow)
     \<and> (taggedSize ignored name < WriteBufferSize \<longrightarrow> Bytes (tbWb b') = taggedRows ignored days version name)"
proof -
  obtain nb where slice: "tagsParseToSlice name b
      = (b\<lparr>tbNameBuf := nb, tbTagsParse := pathTags name\<rparr>, Inr (pathName name, nameTagOf name, pathTags name))"
    using tagsParseToSlice_eq [OF q] by blast
  let ?sum = "sum_list (map (\<lambda>t. tagRowSize (length t) (length name)) (pathTags name))"
  let ?sz = "tagRowSize (length (pathName name)) (length name)" and ?tb = "appendWb (encString (nameTagOf name)) (Reset (tbTagsBuf b))"
  let ?b = "b\<lparr>tbNameBuf := nb, tbTagsParse := pathTags name, tbWb := Reset (tbWb b), tbTagsBuf := ?tb, tbTag1 := [nameTagOf name]\<rparr>"
  let ?b1 = "?b\<lparr>tbTagsBuf := appendWb (concat (map encString (pathTags name))) ?tb, tbTag1 := firstTags ignored name\<rparr>"
  have nlen: "length (pathName name) < length name"
    using length_Unescape [of "take delim name"] IndexByte_SomeD [OF q(1)] by (simp add: pathName_def IndexByte_takeWhile(1) [OF q(1), symmetric])
  have tag: "length (nameTagOf name) = length (pathName name) + 9" by (simp add: nameTagOf_def)
  have enc: "length (encString (nameTagOf name)) \<le> length (pathName name) + 12"
    using length_encString [of "nameTagOf name"] tag nlen len by (simp add: lineSize_def WriteBufferSize_def)
  have free: "FreeSize (tbWb ?b) = WriteBufferSize" "FreeSize (Reset (tbTagsBuf b)) = WriteBufferSize"
    by (simp_all add: FreeSize_def wbUsed_def)
  have w: "WriteString (nameTagOf name) (Reset (tbTagsBuf b)) = Some ?tb"
    by (rule WriteString_ok) (use enc nlen len free in \<open>simp add: lineSize_def WriteBufferSize_def\<close>)
  have [simp]: "wbUsed (Reset wb) = 0" for wb by (simp add: wbUsed_def)
  have used: "wbUsed (tbTagsBuf ?b) \<le> ?sz" using enc by (simp add: wbUsed_def tag_sizes)
  have sz: "taggedSize ignored name = ?sz + ?sum + length (firstTags ignored name) * length (tagsColumn name)"
    by (simp add: taggedSize_def)
  note loop = tagsLoop_result [of ?b ?sz "length name" "pathTags name" "isIgnored ignored name" 1, OF free(1) used]
  show ?thesis
  proof (cases "?sz + ?sum < WriteBufferSize")
    case True
    have b1: "tbTag1 ?b @ (if isIgnored ignored name then [] else pathTags name) = firstTags ignored name" by (simp add: firstTags_def)
    from loop True b1 have l: "tagsLoop (isIgnored ignored name) (length name) (pathTags name) ?sz 1 ?b = Some (?b1, Inr (?sz + ?sum, Suc (length (pathTags name))))"
      by simp
    have col: "wbUsed (tbTagsBuf ?b1) = length (tagsColumn name)" "Bytes (tbTagsBuf ?b1) = tagsColumn name"
      by (simp_all add: wbUsed_def Bytes_def tagsColumn_def)
    show ?thesis
    proof (cases "taggedSize ignored name < WriteBufferSize")
      case fits: True
      have "tagRows days name (Suc (length (pathTags name))) (tagsColumn name) version (firstTags ignored name) (tbWb ?b1)
          = Some (appendWb (taggedRows ignored days version name) (tbWb ?b1))"
        unfolding taggedRows_def
        by (rule tagRows_ok) (use taggedRows_fit [OF fits, of days version] free in \<open>simp add: taggedRows_def\<close>)
      with fits l col sz free show ?thesis
        by (simp add: taggedParseName_def slice w isIgnored_def Let_def Bytes_def)
    next
      case big: False
      with l col sz free show ?thesis
        by (simp add: taggedParseName_def slice w isIgnored_def Let_def)
    qed
  next
    case False
    then have big: "\<not> taggedSize ignored name < WriteBufferSize" using sz by simp
    show ?thesis
    proof (cases "pathTags name")
      case Nil
      with False big free show ?thesis
        by (simp add: taggedParseName_def slice w Let_def)
    next
      case (Cons t ts)
      with False loop obtain b' where "tagsLoop (isIgnored ignored name) (length name) (pathTags name) ?sz 1 ?b = Some (b', Inl ErrBufOverflow)"
        by auto
      with big show ?thesis by (simp add: taggedParseName_def slice w isIgnored_def Let_def)
    qed
  qed
qed

subsection \<open>The rows of a file\<close>

definition taggedStep ::
  "(uint32 \<Rightarrow> uint16) \<Rightarrow> (bytes \<Rightarrow> bytes) \<Rightarrow> bytes list \<Rightarrow> CMap \<Rightarrow> uint32 \<Rightarrow> point \<Rightarrow>
   uint64 \<times> bytes list \<times> tags_buffers \<times> sink \<Rightarrow> (uint64 \<times> sink + uint64 \<times> bytes list \<times> tags_buffers \<times> sink) option" where
  "taggedStep days h ignored c version q s =
     taggedBody h ignored c version ((freshReader [] False)\<lparr>rLine := encPoint days q\<rparr>) (pName q) s"

lemma taggedBody_step:
  "rLine r = encPoint days q \<Longrightarrow> taggedBody h ignored c version r (pName q) s = taggedStep days h ignored c version q s"
  unfolding taggedStep_def taggedBody_def using accessors_encPoint(2) [of r days q] Days_of_line [of days q]
  by (simp cong: if_cong)

text \<open>A tagged path has a nonempty name, and its rows fit the buffer.\<close>

definition taggable :: "(uint32 \<Rightarrow> uint16) \<Rightarrow> bytes list \<Rightarrow> point \<Rightarrow> bool" where
  "taggable days ignored p \<longleftrightarrow> fitsLine days p \<and>
     (untagged p \<or> take 1 (pName p) \<noteq> [cQuest] \<and> taggedSize ignored (pName p) < WriteBufferSize)"

lemma taggedStep_new:
  assumes "taggable days ignored q" "\<not> untagged q" "\<not> Exists c (hashKey days h q)" "hashKey days h q \<notin> set seen" "skLimit out = None"
  shows "\<exists>b'. taggedStep days h ignored c version q (n, seen, b, out)
     = Some (Inr (n + 1, seen @ [hashKey days h q], b', out\<lparr>skData := skData out @ taggedRows ignored (days (pTime q)) version (pName q)\<rparr>))"
proof -
  obtain delim where d: "IndexByte (pName q) cQuest = Some delim"
    using assms(2) by (cases "IndexByte (pName q) cQuest") (auto simp: untagged_def IndexByte_None)
  have uv: "0 < length (putUvarint x)" for x by simp
  have "0 < delim" using d assms(1,2) by (cases "pName q") (auto simp: taggable_def split: if_splits)
  moreover have "length (putUvarint (of_nat (length (pName q)))) + length (pName q) + 18 \<le> lineSize"
    using assms(1) by (simp add: taggable_def fitsLine_def encPoint_def encString_def lineSize_def)
  then have "length (pName q) + 19 \<le> lineSize" using uv [of "of_nat (length (pName q))"] by linarith
  ultimately obtain b' where "taggedParseName ignored (pName q) (days (pTime q)) version b = Some (b', None)"
      "Bytes (tbWb b') = taggedRows ignored (days (pTime q)) version (pName q)"
    using taggedParseName_result [OF d, of ignored "days (pTime q)" version b] assms(1,2) by (auto simp: taggable_def)
  then show ?thesis
    using d assms(3-5) Days_of_line [of days q] by (simp add: taggedStep_def taggedBody_def hashKey_def Let_def)
qed

interpretation tr: keyed_rows "taggedStep days h ignored c version" fst "\<lambda>s. fst (snd s)" "\<lambda>s. skData (snd (snd (snd s)))"
  "\<lambda>s. skLimit (snd (snd (snd s))) = None" "taggable days ignored" "\<lambda>p. \<not> untagged p" "Exists c" "hashKey days h"
  "\<lambda>p. taggedRows ignored (days (pTime p)) version (pName p)"
  for days h ignored c version
proof unfold_locales
  fix s :: "uint64 \<times> bytes list \<times> tags_buffers \<times> sink" and p
  assume "\<not> \<not> untagged p \<or> Exists c (hashKey days h p) \<or> hashKey days h p \<in> set (fst (snd s))"
  then show "taggedStep days h ignored c version p s = Some (Inr s)"
    using Days_of_line [of days p]
    by (cases s) (auto simp: taggedStep_def taggedBody_def untagged_def hashKey_def IndexByte_None Let_def)
next
  fix s :: "uint64 \<times> bytes list \<times> tags_buffers \<times> sink" and p
  assume "skLimit (snd (snd (snd s))) = None" "taggable days ignored p" "\<not> untagged p" "\<not> Exists c (hashKey days h p)"
    "hashKey days h p \<notin> set (fst (snd s))"
  with taggedStep_new [of days ignored p c h "fst (snd s)" "snd (snd (snd s))" version "fst s" "fst (snd (snd s))"]
  show "\<exists>s'. taggedStep days h ignored c version p s = Some (Inr s') \<and> skLimit (snd (snd (snd s'))) = None \<and> fst s' = fst s + 1
     \<and> fst (snd s') = fst (snd s) @ [hashKey days h p]
     \<and> skData (snd (snd (snd s'))) = skData (snd (snd (snd s))) @ taggedRows ignored (days (pTime p)) version (pName p)"
    by auto
qed

text \<open>
  C25. The tagged uploader writes, for every new day and tagged path, one row per tag with the
  name and all tags of the path (only the name row for an ignored metric), once each, and
  returns their keys.
\<close>

theorem tagged_rows:
  assumes "dataFile days ps content" "open_file fn = Inr content" "\<not> HasSuffix fn (str ''.lz4'')"
    and "\<forall>p \<in> set ps. taggable days ignored p"
  shows "\<exists>new. taggedParseFile days open_file lz4 (Some h) ignored pooled c version fn \<lparr>skData = [], skLimit = None\<rparr>
       = Some (of_nat (length new), map (hashKey days h) new, None,
           \<lparr>skData = concat (map (\<lambda>p. taggedRows ignored (days (pTime p)) version (pName p)) new), skLimit = None\<rparr>)
     \<and> distinct (map (hashKey days h) new) \<and> set new \<subseteq> set ps
     \<and> hashKey days h ` set new = {k. \<not> Exists c k \<and> (\<exists>p \<in> set ps. \<not> untagged p \<and> k = hashKey days h p)}"
proof -
  let ?s = "(0, [], getTagsBuffer pooled, \<lparr>skData = [], skLimit = None\<rparr>)"
  have "readLoop days (taggedBody h ignored c version) (freshReader content False) ?s
      = foldPoints (taggedStep days h ignored c version) (map (stored False False) ps) ?s"
    unfolding stored_fresh [of content False, symmetric]
    by (rule readLoop_foldPoints) (use assms(1) in \<open>auto simp: freshReader_def taggedBody_step\<close>)
  moreover have "map (stored False False) ps = ps"
    by (rule map_idI) (simp add: stored_fresh [of "[]", symmetric])
  ultimately have loop: "readLoop days (taggedBody h ignored c version) (freshReader content False) ?s
      = foldPoints (taggedStep days h ignored c version) ps ?s" by simp
  from tr.rows_written [OF _ assms(4), of ?s h c version] obtain s' new where
    r: "foldPoints (taggedStep days h ignored c version) ps ?s = Some (Inr s')" "tr.wrote c days h ignored version ?s ps s' new" by auto
  then obtain b out where s': "s' = (of_nat (length new), map (hashKey days h) new, b, out)"
      "out = \<lparr>skData = concat (map (\<lambda>p. taggedRows ignored (days (pTime p)) version (pName p)) new), skLimit = None\<rparr>"
    by (cases s') (auto simp: tr.wrote_def sink.splits)
  have keys: "hashKey days h ` set new = {k. \<not> Exists c k \<and> (\<exists>p \<in> set ps. \<not> untagged p \<and> k = hashKey days h p)}"
    using r(2) unfolding tr.wrote_def by auto
  show ?thesis
    unfolding taggedParseFile_def NewReader_fresh [of fn open_file content, OF assms(3,2)] sum.case option.case Let_def loop r(1) s'
    using r(2) keys by (intro exI [of _ new]) (simp add: tr.wrote_def)
qed

definition exampleTagged :: "point list" where
  "exampleTagged = [\<lparr>pName = str ''cpu?host=a'', pValue = 1, pTime = 86400, pVersion = 2\<rparr>]"

lemma exampleTagged_data: "dataFile (\<lambda>_. 1) exampleTagged (concat (map (encPoint (\<lambda>_. 1)) exampleTagged))"
  by (auto simp: dataFile_def exampleTagged_def fitsLine_def encPoint_def encString_def putUvarint_small lineSize_def intro: exI [of _ "[]"])

lemma exampleTagged_parts:
  "pathName [99, 112, 117, cQuest, 104, 111, 115, 116, cEq, 97] = [99, 112, 117]"
  "pathTags [99, 112, 117, cQuest, 104, 111, 115, 116, cEq, 97] = [[104, 111, 115, 116, cEq, 97]]"
  by (simp_all add: pathName_def pathTags_def Unescape_def UnescapeTo_def) (subst tagParts.simps, simp add: Unescape_def UnescapeTo_def)

theorem tagged_rows_witness:
  "\<exists>new. taggedParseFile (\<lambda>_. 1) (\<lambda>_. Inr (concat (map (encPoint (\<lambda>_. 1)) exampleTagged)) :: nat + bytes) id (Some keepOriginal) []
         newTagsBuffer NewCMap 9 (str ''f'') \<lparr>skData = [], skLimit = None\<rparr>
       = Some (of_nat (length new), map (hashKey (\<lambda>_. 1) keepOriginal) new, None,
           \<lparr>skData = concat (map (\<lambda>p. taggedRows [] 1 9 (pName p)) new), skLimit = None\<rparr>)
     \<and> distinct (map (hashKey (\<lambda>_. 1) keepOriginal) new) \<and> set new \<subseteq> set exampleTagged
     \<and> hashKey (\<lambda>_. 1) keepOriginal ` set new
         = {k. \<not> Exists NewCMap k \<and> (\<exists>p \<in> set exampleTagged. \<not> untagged p \<and> k = hashKey (\<lambda>_. 1) keepOriginal p)}"
  by (rule tagged_rows [OF exampleTagged_data])
    (simp_all add: HasSuffix_def exampleTagged_def taggable_def fitsLine_def encPoint_def encString_def putUvarint_small lineSize_def
       taggedSize_def exampleTagged_parts tag_sizes firstTags_def tagsColumn_def nameTagOf_def WriteBufferSize_def)

subsection \<open>Splitting inverts the canonical form\<close>

lemma tagParts_pair:
  assumes "sepFree k" "sepFree v"
  shows "tagParts (k @ cEq # v) = [k @ cEq # v]"
    and "tagParts (k @ cEq # v @ cAmp # rest) = (k @ cEq # v) # tagParts rest"
  using assms by (subst tagParts.simps, simp add: sepFree_def)+

lemma tagParts_join:
  assumes "\<forall>p \<in> set kvs. sepFree (fst p) \<and> sepFree (snd p)"
  shows "tagParts (joinWith [cAmp] (map (\<lambda>p. fst p @ cEq # snd p) kvs)) = map (\<lambda>p. fst p @ cEq # snd p) kvs"
  using assms
proof (induction kvs)
  case Nil
  show ?case by (subst tagParts.simps) simp
next
  case (Cons p kvs)
  then show ?case by (cases kvs) (simp_all add: tagParts_pair)
qed

lemma unescape_Path_byte: "c \<noteq> cPlus \<Longrightarrow> unescape_loop (encByte encodePath c @ s) sb = unescape_loop s (sb @ [c])"
  using unescape_percentByte [of c s sb] by (auto simp: encByte_def shouldEscape_def isAlnum_def)

lemma Unescape_Path: "cPlus \<notin> set s \<Longrightarrow> Unescape (Path s) = s"
proof -
  have "unescape_loop (encBytes encodePath s) sb = sb @ s" if "cPlus \<notin> set s" for s sb
    using that by (induction s arbitrary: sb) (simp_all add: unescape_Path_byte)
  then show "cPlus \<notin> set s \<Longrightarrow> Unescape (Path s) = s" by (simp add: Unescape_eq Path_def escape_eq)
qed

lemma Unescape_pair: "Unescape (Query k @ cEq # Query v) = k @ cEq # v"
  using unescape_encBytes [of k "cEq # Query v" "[]"] unescape_encBytes [of v "[]" "k @ [cEq]"]
  by (simp add: Unescape_eq Query_def escape_eq)

lemma taggedName_parts:
  assumes "\<not> dropsLast name encodePath" "cPlus \<notin> set name"
    and "\<forall>p \<in> set arr. \<not> dropsLast (fst p) encodeQueryComponent \<and> \<not> dropsLast (snd p) encodeQueryComponent"
  shows "pathName (taggedName name arr) = name" and "pathTags (taggedName name arr) = map (\<lambda>p. fst p @ cEq # snd p) arr"
proof -
  let ?q = "map (\<lambda>p. (Query (fst p), Query (snd p))) arr"
  have pairs: "map tagPair arr = map (\<lambda>p. fst p @ cEq # snd p) ?q"
    using assms(3) by (auto simp: tagPair_def QueryTo_def Query_def escapeTo_escape)
  have t: "taggedName name arr = Path name @ cQuest # joinWith [cAmp] (map (\<lambda>p. fst p @ cEq # snd p) ?q)"
    unfolding taggedName_def pairs using assms(1) by (simp add: PathTo_def Path_def escapeTo_escape)
  have tw: "takeWhile (\<lambda>c. c \<noteq> cQuest) (xs @ cQuest # ys) = xs" "dropWhile (\<lambda>c. c \<noteq> cQuest) (xs @ cQuest # ys) = cQuest # ys"
    if "cQuest \<notin> set xs" for xs ys
    using that by (induction xs) auto
  show "pathName (taggedName name arr) = name"
    unfolding pathName_def t using Path_no_quest [of name] Unescape_Path [OF assms(2)] by (simp add: tw)
  have "tagParts (joinWith [cAmp] (map (\<lambda>p. fst p @ cEq # snd p) ?q)) = map (\<lambda>p. fst p @ cEq # snd p) ?q"
    by (rule tagParts_join) (auto simp: Query_sepFree)
  then show "pathTags (taggedName name arr) = map (\<lambda>p. fst p @ cEq # snd p) arr"
    unfolding pathTags_def t using Path_no_quest [of name] by (simp add: tw Unescape_pair)
qed

text \<open>
  C26. Splitting the canonical form of a tagged metric gives back its name and its tags, for
  names without a plus sign and parts that the encoder does not cut.
\<close>

theorem tagged_roundtrip:
  assumes "name \<noteq> []" "\<not> dropsLast name encodePath" "cPlus \<notin> set name"
    and "\<forall>p \<in> set arr. \<not> dropsLast (fst p) encodeQueryComponent \<and> \<not> dropsLast (snd p) encodeQueryComponent"
  shows "snd (tagsParseToSlice (taggedName name arr) b)
     = Inr (name, str ''__name__='' @ name, map (\<lambda>p. fst p @ cEq # snd p) arr)"
proof -
  have path: "taggedName name arr = Path name @ cQuest # joinWith [cAmp] (map tagPair arr)"
    using assms(2) by (simp add: taggedName_def PathTo_def Path_def escapeTo_escape)
  have "IndexByte (taggedName name arr) cQuest = Some (length (Path name))"
    unfolding path using Path_no_quest by simp
  moreover have "0 < length (Path name)" using assms(1) length_escape [of name encodePath] by (simp add: Path_def flip: length_greater_0_conv)
  ultimately show ?thesis
    using tagsParseToSlice_eq [of "taggedName name arr" "length (Path name)" b] taggedName_parts [OF assms(2-4)]
    by (auto simp: nameTagOf_def)
qed

theorem tagged_roundtrip_witness:
  "snd (tagsParseToSlice (taggedName (str ''cpu load'') [(str ''host'', str ''a&bc''), (str ''k'', str ''x=yz'')]) newTagsBuffer)
     = Inr (str ''cpu load'', str ''__name__='' @ str ''cpu load'',
         map (\<lambda>p. fst p @ cEq # snd p) [(str ''host'', str ''a&bc''), (str ''k'', str ''x=yz'')])"
  by (rule tagged_roundtrip) (simp_all add: dropsLast_def shouldEscape_def isAlnum_def)

end
