(* ===== verification/Up_TagsMap.thy ===== *)
theory Up_TagsMap
  imports Up_Tagged
begin

text \<open>
  \<open>tagsParse\<close> and the constructor in \<^verbatim>\<open>uploader/tagged.go\<close>: the splitter that returns a map, which the
  allocation-free \<open>tagsParseToSlice\<close> replaced, and the agreement of the two.
\<close>

text \<open>\<open>NewTagged\<close>: the set of ignored metrics.\<close>

definition ignoredSet :: "bytes list \<Rightarrow> (bytes \<rightharpoonup> bool)" where
  "ignoredSet metrics = fold (\<lambda>metric m. m(metric \<mapsto> True)) metrics Map.empty"

lemma ignoredSet_iff: "ignoredSet metrics metric = (if metric \<in> set metrics then Some True else None)"
proof -
  have "fold (\<lambda>metric m. m(metric \<mapsto> True)) metrics m metric = (if metric \<in> set metrics then Some True else m metric)" for m
    by (induction metrics arbitrary: m) auto
  then show ?thesis by (simp add: ignoredSet_def)
qed

subsection \<open>The two splitters agree\<close>

lemma PathUnescape_Unescape: "PathUnescape s = Some t \<Longrightarrow> cPlus \<notin> set s \<Longrightarrow> unescape_loop s sb = sb @ t"
proof (induction s arbitrary: t sb rule: PathUnescape.induct)
  case (2 c rest)
  then show ?case by (auto split: if_splits list.splits)
qed simp

text \<open>The key of a part is what precedes its first equals sign.\<close>

definition tagKey :: "bytes \<Rightarrow> bytes" where
  "tagKey part = Unescape (takeWhile (\<lambda>c. c \<noteq> cEq) part)"

lemma tagsParse_loop_eq:
  "map_of (tagsParse_loop args tags) = fold (\<lambda>p m. m(tagKey p \<mapsto> Unescape p)) (tagParts args) (map_of tags)"
proof (induction args tags rule: tagsParse_loop.induct)
  case (1 args tags)
  show ?case
  proof (cases "IndexByte args cEq")
    case None
    then show ?thesis by (simp add: tagsParse_loop.simps [of args] tagParts.simps [of args])
  next
    case (Some d)
    have key: "takeWhile (\<lambda>c. c \<noteq> cEq) (take n args) = take d args" if "d < n" for n
      using Some that
    proof (induction args arbitrary: d n)
      case (Cons a args)
      then show ?case by (cases n) (auto split: if_splits)
    qed simp
    have whole: "takeWhile (\<lambda>c. c \<noteq> cEq) args = take d args" using IndexByte_takeWhile(1) [OF Some] by simp
    show ?thesis
    proof (cases "IndexByte (drop (d + 1) args) cAmp")
      case None
      with Some whole show ?thesis by (simp add: tagsParse_loop.simps [of args] tagParts.simps [of args] tagKey_def update_conv')
    next
      case e: (Some e)
      from 1 [OF Some refl refl e refl] have
        "map_of (tagsParse_loop (drop (e + (d + 1) + 1) args) (AList.update (Unescape (take d args)) (Unescape (take (e + (d + 1)) args)) tags))
           = fold (\<lambda>p m. m(tagKey p \<mapsto> Unescape p)) (tagParts (drop (e + (d + 1) + 1) args))
               ((map_of tags)(Unescape (take d args) \<mapsto> Unescape (take (e + (d + 1)) args)))" by (simp only: update_conv')
      with Some e key [of "Suc (e + d)"] show ?thesis
        by (simp add: tagsParse_loop.simps [of args] tagParts.simps [of args] tagKey_def fun_upd_def)
    qed
  qed
qed

lemma fold_upds: "fold (\<lambda>p m. m(k p \<mapsto> v p)) ps m = m ++ map_of (rev (map (\<lambda>p. (k p, v p)) ps))"
  by (induction ps arbitrary: m) simp_all

text \<open>tagsParse_agrees\<close>

theorem tagsParse_agrees:
  assumes "tagsParse path = Inr (name, m)" "cPlus \<notin> set (takeWhile (\<lambda>c. c \<noteq> cQuest) path)"
  shows "\<exists>b' parts. tagsParseToSlice path b = (b', Inr (name, str ''__name__='' @ name, map Unescape parts))
     \<and> map_of m = map_of (rev (map (\<lambda>p. (tagKey p, Unescape p)) parts))"
proof -
  from assms(1) obtain delim where d: "IndexByte path cQuest = Some delim" "0 < delim" "PathUnescape (take delim path) = Some name"
      "m = tagsParse_loop (drop (delim + 1) path) []"
    by (auto simp: tagsParse_def split: option.splits if_splits)
  have "pathName path = name"
    using PathUnescape_Unescape [OF d(3), of "[]"] assms(2) by (simp add: pathName_def Unescape_eq IndexByte_takeWhile(1) [OF d(1)])
  moreover have "map_of m = map_of (rev (map (\<lambda>p. (tagKey p, Unescape p)) (tagParts (drop 1 (dropWhile (\<lambda>c. c \<noteq> cQuest) path)))))"
    using IndexByte_takeWhile(2) [OF d(1)] by (simp add: d(4) tagsParse_loop_eq fold_upds)
  ultimately show ?thesis
    using tagsParseToSlice_eq [OF d(1,2), of b] by (auto simp: nameTagOf_def pathTags_def)
qed

theorem tagsParse_agrees_witness:
  "\<exists>b' parts. tagsParseToSlice (str ''cpu?host=a%20b&dc=x'') newTagsBuffer
       = (b', Inr (str ''cpu'', str ''__name__='' @ str ''cpu'', map Unescape parts))
     \<and> map_of (tagsParse_loop (str ''host=a%20b&dc=x'') []) = map_of (rev (map (\<lambda>p. (tagKey p, Unescape p)) parts))"
  by (rule tagsParse_agrees) (simp_all add: tagsParse_def)

text \<open>A name that is not well escaped is refused by the one and taken by the other.\<close>

lemma tagsParse_strict:
  "tagsParse (str ''a%zz?b=c'') = Inl (InvalidNameTag (str ''a%zz?b=c''))"
  "\<exists>b'. tagsParseToSlice (str ''a%zz?b=c'') b = (b', Inr (str ''a%zz'', str ''__name__=a%zz'', [str ''b=c'']))"
  subgoal by (simp add: tagsParse_def ishex_def)
  using tagsParseToSlice_eq [of "str ''a%zz?b=c''" 4 b]
  by (auto simp: pathName_def nameTagOf_def pathTags_def Unescape_eq ishex_def tagParts.simps)

end
