(* ===== verification/Lifecycle.thy ===== *)
theory Lifecycle
  imports Up_Base Wr_Worker
begin

text \<open>
  The life of a data file across the writer and the uploaders of all tables: it is created and
  appended to by the writer, closed, linked into every table directory, uploaded by every table,
  marked, and removed by the cleanup. The steps are the operations of \<^verbatim>\<open>writer/link.go\<close>,
  \<^verbatim>\<open>writer/cleanup.go\<close> and \<^verbatim>\<open>uploader/base.go\<close>, each with arbitrary faults, interleaved in any order, and a
  crash of the process at any moment.

  Three components record history only: \<open>syClosed\<close> the content of every file when it was closed,
  \<open>sySent\<close> what ClickHouse accepted for which table, \<open>syNames\<close> the names used (a name holds the
  time in nanoseconds, so it is used once).
\<close>

record sys =
  syFs :: fs
  syCur :: "bytes option"
  syFinish :: "bytes list"
  syUp :: "bytes \<Rightarrow> up_base"
  syDone :: "(bytes \<times> bytes) set"
  syClosed :: "bytes \<Rightarrow> bytes option"
  sySent :: "(bytes \<times> bytes \<times> bytes) set"
  syNames :: "bytes set"

definition sysInit :: sys where
  "sysInit = \<lparr>syFs = \<lparr>fsFiles = [], fsDirs = []\<rparr>, syCur = None, syFinish = [], syUp = (\<lambda>_. newBase), syDone = {}, syClosed = (\<lambda>_. None),
     sySent = {}, syNames = {}\<rparr>"

definition putFile :: "bytes \<Rightarrow> bytes \<Rightarrow> fs \<Rightarrow> fs" where
  "putFile fn c s = s\<lparr>fsFiles := AList.update fn c (fsFiles s)\<rparr>"

definition isData :: "bytes \<Rightarrow> bool" where
  "isData fn \<longleftrightarrow> HasPrefix fn (str ''default.'')"

inductive sys_step :: "bytes list \<Rightarrow> sys \<Rightarrow> sys \<Rightarrow> bool" for tables where
  create: "syCur x = None \<Longrightarrow> isData fn \<Longrightarrow> fn \<notin> syNames x \<Longrightarrow>
     sys_step tables x (x\<lparr>syFs := putFile fn [] (syFs x), syCur := Some fn, syNames := insert fn (syNames x)\<rparr>)"
| create_failed: "syCur x = None \<Longrightarrow> isData fn \<Longrightarrow> fn \<notin> syNames x \<Longrightarrow>
     sys_step tables x (x\<lparr>syFinish := fn # syFinish x, syNames := insert fn (syNames x)\<rparr>)"
| append: "syCur x = Some fn \<Longrightarrow> fileOf (syFs x) fn = Some c \<Longrightarrow> sys_step tables x (x\<lparr>syFs := putFile fn (c @ p) (syFs x)\<rparr>)"
| close: "syCur x = Some fn \<Longrightarrow> fileOf (syFs x) fn = Some c \<Longrightarrow>
     sys_step tables x (x\<lparr>syCur := None, syClosed := (syClosed x)(fn \<mapsto> c), syFinish := fn # syFinish x\<rparr>)"
| link: "fn \<in> set (syFinish x) \<or> syCur x = None \<and> fileOf (syFs x) fn \<noteq> None \<and> isData fn \<Longrightarrow> t \<in> set tables \<Longrightarrow>
     linkTable fails fn t (syFs x) = (s, err) \<Longrightarrow> sys_step tables x (x\<lparr>syFs := s\<rparr>)"
| make_dir: "t \<in> set tables \<Longrightarrow> ensureDir fails t (syFs x) = (s, err) \<Longrightarrow> sys_step tables x (x\<lparr>syFs := s\<rparr>)"
| queue: "up_step t (syFs x, syUp x t) (syFs x, u) \<Longrightarrow> sys_step tables x (x\<lparr>syUp := (syUp x)(t := u)\<rparr>)"
| upload: "fn \<in> set (ubActive (syUp x t)) \<Longrightarrow> entryOf (syFs x) t fn = Some (Symlink g) \<Longrightarrow> fileOf (syFs x) g = Some c \<Longrightarrow>
     sys_step tables x (x\<lparr>sySent := insert (t, fn, c) (sySent x), syDone := insert (t, fn) (syDone x)\<rparr>)"
| mark: "(t, fn) \<in> syDone x \<Longrightarrow> workerDone fails t fn (n, None :: nat option) ms (syFs x, syUp x t) = (s, u) \<Longrightarrow>
     sys_step tables x (x\<lparr>syFs := s, syUp := (syUp x)(t := u)\<rparr>)"
| cleanup: "isData fn \<Longrightarrow> \<forall>t \<in> set tables. \<not> fails (SysStat (Sub t (doneName fn))) \<Longrightarrow>
     Cleanup fails fn tables (syFs x) = (s, removed, err) \<Longrightarrow> sys_step tables x (x\<lparr>syFs := s\<rparr>)"
| drop_broken: "dropBroken fails t n (syFs x) = (s, err) \<Longrightarrow> sys_step tables x (x\<lparr>syFs := s\<rparr>)"
| crash: "sys_step tables x (x\<lparr>syCur := None, syFinish := [], syUp := (\<lambda>_. newBase), syDone := {},
     syClosed := (case syCur x of None \<Rightarrow> syClosed x | Some fn \<Rightarrow> (syClosed x)(fn := fileOf (syFs x) fn))\<rparr>)"

subsection \<open>Queues hold data files only\<close>

definition queuedData :: "up_base \<Rightarrow> bool" where
  "queuedData u \<longleftrightarrow> (\<forall>f \<in> set (held u) \<union> set (ubScan u). dataName f)"

lemma scanFiles_data:
  assumes "scanFiles lstat now fs d files = Some (d', files')"
  shows "set files' \<subseteq> set files \<union> {f. dataName f}"
  using assms
proof (induction fs arbitrary: d files)
  case (Cons f fs)
  show ?case
  proof (cases "dataName f")
    case True
    with Cons.prems obtain m where
      "scanFiles lstat now fs (if d < now - m then now - m else d) (files @ [f]) = Some (d', files')"
      by (auto simp: Let_def split: option.splits)
    from Cons.IH [OF this] True show ?thesis by auto
  next
    case False
    with Cons show ?thesis by simp
  qed
qed simp

lemma queuedData_scanDir: "queuedData u \<Longrightarrow> queuedData (scanDir fails lstat now t s u)"
proof -
  assume u: "queuedData u"
  have "held (scanDir fails lstat now t s u) = held u" by (simp add: held_def scanDir_keeps)
  moreover have "set (ubScan (scanDir fails lstat now t s u)) \<subseteq> set (ubScan u) \<union> {f. dataName f}"
    using scanFiles_data [of lstat now _ 0 "[]"]
    by (auto simp: scanDir_def Let_def split: sum.splits option.splits)
  ultimately show ?thesis using u unfolding queuedData_def by auto
qed

lemma queuedData_workerDone:
  assumes "queuedData u" "workerDone fails t fn res ms (s, u) = (s', u')"
  shows "queuedData u'"
proof -
  have "ubActive u' = removeAll fn (ubActive u)" "ubQueue u' = ubQueue u" "ubSending u' = ubSending u" "ubScan u' = ubScan u"
    using assms(2) by (auto simp: workerDone_def RemoveFromQueue_def Let_def split: prod.splits if_splits)
  then have "set (held u') \<union> set (ubScan u') \<subseteq> set (held u) \<union> set (ubScan u)" by (auto simp: held_def)
  with assms(1) show ?thesis unfolding queuedData_def by blast
qed

lemma up_step_data: "up_step t st st' \<Longrightarrow> queuedData (snd st) \<Longrightarrow> queuedData (snd st')"
proof (induction rule: up_step.induct)
  case (finished fn u fails n err ms s st)
  then show ?case by (cases st) (auto intro: queuedData_workerDone)
qed (auto simp: queuedData_scanDir, auto simp: queuedData_def held_def scanNext_def scanSend_def workerTake_def baseStat_def Let_def
    split: option.splits list.splits if_splits)

subsection \<open>The invariant\<close>

text \<open>A table has a file: ClickHouse accepted for it the content the file had when it was closed.\<close>

definition delivered :: "sys \<Rightarrow> bytes \<Rightarrow> bytes \<Rightarrow> bool" where
  "delivered x t fn \<longleftrightarrow> (\<exists>c. syClosed x fn = Some c \<and> (t, fn, c) \<in> sySent x)"

definition hasEntry :: "fs \<Rightarrow> bytes \<Rightarrow> bytes \<Rightarrow> bool" where
  "hasEntry s t n \<longleftrightarrow> entryOf s t n \<noteq> None"

definition filesInv :: "bytes list \<Rightarrow> sys \<Rightarrow> bool" where
  "filesInv tables x \<longleftrightarrow>
     (\<forall>fn c. fileOf (syFs x) fn = Some c \<longrightarrow> syCur x \<noteq> Some fn \<longrightarrow> syClosed x fn = Some c)
   \<and> (\<forall>fn c. syClosed x fn = Some c \<longrightarrow> fileOf (syFs x) fn = Some c \<or> set tables \<subseteq> {t. delivered x t fn})
   \<and> (\<forall>fn. syCur x = Some fn \<longrightarrow> syClosed x fn = None \<and> fileOf (syFs x) fn \<noteq> None)"

definition entriesInv :: "sys \<Rightarrow> bool" where
  "entriesInv x \<longleftrightarrow> linksOk (syFs x)
   \<and> (\<forall>t fn. hasEntry (syFs x) t (doneName fn) \<longrightarrow> delivered x t fn)
   \<and> (\<forall>t fn. hasEntry (syFs x) t fn \<longrightarrow> syCur x \<noteq> Some fn)
   \<and> (\<forall>t fn. (t, fn) \<in> syDone x \<longrightarrow> delivered x t fn)"

definition namesInv :: "sys \<Rightarrow> bool" where
  "namesInv x \<longleftrightarrow> (\<forall>fn \<in> syNames x. isData fn) \<and> dom (fileOf (syFs x)) \<subseteq> syNames x \<and> dom (syClosed x) \<subseteq> syNames x
   \<and> (\<forall>t fn. hasEntry (syFs x) t fn \<longrightarrow> isData fn \<longrightarrow> fn \<in> syNames x)
   \<and> set (syFinish x) \<subseteq> syNames x \<and> (\<forall>fn. syCur x = Some fn \<longrightarrow> fn \<in> syNames x \<and> fn \<notin> set (syFinish x))
   \<and> (\<forall>t. queuedData (syUp x t)) \<and> (\<forall>t fn. (t, fn) \<in> syDone x \<longrightarrow> isData fn)"

definition sysInv :: "bytes list \<Rightarrow> sys \<Rightarrow> bool" where
  "sysInv tables x \<longleftrightarrow> filesInv tables x \<and> entriesInv x \<and> namesInv x"

lemmas inv_defs = filesInv_def entriesInv_def namesInv_def

lemma queuedData_new: "queuedData newBase"
  by (simp add: queuedData_def held_def newBase_def)

lemma sysInv_init: "sysInv tables sysInit"
  by (simp add: sysInv_def inv_defs sysInit_def linksOk_def fileOf_def entryOf_def dirOf_def queuedData_new hasEntry_def dom_def)

lemma fewer_hasEntry: "fewer s s' \<Longrightarrow> hasEntry s' t n \<Longrightarrow> hasEntry s t n"
  unfolding fewer_def hasEntry_def by metis

lemma filesInv_mono:
  assumes "filesInv tables x" "fileOf (syFs y) = fileOf (syFs x)" "syCur y = syCur x" "syClosed y = syClosed x"
    and "\<And>t fn. delivered x t fn \<Longrightarrow> delivered y t fn"
  shows "filesInv tables y"
proof -
  have "set tables \<subseteq> {t. delivered x t f} \<Longrightarrow> set tables \<subseteq> {t. delivered y t f}" for f using assms(5) by blast
  with assms(1) show ?thesis unfolding filesInv_def assms(2-4) by meson
qed

text \<open>Removing entries, making directories.\<close>

lemma sysInv_fewer:
  assumes "sysInv tables x" "fewer (syFs x) s" "fileOf s = fileOf (syFs x)"
  shows "sysInv tables (x\<lparr>syFs := s\<rparr>)"
proof -
  note e = fewer_hasEntry [OF assms(2)]
  have d: "delivered (x\<lparr>syFs := s\<rparr>) = delivered x" by (simp add: delivered_def fun_eq_iff)
  have "filesInv tables (x\<lparr>syFs := s\<rparr>)" using assms(1,3) by (simp add: sysInv_def filesInv_def d)
  moreover have "entriesInv (x\<lparr>syFs := s\<rparr>)"
    using assms(1) linksOk_fewer [OF _ assms(2)] unfolding sysInv_def entriesInv_def d by (simp, blast dest: e)
  moreover have "namesInv (x\<lparr>syFs := s\<rparr>)" using assms(1,3) unfolding sysInv_def namesInv_def by (simp, metis e)
  ultimately show ?thesis by (simp add: sysInv_def)
qed

lemma sysInv_same:
  "sysInv tables x \<Longrightarrow> entryOf s = entryOf (syFs x) \<Longrightarrow> fileOf s = fileOf (syFs x) \<Longrightarrow> sysInv tables (x\<lparr>syFs := s\<rparr>)"
  by (rule sysInv_fewer) (simp_all add: fewer_def)

lemma sysInv_link:
  assumes "sysInv tables x" "linkTable fails fn t (syFs x) = (s, err)" "fn \<in> syNames x" "syCur x \<noteq> Some fn"
  shows "sysInv tables (x\<lparr>syFs := s\<rparr>)"
proof -
  note eff = linkTable_effect [OF assms(2)]
  have data: "dataName fn" using assms(1,3) unfolding sysInv_def namesInv_def isData_def by blast
  show ?thesis
  proof (cases "entryOf s = entryOf (syFs x)")
    case True
    then show ?thesis using sysInv_same [OF assms(1)] eff(1) by blast
  next
    case False
    then have e: "entryOf s = (entryOf (syFs x))(t := (entryOf (syFs x) t)(fn \<mapsto> Symlink fn))" using eff(2) by blast
    have nd: "doneName g \<noteq> fn" for g using data by (cases fn) (auto simp: HasPrefix_def)
    have d: "delivered (x\<lparr>syFs := s\<rparr>) = delivered x" by (simp add: delivered_def fun_eq_iff)
    have h: "hasEntry s t' n \<longleftrightarrow> hasEntry (syFs x) t' n \<or> t' = t \<and> n = fn" for t' n by (simp add: hasEntry_def e)
    have "linksOk (syFs x)" using assms(1) by (simp add: sysInv_def entriesInv_def)
    then have "linksOk s" using data unfolding linksOk_def e by (auto split: if_splits)
    then have "entriesInv (x\<lparr>syFs := s\<rparr>)"
      using assms(1,4) nd by (auto simp: sysInv_def entriesInv_def d h)
    moreover have "filesInv tables (x\<lparr>syFs := s\<rparr>)" using assms(1) by (simp add: sysInv_def filesInv_def d eff(1))
    moreover have "namesInv (x\<lparr>syFs := s\<rparr>)" using assms(1,3) by (auto simp: sysInv_def namesInv_def eff(1) h)
    ultimately show ?thesis by (simp add: sysInv_def)
  qed
qed

lemma sysInv_cleanup:
  assumes "sysInv tables x" "\<forall>t \<in> set tables. \<not> isData t" "\<forall>t \<in> set tables. \<not> fails (SysStat (Sub t (doneName fn)))"
    and c: "Cleanup fails fn tables (syFs x) = (s, removed, err)"
  shows "sysInv tables (x\<lparr>syFs := s\<rparr>)"
proof (cases removed)
  case False
  with Cleanup_effect(1,2) [OF c] sysInv_fewer [OF assms(1)] show ?thesis by simp
next
  case True
  have "delivered x t fn" if "t \<in> set tables" for t
  proof -
    have "dom (fileOf (syFs x)) \<subseteq> syNames x" "\<forall>fn \<in> syNames x. isData fn" using assms(1) by (simp_all add: sysInv_def namesInv_def)
    then have "t \<notin> dom (fileOf (syFs x))" using assms(2) that by blast
    then have "fileOf (syFs x) t = None" by (simp add: domIff)
    then have "hasEntry (syFs x) t (doneName fn)"
      unfolding hasEntry_def using osStat_marker [OF Cleanup_effect(4) [OF c True that]] assms(3) that by blast
    then show ?thesis using assms(1) by (simp add: sysInv_def entriesInv_def)
  qed
  then have all: "set tables \<subseteq> {t. delivered x t fn}" by blast
  have fw: "fewer (syFs x) s" by (rule Cleanup_effect(1) [OF c])
  have files: "fileOf s = (fileOf (syFs x))(fn := None)" using Cleanup_effect(2) [OF c] True by simp
  let ?x = "x\<lparr>syFs := s\<rparr>"
  note e = fewer_hasEntry [OF fw]
  have d: "delivered ?x = delivered x" by (simp add: delivered_def fun_eq_iff)
  have F: "\<forall>fn c. fileOf (syFs x) fn = Some c \<longrightarrow> syCur x \<noteq> Some fn \<longrightarrow> syClosed x fn = Some c"
      "\<forall>fn c. syClosed x fn = Some c \<longrightarrow> fileOf (syFs x) fn = Some c \<or> set tables \<subseteq> {t. delivered x t fn}"
      "\<forall>fn. syCur x = Some fn \<longrightarrow> syClosed x fn = None \<and> fileOf (syFs x) fn \<noteq> None"
    using assms(1) by (simp_all add: sysInv_def filesInv_def)
  obtain t0 where "t0 \<in> set tables" using Cleanup_effect(3) [OF c True] by (meson last_in_set)
  then have "delivered x t0 fn" using all by blast
  then obtain c0 where c0: "syClosed x fn = Some c0" unfolding delivered_def by blast
  have cur: "syCur x \<noteq> Some fn"
  proof
    assume "syCur x = Some fn"
    with F(3) have "syClosed x fn = None" by simp
    with c0 show False by simp
  qed
  have "filesInv tables ?x"
    unfolding filesInv_def d
  proof (intro conjI)
    show "\<forall>fn c. fileOf (syFs ?x) fn = Some c \<longrightarrow> syCur ?x \<noteq> Some fn \<longrightarrow> syClosed ?x fn = Some c" using F(1) by (simp add: files)
    show "\<forall>fn c. syClosed ?x fn = Some c \<longrightarrow> fileOf (syFs ?x) fn = Some c \<or> set tables \<subseteq> {t. delivered x t fn}"
      using F(2) all by (simp add: files)
    show "\<forall>fn. syCur ?x = Some fn \<longrightarrow> syClosed ?x fn = None \<and> fileOf (syFs ?x) fn \<noteq> None" using F(3) cur by (simp add: files)
  qed
  moreover have "entriesInv ?x" using assms(1) linksOk_fewer [OF _ fw] unfolding sysInv_def entriesInv_def d by (simp, blast dest: e)
  moreover have dom: "dom (fileOf s) \<subseteq> syNames x" using assms(1) files by (auto simp: sysInv_def namesInv_def)
  moreover have "namesInv ?x" using assms(1) dom unfolding sysInv_def namesInv_def by (simp, metis e)
  ultimately show ?thesis by (simp add: sysInv_def)
qed

text \<open>Uploading: the file is closed, so what is sent is all of it.\<close>

lemma sysInv_upload:
  assumes "sysInv tables x" "fn \<in> set (ubActive (syUp x t))" "entryOf (syFs x) t fn = Some (Symlink g)" "fileOf (syFs x) g = Some c"
  shows "sysInv tables (x\<lparr>sySent := insert (t, fn, c) (sySent x), syDone := insert (t, fn) (syDone x)\<rparr>)"
proof -
  let ?x = "x\<lparr>sySent := insert (t, fn, c) (sySent x), syDone := insert (t, fn) (syDone x)\<rparr>"
  have q: "queuedData (syUp x t)" and links: "linksOk (syFs x)" using assms(1) by (simp_all add: sysInv_def namesInv_def entriesInv_def)
  have data: "dataName fn" using q assms(2) unfolding queuedData_def held_def by auto
  have g: "g = fn" using linksOk_entry(1) [OF links data, of t] assms(3) by simp
  have "hasEntry (syFs x) t fn" using assms(3) by (simp add: hasEntry_def)
  then have cur: "syCur x \<noteq> Some fn" using assms(1) unfolding sysInv_def entriesInv_def by blast
  then have closed: "syClosed x fn = Some c" using assms(1,4) g unfolding sysInv_def filesInv_def by blast
  have d: "delivered ?x t' f \<longleftrightarrow> delivered x t' f \<or> t' = t \<and> f = fn" for t' f
    using closed by (auto simp: delivered_def)
  then have mono: "delivered x t' f \<Longrightarrow> delivered ?x t' f" for t' f by simp
  have "filesInv tables ?x" by (rule filesInv_mono [of _ x]) (use assms(1) mono in \<open>simp_all add: sysInv_def\<close>)
  moreover have "entriesInv ?x" using assms(1) unfolding sysInv_def entriesInv_def by (simp add: d)
  moreover have "namesInv ?x" using assms(1) data unfolding sysInv_def namesInv_def by (simp add: isData_def)
  ultimately show ?thesis by (simp add: sysInv_def)
qed

lemma sysInv_mark:
  assumes "sysInv tables x" "(t, fn) \<in> syDone x" "workerDone fails t fn (n, None :: nat option) ms (syFs x, syUp x t) = (s, u)"
  shows "sysInv tables (x\<lparr>syFs := s, syUp := (syUp x)(t := u)\<rparr>)"
proof -
  let ?x = "x\<lparr>syFs := s, syUp := (syUp x)(t := u)\<rparr>"
  obtain err where r: "osRename fails t fn (doneName fn) (syFs x) = (s, err)"
    using assms(3) by (auto simp: workerDone_def MarkAsFinished_def Let_def prod_eq_iff)
  note eff = osRename_effect [OF r]
  have data: "dataName fn" and sent: "delivered x t fn" and links: "linksOk (syFs x)"
    using assms(1,2) unfolding sysInv_def namesInv_def entriesInv_def isData_def by blast+
  have h: "hasEntry s t' m \<Longrightarrow> hasEntry (syFs x) t' m \<or> t' = t \<and> m = doneName fn" for t' m
    by (auto simp: hasEntry_def eff(2) split: if_splits)
  have d: "delivered ?x = delivered x" by (simp add: delivered_def fun_eq_iff)
  have nd: "doneName g \<noteq> f" if "dataName f" for g f using that by (cases f) (auto simp: HasPrefix_def)
  have q: "queuedData u" by (rule queuedData_workerDone [OF _ assms(3)]) (use assms(1) in \<open>simp add: sysInv_def namesInv_def\<close>)
  have lk: "linksOk s"
  proof (cases "err = None")
    case True
    then have "entryOf (syFs x) t fn = Some (Symlink fn)" using linksOk_entry(1) [OF links data] eff(3) by blast
    with True eff(2) links data show ?thesis unfolding linksOk_def by (auto split: if_splits)
  next
    case False
    with eff(2) links show ?thesis by (simp add: linksOk_def)
  qed
  have cur: "syCur x \<noteq> Some (doneName fn)" using assms(1) nd [of "doneName fn"] unfolding sysInv_def namesInv_def isData_def by metis
  have "filesInv tables ?x" by (rule filesInv_mono [of _ x]) (use assms(1) d in \<open>simp_all add: sysInv_def eff(1)\<close>)
  moreover have "entriesInv ?x"
    using assms(1) sent lk cur h unfolding sysInv_def entriesInv_def d by (simp, metis list.inject)
  moreover have he: "hasEntry s t' m \<Longrightarrow> isData m \<Longrightarrow> hasEntry (syFs x) t' m" for t' m
    using h nd unfolding isData_def by blast
  have "namesInv ?x" using assms(1) q unfolding sysInv_def namesInv_def by (simp add: eff(1), metis he)
  ultimately show ?thesis by (simp add: sysInv_def)
qed

lemma sysInv_create:
  assumes "sysInv tables x" "syCur x = None" "isData fn" "fn \<notin> syNames x"
  shows "sysInv tables (x\<lparr>syFs := putFile fn [] (syFs x), syCur := Some fn, syNames := insert fn (syNames x)\<rparr>)"
proof -
  let ?x = "x\<lparr>syFs := putFile fn [] (syFs x), syCur := Some fn, syNames := insert fn (syNames x)\<rparr>"
  have files: "fileOf (syFs ?x) = (fileOf (syFs x))(fn \<mapsto> [])" and h: "hasEntry (syFs ?x) = hasEntry (syFs x)"
    by (simp_all add: putFile_def hasEntry_def fun_eq_iff)
  have N: "dom (fileOf (syFs x)) \<subseteq> syNames x" "dom (syClosed x) \<subseteq> syNames x" "set (syFinish x) \<subseteq> syNames x"
      "\<forall>t fn. hasEntry (syFs x) t fn \<longrightarrow> isData fn \<longrightarrow> fn \<in> syNames x"
    using assms(1) by (simp_all add: sysInv_def namesInv_def)
  have new: "syClosed x fn = None" "fn \<notin> set (syFinish x)" "\<And>t. \<not> hasEntry (syFs x) t fn" using N assms(3,4) by blast+
  have d: "delivered ?x = delivered x" by (simp add: delivered_def fun_eq_iff)
  have "filesInv tables ?x"
    using assms(1,2) new(1) unfolding sysInv_def filesInv_def d files by (auto split: if_splits)
  moreover have "linksOk (syFs ?x)" using assms(1) by (simp add: sysInv_def entriesInv_def linksOk_def putFile_def)
  then have "entriesInv ?x" using assms(1) unfolding sysInv_def entriesInv_def d h by (simp, metis new(3))
  moreover have "namesInv ?x"
    using assms(1,3) new(2) N unfolding sysInv_def namesInv_def h files by auto
  ultimately show ?thesis by (simp add: sysInv_def)
qed

lemma sysInv_append:
  assumes "sysInv tables x" "syCur x = Some fn"
  shows "sysInv tables (x\<lparr>syFs := putFile fn c (syFs x)\<rparr>)"
proof -
  let ?x = "x\<lparr>syFs := putFile fn c (syFs x)\<rparr>"
  have files: "fileOf (syFs ?x) = (fileOf (syFs x))(fn \<mapsto> c)" and h: "hasEntry (syFs ?x) = hasEntry (syFs x)"
    by (simp_all add: putFile_def hasEntry_def fun_eq_iff)
  have d: "delivered ?x = delivered x" by (simp add: delivered_def fun_eq_iff)
  have "filesInv tables ?x" using assms unfolding sysInv_def filesInv_def d files by (auto split: if_splits)
  moreover have "linksOk (syFs ?x)" using assms(1) by (simp add: sysInv_def entriesInv_def linksOk_def putFile_def)
  then have "entriesInv ?x" using assms(1) unfolding sysInv_def entriesInv_def d h by simp
  moreover have "namesInv ?x" using assms unfolding sysInv_def namesInv_def h files by auto
  ultimately show ?thesis by (simp add: sysInv_def)
qed

text \<open>A file is closed, by the writer or by the end of the process.\<close>

lemma sysInv_closed:
  assumes "sysInv tables x" "syCur x = Some fn" "fileOf (syFs x) fn = Some c"
  shows "sysInv tables (x\<lparr>syCur := None, syClosed := (syClosed x)(fn \<mapsto> c)\<rparr>)"
proof -
  let ?x = "x\<lparr>syCur := None, syClosed := (syClosed x)(fn \<mapsto> c)\<rparr>"
  have old: "syClosed x fn = None" using assms(1,2) by (simp add: sysInv_def filesInv_def)
  have mono: "delivered x t f \<Longrightarrow> delivered ?x t f" for t f using old by (auto simp: delivered_def)
  then have sub: "set tables \<subseteq> {t. delivered x t f} \<Longrightarrow> set tables \<subseteq> {t. delivered ?x t f}" for f by blast
  have F: "\<forall>fn c. fileOf (syFs x) fn = Some c \<longrightarrow> syCur x \<noteq> Some fn \<longrightarrow> syClosed x fn = Some c"
      "\<forall>fn c. syClosed x fn = Some c \<longrightarrow> fileOf (syFs x) fn = Some c \<or> set tables \<subseteq> {t. delivered x t fn}"
    using assms(1) by (simp_all add: sysInv_def filesInv_def)
  have "filesInv tables ?x"
    unfolding filesInv_def
  proof (intro conjI allI impI)
    show "syClosed ?x f = Some c'" if "fileOf (syFs ?x) f = Some c'" for f c' using that F(1) assms(2,3) by (cases "f = fn") auto
    show "fileOf (syFs ?x) f = Some c' \<or> set tables \<subseteq> {t. delivered ?x t f}" if "syClosed ?x f = Some c'" for f c'
      using that F(2) assms(3) sub [of f] by (cases "f = fn") auto
  qed simp_all
  moreover have "entriesInv ?x" using assms(1) mono unfolding sysInv_def entriesInv_def by simp
  moreover have "namesInv ?x" using assms(1,2) unfolding sysInv_def namesInv_def by auto
  ultimately show ?thesis by (simp add: sysInv_def)
qed

lemma sysInv_finish:
  assumes "sysInv tables x" "fn \<in> syNames x \<or> isData fn" "syCur x = None"
  shows "sysInv tables (x\<lparr>syFinish := fn # syFinish x, syNames := insert fn (syNames x)\<rparr>)"
proof -
  let ?x = "x\<lparr>syFinish := fn # syFinish x, syNames := insert fn (syNames x)\<rparr>"
  have d: "delivered ?x = delivered x" by (simp add: delivered_def fun_eq_iff)
  have "filesInv tables ?x" by (rule filesInv_mono [of _ x]) (use assms(1) d in \<open>simp_all add: sysInv_def\<close>)
  moreover have "entriesInv ?x" using assms(1) unfolding sysInv_def entriesInv_def d by simp
  moreover have "namesInv ?x" using assms unfolding sysInv_def namesInv_def by auto
  ultimately show ?thesis by (simp add: sysInv_def)
qed

lemma sysInv_restart:
  assumes "sysInv tables x" "syCur x = None"
  shows "sysInv tables (x\<lparr>syCur := None, syFinish := [], syUp := (\<lambda>_. newBase), syDone := {}\<rparr>)"
proof -
  let ?x = "x\<lparr>syCur := None, syFinish := [], syUp := (\<lambda>_. newBase), syDone := {}\<rparr>"
  have d: "delivered ?x = delivered x" by (simp add: delivered_def fun_eq_iff)
  have "filesInv tables ?x" by (rule filesInv_mono [of _ x]) (use assms d in \<open>simp_all add: sysInv_def\<close>)
  moreover have "entriesInv ?x" using assms(1) unfolding sysInv_def entriesInv_def d by simp
  moreover have "namesInv ?x" using assms(1) unfolding sysInv_def namesInv_def by (simp add: queuedData_new)
  ultimately show ?thesis by (simp add: sysInv_def)
qed

lemma sysInv_queue:
  assumes "sysInv tables x" "queuedData u"
  shows "sysInv tables (x\<lparr>syUp := (syUp x)(t := u)\<rparr>)"
proof -
  let ?x = "x\<lparr>syUp := (syUp x)(t := u)\<rparr>"
  have d: "delivered ?x = delivered x" by (simp add: delivered_def fun_eq_iff)
  have "filesInv tables ?x" by (rule filesInv_mono [of _ x]) (use assms d in \<open>simp_all add: sysInv_def\<close>)
  moreover have "entriesInv ?x" using assms(1) unfolding sysInv_def entriesInv_def d by simp
  moreover have "namesInv ?x" using assms unfolding sysInv_def namesInv_def by simp
  ultimately show ?thesis by (simp add: sysInv_def)
qed

lemma sysInv_names: "sysInv tables x \<Longrightarrow> fileOf (syFs x) fn \<noteq> None \<or> fn \<in> set (syFinish x) \<or> syCur x = Some fn \<Longrightarrow> fn \<in> syNames x"
  unfolding sysInv_def namesInv_def by (metis domIff subsetD)

lemma sys_step_inv:
  assumes "sys_step tables x y" "sysInv tables x" "\<forall>t \<in> set tables. \<not> isData t"
  shows "sysInv tables y"
  using assms
proof (induction rule: sys_step.induct)
  case (create x fn)
  then show ?case by (simp add: sysInv_create)
next
  case (create_failed x fn)
  then show ?case by (simp add: sysInv_finish)
next
  case (append x fn c p)
  then show ?case by (simp add: sysInv_append)
next
  case (close x fn c)
  have "sysInv tables (x\<lparr>syCur := None, syClosed := (syClosed x)(fn \<mapsto> c)\<rparr>)" using close by (simp add: sysInv_closed)
  moreover have "fn \<in> syNames x" using sysInv_names [of tables x fn] close by simp
  ultimately have "sysInv tables (x\<lparr>syCur := None, syClosed := (syClosed x)(fn \<mapsto> c), syFinish := fn # syFinish x, syNames := insert fn (syNames x)\<rparr>)"
    using sysInv_finish [of tables "x\<lparr>syCur := None, syClosed := (syClosed x)(fn \<mapsto> c)\<rparr>" fn] by simp
  then show ?case using \<open>fn \<in> syNames x\<close> by (simp add: insert_absorb)
next
  case (link fn x t fails s err)
  have "fn \<in> syNames x" using sysInv_names [OF link.prems(1)] link.hyps(1) by blast
  moreover have "syCur x \<noteq> Some fn" using link.hyps(1) link.prems(1) unfolding sysInv_def namesInv_def by auto
  ultimately show ?case using sysInv_link [OF link.prems(1) link.hyps(3)] by blast
next
  case (make_dir t fails x s err)
  then show ?case using ensureDir_keeps [of fails t "syFs x" s err] by (intro sysInv_same) simp_all
next
  case (queue t x u)
  have "queuedData (syUp x t)" using queue.prems(1) by (simp add: sysInv_def namesInv_def)
  with up_step_data [OF queue.hyps] have "queuedData u" by simp
  with queue.prems(1) show ?case by (rule sysInv_queue)
next
  case (upload fn x t g c)
  then show ?case by (simp add: sysInv_upload)
next
  case (mark t fn x fails n ms s u)
  then show ?case by (simp add: sysInv_mark)
next
  case (cleanup fn fails x s removed err)
  then show ?case by (intro sysInv_cleanup) simp_all
next
  case (drop_broken fails t n x s err)
  then show ?case using dropBroken_effect [of fails t n "syFs x" s err] by (intro sysInv_fewer) simp_all
next
  case (crash x)
  show ?case
  proof (cases "syCur x")
    case None
    with sysInv_restart [OF crash.prems(1)] show ?thesis by simp
  next
    case (Some fn)
    then obtain c where c: "fileOf (syFs x) fn = Some c" using crash.prems(1) by (auto simp: sysInv_def filesInv_def)
    from sysInv_restart [OF sysInv_closed [OF crash.prems(1) Some c]] Some c show ?thesis by (cases x) simp
  qed
qed


subsection \<open>An example\<close>

text \<open>A file is created, written and closed.\<close>

definition lifeName :: bytes where "lifeName = str ''default.1''"

definition lifeTable :: bytes where "lifeTable = str ''t''"

definition life :: "sys list" where
  "life =
     (let x0 = sysInit;
          x1 = x0\<lparr>syFs := putFile lifeName [] (syFs x0), syCur := Some lifeName, syNames := insert lifeName (syNames x0)\<rparr>;
          x2 = x1\<lparr>syFs := putFile lifeName ([] @ [1, 2]) (syFs x1)\<rparr>;
          x3 = x2\<lparr>syCur := None, syClosed := (syClosed x2)(lifeName \<mapsto> [1, 2]), syFinish := lifeName # syFinish x2\<rparr>
      in [x0, x1, x2, x3])"

lemma life_reached: "(sys_step [lifeTable])\<^sup>*\<^sup>* sysInit (life ! 3)"
proof -
  have "sys_step [lifeTable] sysInit (life ! 1)"
    unfolding life_def Let_def nth_Cons_Suc One_nat_def nth_Cons_0
    by (rule create) (simp_all add: sysInit_def isData_def lifeName_def HasPrefix_def)
  moreover have "sys_step [lifeTable] (life ! 1) (life ! 2)"
    unfolding life_def Let_def numeral_2_eq_2 nth_Cons_Suc One_nat_def nth_Cons_0
    by (rule append) (simp_all add: putFile_def)
  moreover have "sys_step [lifeTable] (life ! 2) (life ! 3)"
    unfolding life_def Let_def numeral_3_eq_3 numeral_2_eq_2 nth_Cons_Suc One_nat_def nth_Cons_0
    by (rule close) (simp_all add: putFile_def)
  ultimately show ?thesis by (meson rtranclp.rtrancl_into_rtrancl rtranclp.rtrancl_refl)
qed


subsection \<open>The operations are made of these steps\<close>

abbreviation runs :: "bytes list \<Rightarrow> sys \<Rightarrow> fs \<Rightarrow> fs \<Rightarrow> bool" where
  "runs tables x s s' \<equiv> (sys_step tables)\<^sup>*\<^sup>* (x\<lparr>syFs := s\<rparr>) (x\<lparr>syFs := s'\<rparr>)"

lemma forErr_runs:
  assumes "forErr f ys s = (s', err)" "\<And>y s s' err. y \<in> set ys \<Longrightarrow> f y s = (s', err) \<Longrightarrow> runs tables x s s'"
  shows "runs tables x s s'"
  by (rule forErr_invariant [OF assms(1), where I = "\<lambda>s'. runs tables x s s'"]) (auto dest: assms(2))

lemma cleanupLoop_runs:
  assumes "cleanupLoop fails tables fns cnt s = (s', cnt', err)" "\<forall>fn \<in> set fns. isData fn"
    and "\<And>t fn. \<not> fails (SysStat (Sub t fn))"
  shows "runs tables x s s'"
  using assms(1,2)
proof (induction fns arbitrary: s cnt)
  case (Cons fn fns)
  obtain s1 r e where c: "Cleanup fails fn tables s = (s1, r, e)" by (metis prod_cases3)
  have "sys_step tables (x\<lparr>syFs := s\<rparr>) (x\<lparr>syFs := s\<rparr>\<lparr>syFs := s1\<rparr>)"
    by (rule cleanup [where fn = fn]) (use Cons.prems(2) assms(3) c in auto)
  then have one: "runs tables x s s1" by (simp add: r_into_rtranclp)
  show ?case
  proof (cases e)
    case None
    with Cons.prems c have "cleanupLoop fails tables fns (if r then cnt - 1 else cnt) s1 = (s', cnt', err)" by (simp add: Let_def)
    from Cons.IH [OF this] Cons.prems(2) one show ?thesis by (auto intro: rtranclp_trans)
  next
    case (Some a)
    with Cons.prems(1) c one show ?thesis by (simp add: Let_def)
  qed
qed simp

lemma ensureDir_runs: "t \<in> set tables \<Longrightarrow> ensureDir fails t s = (s', err) \<Longrightarrow> runs tables x s s'"
  using make_dir [of t tables fails "x\<lparr>syFs := s\<rparr>" s' err] by (simp add: r_into_rtranclp)

lemma dropBroken_runs: "dropBroken fails t n s = (s', err) \<Longrightarrow> runs tables x s s'"
  using drop_broken [of fails t n "x\<lparr>syFs := s\<rparr>" s' err tables] by (simp add: r_into_rtranclp)

lemma dropBrokenAll_runs: "dropBrokenAll fails t s = (s', err) \<Longrightarrow> runs tables x s s'"
  by (auto simp: dropBrokenAll_def split: sum.splits intro: forErr_runs dropBroken_runs)

text \<open>
  A run of the cleanup, whatever fails in it, is a sequence of steps of the life cycle.
\<close>

theorem cleanup_is_steps:
  assumes "writerCleanup fails tables (syFs x, unhandled) = ((s', unhandled'), err)" "\<And>t fn. \<not> fails (SysStat (Sub t fn))"
  shows "(sys_step tables)\<^sup>*\<^sup>* x (x\<lparr>syFs := s'\<rparr>)"
proof -
  obtain s1 e1 where 1: "forErr (ensureDir fails) tables (syFs x) = (s1, e1)" by fastforce
  then have r1: "runs tables x (syFs x) s1" by (rule forErr_runs) (auto intro: ensureDir_runs)
  have "runs tables x (syFs x) s'"
  proof (cases "e1 = None \<and> \<not> fails (SysReadDir None)")
    case False
    with assms(1) 1 r1 show ?thesis by (auto simp: writerCleanup_def readTop_def split: option.splits)
  next
    case True
    let ?names = "map fst (filter isDataName (sort_key fst (map (\<lambda>f. (fst f, False)) (fsFiles s1) @ map (\<lambda>d. (fst d, True)) (fsDirs s1))))"
    obtain s2 cnt e2 where 2: "cleanupLoop fails tables ?names (length ?names) s1 = (s2, cnt, e2)" by (metis prod_cases3)
    have "runs tables x s1 s2" by (rule cleanupLoop_runs [OF 2]) (auto simp: isDataName_def isData_def assms(2))
    with r1 have r2: "runs tables x (syFs x) s2" by (rule rtranclp_trans)
    obtain s3 e3 where 3: "forErr (dropBrokenAll fails) tables s2 = (s3, e3)" by fastforce
    then have "runs tables x s2 s3" by (rule forErr_runs) (rule dropBrokenAll_runs)
    with r2 have r3: "runs tables x (syFs x) s3" by (rule rtranclp_trans)
    show ?thesis
    proof (cases e2)
      case None
      with True assms(1) 1 2 3 have "s' = s3" by (simp add: writerCleanup_def readTop_def Let_def)
      with r3 show ?thesis by simp
    next
      case (Some e)
      with True assms(1) 1 2 have "s' = s2" by (simp add: writerCleanup_def readTop_def Let_def)
      with r2 show ?thesis by simp
    qed
  qed
  then show ?thesis by simp
qed

theorem cleanup_is_steps_witness:
  "(sys_step [lifeTable])\<^sup>*\<^sup>* sysInit (sysInit\<lparr>syFs := fst (fst (writerCleanup calm [lifeTable] (syFs sysInit, 0)))\<rparr>)"
  by (rule cleanup_is_steps [where fails = calm and unhandled = 0]) (auto simp: prod_eq_iff)

end
