(* ===== verification/Stop.thy ===== *)
theory Stop
  imports Prelude
begin

text \<open>
  \<^verbatim>\<open>helper/stop/stop.go\<close>: the start and stop protocol every receiver, uploader and writer embeds. A
  context is a number; the goroutines of the owner are listed with the context they got. \<open>Stop\<close>
  holds the lock from the cancellation until the wait group is empty, which is the program
  counter \<open>Waiting\<close>.
\<close>

datatype go_func = GoNil | GoStart nat | GoNop

datatype stop_pc = Idle | Waiting

record stop_struct =
  spCtx :: "nat option"
  spCancelled :: "nat list"
  spWg :: nat
  spGo :: go_func
  spRunning :: "nat list"
  spNext :: nat
  spPc :: stop_pc

definition newStop :: stop_struct where
  "newStop = \<lparr>spCtx = None, spCancelled = [], spWg = 0, spGo = GoNil, spRunning = [], spNext = 0, spPc = Idle\<rparr>"

text \<open>\<open>s.Go(callable)\<close>: before the first start the field is nil.\<close>

definition Go :: "stop_struct \<Rightarrow> stop_struct option" where
  "Go s = (case spGo s of
     GoNil \<Rightarrow> None
   | GoNop \<Rightarrow> Some s
   | GoStart c \<Rightarrow> Some (s\<lparr>spWg := spWg s + 1, spRunning := c # spRunning s\<rparr>))"

text \<open>A goroutine returns.\<close>

definition goExit :: "nat \<Rightarrow> stop_struct \<Rightarrow> stop_struct" where
  "goExit c s = s\<lparr>spWg := spWg s - 1, spRunning := remove1 c (spRunning s)\<rparr>"

text \<open>\<open>doStop\<close> up to and after \<open>wg.Wait()\<close>.\<close>

definition doStop_cancel :: "stop_struct \<Rightarrow> stop_struct" where
  "doStop_cancel s =
     (case spCtx s of None \<Rightarrow> s | Some c \<Rightarrow> s\<lparr>spCancelled := c # spCancelled s, spPc := Waiting\<rparr>)"

definition doStop_finish :: "stop_struct \<Rightarrow> stop_struct option" where
  "doStop_finish s =
     (if spPc s = Waiting \<and> spWg s = 0 then Some (s\<lparr>spCtx := None, spGo := GoNop, spPc := Idle\<rparr>) else None)"

text \<open>\<open>StartFunc\<close>: the start procedure returns the state and whether it failed.\<close>

definition StartFunc :: "(stop_struct \<Rightarrow> stop_struct \<times> bool) \<Rightarrow> stop_struct \<Rightarrow> stop_struct \<times> bool" where
  "StartFunc startProcedure s =
     (if spCtx s \<noteq> None then (s, False)
      else
        (let c = spNext s;
             (s, failed) = startProcedure (s\<lparr>spCtx := Some c, spGo := GoStart c, spNext := c + 1\<rparr>)
         in (if failed then doStop_cancel s else s, failed)))"

definition StopFunc :: "stop_struct \<Rightarrow> stop_struct" where
  "StopFunc s = (if spCtx s = None then s else doStop_cancel s)"

subsection \<open>Interleaving\<close>

text \<open>A start procedure starts some goroutines, and may then fail.\<close>

fun launch :: "nat \<Rightarrow> bool \<Rightarrow> stop_struct \<Rightarrow> stop_struct \<times> bool" where
  "launch 0 failed s = (s, failed)"
| "launch (Suc n) failed s = (case Go s of None \<Rightarrow> (s, True) | Some s \<Rightarrow> launch n failed s)"

inductive stop_step :: "stop_struct \<Rightarrow> stop_struct \<Rightarrow> bool" where
  start: "spPc s = Idle \<Longrightarrow> stop_step s (fst (StartFunc (launch n failed) s))"
| go: "Go s = Some s' \<Longrightarrow> stop_step s s'"
| goroutine_exit: "c \<in> set (spRunning s) \<Longrightarrow> stop_step s (goExit c s)"
| stop: "spPc s = Idle \<Longrightarrow> stop_step s (StopFunc s)"
| stopped: "doStop_finish s = Some s' \<Longrightarrow> stop_step s s'"

definition stopInv :: "stop_struct \<Rightarrow> bool" where
  "stopInv s \<longleftrightarrow> spWg s = length (spRunning s) \<and> (\<forall>c \<in> set (spRunning s). spCtx s = Some c)
     \<and> (\<forall>c. spGo s = GoStart c \<longrightarrow> spCtx s = Some c)
     \<and> (spPc s = Waiting \<longrightarrow> (\<exists>c. spCtx s = Some c \<and> c \<in> set (spCancelled s)))"

lemma stopInv_new: "stopInv newStop"
  by (simp add: stopInv_def newStop_def)

lemma stopInv_Go: "stopInv s \<Longrightarrow> Go s = Some s' \<Longrightarrow> stopInv s'"
  by (auto simp: stopInv_def Go_def split: go_func.splits)

lemma launch_inv: "stopInv s \<Longrightarrow> stopInv (fst (launch n failed s))"
  by (induction n arbitrary: s) (auto split: option.splits intro: stopInv_Go)

lemma stopInv_cancel: "stopInv s \<Longrightarrow> stopInv (doStop_cancel s)"
  by (auto simp: stopInv_def doStop_cancel_def split: option.splits)

lemma stopInv_StartFunc:
  assumes "stopInv s" "spPc s = Idle"
  shows "stopInv (fst (StartFunc (launch n failed) s))"
proof (cases "spCtx s")
  case None
  let ?s = "s\<lparr>spCtx := Some (spNext s), spGo := GoStart (spNext s), spNext := spNext s + 1\<rparr>"
  have "stopInv ?s" using assms None by (auto simp: stopInv_def)
  from launch_inv [OF this, of n failed] stopInv_cancel show ?thesis
    using None by (auto simp: StartFunc_def Let_def split: prod.splits)
next
  case (Some c)
  with assms show ?thesis by (simp add: StartFunc_def)
qed

lemma stop_step_inv: "stop_step s s' \<Longrightarrow> stopInv s \<Longrightarrow> stopInv s'"
proof (induction rule: stop_step.induct)
  case (goroutine_exit c s)
  have "spCtx s = Some x" if "x \<in> set (remove1 c (spRunning s))" for x
    using goroutine_exit.prems subsetD [OF set_remove1_subset that] by (simp add: stopInv_def)
  with goroutine_exit show ?case unfolding stopInv_def by (auto simp: goExit_def length_remove1)
next
  case (stop s)
  then show ?case by (simp add: StopFunc_def stopInv_cancel)
next
  case (stopped s s')
  then show ?case by (auto simp: stopInv_def doStop_finish_def split: if_splits)
qed (simp_all add: stopInv_StartFunc stopInv_Go)

lemma stop_reach_inv: "stop_step\<^sup>*\<^sup>* newStop s \<Longrightarrow> stopInv s"
  by (induction rule: rtranclp_induct) (auto simp: stopInv_new intro: stop_step_inv)

text \<open>
  Whenever a component is stopped, no goroutine of it is running, and its Go method starts
  none.
\<close>

theorem stopped_is_quiet:
  assumes "stop_step\<^sup>*\<^sup>* newStop s" "spCtx s = None"
  shows "spRunning s = [] \<and> spWg s = 0 \<and> Go s \<in> {None, Some s}"
proof -
  from stop_reach_inv [OF assms(1)] have inv: "stopInv s" .
  then have "spRunning s = []" using assms(2) by (cases "spRunning s") (auto simp: stopInv_def)
  with inv assms(2) show ?thesis by (auto simp: stopInv_def Go_def split: go_func.splits)
qed

lemma drain:
  assumes "l = spRunning s"
  shows "stop_step\<^sup>*\<^sup>* s (fold goExit l s) \<and> spRunning (fold goExit l s) = [] \<and> spWg (fold goExit l s) = spWg s - length l
     \<and> spPc (fold goExit l s) = spPc s"
  using assms
proof (induction l arbitrary: s)
  case Nil
  then show ?case by simp
next
  case (Cons c l)
  have r: "spRunning s = c # l" using Cons.prems by simp
  then have "stop_step s (goExit c s)" by (intro goroutine_exit) simp
  moreover have "l = spRunning (goExit c s)" "spWg (goExit c s) = spWg s - 1" "spPc (goExit c s) = spPc s"
    using r by (simp_all add: goExit_def)
  ultimately show ?case using Cons.IH [of "goExit c s"] by (auto intro: converse_rtranclp_into_rtranclp)
qed

text \<open>
  C38. Once the cancelled goroutines return, Stop returns, and every running goroutine has a
  cancelled context.
\<close>

theorem stop_returns:
  assumes "stop_step\<^sup>*\<^sup>* newStop s" "spPc s = Waiting"
  shows "\<exists>s'. doStop_finish (fold goExit (spRunning s) s) = Some s' \<and> spCtx s' = None \<and> spPc s' = Idle
     \<and> set (spRunning s) \<subseteq> set (spCancelled s) \<and> stop_step\<^sup>*\<^sup>* s s'"
proof -
  from stop_reach_inv [OF assms(1)] have inv: "stopInv s" .
  let ?s = "fold goExit (spRunning s) s"
  have steps: "stop_step\<^sup>*\<^sup>* s ?s" and drained: "spRunning ?s = []" "spWg ?s = 0" "spPc ?s = Waiting"
    using drain [OF refl, of s] inv assms(2) by (simp_all add: stopInv_def)
  obtain s' where s': "doStop_finish ?s = Some s'" "spCtx s' = None" "spPc s' = Idle"
    using drained by (simp add: doStop_finish_def)
  moreover have "stop_step\<^sup>*\<^sup>* s s'" using steps stopped [OF s'(1)] by (rule rtranclp.rtrancl_into_rtrancl)
  moreover have "set (spRunning s) \<subseteq> set (spCancelled s)" using inv assms(2) by (auto simp: stopInv_def)
  ultimately show ?thesis by blast
qed

definition exampleStop :: stop_struct where
  "exampleStop = StopFunc (fst (StartFunc (launch 2 False) newStop))"

lemma exampleStop_reached: "stop_step\<^sup>*\<^sup>* newStop exampleStop"
proof -
  let ?s = "fst (StartFunc (launch 2 False) newStop)"
  have "stop_step newStop ?s" by (rule start) (simp add: newStop_def)
  moreover have "stop_step ?s exampleStop"
    unfolding exampleStop_def by (rule stop) (simp add: newStop_def StartFunc_def Go_def Let_def numeral_eq_Suc)
  ultimately show ?thesis by (meson rtranclp.rtrancl_into_rtrancl rtranclp.rtrancl_refl)
qed

lemma exampleStop_waiting: "spPc exampleStop = Waiting"
  by (simp add: exampleStop_def newStop_def StartFunc_def StopFunc_def doStop_cancel_def Go_def Let_def numeral_eq_Suc)

theorem stopped_is_quiet_witness: "spRunning newStop = [] \<and> spWg newStop = 0 \<and> Go newStop \<in> {None, Some newStop}"
  by (rule stopped_is_quiet [OF rtranclp.rtrancl_refl]) (simp add: newStop_def)

theorem stop_returns_witness:
  "\<exists>s'. doStop_finish (fold goExit (spRunning exampleStop) exampleStop) = Some s' \<and> spCtx s' = None \<and> spPc s' = Idle
     \<and> set (spRunning exampleStop) \<subseteq> set (spCancelled exampleStop) \<and> stop_step\<^sup>*\<^sup>* exampleStop s'"
  by (rule stop_returns [OF exampleStop_reached exampleStop_waiting])

end
