(* ===== verification/Modules.thy ===== *)
theory Modules
  imports Stop Files Up_Base Conf Recv_Base
begin

text \<open>
  How the modules come up: \<open>New\<close>, \<open>Start\<close> and \<open>cleaner\<close> of \<^verbatim>\<open>writer/writer.go\<close>, \<open>Start\<close> and \<open>watchWorker\<close> of
  \<^verbatim>\<open>uploader/base.go\<close> and \<^verbatim>\<open>uploader/cached.go\<close>, and \<open>Listen\<close> of the receivers. All of them run a procedure under the
  start protocol: it may fail before it has started any goroutine, or starts a fixed number of them.
\<close>

subsection \<open>The contract of a start procedure\<close>

text \<open>The procedure starts \<open>workers\<close> goroutines if \<open>ok\<close>, and fails before the first of them otherwise.\<close>

definition startModule :: "nat \<Rightarrow> bool \<Rightarrow> stop_struct \<Rightarrow> stop_struct \<times> bool" where
  "startModule workers ok = StartFunc (launch (if ok then workers else 0) (\<not> ok))"

lemma launch_workers:
  "spGo s = GoStart c \<Longrightarrow> launch n False s = (s\<lparr>spWg := spWg s + n, spRunning := replicate n c @ spRunning s\<rparr>, False)"
proof (induction n arbitrary: s)
  case (Suc n)
  then show ?case by (simp add: Go_def replicate_append_same replicate_app_Cons_same)
qed simp

lemma stopped_idle:
  assumes "stopInv s" "spCtx s = None"
  shows "spRunning s = []" "spWg s = 0" "spPc s = Idle"
proof -
  show "spRunning s = []" using assms by (cases "spRunning s") (auto simp: stopInv_def)
  then show "spWg s = 0" using assms(1) by (simp add: stopInv_def)
  show "spPc s = Idle" using assms by (cases "spPc s") (simp_all add: stopInv_def)
qed

locale module_start =
  fixes start :: "stop_struct \<Rightarrow> stop_struct \<times> bool" and workers :: nat and ok :: bool
  assumes procedure: "start s = startModule workers ok s"
begin

lemma start_ok:
  assumes "stopInv s" "spCtx s = None" "ok"
  shows "\<exists>s' c. start s = (s', False) \<and> spCtx s' = Some c \<and> spRunning s' = replicate workers c \<and> spWg s' = workers \<and> spGo s' = GoStart c \<and> stopInv s'"
proof -
  let ?s = "s\<lparr>spCtx := Some (spNext s), spGo := GoStart (spNext s), spNext := spNext s + 1\<rparr>"
  have "start s = (?s\<lparr>spWg := spWg s + workers, spRunning := replicate workers (spNext s) @ spRunning s\<rparr>, False)"
    using assms(2,3) launch_workers [of ?s "spNext s" workers] by (simp add: procedure startModule_def StartFunc_def Let_def)
  with stopped_idle [OF assms(1,2)] show ?thesis by (simp add: stopInv_def)
qed

lemma start_failed:
  assumes "stopInv s" "spCtx s = None" "\<not> ok"
  shows "\<exists>s' s''. start s = (s', True) \<and> spRunning s' = [] \<and> doStop_finish s' = Some s'' \<and> spCtx s'' = None \<and> spRunning s'' = []"
  using assms(2,3) stopped_idle [OF assms(1,2)]
  by (simp add: procedure startModule_def StartFunc_def Let_def doStop_cancel_def doStop_finish_def)

text \<open>A second start does nothing.\<close>

lemma start_again: "spCtx s \<noteq> None \<Longrightarrow> start s = (s, False)"
  by (simp add: procedure startModule_def StartFunc_def)

end

subsection \<open>The receivers\<close>

text \<open>
  \<open>Listen\<close>: when the port could be bound, a goroutine that closes the socket, one that accepts or
  reads, and the parser threads; the HTTP and gRPC servers have no parser threads.
\<close>

definition listenWorkers :: "rcv_kind \<Rightarrow> int \<Rightarrow> nat" where
  "listenWorkers kind threads =
     (case kind of
        TCP \<Rightarrow> 2 + nat threads
      | Pickle \<Rightarrow> 2 + nat threads
      | UDP \<Rightarrow> 1 + nat threads + 1
      | GRPC \<Rightarrow> 2
      | PrometheusRemoteWrite \<Rightarrow> 2
      | TelegrafHttpJson \<Rightarrow> 2)"

definition Listen :: "rcv_kind \<Rightarrow> bool \<Rightarrow> base \<Rightarrow> stop_struct \<Rightarrow> stop_struct \<times> bool" where
  "Listen kind bound b = StartFunc (\<lambda>s. if \<not> bound then (s, True) else launch (listenWorkers kind (parseThreads b)) False s)"

interpretation rl: module_start "Listen kind bound b" "listenWorkers kind (parseThreads b)" bound
  for kind bound b
  by unfold_locales (auto simp: Listen_def startModule_def StartFunc_def)

subsection \<open>The uploaders\<close>

definition baseStart :: "'h up_config \<Rightarrow> stop_struct \<Rightarrow> stop_struct \<times> bool" where
  "baseStart cfg = StartFunc (launch (1 + nat (ucThreads cfg)) False)"

interpretation bs: module_start "baseStart cfg" "1 + nat (ucThreads cfg)" True
  for cfg :: "'h up_config"
  by unfold_locales (simp add: baseStart_def startModule_def)

text \<open>
  A tick of \<open>watchWorker\<close> scans the directory unless the context is done. \<open>cached.Start\<close> adds the expiry
  worker outside of the start procedure; \<open>None\<close> is the panic of a nil \<open>Go\<close>.
\<close>

definition watchTick :: "bool \<Rightarrow> faults \<Rightarrow> (bytes \<Rightarrow> int option) \<Rightarrow> int \<Rightarrow> bytes \<Rightarrow> fs \<Rightarrow> up_base \<Rightarrow> up_base option" where
  "watchTick cancelled fails mtime now t s u = (if cancelled then None else Some (scanDir fails mtime now t s u))"

definition cachedStart :: "'h up_config \<Rightarrow> stop_struct \<Rightarrow> (stop_struct \<times> bool) option" where
  "cachedStart cfg s =
     (case baseStart cfg s of
        (s, True) \<Rightarrow> Some (s, True)
      | (s, False) \<Rightarrow>
          if durationValue (ucCacheTTL cfg) \<noteq> 0 then map_option (\<lambda>s. (s, False)) (Go s)
          else Some (s, False))"

lemma cachedStart_ok:
  assumes "stopInv s" "spCtx s = None"
  shows "\<exists>s' c. cachedStart cfg s = Some (s', False) \<and> spCtx s' = Some c
     \<and> spRunning s' = replicate (1 + nat (ucThreads cfg) + (if durationValue (ucCacheTTL cfg) \<noteq> 0 then 1 else 0)) c"
proof -
  from bs.start_ok [OF assms TrueI, of cfg] obtain s1 c where
    s1: "baseStart cfg s = (s1, False)" "spCtx s1 = Some c" "spRunning s1 = replicate (1 + nat (ucThreads cfg)) c" "spGo s1 = GoStart c" by blast
  then show ?thesis by (simp add: cachedStart_def Go_def)
qed

text \<open>A second call of \<open>cached.Start\<close> is not without effect: it starts one more expiry worker.\<close>

lemma cachedStart_again:
  assumes "spCtx s = Some c" "spGo s = GoStart c" "durationValue (ucCacheTTL cfg) \<noteq> 0"
  shows "cachedStart cfg s = Some (s\<lparr>spWg := spWg s + 1, spRunning := c # spRunning s\<rparr>, False)"
  using assms bs.start_again [of s cfg] by (simp add: cachedStart_def Go_def)

subsection \<open>The writer\<close>

text \<open>The callback \<open>New\<close> builds: link the file, then the callback it was given, if any.\<close>

definition finishCallback ::
  "faults \<Rightarrow> bytes list \<Rightarrow> (bytes \<Rightarrow> fs_error option) option \<Rightarrow> bytes \<Rightarrow> fs \<Rightarrow> fs \<times> fs_error option" where
  "finishCallback fails uploaders onFinish fn s =
     (case Link fails fn uploaders s of
        (s, Some e) \<Rightarrow> (s, Some e)
      | (s, None) \<Rightarrow> (s, case onFinish of None \<Rightarrow> None | Some f \<Rightarrow> f fn))"

record writer_module =
  wmStop :: stop_struct
  wmFs :: fs
  wmUnhandled :: uint32
  wmUploaders :: "bytes list"

text \<open>What the start procedure does before it starts the worker and the cleaner.\<close>

definition prepareFiles :: "faults \<Rightarrow> bytes list \<Rightarrow> fs \<times> uint32 \<Rightarrow> (fs \<times> uint32) \<times> fs_error option" where
  "prepareFiles fails uploaders = (\<lambda>(s, unhandled).
     (case LinkAll fails uploaders s of
        (s, Some e) \<Rightarrow> ((s, unhandled), Some e)
      | (s, None) \<Rightarrow> writerCleanup fails uploaders (s, unhandled)))"

definition writerStart :: "faults \<Rightarrow> writer_module \<Rightarrow> writer_module \<times> fs_error option" where
  "writerStart fails w =
     (if spCtx (wmStop w) \<noteq> None then (w, None)
      else
        (case prepareFiles fails (wmUploaders w) (wmFs w, wmUnhandled w) of
           ((s, unhandled), err) \<Rightarrow>
             (w\<lparr>wmFs := s, wmUnhandled := unhandled, wmStop := fst (startModule 2 (err = None) (wmStop w))\<rparr>, err)))"

text \<open>A tick of \<open>cleaner\<close>; the error is not looked at.\<close>

definition cleanerTick :: "faults \<Rightarrow> writer_module \<Rightarrow> writer_module" where
  "cleanerTick fails w =
     (case writerCleanup fails (wmUploaders w) (wmFs w, wmUnhandled w) of ((s, unhandled), _) \<Rightarrow> w\<lparr>wmFs := s, wmUnhandled := unhandled\<rparr>)"

interpretation wm: module_start "startModule n ok" n ok
  for n ok
  by unfold_locales simp

subsection \<open>After a restart every data file is accounted for\<close>

lemma linkTable_fsOk: "fsOk s \<Longrightarrow> linkTable fails fn t s = (s', err) \<Longrightarrow> fsOk s'"
proof -
  assume ok: "fsOk s" and l: "linkTable fails fn t s = (s', err)"
  obtain s1 e1 where e: "ensureDir fails t s = (s1, e1)" by fastforce
  from ensureDir_fsOk [OF ok e] l e show "fsOk s'"
    by (auto simp: linkTable_def osSymlink_def split: option.splits if_splits intro!: fsOk_update(1) distinct_update) (auto simp: fsOk_def)
qed

lemma linkTable_dirs: "linkTable fails fn t s = (s', err) \<Longrightarrow> dom (dirOf s') \<subseteq> insert t (dom (dirOf s))"
  by (auto simp: linkTable_def ensureDir_def osMkdir_def osSymlink_def split: option.splits if_splits prod.splits)

definition within :: "bytes set \<Rightarrow> fs \<Rightarrow> bool" where
  "within ts s \<longleftrightarrow> fsOk s \<and> dom (dirOf s) \<subseteq> ts"

lemma linkTable_within: "within ts s \<Longrightarrow> t \<in> ts \<Longrightarrow> linkTable fails fn t s = (s', err) \<Longrightarrow> within ts s'"
  using linkTable_fsOk [of s fails fn t s' err] linkTable_dirs [of fails fn t s s' err] unfolding within_def by blast

lemma Link_within: "Link fails fn tables s = (s', err) \<Longrightarrow> within ts s \<Longrightarrow> set tables \<subseteq> ts \<Longrightarrow> within ts s'"
  unfolding Link_def by (erule forErr_invariant) (blast intro: linkTable_within)+

lemma LinkAll_within:
  assumes "LinkAll fails tables s = (s', err)" "within ts s" "set tables \<subseteq> ts"
  shows "within ts s'"
proof (cases "readTop fails s")
  case (Inl e)
  with assms show ?thesis by (simp add: LinkAll_def)
next
  case (Inr l)
  with assms(1) have "forErr (\<lambda>f s. if snd f then (s, None) else if \<not> HasPrefix (fst f) (str ''default.'') then (s, None)
      else Link fails (fst f) tables s) l s = (s', err)" by (simp add: LinkAll_def)
  then show ?thesis
  proof (rule forErr_invariant)
    fix f x x' e assume "within ts x" and "(if snd f then (x, None) else if \<not> HasPrefix (fst f) (str ''default.'') then (x, None)
      else Link fails (fst f) tables x) = (x', e)"
    then show "within ts x'" using Link_within [OF _ _ assms(3)] by (metis prod.inject)
  qed (rule assms(2))
qed

definition queuedIn :: "fs \<Rightarrow> bytes \<Rightarrow> bytes \<Rightarrow> bool" where
  "queuedIn s t fn \<longleftrightarrow> entryOf s t fn = Some (Symlink fn)"

definition markedIn :: "fs \<Rightarrow> bytes \<Rightarrow> bytes \<Rightarrow> bool" where
  "markedIn s t fn \<longleftrightarrow> entryOf s t (doneName fn) = Some (Symlink fn)"

lemma prepareFiles_calm:
  assumes "fsOk s" "linksOk s" "tablesOk tables s" "tables \<noteq> []" "distinct tables" "dataFiles s \<inter> dom (dirOf s) = {}"
  shows "\<exists>s' n. prepareFiles calm tables (s, unhandled) = ((s', n), None) \<and> fileOf s' = sweptFiles tables s
     \<and> (\<forall>fn \<in> dataFiles s'. \<forall>t \<in> set tables. queuedIn s' t fn \<or> markedIn s' t fn)"
proof -
  from LinkAll_calm [OF assms(2,3)] obtain s1 where s1: "LinkAll calm tables s = (s1, None)" "fileOf s1 = fileOf s" "linksOk s1"
      "entryOf s1 = linkedAll (dataFiles s) tables s" by blast
  have marks: "entryOf s1 t (doneName fn) = entryOf s t (doneName fn)" for t fn
    by (simp add: s1(4) linkedAll_def dataFiles_def)
  have "within (set tables \<union> dom (dirOf s)) s1"
    by (rule LinkAll_within [OF s1(1)]) (simp_all add: within_def assms(1))
  then have w1: "fsOk s1" "dom (dirOf s1) \<subseteq> set tables \<union> dom (dirOf s)" by (simp_all add: within_def)
  have d1: "dataFiles s1 = dataFiles s" "tablesOk tables s1" using assms(3) by (simp_all add: dataFiles_def tablesOk_def s1(2))
  have "dataFiles s \<inter> set tables = {}" using assms(3) by (auto simp: dataFiles_def tablesOk_def)
  then have disj: "dataFiles s1 \<inter> dom (dirOf s1) = {}" using w1(2) assms(6) d1(1) by blast
  from writerCleanup_calm [OF w1(1) s1(3) d1(2) assms(4,5) disj] obtain s2 where
    s2: "writerCleanup calm tables (s1, unhandled) = ((s2, of_nat (card (dataFiles s2))), None)" "fileOf s2 = sweptFiles tables s1"
      "entryOf s2 = (\<lambda>t n. if t \<in> set tables then sweptEntry s2 (entryOf s1 t n) else entryOf s1 t n)" by blast
  have "finishedIn s1 = finishedIn s" by (simp add: finishedIn_def fun_eq_iff marks)
  then have files: "sweptFiles tables s1 = sweptFiles tables s" by (simp add: sweptFiles_def fun_eq_iff s1(2))
  have "queuedIn s2 t fn \<or> markedIn s2 t fn" if "fn \<in> dataFiles s2" "t \<in> set tables" for fn t
  proof -
    from that(1) have fn: "fn \<in> dataFiles s" "topExists s2 fn"
      by (auto simp: dataFiles_def s2(2) files sweptFiles_def topExists_def split: if_splits)
    show ?thesis
    proof (cases "entryOf s t (doneName fn)")
      case None
      then have "entryOf s1 t fn = Some (Symlink fn)" using that(2) fn(1) by (simp add: s1(4) linkedAll_def)
      then show ?thesis using that(2) fn(2) by (simp add: queuedIn_def s2(3) sweptEntry_def)
    next
      case (Some e)
      then have "entryOf s1 t (doneName fn) = Some (Symlink fn)"
        using linksOk_entry(2) [OF assms(2), of fn t] fn(1) by (auto simp: marks dataFiles_def)
      then show ?thesis using that(2) fn(2) by (simp add: markedIn_def s2(3) sweptEntry_def)
    qed
  qed
  then show ?thesis using s1(1) s2(1,2) files by (simp add: prepareFiles_def)
qed

text \<open>
  C11. With working system calls the start of the writer removes exactly the data files every
  table has finished, leaves every other data file linked or marked as finished in every table,
  and starts the worker and the cleaner.
\<close>

theorem writer_restart:
  assumes "fsOk (wmFs w)" "linksOk (wmFs w)" "tablesOk (wmUploaders w) (wmFs w)" "wmUploaders w \<noteq> []" "distinct (wmUploaders w)"
    "dataFiles (wmFs w) \<inter> dom (dirOf (wmFs w)) = {}" and "stopInv (wmStop w)" "spCtx (wmStop w) = None"
  shows "\<exists>w'. writerStart calm w = (w', None) \<and> length (spRunning (wmStop w')) = 2
     \<and> fileOf (wmFs w') = sweptFiles (wmUploaders w) (wmFs w)
     \<and> (\<forall>fn \<in> dataFiles (wmFs w'). \<forall>t \<in> set (wmUploaders w). queuedIn (wmFs w') t fn \<or> markedIn (wmFs w') t fn)"
proof -
  from prepareFiles_calm [OF assms(1-6), of "wmUnhandled w"] obtain s n where
    "prepareFiles calm (wmUploaders w) (wmFs w, wmUnhandled w) = ((s, n), None)" "fileOf s = sweptFiles (wmUploaders w) (wmFs w)"
    "\<forall>fn \<in> dataFiles s. \<forall>t \<in> set (wmUploaders w). queuedIn s t fn \<or> markedIn s t fn" by blast
  moreover from wm.start_ok [OF assms(7,8), of True 2] obtain st c where
    "startModule 2 True (wmStop w) = (st, False)" "spRunning st = replicate 2 c" by auto
  ultimately show ?thesis using assms(8) by (simp add: writerStart_def)
qed

definition exampleWriter :: "bytes list \<Rightarrow> writer_module" where
  "exampleWriter tables = \<lparr>wmStop = newStop, wmFs = exampleFs, wmUnhandled = 0, wmUploaders = tables\<rparr>"

theorem writer_restart_witness:
  "\<exists>w'. writerStart calm (exampleWriter [str ''t'']) = (w', None) \<and> length (spRunning (wmStop w')) = 2
     \<and> fileOf (wmFs w') = sweptFiles [str ''t''] exampleFs
     \<and> (queuedIn (wmFs w') (str ''t'') (str ''default.2'') \<or> markedIn (wmFs w') (str ''t'') (str ''default.2''))"
proof -
  have "\<exists>w'. writerStart calm (exampleWriter [str ''t'']) = (w', None) \<and> length (spRunning (wmStop w')) = 2
     \<and> fileOf (wmFs w') = sweptFiles [str ''t''] exampleFs
     \<and> (\<forall>fn \<in> dataFiles (wmFs w'). \<forall>t \<in> set [str ''t'']. queuedIn (wmFs w') t fn \<or> markedIn (wmFs w') t fn)"
    using writer_restart [of "exampleWriter [str ''t'']"] exampleFs_ok stopInv_new by (simp add: exampleWriter_def newStop_def)
  then obtain w' where w': "writerStart calm (exampleWriter [str ''t'']) = (w', None)" "length (spRunning (wmStop w')) = 2"
      "fileOf (wmFs w') = sweptFiles [str ''t''] exampleFs"
      "\<forall>fn \<in> dataFiles (wmFs w'). \<forall>t \<in> set [str ''t'']. queuedIn (wmFs w') t fn \<or> markedIn (wmFs w') t fn" by blast
  have "str ''default.2'' \<in> dataFiles (wmFs w')"
    by (simp add: dataFiles_def w'(3) sweptFiles_def finishedIn_def exampleFs_def entryOf_def dirOf_def fileOf_def HasPrefix_def)
  with w' show ?thesis by (intro exI [of _ w']) simp
qed

text \<open>
  Without upload sections the cleanup refuses the first data file it finds: after a restart with files
  in the data directory no worker is started. The supervisor does not look at this error.
\<close>

lemma writer_without_tables:
  assumes "wmUploaders w = []" "fsOk (wmFs w)" "dataFiles (wmFs w) \<noteq> {}" "stopInv (wmStop w)" "spCtx (wmStop w) = None"
  shows "\<exists>w'. writerStart calm w = (w', Some EmptyTables) \<and> spRunning (wmStop w') = []"
proof -
  let ?s = "wmFs w"
  have link: "LinkAll calm [] ?s = (?s, None)"
  proof -
    have "forErr (\<lambda>f s. if snd f then (s, None) else if \<not> HasPrefix (fst f) (str ''default.'') then (s, None) else Link calm (fst f) [] s) l s = (s, None)" for l s
      by (induction l) (auto simp: Link_def)
    then show ?thesis by (simp add: LinkAll_def readTop_def)
  qed
  let ?names = "map fst (filter isDataName (sort_key fst (map (\<lambda>f. (fst f, False)) (fsFiles ?s) @ map (\<lambda>d. (fst d, True)) (fsDirs ?s))))"
  have "?names \<noteq> []" using dataNames_readTop(1) [OF assms(2)] assms(3) by (metis list.set(1))
  then obtain fn fns where "?names = fn # fns" by (cases ?names) auto
  then have "\<exists>n. writerCleanup calm [] (?s, wmUnhandled w) = ((?s, n), Some EmptyTables)"
    by (simp add: writerCleanup_def readTop_def Let_def Cleanup_def)
  with link have "\<exists>n. prepareFiles calm [] (?s, wmUnhandled w) = ((?s, n), Some EmptyTables)" by (simp add: prepareFiles_def)
  moreover from wm.start_failed [OF assms(4,5), of False 2] obtain st where
    "startModule 2 False (wmStop w) = (st, True)" "spRunning st = []" by auto
  ultimately show ?thesis using assms(1,5) by (auto simp: writerStart_def)
qed

subsection \<open>Receivers come up completely or not at all\<close>

text \<open>listen_all_or_nothing\<close>

theorem listen_all_or_nothing:
  assumes "stopInv s" "spCtx s = None"
  shows "\<exists>s'. Listen kind bound b s = (s', \<not> bound)
     \<and> (if bound then \<exists>c. spCtx s' = Some c \<and> spRunning s' = replicate (listenWorkers kind (parseThreads b)) c
         else spRunning s' = [] \<and> (\<exists>s''. doStop_finish s' = Some s'' \<and> spCtx s'' = None))"
proof (cases bound)
  case True
  from rl.start_ok [OF assms True, of kind b] show ?thesis using True by auto
next
  case False
  from rl.start_failed [OF assms False, of kind b] show ?thesis using False by auto
qed

theorem listen_all_or_nothing_witness:
  "\<exists>s'. Listen TCP False zeroBase newStop = (s', \<not> False)
     \<and> (if False then \<exists>c. spCtx s' = Some c \<and> spRunning s' = replicate (listenWorkers TCP (parseThreads zeroBase)) c
         else spRunning s' = [] \<and> (\<exists>s''. doStop_finish s' = Some s'' \<and> spCtx s'' = None))"
  by (rule listen_all_or_nothing [OF stopInv_new]) (simp add: newStop_def)

end
