(* ===== verification/RB_Date.thy ===== *)
theory RB_Date
  imports Prelude
begin

text \<open>
  \<^verbatim>\<open>helper/RowBinary/date.go\<close>: the conversions of a Unix timestamp to a ClickHouse \<open>Date\<close> (days since
  1970-01-01 as \<open>uint16\<close>). The process time zone \<open>time.Local\<close> is a parameter of the model:
  \<open>off t\<close> is the zone's UTC offset in seconds at Unix time \<open>t\<close>, and \<open>localMidnight i\<close> is
  \<open>time.Date(y, m, d, 0, 0, 0, 0, time.Local).Unix()\<close> of the \<open>i\<close>-th civil day since 1970-01-01.
\<close>

definition UTCTimestampToDays :: "uint32 \<Rightarrow> uint16" where
  "UTCTimestampToDays timestamp = ucast (timestamp div 86400)"

text \<open>
  The civil date of \<open>timestamp\<close> in the local zone, read again as a UTC date: the day number of
  \<open>timestamp + off timestamp\<close>. The Unix time of a UTC midnight is a multiple of 86400, so Go's
  truncating division by 86400 is exact, and the conversion to \<open>uint16\<close> truncates.
\<close>

definition SlowTimestampToDays :: "(int \<Rightarrow> int) \<Rightarrow> uint32 \<Rightarrow> uint16" where
  "SlowTimestampToDays off timestamp =
     (let t = uint timestamp in word_of_int ((t + off t) div 86400))"

text \<open>The table built by \<open>init\<close>, for the first \<open>n\<close> days since the epoch.\<close>

definition daysTimestampStart_init :: "(nat \<Rightarrow> int) \<Rightarrow> nat \<Rightarrow> int list" where
  "daysTimestampStart_init localMidnight n = map localMidnight [0..<n]"

text \<open>
  The \<open>FindLoop\<close>. Reading the table out of its bounds panics. A step down is never followed by a
  step up, and the other way round, so the loop ends.
\<close>

function FindLoop :: "int list \<Rightarrow> int \<Rightarrow> nat \<Rightarrow> nat option" where
  "FindLoop tbl ts i =
     (if length tbl \<le> i then None
      else if ts < tbl ! i then (if i = 0 then None else FindLoop tbl ts (i - 1))
      else if length tbl \<le> Suc i then None
      else if tbl ! Suc i \<le> ts then FindLoop tbl ts (Suc i)
      else Some i)"
  by pat_completeness auto
termination
  by (relation "measure (\<lambda>(tbl, ts, i). if length tbl \<le> i then 0
       else if ts < tbl ! i then Suc i
       else if length tbl \<le> Suc i then 0
       else if tbl ! Suc i \<le> ts then Suc (length tbl) - i else 0)") auto

declare FindLoop.simps [simp del]

definition PrecalcTimestampToDays :: "int list \<Rightarrow> (int \<Rightarrow> int) \<Rightarrow> uint32 \<Rightarrow> uint16 option" where
  "PrecalcTimestampToDays daysTimestampStart off timestamp =
     (let i = unat (timestamp div 86400); ts = uint timestamp in
      if int i < 10 \<or> int (length daysTimestampStart) - 10 < int i
      then Some (SlowTimestampToDays off timestamp)
      else map_option (\<lambda>d. of_nat d) (FindLoop daysTimestampStart ts i))"

subsection \<open>The loop returns the entry that covers the timestamp\<close>

lemma FindLoop_sound:
  "FindLoop tbl ts i = Some d \<Longrightarrow> Suc d < length tbl \<and> tbl ! d \<le> ts \<and> ts < tbl ! Suc d"
proof (induction tbl ts i rule: FindLoop.induct)
  case (1 tbl ts i)
  then show ?case
    by (auto simp: FindLoop.simps [of tbl ts i] split: if_splits)
qed

lemma FindLoop_down:
  assumes "i < length tbl" and "d \<le> i" and "\<forall>j \<le> i. tbl ! j \<le> ts \<longleftrightarrow> j \<le> d"
    and "ts < tbl ! Suc d" and "Suc d < length tbl"
  shows "FindLoop tbl ts i = Some d"
  using assms
proof (induction i)
  case 0
  then show ?case by (subst FindLoop.simps) auto
next
  case (Suc i)
  show ?case
  proof (cases "d = Suc i")
    case True
    with Suc.prems show ?thesis by (subst FindLoop.simps) auto
  next
    case False
    with Suc.prems have "ts < tbl ! Suc i" by (metis le_antisym le_refl not_less)
    with False Suc show ?thesis by (subst FindLoop.simps) auto
  qed
qed

lemma FindLoop_up:
  assumes "i \<le> d" and "\<forall>j. i \<le> j \<and> j < length tbl \<longrightarrow> (tbl ! j \<le> ts \<longleftrightarrow> j \<le> d)"
    and "Suc d < length tbl"
  shows "FindLoop tbl ts i = Some d"
  using assms
proof (induction "d - i" arbitrary: i)
  case 0
  then have i: "i = d" by simp
  moreover have "tbl ! d \<le> ts" "\<not> tbl ! Suc d \<le> ts" using 0 by auto
  ultimately show ?case using 0(4) by (simp add: FindLoop.simps [of tbl ts d])
next
  case (Suc n)
  then have "FindLoop tbl ts (Suc i) = Some d" by auto
  moreover have "tbl ! i \<le> ts" "tbl ! Suc i \<le> ts" using Suc.hyps(2) Suc.prems by auto
  ultimately show ?case
    using Suc.hyps(2) Suc.prems(3) by (simp add: FindLoop.simps [of tbl ts i])
qed

text \<open>
  The table is consistent with the zone when the \<open>i\<close>-th entry is the first second of the \<open>i\<close>-th
  civil day: local midnights exist and the offset does not move the clock back over one of them.
\<close>

definition days_consistent :: "int list \<Rightarrow> (int \<Rightarrow> int) \<Rightarrow> bool" where
  "days_consistent tbl off \<longleftrightarrow>
     (\<forall>i < length tbl. \<forall>t. tbl ! i \<le> t \<longleftrightarrow> int i \<le> (t + off t) div 86400)"

text \<open>
  C17. With a table that matches the time zone, the table lookup of the day number ends without
  leaving the table and agrees with the calendar computation.
\<close>

theorem precalc_equals_slow:
  assumes consistent: "days_consistent tbl off"
    and offset: "\<forall>t. \<bar>off t\<bar> < 86400"
  shows "PrecalcTimestampToDays tbl off timestamp = Some (SlowTimestampToDays off timestamp)"
proof -
  define i where "i = unat (timestamp div 86400)"
  define ts where "ts = uint timestamp"
  define d where "d = (ts + off ts) div 86400"
  have i: "int i = ts div 86400"
    unfolding i_def ts_def by (simp add: unat_div zdiv_int)
  show ?thesis
  proof (cases "int i < 10 \<or> int (length tbl) - 10 < int i")
    case True
    then show ?thesis
      unfolding PrecalcTimestampToDays_def by (simp add: Let_def flip: i_def)
  next
    case False
    have "(ts + (-1) * 86400) div 86400 \<le> d" and "d \<le> (ts + 1 * 86400) div 86400"
      unfolding d_def using offset [rule_format, of ts] by (auto intro!: zdiv_mono1)
    then have "int i + - 1 \<le> d" and "d \<le> int i + 1"
      unfolding i by (simp_all only: div_mult_self1)
    with False have d: "0 \<le> d" "d + 1 < int (length tbl)" by auto
    have entry: "tbl ! j \<le> ts \<longleftrightarrow> int j \<le> d" if "j < length tbl" for j
      using consistent that unfolding days_consistent_def d_def by blast
    have "FindLoop tbl ts i = Some (nat d)"
    proof (cases "nat d \<le> i")
      case True
      with False d entry show ?thesis by (intro FindLoop_down) (auto simp: not_le [symmetric])
    next
      case below: False
      with False d entry show ?thesis by (intro FindLoop_up) auto
    qed
    moreover have "of_nat (nat d) = (word_of_int d :: uint16)"
      using d by (metis int_nat_eq of_int_of_nat_eq)
    ultimately show ?thesis
      using False unfolding PrecalcTimestampToDays_def SlowTimestampToDays_def
      by (simp add: Let_def d_def flip: i_def ts_def)
  qed
qed

lemma utc_consistent: "days_consistent (daysTimestampStart_init (\<lambda>i. 86400 * int i) n) (\<lambda>_. 0)"
proof -
  have "86400 * int i \<le> t \<longleftrightarrow> int i \<le> t div 86400" for i t by linarith
  then show ?thesis by (simp add: days_consistent_def daysTimestampStart_init_def)
qed

theorem precalc_equals_slow_witness:
  "PrecalcTimestampToDays (daysTimestampStart_init (\<lambda>i. 86400 * int i) 25000) (\<lambda>_. 0) 1700000000
     = Some (SlowTimestampToDays (\<lambda>_. 0) 1700000000)"
  by (rule precalc_equals_slow [OF utc_consistent]) simp

end
