(* ===== verification/RB_Calendar.thy ===== *)
theory RB_Calendar
  imports RB_Date RB_Reader Strconv
begin

text \<open>
  The text form of dates: the formatting functions of \<^verbatim>\<open>helper/RowBinary/date.go\<close> and \<open>DaysString\<close> of
  \<^verbatim>\<open>helper/RowBinary/reader.go\<close>, over the civil calendar of Go's \<open>time\<close> package with the layout
  2006-01-02.
\<close>

subsection \<open>The civil calendar\<close>

type_synonym civil = "int \<times> nat \<times> nat"

definition isLeap :: "int \<Rightarrow> bool" where
  "isLeap y \<longleftrightarrow> y mod 4 = 0 \<and> (y mod 100 \<noteq> 0 \<or> y mod 400 = 0)"

definition monthLens :: "int \<Rightarrow> nat list" where
  "monthLens y = [31, if isLeap y then 29 else 28, 31, 30, 31, 30, 31, 31, 30, 31, 30, 31]"

definition yearDays :: "int \<Rightarrow> nat" where
  "yearDays y = (if isLeap y then 366 else 365)"

text \<open>The year of a day counted from the start of \<open>y\<close>, then the month; every 400 years the calendar repeats.\<close>

function yearOf :: "int \<Rightarrow> nat \<Rightarrow> int \<times> nat" where
  "yearOf y n = (if n < yearDays y then (y, n) else yearOf (y + 1) (n - yearDays y))"
  by pat_completeness auto
termination
  by (relation "measure snd") (auto simp: yearDays_def split: if_splits)

declare yearOf.simps [simp del]

fun monthOf :: "nat list \<Rightarrow> nat \<Rightarrow> nat \<Rightarrow> nat \<times> nat" where
  "monthOf [] m n = (m, n + 1)"
| "monthOf (l # ls) m n = (if n < l then (m, n + 1) else monthOf ls (m + 1) (n - l))"

definition civilOf :: "int \<Rightarrow> civil" where
  "civilOf d =
     (let (y, n) = yearOf 1970 (nat (d mod 146097)); (m, dd) = monthOf (monthLens y) 1 n
      in (y + 400 * (d div 146097), m, dd))"

text \<open>\<open>time.Date(y, m, d, 0, 0, 0, 0, time.UTC)\<close> as a day number.\<close>

definition daysToYear :: "int \<Rightarrow> int" where
  "daysToYear y = 365 * (y - 1970) + (y - 1) div 4 - (y - 1) div 100 + (y - 1) div 400 - 477"

definition dayNumber :: "civil \<Rightarrow> int" where
  "dayNumber c = (case c of (y, m, d) \<Rightarrow> daysToYear y + int (sum_list (take (m - 1) (monthLens y))) + int d - 1)"

definition validDate :: "civil \<Rightarrow> bool" where
  "validDate c = (case c of (y, m, d) \<Rightarrow> 1 \<le> m \<and> m \<le> 12 \<and> 1 \<le> d \<and> d \<le> monthLens y ! (m - 1))"

subsection \<open>Formatting and parsing\<close>

definition padInt :: "nat \<Rightarrow> nat \<Rightarrow> bytes" where
  "padInt w n = replicate (w - length (itoa n)) (digit 0) @ itoa n"

definition formatDate :: "civil \<Rightarrow> bytes" where
  "formatDate c = (case c of (y, m, d) \<Rightarrow>
     (if y < 0 then [cMinus] else []) @ padInt 4 (nat \<bar>y\<bar>) @ cMinus # padInt 2 m @ cMinus # padInt 2 d)"

definition decimal :: "bytes \<Rightarrow> nat" where
  "decimal s = foldl (\<lambda>n c. n * 10 + (unat c - 48)) 0 s"

text \<open>\<open>time.Parse("2006-01-02", s)\<close>.\<close>

definition parseDate :: "bytes \<Rightarrow> civil option" where
  "parseDate s =
     (if length s = 10 \<and> s ! 4 = cMinus \<and> s ! 7 = cMinus
         \<and> list_all isDigit (take 4 s @ take 2 (drop 5 s) @ drop 8 s)
      then (let c = (int (decimal (take 4 s)), decimal (take 2 (drop 5 s)), decimal (drop 8 s))
            in if validDate c then Some c else None)
      else None)"

subsection \<open>The functions of the source\<close>

text \<open>\<open>time.Unix(t, 0).UTC().Format("2006-01-02")\<close>\<close>

definition formatUnixUTC :: "int \<Rightarrow> bytes" where
  "formatUnixUTC t = formatDate (civilOf (t div 86400))"

definition DaysString :: "reader \<Rightarrow> bytes option" where
  "DaysString r = map_option (\<lambda>d. formatUnixUTC (uint d * 24 * 60 * 60)) (Days r)"

definition UTCTimestampToDaysFormat :: "uint32 \<Rightarrow> bytes" where
  "UTCTimestampToDaysFormat timestamp = formatUnixUTC (uint timestamp)"

text \<open>
  A \<open>time.Time\<close> is a Unix time with the offset of its zone at that time; \<open>Year\<close>, \<open>Month\<close> and \<open>Day\<close> are
  those of the local civil day.
\<close>

record go_time =
  gtUnix :: int
  gtOffset :: int

definition goDate :: "go_time \<Rightarrow> civil" where
  "goDate t = civilOf ((gtUnix t + gtOffset t) div 86400)"

definition TimeToDaysFormat :: "go_time \<Rightarrow> bytes" where
  "TimeToDaysFormat t = formatUnixUTC (dayNumber (goDate t) * 86400)"

definition TimestampToDaysFormat :: "(int \<Rightarrow> int) \<Rightarrow> int \<Rightarrow> bytes" where
  "TimestampToDaysFormat off timestamp =
     (let t = \<lparr>gtUnix = timestamp, gtOffset = off timestamp\<rparr> in formatUnixUTC (dayNumber (goDate t) * 86400))"

subsection \<open>The calendar is right\<close>

lemma div_pred:
  assumes "0 < (n :: int)"
  shows "y div n = (y - 1) div n + (if y mod n = 0 then 1 else 0)"
proof (cases "y mod n = 0")
  case True
  then have "y - 1 = n * (y div n - 1) + (n - 1)" using mult_div_mod_eq [of n y] by (simp add: algebra_simps)
  then have "(y - 1) div n = y div n - 1" by (rule int_div_pos_eq) (use assms in simp_all)
  with True show ?thesis by simp
next
  case False
  have "y - 1 = n * (y div n) + (y mod n - 1)" using mult_div_mod_eq [of n y] by (simp add: algebra_simps)
  moreover have "0 \<le> y mod n - 1" "y mod n - 1 < n"
    using False assms pos_mod_sign [of n y] pos_mod_bound [of n y] by linarith+
  ultimately have "(y - 1) div n = y div n" by (rule int_div_pos_eq)
  with False show ?thesis by simp
qed

lemma mod_chain: "(y :: int) mod (a * b) = 0 \<Longrightarrow> y mod a = 0"
  by (metis dvd_imp_mod_0 dvd_mult_left mod_0_imp_dvd)

text \<open>The numbers of multiples of 4, 100 and 400, with the divisions kept abstract.\<close>

lemma leap_count:
  assumes "q4' = q4 + (if l4 then 1 else 0)" "q100' = q100 + (if l100 then 1 else 0)" "q400' = q400 + (if l400 then 1 else 0)"
    and "l100 \<Longrightarrow> l4" "l400 \<Longrightarrow> l100"
  shows "365 * (y + 1 - 1970) + q4' - q100' + q400' - 477
     = 365 * (y - 1970) + q4 - q100 + q400 - 477 + int (if l4 \<and> (\<not> l100 \<or> l400) then 366 else 365)"
  unfolding assms(1-3) using assms(4,5) by (cases l4; cases l100; cases l400) simp_all

lemma daysToYear_Suc: "daysToYear (y + 1) = daysToYear y + int (yearDays y)"
  unfolding daysToYear_def yearDays_def isLeap_def add_diff_cancel_right'
  by (rule leap_count) (rule div_pred, simp | rule mod_chain [of y 4 25, simplified] mod_chain [of y 100 4, simplified], assumption)+

lemma daysToYear_era: "daysToYear (y + 400 * k) = daysToYear y + 146097 * k"
proof -
  have "y + 400 * k - 1 = (y - 1) + 4 * (100 * k)" "y + 400 * k - 1 = (y - 1) + 100 * (4 * k)" "y + 400 * k - 1 = (y - 1) + 400 * k" by simp_all
  then have "(y + 400 * k - 1) div 4 = (y - 1) div 4 + 100 * k" "(y + 400 * k - 1) div 100 = (y - 1) div 100 + 4 * k"
      "(y + 400 * k - 1) div 400 = (y - 1) div 400 + k"
    by (metis div_mult_self2 zero_neq_numeral add.commute)+
  then show ?thesis by (simp add: daysToYear_def)
qed

lemma isLeap_era [simp]: "isLeap (y + 400 * k) = isLeap y"
proof -
  have "(y + 400 * k) mod 4 = y mod 4" "(y + 400 * k) mod 100 = y mod 100"
    using mod_mult_self2 [of y 4 "100 * k"] mod_mult_self2 [of y 100 "4 * k"] by simp_all
  then show ?thesis by (simp add: isLeap_def)
qed

lemma monthLens_era [simp]: "monthLens (y + 400 * k) = monthLens y"
  by (simp add: monthLens_def)

lemma sum_monthLens: "sum_list (monthLens y) = yearDays y"
  by (simp add: monthLens_def yearDays_def)

lemma length_monthLens [simp]: "length (monthLens y) = 12"
  by (simp add: monthLens_def)

lemma yearOf_spec: "yearOf y n = (y', r) \<Longrightarrow> r < yearDays y' \<and> daysToYear y' + int r = daysToYear y + int n \<and> y \<le> y'"
proof (induction y n rule: yearOf.induct)
  case (1 y n)
  then show ?case using daysToYear_Suc [of y] by (force simp: yearOf.simps [of y] split: if_splits)
qed

lemma monthOf_spec:
  "n < sum_list ls \<Longrightarrow> monthOf ls m n = (m', d) \<Longrightarrow>
     m \<le> m' \<and> m' - m < length ls \<and> 1 \<le> d \<and> d \<le> ls ! (m' - m) \<and> sum_list (take (m' - m) ls) + d = n + 1"
proof (induction ls m n rule: monthOf.induct)
  case (2 l ls m n)
  show ?case
  proof (cases "n < l")
    case False
    with "2.IH" [OF False] "2.prems" have
      IH: "m + 1 \<le> m'" "m' - (m + 1) < length ls" "1 \<le> d" "d \<le> ls ! (m' - (m + 1))" "sum_list (take (m' - (m + 1)) ls) + d = n - l + 1"
      by auto
    then have "m' - m = Suc (m' - (m + 1))" by simp
    with IH False show ?thesis by simp
  qed (use 2 in auto)
qed simp

lemma civilOf_valid: "validDate (civilOf d)" and dayNumber_civilOf [simp]: "dayNumber (civilOf d) = d"
proof -
  obtain y n where y: "yearOf 1970 (nat (d mod 146097)) = (y, n)" by fastforce
  obtain m dd where m: "monthOf (monthLens y) 1 n = (m, dd)" by fastforce
  from yearOf_spec [OF y] have n: "n < yearDays y" "daysToYear y + int n = d mod 146097" by (simp_all add: daysToYear_def)
  with monthOf_spec [OF _ m] have "1 \<le> m" "m - 1 < 12" "1 \<le> dd" "dd \<le> monthLens y ! (m - 1)" "sum_list (take (m - 1) (monthLens y)) + dd = n + 1"
    by (simp_all add: sum_monthLens)
  note date = this
  have "int (sum_list (take (m - 1) (monthLens y))) + int dd = int n + 1" using date(5) by linarith
  moreover have "dayNumber (civilOf d) = daysToYear y + 146097 * (d div 146097) + (int (sum_list (take (m - 1) (monthLens y))) + int dd) - 1"
    using y m by (simp add: civilOf_def dayNumber_def daysToYear_era)
  ultimately show "dayNumber (civilOf d) = d" using n(2) mult_div_mod_eq [of 146097 d] by linarith
  show "validDate (civilOf d)" using date y m by (auto simp: civilOf_def validDate_def)
qed

subsection \<open>A date is read back from its text\<close>

lemma decimal_snoc: "decimal (s @ [c]) = decimal s * 10 + (unat c - 48)"
  by (simp add: decimal_def)

lemma decimal_itoa: "decimal (itoa n) = n"
proof (induction n rule: itoa.induct)
  case (1 n)
  show ?case
  proof (cases "n < 10")
    case True
    then show ?thesis by (simp add: itoa.simps [of n] digit_byte decimal_def)
  next
    case False
    with 1 show ?thesis by (simp add: itoa.simps [of n] decimal_snoc digit_byte)
  qed
qed

lemma decimal_zeros: "decimal (replicate k (digit 0) @ s) = decimal s"
proof -
  have "foldl (\<lambda>n c. n * 10 + (unat c - 48)) 0 (replicate k (digit 0)) = 0"
    by (induction k) (simp_all add: digit_byte)
  then show ?thesis by (simp add: decimal_def)
qed

lemma length_itoa: "n < 10 ^ Suc w \<Longrightarrow> length (itoa n) \<le> Suc w"
proof (induction w arbitrary: n)
  case 0
  then show ?case by (simp add: itoa.simps)
next
  case (Suc w)
  then have "n div 10 < 10 ^ Suc w" by (simp add: less_mult_imp_div_less mult.commute)
  with Suc.IH [of "n div 10"] show ?case by (subst itoa.simps) simp
qed

lemma padInt_spec:
  assumes "n < 10 ^ w" "0 < w"
  shows "length (padInt w n) = w" "list_all isDigit (padInt w n)" "decimal (padInt w n) = n"
  using length_itoa [of n "w - 1"] assms itoa_digits isDigit_digit
  by (auto simp: padInt_def decimal_zeros decimal_itoa list_all_iff)

lemma parseDate_formatDate:
  assumes "validDate (y, m, d)" "0 \<le> y" "y < 10000"
  shows "parseDate (formatDate (y, m, d)) = Some (y, m, d)" "length (formatDate (y, m, d)) = 10"
proof -
  have "monthLens y ! i \<le> 31" if "i < 12" for i
    using that by (auto simp: monthLens_def less_Suc_eq eval_nat_numeral)
  note len = this [of "m - 1"]
  from assms(1) have v: "1 \<le> m" "m \<le> 12" "d \<le> monthLens y ! (m - 1)" by (simp_all add: validDate_def)
  then have "m - 1 < 12" by simp
  with len v(3) have "d \<le> 31" by (blast intro: le_trans)
  note md = v(2) this
  have pad: "length (padInt 4 (nat y)) = 4" "list_all isDigit (padInt 4 (nat y))" "decimal (padInt 4 (nat y)) = nat y"
      "length (padInt 2 m) = 2" "list_all isDigit (padInt 2 m)" "decimal (padInt 2 m) = m"
      "length (padInt 2 d) = 2" "list_all isDigit (padInt 2 d)" "decimal (padInt 2 d) = d"
    using md assms(3) by (simp_all add: padInt_spec)
  have shape: "formatDate (y, m, d) = padInt 4 (nat y) @ cMinus # padInt 2 m @ cMinus # padInt 2 d"
    using assms(2) by (simp add: formatDate_def)
  show "parseDate (formatDate (y, m, d)) = Some (y, m, d)"
    unfolding shape parseDate_def Let_def using pad assms by (simp add: nth_append)
  show "length (formatDate (y, m, d)) = 10" using pad by (simp add: shape)
qed

lemma daysToYear_mono: "daysToYear y + 365 * int k \<le> daysToYear (y + int k)"
proof (induction k)
  case (Suc k)
  have "365 \<le> int (yearDays (y + int k))" by (simp add: yearDays_def)
  with Suc daysToYear_Suc [of "y + int k"] show ?case by (simp add: algebra_simps)
qed simp

text \<open>The days of a \<open>uint16\<close> lie in the years 1970 to 2149.\<close>

lemma civilOf_years:
  assumes "0 \<le> d" "d < 65536"
  obtains y m dd where "civilOf d = (y, m, dd)" "1970 \<le> y" "y \<le> 2149"
proof -
  obtain y n where y: "yearOf 1970 (nat d) = (y, n)" by fastforce
  obtain m dd where m: "monthOf (monthLens y) 1 n = (m, dd)" by fastforce
  from yearOf_spec [OF y] have spec: "daysToYear y + int n = daysToYear 1970 + int (nat d)" "1970 \<le> y" by simp_all
  have "daysToYear 1970 + 365 * int (nat (y - 1970)) \<le> daysToYear (1970 + int (nat (y - 1970)))" by (rule daysToYear_mono)
  then have "365 * (y - 1970) \<le> d" using spec assms(1) by simp
  then have "y \<le> 2149" using assms(2) by presburger
  moreover have "civilOf d = (y, m, dd)" using assms y m by (simp add: civilOf_def)
  ultimately show ?thesis using that spec(2) by blast
qed

lemma formatUnixUTC_days [simp]: "formatUnixUTC (d * 86400) = formatDate (civilOf d)" "formatUnixUTC (86400 * d) = formatDate (civilOf d)"
  by (simp_all add: formatUnixUTC_def)

text \<open>
  The date text of a record is a date of ten characters from which the day number of the
  record is read back.
\<close>

theorem days_string_roundtrip:
  assumes "Days r = Some d"
  shows "\<exists>s. DaysString r = Some s \<and> length s = 10 \<and> map_option dayNumber (parseDate s) = Some (uint d)"
proof -
  have "0 \<le> uint d" "uint d < 65536" using uint_lt2p [of d] by simp_all
  then obtain y m dd where c: "civilOf (uint d) = (y, m, dd)" "1970 \<le> y" "y \<le> 2149" by (rule civilOf_years)
  have "uint d * 24 * 60 * 60 = uint d * 86400" by simp
  then have "DaysString r = Some (formatDate (y, m, dd))" using assms c(1) by (simp add: DaysString_def)
  moreover have "validDate (y, m, dd)" "dayNumber (y, m, dd) = uint d"
    using civilOf_valid [of "uint d"] dayNumber_civilOf [of "uint d"] by (simp_all add: c(1))
  ultimately show ?thesis using parseDate_formatDate [of y m dd] c by simp
qed

theorem days_string_roundtrip_witness:
  "\<exists>s. DaysString (freshReader [] False\<lparr>rLine := encPoint (\<lambda>_. 18262) \<lparr>pName = str ''a'', pValue = 0, pTime = 0, pVersion = 0\<rparr>\<rparr>) = Some s
     \<and> length s = 10 \<and> map_option dayNumber (parseDate s) = Some (uint (18262 :: uint16))"
  by (rule days_string_roundtrip) (simp add: accessors_encPoint)

text \<open>days_format_pairs\<close>

theorem days_format_pairs:
  assumes "0 \<le> uint ts + off (uint ts)" "uint ts + off (uint ts) < 65536 * 86400"
  shows "TimestampToDaysFormat off (uint ts) = formatDate (civilOf (uint (SlowTimestampToDays off ts)))"
proof -
  have "0 \<le> (uint ts + off (uint ts)) div 86400" "(uint ts + off (uint ts)) div 86400 < 65536"
    using assms by (simp_all add: pos_imp_zdiv_nonneg_iff div_less_iff_less_mult)
  then show ?thesis
    by (simp add: TimestampToDaysFormat_def SlowTimestampToDays_def Let_def goDate_def unsigned_of_int take_bit_int_eq_self)
qed

theorem days_format_pairs_witness:
  "TimestampToDaysFormat (\<lambda>_. 10800) (uint (1577836800 :: uint32))
     = formatDate (civilOf (uint (SlowTimestampToDays (\<lambda>_. 10800) 1577836800)))"
  by (rule days_format_pairs) simp_all

lemma utc_format_pairs:
  "UTCTimestampToDaysFormat ts = formatDate (civilOf (uint (UTCTimestampToDays ts)))"
proof -
  have "uint ts < 4294967296" using uint_lt2p [of ts] by simp
  then have "uint ts div 86400 < 65536" by linarith
  moreover have "0 \<le> uint ts div 86400" by (simp add: pos_imp_zdiv_nonneg_iff)
  ultimately have "uint (UTCTimestampToDays ts) = uint ts div 86400"
    by (simp add: UTCTimestampToDays_def unsigned_ucast_eq uint_div take_bit_int_eq_self)
  then show ?thesis by (simp add: UTCTimestampToDaysFormat_def formatUnixUTC_def)
qed

lemma time_format_pairs:
  "TimeToDaysFormat \<lparr>gtUnix = t, gtOffset = off t\<rparr> = TimestampToDaysFormat off t"
  by (simp add: TimeToDaysFormat_def TimestampToDaysFormat_def)

end
