(* ===== verification/AppConfig.thy ===== *)
theory AppConfig
  imports Recv_Base Conf Up_Base
begin

text \<open>
  \<^verbatim>\<open>carbon/config.go\<close> and \<open>configure\<close> of \<^verbatim>\<open>carbon/app.go\<close>: the configuration of the daemon, its defaults and
  how it is read. The TOML decoder, the check of the logging section, the file and the host name are
  arguments; the sections of the uploaders are parsed as in the theory of the uploader queue.
\<close>

record common_config =
  cmMetricPrefix :: bytes
  cmMetricInterval :: "int option"
  cmMetricEndpoint :: bytes
  cmMaxCPU :: int
  cmEnabled :: bool

text \<open>What the sections of all receivers have, and what single ones add.\<close>

record listener_config =
  lsListen :: bytes
  lsEnabled :: bool
  lsDropFuture :: "int option"
  lsDropPast :: "int option"
  lsDropLongerThan :: uint16

record tcp_config = listener_config +
  tcpReadTimeout :: "int option"

record udp_config = listener_config +
  udpLogIncomplete :: bool

record telegraf_config = listener_config +
  thConcat :: bytes

record pprof_config =
  ppListen :: bytes
  ppEnabled :: bool

record data_config =
  dtPath :: bytes
  dtChunkMaxSize :: "64 word"
  dtFileInterval :: "int option"
  dtAutoInterval :: chunk_interval
  dtCompAlgo :: comp_algo
  dtCompLevel :: int
  dtUTCDate :: bool

record ('h, 'l) config =
  cfCommon :: common_config
  cfData :: data_config
  cfUpload :: "(bytes \<times> 'h up_config) list"
  cfUdp :: udp_config
  cfTcp :: tcp_config
  cfPickle :: listener_config
  cfGrpc :: listener_config
  cfPrometheus :: listener_config
  cfTelegraf :: telegraf_config
  cfPprof :: pprof_config
  cfLogging :: "'l list"
  cfTagDesc :: tag_config

definition MetricEndpointLocal :: bytes where "MetricEndpointLocal = str ''local''"

definition secondNs :: int where "secondNs = 1000000000"

text \<open>\<open>&config.Duration{}\<close> is a duration of zero.\<close>

definition plainListener :: "bytes \<Rightarrow> bool \<Rightarrow> listener_config" where
  "plainListener listen enabled =
     \<lparr>lsListen = listen, lsEnabled = enabled, lsDropFuture = Some 0, lsDropPast = Some 0, lsDropLongerThan = 0\<rparr>"

definition NewConfig :: "('h, 'l) config" where
  "NewConfig =
     \<lparr>cfCommon = \<lparr>cmMetricPrefix = str ''carbon.agents.{host}'', cmMetricInterval = Some minuteNs,
                  cmMetricEndpoint = MetricEndpointLocal, cmMaxCPU = 1, cmEnabled = True\<rparr>,
      cfData = \<lparr>dtPath = str ''/data/carbon-clickhouse/'', dtChunkMaxSize = 0, dtFileInterval = Some secondNs,
                dtAutoInterval = NewChunkAutoInterval, dtCompAlgo = CompAlgoNone, dtCompLevel = 0, dtUTCDate = False\<rparr>,
      cfUpload = [],
      cfUdp = listener_config.extend (plainListener (str '':2003'') True) (udp_config.fields False),
      cfTcp = listener_config.extend (plainListener (str '':2003'') True) (tcp_config.fields (Some (120 * secondNs))),
      cfPickle = plainListener (str '':2004'') True,
      cfGrpc = plainListener (str '':2005'') False,
      cfPrometheus = plainListener (str '':2006'') False,
      cfTelegraf = listener_config.extend (plainListener (str '':2007'') False) (telegraf_config.fields (str ''_'')),
      cfPprof = \<lparr>ppListen = str ''localhost:7007'', ppEnabled = False\<rparr>,
      cfLogging = [],
      cfTagDesc = DisabledTagConfig\<rparr>"

subsection \<open>Reading a configuration\<close>

text \<open>\<open>strings.Replace(s, old, new, -1)\<close> for a non-empty \<open>old\<close>: leftmost, without overlaps.\<close>

function replaceAll :: "bytes \<Rightarrow> bytes \<Rightarrow> bytes \<Rightarrow> bytes" where
  "replaceAll old new s =
     (if s = [] then []
      else if old \<noteq> [] \<and> HasPrefix s old then new @ replaceAll old new (drop (length old) s)
      else hd s # replaceAll old new (tl s))"
  by pat_completeness auto
termination
  by (relation "measure (\<lambda>(old, new, s). length s)") auto

declare replaceAll.simps [simp del]

datatype ('e, 'k) read_error =
    ReadFileError 'e
  | DecodeError 'e
  | UnknownKeys bytes "'k list"
  | LoggingError 'e
  | UploadError "'e config_error"
  | EndpointError 'e
  | EndpointScheme bytes
  | TagError tag_error

text \<open>The loop over the upload sections; a nil pointer does not occur in a decoded map.\<close>

fun parseUploads :: "('u \<Rightarrow> 'e + 'u) \<Rightarrow> (bytes \<times> 'u) list \<Rightarrow> 'e + (bytes \<times> 'u) list" where
  "parseUploads parse [] = Inr []"
| "parseUploads parse ((n, u) # us) =
     (case parse u of
        Inl e \<Rightarrow> Inl e
      | Inr u \<Rightarrow> map_sum id (Cons (n, u)) (parseUploads parse us))"

text \<open>
  \<open>ReadConfig\<close>. \<open>decode\<close> overlays the text on the defaults and returns the keys it did not use. The
  second component says that the calendar was switched to UTC.
\<close>

definition ReadConfig ::
  "(bytes \<Rightarrow> 'e + bytes) \<Rightarrow> (bytes \<Rightarrow> ('h, 'l) config \<Rightarrow> 'e + ('h, 'l) config \<times> 'k list) \<Rightarrow> 'l \<Rightarrow> ('l list \<Rightarrow> 'e option) \<Rightarrow>
   ('h up_config \<Rightarrow> 'e config_error + 'h up_config) \<Rightarrow> bytes \<Rightarrow> bool \<Rightarrow>
   ('e, 'k) read_error + ('h, 'l) config \<times> bool" where
  "ReadConfig readFile decode newLogging checkLogging parse filename exactConfig =
     (case (if filename = [] then Inr NewConfig
            else
              (case readFile filename of
                 Inl e \<Rightarrow> Inl (ReadFileError e)
               | Inr b \<Rightarrow>
                   (let body = replaceAll (cLF # str ''[logging]'' @ [cLF]) (cLF # str ''[[logging]]'' @ [cLF]) b
                    in case decode body NewConfig of
                         Inl e \<Rightarrow> Inl (DecodeError e)
                       | Inr (cfg, undecoded) \<Rightarrow>
                           if exactConfig \<and> undecoded \<noteq> [] then Inl (UnknownKeys filename undecoded) else Inr cfg))) of
        Inl e \<Rightarrow> Inl e
      | Inr cfg \<Rightarrow>
          (let cfg = (if cfLogging cfg = [] then cfg\<lparr>cfLogging := [newLogging]\<rparr> else cfg)
           in case checkLogging (cfLogging cfg) of
                Some e \<Rightarrow> Inl (LoggingError e)
              | None \<Rightarrow>
                  (case parseUploads parse (cfUpload cfg) of
                     Inl e \<Rightarrow> Inl (UploadError e)
                   | Inr us \<Rightarrow> Inr (cfg\<lparr>cfUpload := us\<rparr>, dtUTCDate (cfData cfg)))))"

text \<open>
  \<open>App.configure\<close> after \<open>ReadConfig\<close>: \<open>None\<close> is a panic of \<open>TagDesc.Configure\<close>; \<open>parseURL\<close> returns the
  scheme. On an error the configuration of the daemon stays as it was.
\<close>

definition metricPrefix :: "bytes option \<Rightarrow> bytes \<Rightarrow> bytes" where
  "metricPrefix hostname prefix =
     replaceAll (str ''{host}'')
       (case hostname of Some h \<Rightarrow> replaceByte cDot (str ''_'') h | None \<Rightarrow> str ''localhost'') prefix"

definition configure ::
  "bytes option \<Rightarrow> (bytes \<Rightarrow> 'e + bytes) \<Rightarrow> (bytes \<Rightarrow> (bytes \<Rightarrow> bool) option) \<Rightarrow> ('e, 'k) read_error + ('h, 'l) config \<times> bool \<Rightarrow>
   (('e, 'k) read_error + ('h, 'l) config) option" where
  "configure hostname parseURL compile r =
     (case r of
        Inl e \<Rightarrow> Some (Inl e)
      | Inr (cfg, _) \<Rightarrow>
          (let common = (cfCommon cfg)\<lparr>cmMetricPrefix := metricPrefix hostname (cmMetricPrefix (cfCommon cfg))\<rparr>;
               common = (if cmMetricEndpoint common = [] then common\<lparr>cmMetricEndpoint := MetricEndpointLocal\<rparr> else common)
           in case (if cmMetricEndpoint common \<noteq> MetricEndpointLocal
                    then (case parseURL (cmMetricEndpoint common) of
                            Inl e \<Rightarrow> Some (EndpointError e)
                          | Inr scheme \<Rightarrow>
                              if scheme \<noteq> str ''tcp'' \<and> scheme \<noteq> str ''udp'' then Some (EndpointScheme scheme) else None)
                    else None) of
                Some e \<Rightarrow> Some (Inl e)
              | None \<Rightarrow>
                  (case Configure compile (cfTagDesc cfg) of
                     None \<Rightarrow> None
                   | Some (_, Some e) \<Rightarrow> Some (Inl (TagError e))
                   | Some (tags, None) \<Rightarrow> Some (Inr (cfg\<lparr>cfCommon := common, cfTagDesc := tags\<rparr>)))))"

subsection \<open>What an accepted configuration looks like\<close>

text \<open>The pattern does not occur.\<close>

definition occurs :: "bytes \<Rightarrow> bytes \<Rightarrow> bool" where
  "occurs old s \<longleftrightarrow> (\<exists>i \<le> length s. HasPrefix (drop i s) old)"

lemma replaceAll_absent: "\<not> occurs old s \<Longrightarrow> replaceAll old new s = s"
proof (induction s)
  case Nil
  then show ?case by (simp add: replaceAll.simps)
next
  case (Cons c s)
  from Cons.prems have "\<not> HasPrefix (c # s) old" by (force simp: occurs_def intro: exI [of _ 0])
  moreover from Cons.prems have "\<not> occurs old s" by (force simp: occurs_def intro: exI [of _ "Suc _"])
  ultimately show ?case using Cons.IH by (simp add: replaceAll.simps)
qed

lemma replaceAll_at:
  assumes "old \<noteq> []"
  shows "replaceAll old new (old @ s) = new @ replaceAll old new s"
  using assms by (subst replaceAll.simps) (simp add: HasPrefix_def)

text \<open>
  The daemon starts with an endpoint that its statistics sender accepts: what \<open>configure\<close> lets pass is
  never replaced by the fallback of the collector.
\<close>

lemma configure_endpoint:
  assumes "configure hostname parseURL compile r = Some (Inr cfg)"
  shows "cmMetricEndpoint (cfCommon cfg) = MetricEndpointLocal
     \<or> parseURL (cmMetricEndpoint (cfCommon cfg)) \<in> {Inr (str ''tcp''), Inr (str ''udp'')}"
  using assms unfolding configure_def Let_def
  by (auto split: sum.splits prod.splits option.splits if_splits)

end
