(* ===== verification/Collector.thy ===== *)
theory Collector
  imports RB_Writer Strconv
begin

text \<open>
  \<^verbatim>\<open>carbon/collector.go\<close>: the statistics of all modules, sent as metrics either into the writer or to a
  remote endpoint. The channel of points is a list; a select between the channel and a done
  context is an argument that says how many points are read first.
\<close>

record stat_point =
  stMetric :: bytes
  stValue :: float64
  stTime :: uint32

text \<open>
  The choice of the sender in \<open>NewCollector\<close>; \<open>parse\<close> is \<open>url.Parse\<close> and returns scheme and host. An
  endpoint that is not usable falls back to the writer.
\<close>

datatype sender = ToWriter | ToRemote bytes bytes

definition collectorSender :: "(bytes \<Rightarrow> (bytes \<times> bytes) option) \<Rightarrow> bytes \<Rightarrow> sender" where
  "collectorSender parse endpoint =
     (let endpoint = (if endpoint = [] then str ''local'' else endpoint)
      in if endpoint \<noteq> str ''local''
         then (case parse endpoint of
                 None \<Rightarrow> ToWriter
               | Some (scheme, host) \<Rightarrow>
                   if scheme = str ''tcp'' \<or> scheme = str ''udp'' then ToRemote scheme host else ToWriter)
         else ToWriter)"

definition dataCap :: nat where "dataCap = 4096"

text \<open>\<open>sendCallback\<close>: a full channel drops the metric.\<close>

definition statKey :: "bytes \<Rightarrow> bytes \<Rightarrow> bytes \<Rightarrow> bytes" where
  "statKey prefix moduleName metric = prefix @ [cDot] @ moduleName @ [cDot] @ metric"

definition sendStat :: "bytes \<Rightarrow> uint32 \<Rightarrow> bytes \<Rightarrow> bytes \<times> float64 \<Rightarrow> stat_point list \<Rightarrow> stat_point list" where
  "sendStat prefix now moduleName mv data =
     (if length data < dataCap
      then data @ [\<lparr>stMetric = statKey prefix moduleName (fst mv), stValue = snd mv, stTime = now\<rparr>] else data)"

text \<open>\<open>collect\<close>: every module sends its values, in the order of the modules.\<close>

definition collect :: "bytes \<Rightarrow> uint32 \<Rightarrow> (bytes \<times> (bytes \<times> float64) list) list \<Rightarrow> stat_point list \<Rightarrow> stat_point list" where
  "collect prefix now modules data =
     foldl (\<lambda>data m. foldl (\<lambda>data mv. sendStat prefix now (fst m) mv data) data (snd m)) data modules"

text \<open>
  \<open>readData\<close>: \<open>None\<close> as argument: the context is not done, and the call waits for a first point
  (\<open>None\<close> as result) and then takes all there are; otherwise it returns after that many points.
\<close>

definition readData :: "nat option \<Rightarrow> 'p list \<Rightarrow> ('p list \<times> 'p list) option" where
  "readData done data =
     (case done of
        Some k \<Rightarrow> Some (take k data, drop k data)
      | None \<Rightarrow> if data = [] then None else Some (data, []))"

subsection \<open>Into the writer\<close>

text \<open>The loop over the points of one batch: the buffers sent and the current one.\<close>

definition localStep ::
  "(uint32 \<Rightarrow> uint16) \<Rightarrow> uint32 \<Rightarrow> stat_point \<Rightarrow> write_buffer list \<times> write_buffer \<Rightarrow> (write_buffer list \<times> write_buffer) option" where
  "localStep days now p = (\<lambda>(sent, b).
     let (sent, b) = (if \<not> CanWriteGraphitePoint (length (stMetric p)) b then (sent @ [b], GetWriteBuffer newWriteBuffer) else (sent, b))
     in map_option (Pair sent) (WriteGraphitePoint days (stMetric p) (stValue p) (stTime p) now b))"

text \<open>\<open>local\<close> for one batch: \<open>None\<close> is a panic; \<open>sends\<close> is the number of sends before the context is done.\<close>

definition localBatch ::
  "(uint32 \<Rightarrow> uint16) \<Rightarrow> uint32 \<Rightarrow> nat option \<Rightarrow> stat_point list \<Rightarrow> write_buffer list option" where
  "localBatch days now sends points =
     (if points = [] then Some []
      else map_option (\<lambda>(sent, b). let bs = sent @ [b] in case sends of None \<Rightarrow> bs | Some k \<Rightarrow> take k bs)
             (rangeLoop (localStep days now) points ([], GetWriteBuffer newWriteBuffer)))"

subsection \<open>To a remote endpoint\<close>

text \<open>\<open>fmt.Sprintf("%s %v %d\n", ...)\<close>\<close>

definition statLine :: "(float64 \<Rightarrow> bytes) \<Rightarrow> stat_point \<Rightarrow> bytes" where
  "statLine fmtFloat p = stMetric p @ [cSpace] @ fmtFloat (stValue p) @ [cSpace] @ itoa (unat (stTime p)) @ [cLF]"

definition chunkStep :: "(float64 \<Rightarrow> bytes) \<Rightarrow> nat \<Rightarrow> stat_point \<Rightarrow> bytes list \<times> bytes \<Rightarrow> (bytes list \<times> bytes) option" where
  "chunkStep fmtFloat chunkSize p = (\<lambda>(chunks, buf).
     let s = statLine fmtFloat p;
         (chunks, buf) = (if length buf + length s > chunkSize then (chunks @ [buf], []) else (chunks, buf))
     in Some (chunks, buf @ s))"

text \<open>\<open>chunked\<close> for one batch: the arguments of the callback, in order.\<close>

definition chunkedBatch :: "(float64 \<Rightarrow> bytes) \<Rightarrow> nat \<Rightarrow> stat_point list \<Rightarrow> bytes list" where
  "chunkedBatch fmtFloat chunkSize points =
     (if points = [] then []
      else (case rangeLoop (chunkStep fmtFloat chunkSize) points ([], []) of None \<Rightarrow> [] | Some (chunks, buf) \<Rightarrow> chunks @ [buf]))"

definition chunkSizeOf :: "bytes \<Rightarrow> nat" where
  "chunkSizeOf scheme = (if scheme = str ''udp'' then 1000 else 32768)"

datatype send_try = CtxDone | DialFailed | DeadlineFailed | SendFailed | SendOk

text \<open>The callback of \<open>remote\<close>: what was sent, or \<open>None\<close> while it is still trying.\<close>

fun sendLoop :: "bytes \<Rightarrow> send_try list \<Rightarrow> bytes list option" where
  "sendLoop chunk [] = None"
| "sendLoop chunk (CtxDone # _) = Some []"
| "sendLoop chunk (SendOk # _) = Some [chunk]"
| "sendLoop chunk (_ # tries) = sendLoop chunk tries"

definition remoteBatch :: "(float64 \<Rightarrow> bytes) \<Rightarrow> bytes \<Rightarrow> (nat \<Rightarrow> send_try list) \<Rightarrow> stat_point list \<Rightarrow> bytes list option list" where
  "remoteBatch fmtFloat scheme tries points =
     map (\<lambda>(i, chunk). sendLoop chunk (tries i)) (enumerate 0 (chunkedBatch fmtFloat (chunkSizeOf scheme) points))"

subsection \<open>The collector packs points\<close>

definition statPoint :: "uint32 \<Rightarrow> stat_point \<Rightarrow> point" where
  "statPoint now p = \<lparr>pName = stMetric p, pValue = stValue p, pTime = stTime p, pVersion = now\<rparr>"

definition localInv :: "(uint32 \<Rightarrow> uint16) \<Rightarrow> write_buffer list \<times> write_buffer \<Rightarrow> bool" where
  "localInv days s \<longleftrightarrow> (\<forall>b \<in> set (snd s # fst s). wbUsed b \<le> WriteBufferSize) \<and> whole (encPoint days) (wbBody (snd s))"

lemma localStep_ok:
  assumes "localInv days (sent, b)" "length (stMetric p) \<le> WriteBufferSize - 50"
  shows "\<exists>sent' b'. localStep days now p (sent, b) = Some (sent @ sent', b') \<and> localInv days (sent @ sent', b')
     \<and> concat (map wbBody sent') @ wbBody b' = wbBody b @ encPoint days (statPoint now p)
     \<and> (\<forall>c \<in> set (b' # sent'). whole (encPoint days) (wbBody c))"
proof -
  have fresh: "CanWriteGraphitePoint (length (stMetric p)) (GetWriteBuffer newWriteBuffer)"
    using CanWrite_fresh [OF assms(2)] by (simp add: GetWriteBuffer_def Reset_def newWriteBuffer_def)
  have room: "wbUsed b1 + length (encPoint days (statPoint now p)) \<le> WriteBufferSize
     \<and> length (encPoint days (statPoint now p)) \<le> FreeSize b1"
    if "CanWriteGraphitePoint (length (stMetric p)) b1" for b1
    using CanWriteGraphitePoint_room [OF that, of days "stValue p" "stTime p" now] that
    by (simp add: FreeSize_def CanWriteGraphitePoint_def statPoint_def)
  have put: "WriteGraphitePoint days (stMetric p) (stValue p) (stTime p) now b1 = Some (appendWb (encPoint days (statPoint now p)) b1)"
    if "CanWriteGraphitePoint (length (stMetric p)) b1" for b1
    using WriteGraphitePoint_ok [of days "stMetric p" "stValue p" "stTime p" now b1] room [OF that] by (simp add: statPoint_def)
  have wh: "whole (encPoint days) c \<Longrightarrow> whole (encPoint days) (c @ encPoint days (statPoint now p))" for c
    by (simp add: whole_append)
  have used: "wbUsed b1 + length x \<le> WriteBufferSize \<Longrightarrow> wbUsed (appendWb x b1) \<le> WriteBufferSize" for b1 x by simp
  show ?thesis
  proof (cases "CanWriteGraphitePoint (length (stMetric p)) b")
    case True
    then show ?thesis
      using put [OF True] room [OF True] used wh assms(1)
      by (intro exI [of _ "[]"] exI [of _ "appendWb (encPoint days (statPoint now p)) b"]) (auto simp: localStep_def localInv_def)
  next
    case False
    then show ?thesis
      using put [OF fresh] room [OF fresh] used wh [of "[]"] assms(1)
      by (intro exI [of _ "[b]"] exI [of _ "appendWb (encPoint days (statPoint now p)) (GetWriteBuffer newWriteBuffer)"])
        (auto simp: localStep_def localInv_def GetWriteBuffer_def Reset_def newWriteBuffer_def)
  qed
qed

interpretation lc: point_sink "localStep days now" "\<lambda>s. map wbBody (fst s)" "\<lambda>s. wbBody (snd s)" "localInv days"
    "\<lambda>p. length (stMetric p) \<le> WriteBufferSize - 50" "\<lambda>p. [statPoint now p]" "encPoint days" WriteBufferSize
  for days now
proof unfold_locales
  fix s and p :: stat_point
  assume "localInv days s" "length (stMetric p) \<le> WriteBufferSize - 50"
  then obtain sent' b' where "localStep days now p s = Some (fst s @ sent', b')" "localInv days (fst s @ sent', b')"
    "concat (map wbBody sent') @ wbBody b' = wbBody (snd s) @ encPoint days (statPoint now p)"
    "\<forall>c \<in> set (b' # sent'). whole (encPoint days) (wbBody c)"
    using localStep_ok [of days "fst s" "snd s" p now] by auto
  then show "\<exists>s' chunks. localStep days now p s = Some s' \<and> localInv days s'
       \<and> map wbBody (fst s') = map wbBody (fst s) @ chunks
       \<and> concat chunks @ wbBody (snd s') = wbBody (snd s) @ concat (map (encPoint days) [statPoint now p])
       \<and> (\<forall>c \<in> set (wbBody (snd s') # chunks). whole (encPoint days) c)"
    by (intro exI [of _ "(fst s @ sent', b')"] exI [of _ "map wbBody sent'"]) auto
qed (auto simp: localInv_def wbUsed_def)

text \<open>A batch for the writer: every point is encoded, in order, into buffers within their capacity.\<close>

lemma collector_local:
  assumes "points \<noteq> []" "\<forall>p \<in> set points. length (stMetric p) \<le> WriteBufferSize - 50"
  shows "\<exists>bs. localBatch days now None points = Some bs \<and> concat (map wbBody bs) = concat (map (encPoint days \<circ> statPoint now) points)
     \<and> (\<forall>b \<in> set bs. wbUsed b \<le> WriteBufferSize)"
proof -
  have "localInv days ([], GetWriteBuffer newWriteBuffer)"
    by (simp add: localInv_def GetWriteBuffer_def Reset_def newWriteBuffer_def wbUsed_def)
  from lc.steps_ok [OF this, of points now] assms(2) obtain s' where
    "rangeLoop (localStep days now) points ([], GetWriteBuffer newWriteBuffer) = Some s'" "localInv days s'"
    "concat (map wbBody (fst s')) @ wbBody (snd s') = concat (map (encPoint days) (concat (map (\<lambda>p. [statPoint now p]) points)))"
    by (auto simp: GetWriteBuffer_def Reset_def newWriteBuffer_def)
  then show ?thesis
    using assms(1) by (auto simp: localBatch_def localInv_def comp_def split: prod.splits)
qed

text \<open>The chunks of the remote sender.\<close>

definition chunkInv :: "(float64 \<Rightarrow> bytes) \<Rightarrow> nat \<Rightarrow> bytes list \<times> bytes \<Rightarrow> bool" where
  "chunkInv fmtFloat chunkSize s \<longleftrightarrow>
     (\<forall>c \<in> set (snd s # fst s). length c \<le> chunkSize) \<and> whole (statLine fmtFloat) (snd s)"

interpretation cc: point_sink "chunkStep fmtFloat chunkSize" fst snd "chunkInv fmtFloat chunkSize"
    "\<lambda>p. length (statLine fmtFloat p) \<le> chunkSize" "\<lambda>p. [p]" "statLine fmtFloat" chunkSize
  for fmtFloat chunkSize
proof unfold_locales
  fix s p
  assume "chunkInv fmtFloat chunkSize s" "length (statLine fmtFloat p) \<le> chunkSize"
  then show "\<exists>s' chunks. chunkStep fmtFloat chunkSize p s = Some s' \<and> chunkInv fmtFloat chunkSize s'
       \<and> fst s' = fst s @ chunks \<and> concat chunks @ snd s' = snd s @ concat (map (statLine fmtFloat) [p])
       \<and> (\<forall>c \<in> set (snd s' # chunks). whole (statLine fmtFloat) c)"
    by (cases s; cases "length (snd s) + length (statLine fmtFloat p) > chunkSize") (auto simp: chunkStep_def chunkInv_def intro: whole_append)
qed (auto simp: chunkInv_def)


definition demoStat :: "nat \<Rightarrow> stat_point" where
  "demoStat i = \<lparr>stMetric = str ''carbon.agents.h.tcp.active'' @ itoa i, stValue = 0, stTime = 1600000000\<rparr>"


text \<open>A first line longer than a chunk makes the sender emit an empty chunk before it.\<close>

lemma chunked_empty_first:
  "length (statLine fmtFloat p) > chunkSize \<Longrightarrow> chunkedBatch fmtFloat chunkSize [p] = [[], statLine fmtFloat p]"
  by (simp add: chunkedBatch_def chunkStep_def)

text \<open>The channel never holds more than its capacity; a full one drops the metric.\<close>

lemma sendStat_bound: "length data \<le> dataCap \<Longrightarrow> length (sendStat prefix now m mv data) \<le> dataCap"
  by (simp add: sendStat_def)

lemma collect_bound:
  assumes "length data \<le> dataCap"
  shows "length (collect prefix now modules data) \<le> dataCap"
proof -
  have inner: "length (foldl (\<lambda>data mv. sendStat prefix now m mv data) data mvs) \<le> dataCap" if "length data \<le> dataCap" for m mvs data
    using that by (induction mvs arbitrary: data) (simp_all add: sendStat_bound)
  show ?thesis
    unfolding collect_def using assms by (induction modules arbitrary: data) (simp_all add: inner)
qed

subsection \<open>The collector\<close>

text \<open>
  \<open>NewCollector\<close> and its worker: at every tick all modules are asked. An element of \<open>ticks\<close> is how many points the sender has taken
  before the tick, the time, and what the modules answer.
\<close>

record collector =
  coPrefix :: bytes
  coInterval :: int
  coSender :: sender
  coData :: "stat_point list"

definition NewCollector :: "(bytes \<Rightarrow> (bytes \<times> bytes) option) \<Rightarrow> bytes \<Rightarrow> int \<Rightarrow> bytes \<Rightarrow> collector" where
  "NewCollector parse prefix interval endpoint =
     \<lparr>coPrefix = prefix, coInterval = interval, coSender = collectorSender parse endpoint, coData = []\<rparr>"

definition collectorTick :: "collector \<Rightarrow> nat \<times> uint32 \<times> (bytes \<times> (bytes \<times> float64) list) list \<Rightarrow> collector" where
  "collectorTick c = (\<lambda>(taken, now, modules). c\<lparr>coData := collect (coPrefix c) now modules (drop taken (coData c))\<rparr>)"

definition collectorRun :: "(nat \<times> uint32 \<times> (bytes \<times> (bytes \<times> float64) list) list) list \<Rightarrow> collector \<Rightarrow> collector" where
  "collectorRun ticks c = foldl collectorTick c ticks"

lemma collector_bound: "length (coData (collectorRun ticks (NewCollector parse prefix interval endpoint))) \<le> dataCap"
proof -
  have "length (coData (foldl collectorTick c ticks)) \<le> dataCap" if "length (coData c) \<le> dataCap" for c
    using that
  proof (induction ticks arbitrary: c)
    case (Cons t ticks)
    obtain taken now modules where t: "t = (taken, now, modules)" by (rule prod_cases3)
    have "length (coData (collectorTick c t)) \<le> dataCap"
      unfolding t collectorTick_def by (simp, rule collect_bound) (use Cons.prems in simp)
    with Cons.IH show ?case by simp
  qed simp
  then show ?thesis by (simp add: collectorRun_def NewCollector_def)
qed

end
