(* ===== verification/App.thy ===== *)
theory App
  imports AppConfig Collector
begin

text \<open>
  \<^verbatim>\<open>carbon/app.go\<close>: the supervisor of the daemon. The handles of the modules are the fields of a record;
  the calls that start and stop a module are written to a log, so that the modules running at a
  moment are a function of the log. \<open>None\<close> is a panic.
\<close>

datatype module = ModWriter | ModUploader bytes | ModReceiver rcv_kind | ModCollector

datatype event = EvStart module | EvStop module

record writer_args =
  waPath :: bytes
  waChunkMaxSize :: "64 word"
  waAutoInterval :: chunk_interval
  waCompAlgo :: comp_algo
  waCompLevel :: int
  waUploaders :: "bytes list"

record ('h, 'l) app =
  apConfig :: "('h, 'l) config"
  apWriter :: "writer_args option"
  apUploaders :: "(bytes \<times> uploader_kind) list option"
  apReceivers :: "rcv_kind \<rightharpoonup> base"
  apCollector :: "(bytes list \<times> sender) option"
  apExit :: bool
  apClosed :: bool
  apMux :: "bytes list"
  apLog :: "event list"

text \<open>\<open>New\<close>, with the configuration \<open>ParseConfig\<close> then stores.\<close>

definition newApp :: "('h, 'l) config \<Rightarrow> ('h, 'l) app" where
  "newApp cfg =
     \<lparr>apConfig = cfg, apWriter = None, apUploaders = None, apReceivers = Map.empty, apCollector = None,
      apExit = True, apClosed = False, apMux = [], apLog = []\<rparr>"

definition logEvent :: "event \<Rightarrow> ('h, 'l) app \<Rightarrow> ('h, 'l) app" where
  "logEvent e app = app\<lparr>apLog := apLog app @ [e]\<rparr>"

subsection \<open>Stopping\<close>

text \<open>One block of \<open>stopListeners\<close>: the module is stopped if it exists, and forgotten.\<close>

definition stopReceiver :: "rcv_kind \<Rightarrow> ('h, 'l) app \<Rightarrow> ('h, 'l) app" where
  "stopReceiver k app =
     (case apReceivers app k of
        None \<Rightarrow> app
      | Some _ \<Rightarrow> logEvent (EvStop (ModReceiver k)) (app\<lparr>apReceivers := (apReceivers app)(k := None)\<rparr>))"

definition stopListeners :: "('h, 'l) app \<Rightarrow> ('h, 'l) app" where
  "stopListeners app = fold stopReceiver [TCP, Pickle, UDP, GRPC, PrometheusRemoteWrite, TelegrafHttpJson] app"

definition stopCollector :: "('h, 'l) app \<Rightarrow> ('h, 'l) app" where
  "stopCollector app =
     (case apCollector app of None \<Rightarrow> app | Some _ \<Rightarrow> logEvent (EvStop ModCollector) (app\<lparr>apCollector := None\<rparr>))"

definition stopWriter :: "('h, 'l) app \<Rightarrow> ('h, 'l) app" where
  "stopWriter app = (case apWriter app of None \<Rightarrow> app | Some _ \<Rightarrow> logEvent (EvStop ModWriter) (app\<lparr>apWriter := None\<rparr>))"

text \<open>\<open>iter\<close> is the order in which Go ranges over a map.\<close>

definition stopUploaders :: "(bytes list \<Rightarrow> bytes list) \<Rightarrow> ('h, 'l) app \<Rightarrow> ('h, 'l) app" where
  "stopUploaders iter app =
     (case apUploaders app of
        None \<Rightarrow> app
      | Some us \<Rightarrow> (fold (\<lambda>n. logEvent (EvStop (ModUploader n))) (iter (map fst us)) app)\<lparr>apUploaders := None\<rparr>)"

definition closeExit :: "('h, 'l) app \<Rightarrow> ('h, 'l) app" where
  "closeExit app = (if apExit app then app\<lparr>apExit := False, apClosed := True\<rparr> else app)"

definition stopAll :: "(bytes list \<Rightarrow> bytes list) \<Rightarrow> ('h, 'l) app \<Rightarrow> ('h, 'l) app" where
  "stopAll iter app = closeExit (stopUploaders iter (stopWriter (stopCollector (stopListeners app))))"

subsection \<open>Starting\<close>

text \<open>
  What \<open>Start\<close> asks of the system: the number of processors, whether the start procedure of the writer
  (linking and cleanup) succeeds, whether a directory can be made, the URL
  parser, the resolver and the listener of \<open>receiver.New\<close>, the conversion of a duration to whole
  seconds, and the map order.
\<close>

record 'addr start_env =
  enProcs :: int
  enWriterStart :: bool
  enMkdir :: "bytes list \<Rightarrow> bool"
  enParse :: "bytes \<Rightarrow> (bytes \<times> bytes) option"
  enResolve :: "bytes \<Rightarrow> bytes \<Rightarrow> 'addr option"
  enListen :: "rcv_kind \<Rightarrow> 'addr \<Rightarrow> base \<Rightarrow> bool"
  enSeconds :: "int \<Rightarrow> uint32"
  enIter :: "bytes list \<Rightarrow> bytes list"

datatype start_error = MkdirError "bytes list" | UploaderError bytes | ReceiverError new_error

text \<open>The error of \<open>Writer.Start\<close> is not looked at: the handle is set even if no worker was started.\<close>

definition startWriter :: "'addr start_env \<Rightarrow> ('h, 'l) app \<Rightarrow> ('h, 'l) app \<times> start_error option" where
  "startWriter env app =
     (let data = cfData (apConfig app); auto = SetDefault (durationValue (dtFileInterval data)) (dtAutoInterval data);
          app = app\<lparr>apConfig := (apConfig app)\<lparr>cfData := data\<lparr>dtAutoInterval := auto\<rparr>\<rparr>\<rparr>
      in if \<not> enMkdir env [dtPath data] then (app, Some (MkdirError [dtPath data]))
         else ((if enWriterStart env then logEvent (EvStart ModWriter) else id)
                 (app\<lparr>apWriter := Some \<lparr>waPath = dtPath data, waChunkMaxSize = dtChunkMaxSize data, waAutoInterval = auto,
                    waCompAlgo = dtCompAlgo data, waCompLevel = dtCompLevel data, waUploaders = map fst (cfUpload (apConfig app))\<rparr>\<rparr>),
               None))"

text \<open>
  The loop that creates the uploaders. None of the uploaders has a \<open>CacheDump\<close> method, so no debug
  handler is registered.
\<close>

fun createUploaders :: "'addr start_env \<Rightarrow> (bytes \<times> 'h up_config) list \<Rightarrow> ('h, 'l) app \<Rightarrow> ('h, 'l) app \<times> start_error option" where
  "createUploaders env [] app = (app, None)"
| "createUploaders env ((name, cfg) # us) app =
     (let dir = [dtPath (cfData (apConfig app)), name] in
      if \<not> enMkdir env dir then (app, Some (MkdirError dir))
      else (case uploaderNew cfg of
              Inl ty \<Rightarrow> (app, Some (UploaderError ty))
            | Inr (kind, _) \<Rightarrow>
                createUploaders env us (app\<lparr>apUploaders := map_option (\<lambda>m. m @ [(name, kind)]) (apUploaders app)\<rparr>)))"

definition startUploaders :: "'addr start_env \<Rightarrow> ('h, 'l) app \<Rightarrow> ('h, 'l) app" where
  "startUploaders env app =
     (case apUploaders app of
        None \<Rightarrow> app
      | Some us \<Rightarrow> fold (\<lambda>n. logEvent (EvStart (ModUploader n))) (enIter env (map fst us)) app)"

text \<open>\<open>http.HandleFunc\<close> panics when the pattern is taken.\<close>

definition handleFunc :: "bytes \<Rightarrow> ('h, 'l) app \<Rightarrow> ('h, 'l) app option" where
  "handleFunc pattern app = (if pattern \<in> set (apMux app) then None else Some (app\<lparr>apMux := pattern # apMux app\<rparr>))"

definition maxProcs :: "'addr start_env \<Rightarrow> ('h, 'l) config \<Rightarrow> int" where
  "maxProcs env cfg = (if cmMaxCPU (cfCommon cfg) \<ge> 1 then cmMaxCPU (cfCommon cfg) else enProcs env)"

definition listenerOpts :: "'addr start_env \<Rightarrow> 'z listener_config_scheme \<Rightarrow> rcv_option list" where
  "listenerOpts env c =
     [WriteChan [], DropFuture (enSeconds env (durationValue (lsDropFuture c))),
      DropPast (enSeconds env (durationValue (lsDropPast c))), DropLongerThan (lsDropLongerThan c)]"

text \<open>The six blocks: enabled, scheme, name of the debug page, address and options.\<close>

definition receiverPlan :: "'addr start_env \<Rightarrow> ('h, 'l) config \<Rightarrow> (rcv_kind \<times> bool \<times> string \<times> string \<times> bytes \<times> rcv_option list) list" where
  "receiverPlan env cfg =
     (let threads = ParseThreads (maxProcs env cfg * 2) in
      [(TCP, lsEnabled (cfTcp cfg), ''tcp'', ''tcp'', lsListen (cfTcp cfg),
          threads # listenerOpts env (cfTcp cfg) @ [ReadTimeout (enSeconds env (durationValue (tcpReadTimeout (cfTcp cfg))))]),
       (UDP, lsEnabled (cfUdp cfg), ''udp'', ''udp'', lsListen (cfUdp cfg), threads # listenerOpts env (cfUdp cfg)),
       (Pickle, lsEnabled (cfPickle cfg), ''pickle'', ''pickle'', lsListen (cfPickle cfg), threads # listenerOpts env (cfPickle cfg)),
       (GRPC, lsEnabled (cfGrpc cfg), ''grpc'', ''grpc'', lsListen (cfGrpc cfg), listenerOpts env (cfGrpc cfg)),
       (PrometheusRemoteWrite, lsEnabled (cfPrometheus cfg), ''prometheus'', ''prometheus'', lsListen (cfPrometheus cfg),
          listenerOpts env (cfPrometheus cfg)),
       (TelegrafHttpJson, lsEnabled (cfTelegraf cfg), ''telegraf+http+json'', ''telegraf_http_json'', lsListen (cfTelegraf cfg),
          listenerOpts env (cfTelegraf cfg) @ [ConcatChar (thConcat (cfTelegraf cfg))])])"

definition startReceiver ::
  "'addr start_env \<Rightarrow> rcv_kind \<times> bool \<times> string \<times> string \<times> bytes \<times> rcv_option list \<Rightarrow> ('h, 'l) app \<Rightarrow>
   (('h, 'l) app \<times> start_error option) option" where
  "startReceiver env plan app =
     (case plan of (field, enabled, scheme, page, listen, opts) \<Rightarrow>
        if \<not> enabled then Some (app, None)
        else (case New (enParse env) (enResolve env) (enListen env) (str scheme @ str ''://'' @ listen) (cfTagDesc (apConfig app)) opts of
                Inl e \<Rightarrow> Some (app\<lparr>apReceivers := (apReceivers app)(field := None)\<rparr>, Some (ReceiverError e))
              | Inr (_, r) \<Rightarrow>
                  map_option (\<lambda>app. (app, None))
                    (handleFunc (str ''/debug/receive/'' @ str page @ str ''/dropped/'')
                       (logEvent (EvStart (ModReceiver field)) (app\<lparr>apReceivers := (apReceivers app)(field \<mapsto> r)\<rparr>)))))"

fun startReceivers ::
  "'addr start_env \<Rightarrow> (rcv_kind \<times> bool \<times> string \<times> string \<times> bytes \<times> rcv_option list) list \<Rightarrow> ('h, 'l) app \<Rightarrow>
   (('h, 'l) app \<times> start_error option) option" where
  "startReceivers env [] app = Some (app, None)"
| "startReceivers env (p # ps) app =
     (case startReceiver env p app of
        None \<Rightarrow> None
      | Some (app, Some e) \<Rightarrow> Some (app, Some e)
      | Some (app, None) \<Rightarrow> startReceivers env ps app)"

text \<open>The modules whose statistics \<open>NewCollector\<close> registers.\<close>

definition collectorModules :: "'addr start_env \<Rightarrow> ('h, 'l) app \<Rightarrow> bytes list" where
  "collectorModules env app =
     (if apWriter app \<noteq> None then [str ''writer''] else [])
     @ concat (map (\<lambda>(k, n). if apReceivers app k \<noteq> None then [str n] else [])
         [(TCP, ''tcp''), (Pickle, ''pickle''), (UDP, ''udp''), (PrometheusRemoteWrite, ''prometheus''),
          (TelegrafHttpJson, ''telegraf_http_json'')])
     @ (case apUploaders app of None \<Rightarrow> [] | Some us \<Rightarrow> map (\<lambda>n. str ''upload.'' @ n) (enIter env (map fst us)))"

definition startCollector :: "'addr start_env \<Rightarrow> ('h, 'l) app \<Rightarrow> ('h, 'l) app" where
  "startCollector env app =
     (if cmEnabled (cfCommon (apConfig app))
      then logEvent (EvStart ModCollector)
             (app\<lparr>apCollector := Some (collectorModules env app, collectorSender (enParse env) (cmMetricEndpoint (cfCommon (apConfig app))))\<rparr>)
      else app)"

text \<open>The body of \<open>Start\<close> without the deferred function.\<close>

definition startBody :: "'addr start_env \<Rightarrow> ('h, 'l) app \<Rightarrow> (('h, 'l) app \<times> start_error option) option" where
  "startBody env app =
     (case startWriter env app of
        (app, Some e) \<Rightarrow> Some (app, Some e)
      | (app, None) \<Rightarrow>
          (case createUploaders env (cfUpload (apConfig app)) (app\<lparr>apUploaders := Some []\<rparr>) of
             (app, Some e) \<Rightarrow> Some (app, Some e)
           | (app, None) \<Rightarrow>
               (let app = startUploaders env app in
                case startReceivers env (receiverPlan env (apConfig app)) app of
                  None \<Rightarrow> None
                | Some (app, Some e) \<Rightarrow> Some (app, Some e)
                | Some (app, None) \<Rightarrow> Some (startCollector env app, None))))"

definition Start :: "'addr start_env \<Rightarrow> ('h, 'l) app \<Rightarrow> (('h, 'l) app \<times> start_error option) option" where
  "Start env app =
     (case startBody env app of
        None \<Rightarrow> None
      | Some (app, Some e) \<Rightarrow> Some (stopAll (enIter env) app, Some e)
      | Some (app, None) \<Rightarrow> Some (app, None))"

subsection \<open>Signals and the main loop\<close>

text \<open>\<open>Reset\<close>: the uploaders whose cache is cleared, those built on the cached uploader.\<close>

definition resetTargets :: "(bytes list \<Rightarrow> bytes list) \<Rightarrow> ('h, 'l) app \<Rightarrow> bytes list" where
  "resetTargets iter app =
     (case apUploaders app of
        None \<Rightarrow> []
      | Some us \<Rightarrow> filter (\<lambda>n. case map_of us n of None \<Rightarrow> False | Some (UPoints _) \<Rightarrow> False | Some _ \<Rightarrow> True) (iter (map fst us)))"

datatype signal = SIGUSR1 | SIGUSR2 | SIGHUP | SIGTERM | SIGINT

definition onSignal :: "(bytes list \<Rightarrow> bytes list) \<Rightarrow> signal \<Rightarrow> ('h, 'l) app \<Rightarrow> ('h, 'l) app \<times> bytes list" where
  "onSignal iter s app =
     (case s of
        SIGUSR1 \<Rightarrow> (app, resetTargets iter app)
      | SIGTERM \<Rightarrow> (stopAll iter app, [])
      | SIGINT \<Rightarrow> (stopAll iter app, [])
      | _ \<Rightarrow> (app, []))"

text \<open>
  \<open>Loop\<close>: the field is read under the lock, and read again for the receive. A receive on a nil
  channel blocks for ever.
\<close>

datatype loop_pc = LoopStart | LoopChecked | LoopWaiting | LoopBlocked | LoopReturned

definition loopStep :: "('h, 'l) app \<Rightarrow> loop_pc \<Rightarrow> loop_pc" where
  "loopStep app pc =
     (case pc of
        LoopStart \<Rightarrow> if apExit app then LoopChecked else LoopReturned
      | LoopChecked \<Rightarrow> if apExit app then LoopWaiting else LoopBlocked
      | LoopWaiting \<Rightarrow> if apClosed app then LoopReturned else LoopWaiting
      | _ \<Rightarrow> pc)"

inductive main_step :: "(bytes list \<Rightarrow> bytes list) \<Rightarrow> ('h, 'l) app \<times> loop_pc \<Rightarrow> ('h, 'l) app \<times> loop_pc \<Rightarrow> bool" where
  signal: "main_step iter (app, pc) (fst (onSignal iter s app), pc)"
| loop: "main_step iter (app, pc) (app, loopStep app pc)"

inductive_cases main_stepE [elim!]: "main_step iter s t"

subsection \<open>What is running\<close>

definition track :: "event \<Rightarrow> module set \<Rightarrow> module set" where
  "track e S = (case e of EvStart m \<Rightarrow> insert m S | EvStop m \<Rightarrow> S - {m})"

definition running :: "event list \<Rightarrow> module set" where
  "running l = fold track l {}"

definition producers :: "module set" where
  "producers = insert ModCollector (range ModReceiver)"

text \<open>Whenever the writer is stopped, no module that sends it buffers is running.\<close>

fun drainedFrom :: "module set \<Rightarrow> event list \<Rightarrow> bool" where
  "drainedFrom S [] = True"
| "drainedFrom S (e # l) \<longleftrightarrow> (e = EvStop ModWriter \<longrightarrow> S \<inter> producers = {}) \<and> drainedFrom (track e S) l"

definition drained :: "event list \<Rightarrow> bool" where
  "drained l = drainedFrom {} l"

lemma drainedFrom_append: "drainedFrom S (l @ l') \<longleftrightarrow> drainedFrom S l \<and> drainedFrom (fold track l S) l'"
  by (induction l arbitrary: S) auto

lemma running_snoc [simp]:
  "running [] = {}" "running (l @ [EvStart m]) = insert m (running l)" "running (l @ [EvStop m]) = running l - {m}"
  by (simp_all add: running_def track_def)

lemma drained_snoc [simp]:
  "drained []" "drained (l @ [e]) \<longleftrightarrow> drained l \<and> (e = EvStop ModWriter \<longrightarrow> running l \<inter> producers = {})"
  by (simp_all add: drained_def drainedFrom_append running_def)

text \<open>The modules the daemon has a handle for.\<close>

definition handles :: "('h, 'l) app \<Rightarrow> module set" where
  "handles app =
     (if apWriter app = None then {} else {ModWriter})
     \<union> ModReceiver ` dom (apReceivers app)
     \<union> (if apCollector app = None then {} else {ModCollector})
     \<union> (case apUploaders app of None \<Rightarrow> {} | Some us \<Rightarrow> ModUploader ` fst ` set us)"

definition appInv :: "('h, 'l) app \<Rightarrow> bool" where
  "appInv app \<longleftrightarrow> running (apLog app) \<subseteq> handles app \<and> drained (apLog app)"

lemma newApp_inv: "appInv (newApp cfg)"
  by (simp add: appInv_def newApp_def)

subsection \<open>Stopping everything\<close>

lemma logEvent_simps [simp]:
  "apLog (logEvent e app) = apLog app @ [e]" "apWriter (logEvent e app) = apWriter app"
  "apReceivers (logEvent e app) = apReceivers app" "apCollector (logEvent e app) = apCollector app"
  "apUploaders (logEvent e app) = apUploaders app" "apExit (logEvent e app) = apExit app"
  "apClosed (logEvent e app) = apClosed app" "apConfig (logEvent e app) = apConfig app" "apMux (logEvent e app) = apMux app"
  by (simp_all add: logEvent_def)

lemma handles_logEvent [simp]: "handles (logEvent e app) = handles app"
  by (simp add: handles_def)

lemma stopReceiver_effect:
  "apReceivers (stopReceiver k app) = (apReceivers app)(k := None)" "apWriter (stopReceiver k app) = apWriter app"
  "apCollector (stopReceiver k app) = apCollector app" "apUploaders (stopReceiver k app) = apUploaders app"
  "apExit (stopReceiver k app) = apExit app" "apClosed (stopReceiver k app) = apClosed app"
  by (auto simp: stopReceiver_def split: option.splits)

lemma stopReceiver_inv:
  assumes "appInv app"
  shows "appInv (stopReceiver k app)"
proof (cases "apReceivers app k")
  case None
  then show ?thesis using assms by (simp add: stopReceiver_def)
next
  case (Some r)
  have "handles (stopReceiver k app) = handles app - {ModReceiver k}"
    by (auto simp: handles_def stopReceiver_effect split: option.splits)
  moreover have "apLog (stopReceiver k app) = apLog app @ [EvStop (ModReceiver k)]"
    using Some by (simp add: stopReceiver_def)
  ultimately show ?thesis using assms by (auto simp: appInv_def)
qed

lemma stopListeners_effect:
  "apReceivers (stopListeners app) = Map.empty" "apWriter (stopListeners app) = apWriter app"
  "apCollector (stopListeners app) = apCollector app" "apUploaders (stopListeners app) = apUploaders app"
  "apExit (stopListeners app) = apExit app" "apClosed (stopListeners app) = apClosed app"
  "appInv app \<Longrightarrow> appInv (stopListeners app)"
  subgoal by (rule ext, case_tac x) (simp_all add: stopListeners_def stopReceiver_effect)
  by (simp_all add: stopListeners_def stopReceiver_effect stopReceiver_inv)

lemma stopCollector_effect:
  "apReceivers (stopCollector app) = apReceivers app" "apWriter (stopCollector app) = apWriter app"
  "apCollector (stopCollector app) = None" "apUploaders (stopCollector app) = apUploaders app"
  "apExit (stopCollector app) = apExit app" "apClosed (stopCollector app) = apClosed app"
  "appInv app \<Longrightarrow> appInv (stopCollector app)"
  by (auto simp: stopCollector_def appInv_def handles_def split: option.splits if_splits)

lemma stopWriter_effect:
  "apReceivers (stopWriter app) = apReceivers app" "apWriter (stopWriter app) = None"
  "apCollector (stopWriter app) = apCollector app" "apUploaders (stopWriter app) = apUploaders app"
  "apExit (stopWriter app) = apExit app" "apClosed (stopWriter app) = apClosed app"
  by (simp_all add: stopWriter_def split: option.splits)

lemma stopWriter_inv:
  assumes "appInv app" "apReceivers app = Map.empty" "apCollector app = None"
  shows "appInv (stopWriter app)"
  using assms
  by (cases "apUploaders app") (auto simp: stopWriter_def appInv_def handles_def producers_def split: option.splits if_splits)

lemma stopUploaders_log:
  "apLog (fold (\<lambda>n. logEvent (EvStop (ModUploader n))) ns app) = apLog app @ map (\<lambda>n. EvStop (ModUploader n)) ns"
  "apWriter (fold (\<lambda>n. logEvent (EvStop (ModUploader n))) ns app) = apWriter app"
  "apReceivers (fold (\<lambda>n. logEvent (EvStop (ModUploader n))) ns app) = apReceivers app"
  "apCollector (fold (\<lambda>n. logEvent (EvStop (ModUploader n))) ns app) = apCollector app"
  "apExit (fold (\<lambda>n. logEvent (EvStop (ModUploader n))) ns app) = apExit app"
  "apClosed (fold (\<lambda>n. logEvent (EvStop (ModUploader n))) ns app) = apClosed app"
  by (induction ns arbitrary: app) simp_all

lemma stops_running:
  "running (l @ map (\<lambda>n. EvStop (ModUploader n)) ns) = running l - ModUploader ` set ns"
  "drained (l @ map (\<lambda>n. EvStop (ModUploader n)) ns) = drained l"
proof (induction ns rule: rev_induct)
  case (snoc n ns)
  { case 1 show ?case using snoc by (auto simp del: append_assoc simp: append_assoc [symmetric])
  next case 2 show ?case using snoc by (simp del: append_assoc add: append_assoc [symmetric]) }
qed simp_all

lemma stopAll_ok:
  assumes "appInv app" "\<And>xs. set (iter xs) = set xs"
  shows "running (apLog (stopAll iter app)) = {} \<and> drained (apLog (stopAll iter app)) \<and> handles (stopAll iter app) = {}
     \<and> \<not> apExit (stopAll iter app) \<and> (apExit app \<longrightarrow> apClosed (stopAll iter app))"
proof -
  define a where "a = stopWriter (stopCollector (stopListeners app))"
  have a: "appInv a" "apReceivers a = Map.empty" "apCollector a = None" "apWriter a = None" "apExit a = apExit app"
    using assms(1) by (simp_all add: a_def stopWriter_effect stopWriter_inv stopCollector_effect stopListeners_effect)
  have "running (apLog a) \<subseteq> (case apUploaders a of None \<Rightarrow> {} | Some us \<Rightarrow> ModUploader ` fst ` set us)"
    using a(1-4) by (simp add: appInv_def handles_def)
  moreover have "drained (apLog a)" using a(1) by (simp add: appInv_def)
  ultimately show ?thesis
    unfolding stopAll_def a_def [symmetric] using a assms(2)
    by (cases "apUploaders a")
      (auto simp: closeExit_def stopUploaders_def stopUploaders_log stops_running handles_def image_image)
qed

subsection \<open>Starting everything\<close>

text \<open>Every part of \<open>Start\<close> keeps the invariant; a part that succeeds has started what it is for.\<close>

definition receiverOk :: "'addr start_env \<Rightarrow> ('h, 'l) config \<Rightarrow> rcv_kind \<times> bool \<times> string \<times> string \<times> bytes \<times> rcv_option list \<Rightarrow> bool" where
  "receiverOk env cfg plan =
     (case plan of (field, enabled, scheme, page, listen, opts) \<Rightarrow>
        enabled \<longrightarrow> \<not> isl (New (enParse env) (enResolve env) (enListen env) (str scheme @ str ''://'' @ listen) (cfTagDesc cfg) opts))"

definition uploaderOk :: "'addr start_env \<Rightarrow> ('h, 'l) config \<Rightarrow> bytes \<times> 'h up_config \<Rightarrow> bool" where
  "uploaderOk env cfg u \<longleftrightarrow> enMkdir env [dtPath (cfData cfg), fst u] \<and> uploaderKind (ucType (snd u)) \<noteq> None"

definition startable :: "'addr start_env \<Rightarrow> ('h, 'l) config \<Rightarrow> bool" where
  "startable env cfg \<longleftrightarrow> enMkdir env [dtPath (cfData cfg)] \<and> (\<forall>u \<in> set (cfUpload cfg). uploaderOk env cfg u)
     \<and> (\<forall>p \<in> set (receiverPlan env cfg). receiverOk env cfg p)"

definition wanted :: "'addr start_env \<Rightarrow> ('h, 'l) config \<Rightarrow> module set" where
  "wanted env cfg =
     (if enWriterStart env then {ModWriter} else {}) \<union> ModUploader ` fst ` set (cfUpload cfg)
     \<union> ModReceiver ` {k. \<exists>x. (k, True, x) \<in> set (receiverPlan env cfg)}
     \<union> (if cmEnabled (cfCommon cfg) then {ModCollector} else {})"

lemma createUploaders_ok:
  assumes "createUploaders env us app = (app', r)" "apUploaders app = Some m"
  shows "apLog app' = apLog app \<and> apReceivers app' = apReceivers app \<and> apWriter app' = apWriter app \<and> apCollector app' = apCollector app
     \<and> apConfig app' = apConfig app \<and> apMux app' = apMux app \<and> apExit app' = apExit app \<and> apClosed app' = apClosed app
     \<and> (\<exists>m'. apUploaders app' = Some (m @ m') \<and> (r = None \<longrightarrow> map fst m' = map fst us))
     \<and> (r = None \<longleftrightarrow> (\<forall>u \<in> set us. uploaderOk env (apConfig app) u))"
  using assms
proof (induction env us app arbitrary: m rule: createUploaders.induct)
  case (1 env app)
  then show ?case by auto
next
  case (2 env name cfg us app)
  show ?case
  proof (cases "enMkdir env [dtPath (cfData (apConfig app)), name]")
    case False
    then show ?thesis using 2 by (auto simp: uploaderOk_def)
  next
    case dir: True
    show ?thesis
    proof (cases "uploaderKind (ucType cfg)")
      case None
      then have "uploaderNew cfg = Inl (ucType cfg)" by (simp add: uploaderNew_def Let_def)
      then show ?thesis using dir None 2 by (auto simp: uploaderOk_def)
    next
      case (Some k)
      then obtain rest where new: "uploaderNew cfg = Inr (k, rest)"
        by (cases "ucThreads cfg < 1") (auto simp: uploaderNew_def Let_def)
      let ?app = "app\<lparr>apUploaders := map_option (\<lambda>m. m @ [(name, k)]) (apUploaders app)\<rparr>"
      have "createUploaders env us ?app = (app', r)" using 2(2) dir new by simp
      from 2(1) [OF refl _ new refl this, of "m @ [(name, k)]"] show ?thesis
        using dir Some 2(3) by (auto simp: uploaderOk_def)
    qed
  qed
qed

lemma startUploaders_ok:
  assumes "appInv app" "\<And>xs. set (enIter env xs) = set xs" "apUploaders app = Some us"
  shows "appInv (startUploaders env app) \<and> running (apLog (startUploaders env app)) = running (apLog app) \<union> ModUploader ` fst ` set us"
    "apConfig (startUploaders env app) = apConfig app" "apMux (startUploaders env app) = apMux app"
    "apExit (startUploaders env app) = apExit app" "apClosed (startUploaders env app) = apClosed app"
    "apReceivers (startUploaders env app) = apReceivers app"
proof -
  let ?start = "fold (\<lambda>n. logEvent (EvStart (ModUploader n)))"
  have same: "apConfig (?start ns app) = apConfig app" "apMux (?start ns app) = apMux app" "apExit (?start ns app) = apExit app"
      "apClosed (?start ns app) = apClosed app" "apReceivers (?start ns app) = apReceivers app" "handles (?start ns app) = handles app" for ns
    by (induction ns arbitrary: app) simp_all
  have log: "running (apLog (?start ns app)) = running (apLog app) \<union> ModUploader ` set ns" "drained (apLog (?start ns app)) = drained (apLog app)" for ns
    by (induction ns arbitrary: app) (simp_all add: insert_commute)
  have "ModUploader ` fst ` set us \<subseteq> handles app"
    by (simp add: handles_def assms(3))
  then show "appInv (startUploaders env app) \<and> running (apLog (startUploaders env app)) = running (apLog app) \<union> ModUploader ` fst ` set us"
    using assms by (simp add: startUploaders_def appInv_def same log)
  show "apConfig (startUploaders env app) = apConfig app" "apMux (startUploaders env app) = apMux app"
    "apExit (startUploaders env app) = apExit app" "apClosed (startUploaders env app) = apClosed app"
    "apReceivers (startUploaders env app) = apReceivers app"
    using assms(3) by (simp_all add: startUploaders_def same)
qed

definition debugPage :: "rcv_kind \<times> bool \<times> string \<times> string \<times> bytes \<times> rcv_option list \<Rightarrow> bytes" where
  "debugPage = (\<lambda>(field, enabled, scheme, page, rest). str ''/debug/receive/'' @ str page @ str ''/dropped/'')"

lemma startReceiver_ok:
  assumes "appInv app" "debugPage p \<notin> set (apMux app)" "apReceivers app (fst p) = None"
  shows "\<exists>app' r. startReceiver env p app = Some (app', r) \<and> appInv app' \<and> (r = None \<longleftrightarrow> receiverOk env (apConfig app) p)
     \<and> (r = None \<longrightarrow> running (apLog app') = running (apLog app) \<union> ModReceiver ` {k. \<exists>x. (k, True, x) = p})
     \<and> set (apMux app') \<subseteq> insert (debugPage p) (set (apMux app)) \<and> (\<forall>k. k \<noteq> fst p \<longrightarrow> apReceivers app' k = apReceivers app k)
     \<and> apConfig app' = apConfig app \<and> apExit app' = apExit app \<and> apClosed app' = apClosed app"
proof -
  obtain field enabled scheme page listen opts where p: "p = (field, enabled, scheme, page, listen, opts)"
    by (cases p) auto
  let ?new = "New (enParse env) (enResolve env) (enListen env) (str scheme @ str ''://'' @ listen) (cfTagDesc (apConfig app)) opts"
  consider (off) "\<not> enabled" | (failed) e where "enabled" "?new = Inl e" | (up) kr where "enabled" "?new = Inr kr"
    by (cases ?new) auto
  then show ?thesis
  proof cases
    case off
    then show ?thesis using assms by (auto simp: p startReceiver_def receiverOk_def)
  next
    case failed
    have "(apReceivers app)(field := None) = apReceivers app" using assms(3) by (auto simp: p)
    then have "startReceiver env p app = Some (app, Some (ReceiverError e))" using failed by (simp add: p startReceiver_def)
    then show ?thesis using assms(1) failed by (auto simp: p receiverOk_def)
  next
    case up
    obtain k r where kr: "kr = (k, r)" by force
    let ?app = "logEvent (EvStart (ModReceiver field)) (app\<lparr>apReceivers := (apReceivers app)(field \<mapsto> r)\<rparr>)"
    have "handles ?app = insert (ModReceiver field) (handles app)"
      by (auto simp: handles_def)
    then have inv: "appInv (?app\<lparr>apMux := debugPage p # apMux app\<rparr>)"
      using assms(1) by (auto simp: appInv_def handles_def)
    have "startReceiver env p app = Some (?app\<lparr>apMux := debugPage p # apMux app\<rparr>, None)"
      using up assms(2) by (simp add: p startReceiver_def handleFunc_def debugPage_def kr)
    moreover have "receiverOk env (apConfig app) p" using up by (simp add: p receiverOk_def)
    ultimately show ?thesis using inv up by (auto simp: p)
  qed
qed

lemma startReceivers_ok:
  assumes "appInv app" "debugPage ` set ps \<inter> set (apMux app) = {}" "distinct (map debugPage ps)"
    "\<forall>p \<in> set ps. apReceivers app (fst p) = None" "distinct (map fst ps)"
  shows "\<exists>app' r. startReceivers env ps app = Some (app', r) \<and> appInv app' \<and> (r = None \<longleftrightarrow> (\<forall>p \<in> set ps. receiverOk env (apConfig app) p))
     \<and> (r = None \<longrightarrow> running (apLog app') = running (apLog app) \<union> ModReceiver ` {k. \<exists>x. (k, True, x) \<in> set ps})
     \<and> apConfig app' = apConfig app \<and> apExit app' = apExit app \<and> apClosed app' = apClosed app"
  using assms
proof (induction ps arbitrary: app)
  case Nil
  then show ?case by auto
next
  case (Cons p ps)
  from startReceiver_ok [of app p env] Cons.prems obtain app1 r1 where p: "startReceiver env p app = Some (app1, r1)" "appInv app1"
    "r1 = None \<longleftrightarrow> receiverOk env (apConfig app) p"
    "r1 = None \<longrightarrow> running (apLog app1) = running (apLog app) \<union> ModReceiver ` {k. \<exists>x. (k, True, x) = p}"
    "set (apMux app1) \<subseteq> insert (debugPage p) (set (apMux app))" "\<forall>k. k \<noteq> fst p \<longrightarrow> apReceivers app1 k = apReceivers app k"
    "apConfig app1 = apConfig app" "apExit app1 = apExit app" "apClosed app1 = apClosed app" by auto
  have "debugPage p \<notin> debugPage ` set ps" "debugPage ` set ps \<inter> set (apMux app) = {}" using Cons.prems(2,3) by simp_all
  moreover have "d \<notin> D \<Longrightarrow> D \<inter> M = {} \<Longrightarrow> M' \<subseteq> insert d M \<Longrightarrow> D \<inter> M' = {}" for d :: bytes and D M M' by blast
  ultimately have fresh: "debugPage ` set ps \<inter> set (apMux app1) = {}" using p(5) by simp
  have "fst p \<notin> fst ` set ps" using Cons.prems(5) by simp
  then have other: "fst q \<noteq> fst p" if "q \<in> set ps" for q using that by (metis imageI)
  have none: "\<forall>q \<in> set ps. apReceivers app1 (fst q) = None" using p(6) Cons.prems(4) other by simp
  show ?case
  proof (cases r1)
    case None
    have d: "distinct (map debugPage ps)" "distinct (map fst ps)" using Cons.prems(3,5) by simp_all
    from Cons.IH [OF p(2) fresh d(1) none d(2)] obtain app' r where q: "startReceivers env ps app1 = Some (app', r)" "appInv app'"
      "r = None \<longleftrightarrow> (\<forall>p \<in> set ps. receiverOk env (apConfig app1) p)"
      "r = None \<longrightarrow> running (apLog app') = running (apLog app1) \<union> ModReceiver ` {k. \<exists>x. (k, True, x) \<in> set ps}"
      "apConfig app' = apConfig app1" "apExit app' = apExit app1" "apClosed app' = apClosed app1" by blast
    have "{k. \<exists>x. (k, True, x) \<in> set (p # ps)} = {k. \<exists>x. (k, True, x) = p} \<union> {k. \<exists>x. (k, True, x) \<in> set ps}" by auto
    then have run: "r = None \<longrightarrow> running (apLog app') = running (apLog app) \<union> ModReceiver ` {k. \<exists>x. (k, True, x) \<in> set (p # ps)}"
      using None p(4) q(4) by (simp only: image_Un Un_assoc simp_thms)
    have ok: "r = None \<longleftrightarrow> (\<forall>x \<in> set (p # ps). receiverOk env (apConfig app) x)" using None p(3,7) q(3) by simp
    have "startReceivers env (p # ps) app = Some (app', r)" using None p(1) q(1) by simp
    moreover have "apConfig app' = apConfig app" "apExit app' = apExit app" "apClosed app' = apClosed app" using p(7-9) q(5-7) by simp_all
    ultimately show ?thesis using run ok q(2) by blast
  next
    case (Some e)
    then show ?thesis using p by auto
  qed
qed

lemma receiverPlan_data: "receiverPlan env (cfg\<lparr>cfData := d\<rparr>) = receiverPlan env cfg"
  unfolding receiverPlan_def maxProcs_def by simp

lemma receiverPlan_distinct: "distinct (map debugPage (receiverPlan env cfg))" "distinct (map fst (receiverPlan env cfg))"
  by (simp_all add: receiverPlan_def debugPage_def Let_def)

lemma startReceivers_plan:
  assumes "appInv app" "apMux app = []" "apReceivers app = Map.empty"
  shows "\<exists>app' r. startReceivers env (receiverPlan env cfg) app = Some (app', r) \<and> appInv app'
     \<and> (r = None \<longleftrightarrow> (\<forall>p \<in> set (receiverPlan env cfg). receiverOk env (apConfig app) p))
     \<and> (r = None \<longrightarrow> running (apLog app') = running (apLog app) \<union> ModReceiver ` {k. \<exists>x. (k, True, x) \<in> set (receiverPlan env cfg)})
     \<and> apConfig app' = apConfig app \<and> apExit app' = apExit app \<and> apClosed app' = apClosed app"
  by (rule startReceivers_ok [OF assms(1) _ receiverPlan_distinct(1) _ receiverPlan_distinct(2)]) (simp_all add: assms)

lemma startWriter_config:
  "apConfig (fst (startWriter env app)) = (apConfig app)\<lparr>cfData := (cfData (apConfig app))
     \<lparr>dtAutoInterval := SetDefault (durationValue (dtFileInterval (cfData (apConfig app)))) (dtAutoInterval (cfData (apConfig app)))\<rparr>\<rparr>"
  by (simp add: startWriter_def Let_def)

lemma startWriter_ok:
  assumes "startWriter env (newApp cfg) = (app, r)"
  shows "appInv app \<and> (r = None \<longleftrightarrow> enMkdir env [dtPath (cfData cfg)])
     \<and> (r = None \<longrightarrow> running (apLog app) = (if enWriterStart env then {ModWriter} else {}))"
    "apUploaders app = None" "apReceivers app = Map.empty" "apCollector app = None" "apMux app = []" "apExit app" "\<not> apClosed app"
proof -
  note sw = startWriter_def newApp_def Let_def
  have logs: "running [EvStart ModWriter] = {ModWriter}" "drained [EvStart ModWriter]"
    using running_snoc(2) [of "[]" ModWriter] drained_snoc(2) [of "[]" "EvStart ModWriter"] by simp_all
  show "appInv app \<and> (r = None \<longleftrightarrow> enMkdir env [dtPath (cfData cfg)])
     \<and> (r = None \<longrightarrow> running (apLog app) = (if enWriterStart env then {ModWriter} else {}))"
    using assms logs
    by (cases "enMkdir env [dtPath (cfData cfg)]"; cases "enWriterStart env")
      (clarsimp simp: sw appInv_def handles_def logEvent_def)+
  show "apUploaders app = None" "apReceivers app = Map.empty" "apCollector app = None" "apMux app = []" "apExit app" "\<not> apClosed app"
    using assms
    by (cases "enMkdir env [dtPath (cfData cfg)]"; cases "enWriterStart env"; clarsimp simp: sw logEvent_def)+
qed

lemma startCollector_ok:
  assumes "appInv app"
  shows "appInv (startCollector env app)"
    "running (apLog (startCollector env app))
       = running (apLog app) \<union> (if cmEnabled (cfCommon (apConfig app)) then {ModCollector} else {})"
    "apExit (startCollector env app) = apExit app" "apClosed (startCollector env app) = apClosed app"
  using assms by (auto simp: startCollector_def appInv_def handles_def split: if_splits)

lemma startBody_ok:
  assumes "\<And>xs. set (enIter env xs) = set xs"
  shows "\<exists>app r. startBody env (newApp cfg) = Some (app, r) \<and> appInv app \<and> (r = None \<longleftrightarrow> startable env cfg)
     \<and> (r = None \<longrightarrow> running (apLog app) = wanted env cfg) \<and> apExit app \<and> \<not> apClosed app"
proof -
  obtain a1 r1 where a1: "startWriter env (newApp cfg) = (a1, r1)" by force
  note w = startWriter_ok [OF a1]
  obtain auto where cfg: "apConfig a1 = cfg\<lparr>cfData := (cfData cfg)\<lparr>dtAutoInterval := auto\<rparr>\<rparr>"
    using startWriter_config [of env "newApp cfg"] a1 by (auto simp: newApp_def)
  show ?thesis
  proof (cases r1)
    case (Some e)
    then show ?thesis using w by (auto simp: startBody_def a1 startable_def)
  next
    case r1: None
    let ?a1 = "a1\<lparr>apUploaders := Some []\<rparr>"
    obtain a2 r2 where a2: "createUploaders env (cfUpload (apConfig a1)) ?a1 = (a2, r2)" by force
    have same: "uploaderOk env (apConfig a1) = uploaderOk env cfg" "receiverOk env (apConfig a1) = receiverOk env cfg"
      "receiverPlan env (apConfig a1) = receiverPlan env cfg" "cfUpload (apConfig a1) = cfUpload cfg"
      by (auto simp: cfg uploaderOk_def receiverOk_def receiverPlan_data fun_eq_iff)
    from createUploaders_ok [OF a2, of "[]"] obtain m where c: "apUploaders a2 = Some m" "r2 = None \<longrightarrow> map fst m = map fst (cfUpload cfg)"
      "apLog a2 = apLog a1" "apReceivers a2 = Map.empty" "apWriter a2 = apWriter a1" "apCollector a2 = apCollector a1"
      "apConfig a2 = apConfig a1" "apMux a2 = []" "apExit a2" "\<not> apClosed a2"
      "r2 = None \<longleftrightarrow> (\<forall>u \<in> set (cfUpload cfg). uploaderOk env cfg u)"
      using w by (auto simp: same)
    have inv2: "appInv a2" using w c by (auto simp: appInv_def handles_def)
    show ?thesis
    proof (cases r2)
      case (Some e)
      then show ?thesis using w c inv2 r1 by (auto simp: startBody_def a1 a2 startable_def)
    next
      case r2: None
      let ?a3 = "startUploaders env a2"
      note u = startUploaders_ok [OF inv2 assms c(1)]
      have conf: "apConfig ?a3 = apConfig a1" "apExit ?a3 = True" "apClosed ?a3 = False" "apMux ?a3 = []" "apReceivers ?a3 = Map.empty"
        using u(2-6) c(4,7-10) by simp_all
      from startReceivers_plan [OF conjunct1 [OF u(1)] conf(4,5), of env cfg, unfolded conf same(2)] obtain a4 r4
        where a4: "startReceivers env (receiverPlan env cfg) ?a3 = Some (a4, r4)" "appInv a4"
        "r4 = None \<longleftrightarrow> (\<forall>p \<in> set (receiverPlan env cfg). receiverOk env cfg p)"
        "r4 = None \<longrightarrow> running (apLog a4) = running (apLog ?a3) \<union> ModReceiver ` {k. \<exists>x. (k, True, x) \<in> set (receiverPlan env cfg)}"
        "apConfig a4 = apConfig a1" "apExit a4" "\<not> apClosed a4" by blast
      have run3: "running (apLog ?a3) = (if enWriterStart env then {ModWriter} else {}) \<union> ModUploader ` fst ` set (cfUpload cfg)"
      proof -
        have "set (map fst m) = set (map fst (cfUpload cfg))" using c(2) r2 by simp
        then have "fst ` set m = fst ` set (cfUpload cfg)" by (simp only: set_map)
        then show ?thesis using u(1) w(1) c(3) r1 by (simp only: simp_thms)
      qed
      have body: "startBody env (newApp cfg) = (case r4 of Some e \<Rightarrow> Some (a4, Some e) | None \<Rightarrow> Some (startCollector env a4, None))"
        using r1 r2 a4(1) by (simp add: startBody_def a1 a2 Let_def conf(1) same(3) split: option.split)
      have ok: "r4 = None \<longleftrightarrow> startable env cfg" using w(1) c(11) a4(3) r1 r2 by (simp add: startable_def)
      have "running (apLog (startCollector env a4)) = wanted env cfg" if "r4 = None"
        using startCollector_ok(2) [OF a4(2), of env] a4(4,5) that run3 by (auto simp: wanted_def cfg)
      then show ?thesis using body ok a4(2,6,7) startCollector_ok(1,3,4) [OF a4(2), of env] by (cases r4) auto
    qed
  qed
qed

lemma Start_total:
  assumes "\<And>xs. set (enIter env xs) = set xs"
  shows "\<exists>app r. Start env (newApp cfg) = Some (app, r)"
  using startBody_ok [OF assms, of cfg] by (auto simp: Start_def split: option.splits)


text \<open>The default configuration with one table, on a system where one port is taken.\<close>

definition demoEnv :: "unit start_env" where
  "demoEnv = \<lparr>enProcs = 4, enWriterStart = True, enMkdir = (\<lambda>_. True),
     enParse = (\<lambda>dsn. Some (takeWhile (\<lambda>c. c \<noteq> cColon) dsn, [])), enResolve = (\<lambda>_ _. Some ()),
     enListen = (\<lambda>k _ _. k \<noteq> Pickle), enSeconds = (\<lambda>d. word_of_int (d div secondNs)), enIter = rev\<rparr>"

definition demoUpload :: "unit up_config" where
  "demoUpload = \<lparr>ucType = str ''points'', ucTableName = str ''graphite'', ucTimeout = None, ucDate = [], ucTreeDate = None,
     ucZeroTimestamp = False, ucTLS = None, ucThreads = 1, ucURL = [], ucCacheTTL = None, ucIgnoredPatterns = [], ucCompressData = False,
     ucIgnoredTaggedMetrics = [], ucHash = [], ucDisableDailyIndex = False, ucHashFunc = None, ucClient = None\<rparr>"

definition demoConfig :: "(unit, unit) config" where
  "demoConfig = NewConfig\<lparr>cfUpload := [(str ''graphite'', demoUpload)]\<rparr>"

lemma demoEnv_iter: "set (enIter demoEnv xs) = set xs"
  by (simp add: demoEnv_def)


lemma demo_port_taken: "\<not> startable demoEnv demoConfig"
  by (simp add: startable_def demoEnv_def demoConfig_def NewConfig_def receiverPlan_def receiverOk_def New_def schemeKind_def
      plainListener_def listener_config.defs Let_def)

text \<open>
  C12. After a start, successful or not, stopping the daemon stops every module, and the writer
  is never stopped while a receiver or the collector that sends it buffers is still running.
\<close>

theorem app_shutdown:
  assumes "\<And>xs. set (enIter env xs) = set xs" "Start env (newApp cfg) = Some (app, r)"
  shows "running (apLog (stopAll (enIter env) app)) = {} \<and> drained (apLog (stopAll (enIter env) app))
     \<and> handles (stopAll (enIter env) app) = {} \<and> apClosed (stopAll (enIter env) app)"
proof -
  from startBody_ok [OF assms(1), of cfg] obtain app0 r0 where b: "startBody env (newApp cfg) = Some (app0, r0)" "appInv app0" "apExit app0" by blast
  note stop0 = stopAll_ok [OF b(2) assms(1)]
  have "appInv app \<and> (apExit app \<or> apClosed app)"
    using assms(2) b stop0 by (cases r0) (auto simp: Start_def appInv_def)
  moreover have "apClosed app \<Longrightarrow> apClosed (stopAll (enIter env) app)"
    by (auto simp: stopAll_def closeExit_def stopUploaders_def stopUploaders_log stopWriter_effect stopCollector_effect stopListeners_effect
        split: option.splits)
  ultimately show ?thesis using stopAll_ok [of app "enIter env"] assms(1) by blast
qed

theorem app_shutdown_witness:
  "running (apLog (stopAll (enIter demoEnv) (fst (the (Start demoEnv (newApp demoConfig)))))) = {}
     \<and> drained (apLog (stopAll (enIter demoEnv) (fst (the (Start demoEnv (newApp demoConfig))))))
     \<and> handles (stopAll (enIter demoEnv) (fst (the (Start demoEnv (newApp demoConfig))))) = {}
     \<and> apClosed (stopAll (enIter demoEnv) (fst (the (Start demoEnv (newApp demoConfig)))))"
proof -
  from Start_total [OF demoEnv_iter] obtain app r where s: "Start demoEnv (newApp demoConfig) = Some (app, r)" by blast
  show ?thesis using app_shutdown [OF demoEnv_iter s] by (simp add: s)
qed

text \<open>
  The daemon reports a successful start although the writer is not running when linking or cleanup
  failed at startup.
\<close>

lemma start_without_writer:
  assumes "\<And>xs. set (enIter env xs) = set xs" "startable env cfg" "\<not> enWriterStart env"
  shows "\<exists>app. Start env (newApp cfg) = Some (app, None) \<and> ModWriter \<notin> running (apLog app)"
  using startBody_ok [OF assms(1), of cfg] assms(2,3) by (auto simp: Start_def wanted_def)

text \<open>The statistics of the gRPC receiver are never registered.\<close>

lemma grpc_not_collected: "collectorModules env (app\<lparr>apReceivers := (apReceivers app)(GRPC := r)\<rparr>) = collectorModules env app"
  by (simp add: collectorModules_def)

text \<open>
  A termination signal ends the main loop once it waits on the channel; between its two reads of the
  field the signal leaves it blocked for ever.
\<close>

lemma stopAll_exit: "\<not> apExit (stopAll iter app)" "apExit app \<Longrightarrow> apClosed (stopAll iter app)"
  by (auto simp: stopAll_def closeExit_def stopUploaders_def stopUploaders_log stopWriter_effect stopCollector_effect stopListeners_effect
      split: option.splits)

lemma loop_ends:
  assumes "apExit app"
  shows "(main_step iter)\<^sup>*\<^sup>* (app, LoopStart) (stopAll iter app, LoopReturned)"
proof -
  have "main_step iter (app, LoopStart) (app, LoopChecked)" "main_step iter (app, LoopChecked) (app, LoopWaiting)"
    using assms main_step.loop [of iter app LoopStart] main_step.loop [of iter app LoopChecked] by (simp_all add: loopStep_def)
  moreover have "main_step iter (app, LoopWaiting) (stopAll iter app, LoopWaiting)"
    using main_step.signal [of iter app LoopWaiting SIGTERM] by (simp add: onSignal_def)
  moreover have "main_step iter (stopAll iter app, LoopWaiting) (stopAll iter app, LoopReturned)"
    using main_step.loop [of iter "stopAll iter app" LoopWaiting] stopAll_exit(2) [OF assms] by (simp add: loopStep_def)
  ultimately show ?thesis by (meson converse_rtranclp_into_rtranclp rtranclp.rtrancl_refl)
qed

lemma loop_hangs:
  assumes "apExit app"
  shows "(main_step iter)\<^sup>*\<^sup>* (app, LoopStart) (stopAll iter app, LoopBlocked)"
proof -
  have "main_step iter (app, LoopStart) (app, LoopChecked)"
    using assms main_step.loop [of iter app LoopStart] by (simp add: loopStep_def)
  moreover have "main_step iter (app, LoopChecked) (stopAll iter app, LoopChecked)"
    using main_step.signal [of iter app LoopChecked SIGTERM] by (simp add: onSignal_def)
  moreover have "main_step iter (stopAll iter app, LoopChecked) (stopAll iter app, LoopBlocked)"
    using main_step.loop [of iter "stopAll iter app" LoopChecked] stopAll_exit(1) [of iter app] by (simp add: loopStep_def)
  ultimately show ?thesis by (meson converse_rtranclp_into_rtranclp rtranclp.rtrancl_refl)
qed

lemma blocked_for_ever: "(main_step iter)\<^sup>*\<^sup>* s t \<Longrightarrow> snd s = LoopBlocked \<Longrightarrow> snd t = LoopBlocked"
  by (induction rule: rtranclp_induct) (auto simp: loopStep_def)

end
