(* ===== verification/Cmd.thy ===== *)
theory Cmd
  imports RB_Calendar App
begin

text \<open>
  \<open>main\<close> in \<^verbatim>\<open>carbon-clickhouse.go\<close> and \<open>PrintDefaultConfig\<close> of \<^verbatim>\<open>carbon/config.go\<close>: what the process prints and how
  it ends for each of its flags. The parsed flags, the file system, the TOML library, the formatting
  of floats and the listener of the profiling server are arguments.
\<close>

subsection \<open>Printing a data file\<close>

text \<open>\<open>%#v\<close> of a float is \<open>fmtValue\<close>.\<close>

definition catLine :: "(float64 \<Rightarrow> bytes) \<Rightarrow> reader \<Rightarrow> bytes \<Rightarrow> bytes option" where
  "catLine fmtValue r metric = do {
     v \<leftarrow> Value r;
     ts \<leftarrow> Timestamp r;
     day \<leftarrow> DaysString r;
     ver \<leftarrow> Version r;
     Some (metric @ 9 # fmtValue v @ 9 # itoa (unat ts) @ 9 # day @ 9 # itoa (unat ver) @ [cLF]) }"

text \<open>\<open>err == io.EOF\<close>: the errors of a truncated name or record are new values.\<close>

definition isEOF :: "RB_Reader.read_error \<Rightarrow> bool" where
  "isEOF err \<longleftrightarrow> err = ReadEOF \<or> err = ReadVarint VarintEOF"

datatype cat_end = CatReturn | CatFatal RB_Reader.read_error | CatPanic

function catLoop :: "(uint32 \<Rightarrow> uint16) \<Rightarrow> (float64 \<Rightarrow> bytes) \<Rightarrow> reader \<Rightarrow> bytes \<Rightarrow> bytes \<times> cat_end" where
  "catLoop days fmtValue r out =
     (case ReadRecord days r of
        None \<Rightarrow> (out, CatPanic)
      | Some (r', Inl err) \<Rightarrow> (out, if isEOF err then CatReturn else CatFatal err)
      | Some (r', Inr metric) \<Rightarrow>
          (case catLine fmtValue r' metric of
             None \<Rightarrow> (out, CatPanic)
           | Some l \<Rightarrow> catLoop days fmtValue r' (out @ l)))"
  by pat_completeness auto
termination
  by (relation "measure (\<lambda>(days, fmtValue, r, out). length (rInput r))") (auto dest: ReadRecord_consumes)

declare catLoop.simps [simp del]

subsection \<open>The default configuration\<close>

definition defaultUpload :: "string \<Rightarrow> string \<Rightarrow> int option \<Rightarrow> 'h up_config" where
  "defaultUpload ty table ttl =
     \<lparr>ucType = str ty, ucTableName = str table, ucTimeout = Some minuteNs, ucDate = [], ucTreeDate = None, ucZeroTimestamp = False,
      ucTLS = None, ucThreads = 1, ucURL = str ''http://localhost:8123/'', ucCacheTTL = ttl, ucIgnoredPatterns = [],
      ucCompressData = False, ucIgnoredTaggedMetrics = [], ucHash = [], ucDisableDailyIndex = False, ucHashFunc = None,
      ucClient = None\<rparr>"

definition PrintDefaultConfig :: "'l \<Rightarrow> (('h, 'l) config \<Rightarrow> 'e + bytes) \<Rightarrow> 'e + bytes" where
  "PrintDefaultConfig newLogging encode =
     (let cfg = NewConfig;
          cfg = (if cfLogging cfg = [] then cfg\<lparr>cfLogging := cfLogging cfg @ [newLogging]\<rparr> else cfg)
      in encode (cfg\<lparr>cfUpload :=
           [(str ''graphite'', defaultUpload ''points'' ''graphite'' None),
            (str ''graphite_tree'', defaultUpload ''tree'' ''graphite_tree'' (Some (12 * 60 * minuteNs)))]\<rparr>))"

subsection \<open>The command line\<close>

record cmd_flags =
  flConfig :: bytes
  flPrintDefault :: bool
  flCheckConfig :: bool
  flExactConfig :: bool
  flVersion :: bool
  flCat :: bytes
  flRecover :: bytes

definition defaultFlags :: cmd_flags where
  "defaultFlags =
     \<lparr>flConfig = str ''/etc/carbon-clickhouse/carbon-clickhouse.conf'', flPrintDefault = False, flCheckConfig = False,
      flExactConfig = False, flVersion = False, flCat = [], flRecover = []\<rparr>"

definition versionText :: bytes where "versionText = str ''0.11.7''"

text \<open>
  \<open>ceDays\<close> is the calendar of a process that has not read a configuration. The fields from \<open>ceReadFile\<close> on
  are the arguments of \<open>ReadConfig\<close>, of the parser of an upload section and of \<open>configure\<close>.
\<close>

record ('addr, 'e, 'k, 'h, 'l) cmd_env =
  ceOpen :: "bytes \<Rightarrow> 'e + bytes"
  ceLz4 :: "bytes \<Rightarrow> bytes"
  ceFormat :: "float64 \<Rightarrow> bytes"
  ceDays :: "uint32 \<Rightarrow> uint16"
  ceNewLogging :: 'l
  ceEncode :: "('h, 'l) config \<Rightarrow> 'e + bytes"
  ceReadFile :: "bytes \<Rightarrow> 'e + bytes"
  ceDecode :: "bytes \<Rightarrow> ('h, 'l) config \<Rightarrow> 'e + ('h, 'l) config \<times> 'k list"
  ceCheckLogging :: "'l list \<Rightarrow> 'e option"
  ceParseDate :: "bytes \<Rightarrow> 'e + int"
  ceCity :: "bytes \<Rightarrow> uint64"
  ceParseTLS :: "'h \<Rightarrow> 'e + 'h \<times> bytes list"
  ceHostname :: "bytes option"
  ceScheme :: "bytes \<Rightarrow> 'e + bytes"
  ceCompile :: "bytes \<Rightarrow> (bytes \<Rightarrow> bool) option"
  ceApplyLogging :: "'l list \<Rightarrow> 'e option"
  ceListen :: "bytes \<Rightarrow> 'e option"
  ceStart :: "'addr start_env"

datatype ('e, 'k) fatal =
    FatalOpen 'e
  | FatalRead RB_Reader.read_error
  | FatalEncode 'e
  | FatalConfig "('e, 'k) AppConfig.read_error"
  | FatalLogging 'e
  | FatalPprof 'e
  | FatalStart start_error

datatype ('e, 'k, 'a) outcome = Returned | Fatal "('e, 'k) fatal" | Panicked | Looping 'a

text \<open>\<open>httpServe\<close>: resolving or listening fails, or a server runs.\<close>

definition httpServe :: "(bytes \<Rightarrow> 'e option) \<Rightarrow> bytes \<Rightarrow> 'e option" where
  "httpServe listen addr = listen addr"

definition runCat :: "('addr, 'e, 'k, 'h, 'l) cmd_env \<Rightarrow> bytes \<Rightarrow> bytes \<times> ('e, 'k, 'a) outcome" where
  "runCat env filename =
     (case NewReader (ceOpen env) (ceLz4 env) filename False of
        Inl err \<Rightarrow> ([], Fatal (FatalOpen err))
      | Inr r \<Rightarrow>
          (case catLoop (ceDays env) (ceFormat env) r [] of
             (out, CatReturn) \<Rightarrow> (out, Returned)
           | (out, CatFatal err) \<Rightarrow> (out, Fatal (FatalRead err))
           | (out, CatPanic) \<Rightarrow> (out, Panicked)))"

text \<open>\<open>io.Copy\<close> has a buffer of 32 KB. What was copied before a panic is not recorded.\<close>

definition runRecover :: "('addr, 'e, 'k, 'h, 'l) cmd_env \<Rightarrow> bytes \<Rightarrow> bytes \<times> ('e, 'k, 'a) outcome" where
  "runRecover env filename =
     (case NewReader (ceOpen env) (ceLz4 env) filename False of
        Inl err \<Rightarrow> ([], Fatal (FatalOpen err))
      | Inr r \<Rightarrow> (case ioCopy (ceDays env) 32768 [] r of None \<Rightarrow> ([], Panicked) | Some out \<Rightarrow> (out, Returned)))"

definition ParseConfig ::
  "('addr, 'e, 'k, 'h, 'l) cmd_env \<Rightarrow> bytes \<Rightarrow> bool \<Rightarrow> (('e, 'k) AppConfig.read_error + ('h, 'l) config) option" where
  "ParseConfig env filename exactConfig =
     configure (ceHostname env) (ceScheme env) (ceCompile env)
       (ReadConfig (ceReadFile env) (ceDecode env) (ceNewLogging env) (ceCheckLogging env)
          (configParse (ceParseDate env) (ceCity env) (ceParseTLS env) (ceScheme env)) filename exactConfig)"

definition runDaemon :: "('addr, 'e, 'k, 'h, 'l) cmd_env \<Rightarrow> cmd_flags \<Rightarrow> ('e, 'k, ('h, 'l) app) outcome" where
  "runDaemon env f =
     (case ParseConfig env (flConfig f) (flExactConfig f) of
        None \<Rightarrow> Panicked
      | Some (Inl err) \<Rightarrow> Fatal (FatalConfig err)
      | Some (Inr cfg) \<Rightarrow>
          if flCheckConfig f then Returned
          else (case ceApplyLogging env (cfLogging cfg) of
              Some err \<Rightarrow> Fatal (FatalLogging err)
            | None \<Rightarrow>
                (case (if ppEnabled (cfPprof cfg) then httpServe (ceListen env) (ppListen (cfPprof cfg)) else None) of
                   Some err \<Rightarrow> Fatal (FatalPprof err)
                 | None \<Rightarrow>
                     (case Start (ceStart env) (newApp cfg) of
                        None \<Rightarrow> Panicked
                      | Some (app, Some err) \<Rightarrow> Fatal (FatalStart err)
                      | Some (app, None) \<Rightarrow> Looping app))))"

definition main :: "('addr, 'e, 'k, 'h, 'l) cmd_env \<Rightarrow> cmd_flags \<Rightarrow> bytes \<times> ('e, 'k, ('h, 'l) app) outcome" where
  "main env f =
     (if flVersion f then (versionText, Returned)
      else if flCat f \<noteq> [] then runCat env (flCat f)
      else if flRecover f \<noteq> [] then runRecover env (flRecover f)
      else if flPrintDefault f then
        (case PrintDefaultConfig (ceNewLogging env) (ceEncode env) of
           Inl err \<Rightarrow> ([], Fatal (FatalEncode err))
         | Inr out \<Rightarrow> (out, Returned))
      else ([], runDaemon env f))"

subsection \<open>What is printed for a file\<close>

definition catText :: "(uint32 \<Rightarrow> uint16) \<Rightarrow> (float64 \<Rightarrow> bytes) \<Rightarrow> point \<Rightarrow> bytes" where
  "catText days fmtValue p =
     pName p @ 9 # fmtValue (pValue p) @ 9 # itoa (unat (pTime p)) @ 9 # formatDate (civilOf (uint (days (pTime p))))
       @ 9 # itoa (unat (pVersion p)) @ [cLF]"

lemma catLine_encPoint:
  assumes "rLine r = encPoint days q"
  shows "catLine fmtValue r (pName q) = Some (catText days fmtValue q)"
  by (simp add: catLine_def catText_def DaysString_def accessors_encPoint [OF assms])

lemma ReadUvarint_eof: "ReadUvarint s = Inl VarintEOF \<longleftrightarrow> s = []"
proof -
  have later: "ReadUvarint_loop (Suc i) x sh s \<noteq> Inl VarintEOF" for i x sh s
    by (induction "Suc i" x sh s arbitrary: i rule: ReadUvarint_loop.induct) auto
  show ?thesis using later by (cases s) (auto simp: ReadUvarint_def)
qed

text \<open>Only the end of the file counts as its end: a record that was begun is an error.\<close>

lemma ReadRecord_junk:
  assumes "truncatedRecord days (rInput r)" "\<not> rEof r"
  shows "\<exists>r' e. ReadRecord days r = Some (r', Inl e) \<and> (isEOF e \<longleftrightarrow> rInput r = [])"
proof -
  from readRecord_truncated [OF assms(1)] obtain e where e: "readRecord days r = Some (r\<lparr>rLine := [], rOffset := 0\<rparr>, Inl e)" by blast
  have "isEOF e \<longleftrightarrow> rInput r = []"
  proof
    assume "isEOF e"
    with e show "rInput r = []"
      by (auto simp: isEOF_def readRecord_def Let_def ReadUvarint_eof bind_eq_Some_conv
          split: sum.splits prod.splits option.splits if_splits)
  next
    assume "rInput r = []"
    with e show "isEOF e" by (simp add: readRecord_def isEOF_def ReadUvarint_def Let_def)
  qed
  with e assms(2) show ?thesis by (auto simp: ReadRecord_def)
qed

lemma catLoop_file:
  assumes "rInput r = concat (map (encPoint days) ps) @ junk" "\<forall>p \<in> set ps. fitsLine days p" "truncatedRecord days junk"
    "\<not> rEof r" "\<not> rReverse r" "\<not> rZeroVersion r"
  shows "\<exists>e. catLoop days fmtValue r out = (out @ concat (map (catText days fmtValue) ps), e) \<and> (e = CatReturn \<longleftrightarrow> junk = []) \<and> e \<noteq> CatPanic"
  using assms
proof (induction ps arbitrary: r out)
  case Nil
  with ReadRecord_junk [of days r] obtain r' e where "ReadRecord days r = Some (r', Inl e)" "isEOF e \<longleftrightarrow> junk = []" by auto
  then show ?case by (simp add: catLoop.simps [of days fmtValue r])
next
  case (Cons p ps)
  have stored: "storedPoint r p = p" using Cons.prems by (simp add: storedPoint_def)
  let ?r = "r\<lparr>rOffset := 0, rInput := concat (map (encPoint days) ps) @ junk, rLine := encPoint days p\<rparr>"
  have rd: "ReadRecord days r = Some (?r, Inr (pName p))"
    using ReadRecord_encPoint [of r days p "concat (map (encPoint days) ps) @ junk"] Cons.prems stored by simp
  from Cons.IH [of ?r "out @ catText days fmtValue p"] Cons.prems show ?case
    by (simp add: catLoop.simps [of days fmtValue r] rd catLine_encPoint)
qed

text \<open>
  Printing a data file writes one line per complete record in order, with the fields of the
  record; it returns normally if the file ends with a record and reports an error if it was cut
  off.
\<close>

theorem cat_prints:
  assumes "\<not> flVersion f" "flCat f \<noteq> []" "\<not> HasSuffix (flCat f) (str ''.lz4'')"
    and "ceOpen env (flCat f) = Inr (concat (map (encPoint (ceDays env)) ps) @ junk)"
    and "\<forall>p \<in> set ps. fitsLine (ceDays env) p" "truncatedRecord (ceDays env) junk"
  shows "\<exists>e. main env f = (concat (map (catText (ceDays env) (ceFormat env)) ps), e)
     \<and> (if junk = [] then e = Returned else \<exists>err. e = Fatal (FatalRead err))"
proof -
  let ?c = "concat (map (encPoint (ceDays env)) ps) @ junk"
  have "NewReader (ceOpen env) (ceLz4 env) (flCat f) False = Inr (freshReader ?c False)" using assms(3,4) by (rule NewReader_fresh)
  moreover obtain e where "catLoop (ceDays env) (ceFormat env) (freshReader ?c False) [] = (concat (map (catText (ceDays env) (ceFormat env)) ps), e)"
      "e = CatReturn \<longleftrightarrow> junk = []" "e \<noteq> CatPanic"
    using catLoop_file [of "freshReader ?c False" "ceDays env" ps junk "ceFormat env" "[]"] assms(5,6) by (auto simp: freshReader_def)
  ultimately show ?thesis using assms(1,2) by (cases e) (auto simp: main_def runCat_def)
qed

definition demoCmd :: "bytes \<Rightarrow> (unit, unit, unit, unit, unit) cmd_env" where
  "demoCmd content =
     \<lparr>ceOpen = (\<lambda>_. Inr content), ceLz4 = id, ceFormat = (\<lambda>_. str ''1''), ceDays = (\<lambda>_. 1), ceNewLogging = (),
      ceEncode = (\<lambda>_. Inr []), ceReadFile = (\<lambda>_. Inr []), ceDecode = (\<lambda>_ cfg. Inr (cfg, [])),
      ceCheckLogging = (\<lambda>_. None), ceParseDate = (\<lambda>_. Inr 0), ceCity = (\<lambda>_. 0), ceParseTLS = (\<lambda>h. Inr (h, [])),
      ceHostname = None, ceScheme = (\<lambda>_. Inr (str ''tcp'')), ceCompile = (\<lambda>_. None), ceApplyLogging = (\<lambda>_. None),
      ceListen = (\<lambda>_. None), ceStart = demoEnv\<rparr>"

definition demoPoint :: point where
  "demoPoint = \<lparr>pName = str ''a.b'', pValue = 1, pTime = 86400, pVersion = 2\<rparr>"

lemma demoPoint_fits: "fitsLine days demoPoint" "0 < length (encPoint days demoPoint)"
  by (simp_all add: demoPoint_def fitsLine_def encPoint_def encString_def putUvarint_small lineSize_def)

definition demoFile :: bytes where
  "demoFile = concat (map (encPoint (\<lambda>_. 1)) [demoPoint])"

theorem cat_prints_witness:
  "\<exists>e. main (demoCmd demoFile) (defaultFlags\<lparr>flCat := str ''x''\<rparr>)
       = (concat (map (catText (\<lambda>_. 1) (\<lambda>_. str ''1'')) [demoPoint]), e)
     \<and> (if [] = ([] :: bytes) then e = Returned else \<exists>err. e = Fatal (FatalRead err))"
proof -
  have "ceDays (demoCmd demoFile) = (\<lambda>_. 1)" "ceFormat (demoCmd demoFile) = (\<lambda>_. str ''1'')"
      "ceOpen (demoCmd demoFile) (str ''x'') = Inr demoFile"
    by (simp_all add: demoCmd_def)
  with cat_prints [of "defaultFlags\<lparr>flCat := str ''x''\<rparr>" "demoCmd demoFile" "[demoPoint]" "[]"] demoPoint_fits show ?thesis
    by (simp add: defaultFlags_def HasSuffix_def demoFile_def)
qed

text \<open>
  The modes that print a file do not read the configuration. A file written by a daemon with
  \<open>utc-date\<close> is checked against the default calendar, and where the two differ no record is printed or
  recovered.
\<close>

lemma ReadRecord_other_calendar:
  assumes "rInput r = encPoint utc p @ rest" "fitsLine utc p" "\<not> rEof r" "utc (pTime p) \<noteq> days (pTime p)" "\<not> rReverse r" "\<not> rZeroVersion r"
  shows "\<exists>r'. ReadRecord days r = Some (r', Inl DateMismatch)"
proof -
  have x: "readRecord utc r = Some (r\<lparr>rOffset := 0, rInput := rest, rLine := encPoint utc p\<rparr>, Inr (pName p))"
    using readRecord_encPoint [OF assms(1,2)] assms(5,6) by (simp add: storedPoint_def)
  have "readRecord days r = Some (r\<lparr>rOffset := 0, rInput := rest, rLine := encPoint utc p\<rparr>, Inl DateMismatch)"
    using x assms(4-6) accessors_encPoint [of "r\<lparr>rOffset := 0, rInput := rest, rLine := encPoint utc p\<rparr>" utc p]
    by (auto simp: readRecord_def Let_def bind_eq_Some_conv split: sum.splits prod.splits option.splits if_splits)
  with assms(3) show ?thesis by (simp add: ReadRecord_def)
qed

lemma cat_utc_date_refused:
  assumes "\<not> flVersion f" "flCat f \<noteq> []" "\<not> HasSuffix (flCat f) (str ''.lz4'')" "ceOpen env (flCat f) = Inr (concat (map (encPoint utc) (p # ps)))"
    "fitsLine utc p" "utc (pTime p) \<noteq> ceDays env (pTime p)"
  shows "main env f = ([], Fatal (FatalRead DateMismatch))"
proof -
  let ?r = "freshReader (concat (map (encPoint utc) (p # ps))) False"
  have "NewReader (ceOpen env) (ceLz4 env) (flCat f) False = Inr ?r" using assms(3,4) by (rule NewReader_fresh)
  moreover from ReadRecord_other_calendar [of ?r utc p "concat (map (encPoint utc) ps)" "ceDays env"] assms(5,6)
  obtain r' where "ReadRecord (ceDays env) ?r = Some (r', Inl DateMismatch)" by (auto simp: freshReader_def)
  then have "catLoop (ceDays env) (ceFormat env) ?r [] = ([], CatFatal DateMismatch)"
    by (subst catLoop.simps) (simp add: isEOF_def)
  ultimately show ?thesis using assms(1,2) by (simp add: main_def runCat_def)
qed

subsection \<open>When the daemon runs\<close>

definition daemonMode :: "cmd_flags \<Rightarrow> bool" where
  "daemonMode f \<longleftrightarrow> \<not> flVersion f \<and> flCat f = [] \<and> flRecover f = [] \<and> \<not> flPrintDefault f \<and> \<not> flCheckConfig f"

text \<open>The configuration the daemon gets as far as starting with.\<close>

definition accepted :: "('addr, 'e, 'k, 'h, 'l) cmd_env \<Rightarrow> cmd_flags \<Rightarrow> ('h, 'l) config \<Rightarrow> bool" where
  "accepted env f cfg \<longleftrightarrow> daemonMode f \<and> ParseConfig env (flConfig f) (flExactConfig f) = Some (Inr cfg)
     \<and> ceApplyLogging env (cfLogging cfg) = None \<and> (ppEnabled (cfPprof cfg) \<longrightarrow> ceListen env (ppListen (cfPprof cfg)) = None)"

lemma runDaemon_Looping:
  "daemonMode f \<and> runDaemon env f = Looping app \<longleftrightarrow> (\<exists>cfg. accepted env f cfg \<and> Start (ceStart env) (newApp cfg) = Some (app, None))"
  unfolding runDaemon_def httpServe_def accepted_def daemonMode_def by (auto split: option.splits sum.splits prod.splits if_splits)

lemma main_daemonMode: "snd (main env f) = Looping app \<longleftrightarrow> daemonMode f \<and> runDaemon env f = Looping app"
proof (cases "flVersion f \<or> flCat f \<noteq> [] \<or> flRecover f \<noteq> [] \<or> flPrintDefault f")
  case True
  have "snd (runCat env n) \<noteq> Looping app" "snd (runRecover env n) \<noteq> Looping app" for n
    by (simp_all add: runCat_def runRecover_def split: sum.splits option.splits prod.splits cat_end.splits)
  with True show ?thesis by (auto simp: main_def daemonMode_def split: sum.splits)
next
  case False
  moreover have "flCheckConfig f \<Longrightarrow> runDaemon env f \<noteq> Looping app" by (simp add: runDaemon_def split: option.splits sum.splits)
  ultimately show ?thesis by (auto simp: main_def daemonMode_def)
qed

text \<open>
  The process enters its main loop with a set of running modules exactly if no printing or
  checking mode was asked for, the configuration, the logging and the profiling listener are
  accepted and everything can be started; the modules are the configured ones.
\<close>

theorem main_daemon:
  assumes "\<And>xs. set (enIter (ceStart env) xs) = set xs"
  shows "(\<exists>app. snd (main env f) = Looping app \<and> running (apLog app) = M)
     \<longleftrightarrow> (\<exists>cfg. accepted env f cfg \<and> startable (ceStart env) cfg \<and> M = wanted (ceStart env) cfg)"
proof -
  have start: "startable (ceStart env) cfg \<and> M = wanted (ceStart env) cfg
      \<longleftrightarrow> (\<exists>app. Start (ceStart env) (newApp cfg) = Some (app, None) \<and> running (apLog app) = M)" for cfg :: "('d, 'e) config"
  proof -
    from startBody_ok [OF assms, of cfg] obtain app r where "startBody (ceStart env) (newApp cfg) = Some (app, r)"
      "r = None \<longleftrightarrow> startable (ceStart env) cfg" "r = None \<longrightarrow> running (apLog app) = wanted (ceStart env) cfg" by blast
    then show ?thesis by (cases r) (auto simp: Start_def)
  qed
  show ?thesis unfolding main_daemonMode runDaemon_Looping start by blast
qed

theorem main_daemon_witness:
  "(\<exists>app. snd (main (demoCmd []) defaultFlags) = Looping app \<and> running (apLog app) = {})
     \<longleftrightarrow> (\<exists>cfg. accepted (demoCmd []) defaultFlags cfg \<and> startable (ceStart (demoCmd [])) cfg \<and> {} = wanted (ceStart (demoCmd [])) cfg)"
  by (rule main_daemon) (simp add: demoCmd_def demoEnv_iter)

end
