(* ===== verification/E2E_Env.thy ===== *)
theory E2E_Env
  imports AppConfig
begin

text \<open>
  The end-to-end test driver, first part: the handles of the ClickHouse container and of the daemon
  under test (\<^verbatim>\<open>cmd/e2e-test/container.go\<close>, \<^verbatim>\<open>clickhouse.go\<close>, \<^verbatim>\<open>carbon_clickhouse.go\<close>). Docker, the network, the temporary
  directory, the template engine and the processes are operations on an abstract world.
\<close>

record 'w e2e_env =
  eeDocker :: "bytes list \<Rightarrow> 'w \<Rightarrow> 'w \<times> bytes \<times> bytes option"  \<comment> \<open>output and error\<close>
  eePost :: "bytes \<Rightarrow> bytes \<Rightarrow> 'w \<Rightarrow> 'w \<times> (bytes + int \<times> bytes \<times> bytes)"  \<comment> \<open>error, or status code, status and body\<close>
  eeGet :: "bytes \<Rightarrow> 'w \<Rightarrow> 'w \<times> int option"
  eeListen :: "bytes \<Rightarrow> 'w \<Rightarrow> 'w \<times> (bytes + bytes)"  \<comment> \<open>error, or the address of the listener\<close>
  eeTempDir :: "'w \<Rightarrow> 'w \<times> (bytes + bytes)"
  eeParseTemplate :: "bytes \<Rightarrow> 'w \<Rightarrow> 'w \<times> bytes option"
  eeOpenFile :: "bytes \<Rightarrow> 'w \<Rightarrow> 'w \<times> bytes option"
  eeExecute :: "bytes list \<Rightarrow> 'w \<Rightarrow> 'w \<times> bytes option"
  eeSpawn :: "bytes \<Rightarrow> bytes \<Rightarrow> 'w \<Rightarrow> 'w \<times> bytes option"
  eeKill :: "'w \<Rightarrow> 'w \<times> bytes option"
  eeWait :: "'w \<Rightarrow> 'w \<times> (bytes \<times> int option) option"  \<comment> \<open>the error, with the exit status if it is an exit error\<close>
  eeRemoveAll :: "bytes \<Rightarrow> 'w \<Rightarrow> 'w"
  eeDial :: "bytes \<Rightarrow> bytes \<Rightarrow> 'w \<Rightarrow> 'w \<times> bytes option"
  eeSend :: "bytes \<Rightarrow> 'w \<Rightarrow> 'w \<times> bytes option"
  eeCloseConn :: "'w \<Rightarrow> 'w \<times> bytes option"
  eeAbs :: "bytes \<Rightarrow> bytes option"
  eeStdin :: "'w \<Rightarrow> 'w \<times> bytes option"  \<comment> \<open>the next line, \<open>None\<close> at the end of the input\<close>

subsection \<open>Containers\<close>

definition TrimRight :: "byte \<Rightarrow> bytes \<Rightarrow> bytes" where
  "TrimRight c s = rev (dropWhile (\<lambda>x. x = c) (rev s))"

definition Trim :: "byte \<Rightarrow> bytes \<Rightarrow> bytes" where
  "Trim c s = TrimRight c (dropWhile (\<lambda>x. x = c) s)"

text \<open>The four functions differ only in the arguments; the caller has set \<open>DockerBinary\<close>.\<close>

definition dockerCall :: "'w e2e_env \<Rightarrow> bytes list \<Rightarrow> 'w \<Rightarrow> 'w \<times> bool \<times> bytes" where
  "dockerCall env args w =
     (case eeDocker env args w of
        (w, out, err) \<Rightarrow>
          (let s = Trim cLF out
           in case err of None \<Rightarrow> (w, True, s) | Some e \<Rightarrow> (w, False, e @ str '': '' @ s)))"

definition imageDelete :: "'w e2e_env \<Rightarrow> bytes \<Rightarrow> bytes \<Rightarrow> 'w \<Rightarrow> 'w \<times> bool \<times> bytes" where
  "imageDelete env img version = dockerCall env [str ''rmi'', img @ str '':'' @ version]"

definition containerExist :: "'w e2e_env \<Rightarrow> bytes \<Rightarrow> 'w \<Rightarrow> 'w \<times> bool \<times> bytes" where
  "containerExist env name = dockerCall env [str ''inspect'', str ''--format'', 39 # str ''{{.Name}}'' @ [39], name]"

definition containerRemove :: "'w e2e_env \<Rightarrow> bytes \<Rightarrow> 'w \<Rightarrow> 'w \<times> bool \<times> bytes" where
  "containerRemove env name = dockerCall env [str ''rm'', str ''-f'', name]"

definition containerExec :: "'w e2e_env \<Rightarrow> bytes \<Rightarrow> bytes list \<Rightarrow> 'w \<Rightarrow> 'w \<times> bool \<times> bytes" where
  "containerExec env name args = dockerCall env ([str ''exec'', name] @ args)"

subsection \<open>ClickHouse\<close>

definition ClickhouseContainerName :: bytes where "ClickhouseContainerName = str ''clickhouse-server-gch-test''"
definition ClickhouseOldImage :: bytes where "ClickhouseOldImage = str ''yandex/clickhouse-server''"
definition ClickhouseDefaultImage :: bytes where "ClickhouseDefaultImage = str ''clickhouse/clickhouse-server''"

record clickhouse =
  chVersion :: bytes
  chDir :: bytes
  chTLSEnabled :: bool
  chDockerImage :: bytes
  chTZ :: bytes
  chHttpAddress :: bytes
  chHttpsAddress :: bytes
  chUrl :: bytes
  chTlsurl :: bytes
  chContainer :: bytes

text \<open>\<open>ErrNoSetDir\<close> is the only error of \<open>CheckConfig\<close>; the version is set before it is returned.\<close>

definition defaultImage :: "bytes \<Rightarrow> bytes" where
  "defaultImage version =
     (if version = str ''latest'' then ClickhouseDefaultImage
      else (case ParseInt (hd (splitOn cDot version)) of
          (_, Some _) \<Rightarrow> ClickhouseDefaultImage
        | (majorV, None) \<Rightarrow> if 21 \<le> majorV then ClickhouseDefaultImage else ClickhouseOldImage))"

definition CheckConfig :: "bytes \<Rightarrow> clickhouse \<Rightarrow> clickhouse \<times> bool" where
  "CheckConfig rootDir c =
     (let c = (if chVersion c = [] then c\<lparr>chVersion := str ''latest''\<rparr> else c)
      in if chDir c = [] then (c, False)
         else (let c = (if \<not> HasPrefix (chDir c) (str ''/'') then c\<lparr>chDir := rootDir @ str ''/'' @ chDir c\<rparr> else c)
               in (if chDockerImage c = [] then c\<lparr>chDockerImage := defaultImage (chVersion c)\<rparr> else c, True)))"

definition Key :: "clickhouse \<Rightarrow> bytes" where
  "Key c = chDockerImage c @ str '':'' @ chVersion c @ str '' '' @ chDir c @ str '' TZ '' @ chTZ c"

definition getFreeTCPPort :: "'w e2e_env \<Rightarrow> bytes \<Rightarrow> 'w \<Rightarrow> 'w \<times> (bytes \<times> bytes + bytes)" where
  "getFreeTCPPort env name w =
     (let name = (if name = [] then str ''127.0.0.1:0'' else if cColon \<notin> set name then name @ str '':0'' else name)
      in case eeListen env name w of
           (w, Inl e) \<Rightarrow> (w, Inl (name, e))
         | (w, Inr addr) \<Rightarrow> (w, Inr addr))"

text \<open>\<open>strings.Split(addr, ":")[1]\<close>: \<open>None\<close> is the panic of an address without a colon.\<close>

definition portOf :: "bytes \<Rightarrow> bytes option" where
  "portOf addr = (case splitOn cColon addr of _ # p # _ \<Rightarrow> Some p | _ \<Rightarrow> None)"

definition mount :: "clickhouse \<Rightarrow> string \<Rightarrow> string \<Rightarrow> bytes list" where
  "mount c src dst = [str ''-v'', chDir c @ str src @ str '':'' @ str dst]"

definition runArgs :: "clickhouse \<Rightarrow> bytes \<Rightarrow> bytes list" where
  "runArgs c port =
     [str ''run'', str ''-d'', str ''--name'', chContainer c, str ''--ulimit'', str ''nofile=262144:262144'', str ''-p'', port @ str '':8123'']
     @ mount c ''/config.xml'' ''/etc/clickhouse-server/config.xml'' @ mount c ''/users.xml'' ''/etc/clickhouse-server/users.xml''
     @ mount c ''/rollup.xml'' ''/etc/clickhouse-server/config.d/rollup.xml'' @ mount c ''/init.sql'' ''/docker-entrypoint-initdb.d/init.sql''"

definition tlsArgs :: "clickhouse \<Rightarrow> bytes \<Rightarrow> bytes list" where
  "tlsArgs c port =
     mount c ''/server.crt'' ''/etc/clickhouse-server/server.crt'' @ mount c ''/server.key'' ''/etc/clickhouse-server/server.key''
     @ mount c ''/rootCA.crt'' ''/etc/clickhouse-server/rootCA.crt'' @ [str ''-p'', port @ str '':8443'']"

definition chStart :: "'w e2e_env \<Rightarrow> clickhouse \<Rightarrow> 'w \<Rightarrow> (clickhouse \<times> 'w \<times> bytes \<times> bytes option) option" where
  "chStart env c w =
     (case getFreeTCPPort env [] w of
        (w, Inl (name, e)) \<Rightarrow> Some (c\<lparr>chHttpAddress := name\<rparr>, w, [], Some e)
      | (w, Inr addr) \<Rightarrow> do {
          port \<leftarrow> portOf addr;
          let c = c\<lparr>chHttpAddress := addr, chUrl := str ''http://'' @ addr, chContainer := ClickhouseContainerName\<rparr>;
              launch = (\<lambda>c args w. case eeDocker env (args @ (if chTZ c \<noteq> [] then [str ''-e'', str ''TZ='' @ chTZ c] else [])
                  @ [chDockerImage c @ str '':'' @ chVersion c]) w of (w, out, err) \<Rightarrow> Some (c, w, out, err))
          in if chTLSEnabled c then
               (case getFreeTCPPort env [] w of
                  (w, Inl (name, e)) \<Rightarrow> Some (c\<lparr>chHttpsAddress := name\<rparr>, w, [], Some e)
                | (w, Inr addr) \<Rightarrow> do {
                    tport \<leftarrow> portOf addr;
                    launch (c\<lparr>chHttpsAddress := addr, chTlsurl := str ''https://'' @ addr\<rparr>) (runArgs c port @ tlsArgs c tport) w })
             else launch c (runArgs c port) w })"

definition chDelete :: "'w e2e_env \<Rightarrow> clickhouse \<Rightarrow> 'w \<Rightarrow> clickhouse \<times> 'w \<times> bytes \<times> bytes option" where
  "chDelete env c w =
     (if chContainer c = [] then (c, w, [], None)
      else (case eeDocker env [str ''rm'', chContainer c] w of
          (w, out, err) \<Rightarrow> (if err = None then c\<lparr>chContainer := []\<rparr> else c, w, out, err)))"

definition chStop :: "'w e2e_env \<Rightarrow> bool \<Rightarrow> clickhouse \<Rightarrow> 'w \<Rightarrow> clickhouse \<times> 'w \<times> bytes \<times> bytes option" where
  "chStop env del c w =
     (if chContainer c = [] then (c, w, [], None)
      else (case eeDocker env [str ''stop'', chContainer c] w of
          (w, out, err) \<Rightarrow> if err = None \<and> del then chDelete env c w else (c, w, out, err)))"

definition chExec :: "'w e2e_env \<Rightarrow> clickhouse \<Rightarrow> bytes \<Rightarrow> 'w \<Rightarrow> 'w \<times> bool \<times> bytes" where
  "chExec env c sql = containerExec env (chContainer c) [str ''sh'', str ''-c'', str ''clickhouse-client -q '' @ 39 # sql @ [39]]"

definition chQuery :: "'w e2e_env \<Rightarrow> clickhouse \<Rightarrow> bytes \<Rightarrow> 'w \<Rightarrow> 'w \<times> (bytes + bytes)" where
  "chQuery env c sql w =
     (case eePost env (chUrl c) sql w of
        (w, Inl e) \<Rightarrow> (w, Inl e)
      | (w, Inr (code, status, msg)) \<Rightarrow>
          (w, if code \<noteq> 200 then Inl (status @ str '': '' @ TrimRight cLF msg) else Inr msg))"

definition Alive :: "'w e2e_env \<Rightarrow> clickhouse \<Rightarrow> 'w \<Rightarrow> 'w \<times> bool" where
  "Alive env c w =
     (if chContainer c = [] then (w, False)
      else (case eeGet env (chUrl c) w of (w, code) \<Rightarrow> (w, code = Some 200)))"

text \<open>\<open>CopyLog\<close> and \<open>CopyErrLog\<close>; the tail of the log is only printed.\<close>

definition copyLog :: "'w e2e_env \<Rightarrow> string \<Rightarrow> clickhouse \<Rightarrow> bytes \<Rightarrow> 'w \<Rightarrow> 'w \<times> bytes option" where
  "copyLog env name c destDir w =
     (if chContainer c = [] then (w, None)
      else (case eeDocker env [str ''cp'', chContainer c @ str '':/var/log/clickhouse-server/'' @ str name, destDir @ str ''/'' @ str name] w of
          (w, out, err) \<Rightarrow> (w, map_option (\<lambda>e. e @ str '': '' @ TrimRight cLF out) err)))"

definition CopyLog :: "'w e2e_env \<Rightarrow> clickhouse \<Rightarrow> bytes \<Rightarrow> 'w \<Rightarrow> 'w \<times> bytes option" where
  "CopyLog env = copyLog env ''clickhouse-server.log''"

definition CopyErrLog :: "'w e2e_env \<Rightarrow> clickhouse \<Rightarrow> bytes \<Rightarrow> 'w \<Rightarrow> 'w \<times> bytes option" where
  "CopyErrLog env = copyLog env ''clickhouse-server.err.log''"

subsection \<open>The daemon under test\<close>

record carbon =
  ccBinary :: bytes
  ccConfigTpl :: bytes
  ccTestDir :: bytes
  ccStoreDir :: bytes
  ccConfigFile :: bytes
  ccAddress :: bytes
  ccCmd :: bool

definition ccCleanup :: "'w e2e_env \<Rightarrow> carbon \<Rightarrow> 'w \<Rightarrow> carbon \<times> 'w" where
  "ccCleanup env c w = (if ccStoreDir c \<noteq> [] then (c\<lparr>ccStoreDir := [], ccCmd := False\<rparr>, eeRemoveAll env (ccStoreDir c) w) else (c, w))"

datatype cc_error = AlreadyStarted | NoTemplate | CcError bytes

definition ccFail :: "'w e2e_env \<Rightarrow> bytes \<Rightarrow> carbon \<Rightarrow> 'w \<Rightarrow> carbon \<times> 'w \<times> cc_error option" where
  "ccFail env e c w = (case ccCleanup env c w of (c, w) \<Rightarrow> (c, w, Some (CcError e)))"

definition ccStart :: "'w e2e_env \<Rightarrow> bytes \<Rightarrow> bytes \<Rightarrow> carbon \<Rightarrow> 'w \<Rightarrow> carbon \<times> 'w \<times> cc_error option" where
  "ccStart env url tlsurl c w =
     (if ccCmd c then (c, w, Some AlreadyStarted)
      else
        (let c = (if ccBinary c = [] then c\<lparr>ccBinary := str ''./carbon-clickhouse''\<rparr> else c)
         in if ccConfigTpl c = [] then (c, w, Some NoTemplate)
         else (case eeTempDir env w of
             (w, Inl e) \<Rightarrow> (c\<lparr>ccStoreDir := []\<rparr>, w, Some (CcError e))
           | (w, Inr dir) \<Rightarrow>
               (let c = c\<lparr>ccStoreDir := dir\<rparr>
                in case getFreeTCPPort env [] w of
                     (w, Inl (name, e)) \<Rightarrow> ccFail env e (c\<lparr>ccAddress := name\<rparr>) w
                   | (w, Inr addr) \<Rightarrow>
                       (let c = c\<lparr>ccAddress := addr\<rparr>
                        in case eeParseTemplate env (ccConfigTpl c) w of
                             (w, Some e) \<Rightarrow> ccFail env e c w
                           | (w, None) \<Rightarrow>
                               (let c = c\<lparr>ccConfigFile := dir @ str ''/carbon-clickhouse.conf''\<rparr>
                                in case eeOpenFile env (ccConfigFile c) w of
                                     (w, Some e) \<Rightarrow> ccFail env e c w
                                   | (w, None) \<Rightarrow>
                                       (case eeExecute env [url, tlsurl, dir, addr, ccTestDir c] w of
                                          (w, Some e) \<Rightarrow> ccFail env e c w
                                        | (w, None) \<Rightarrow>
                                            (case eeSpawn env (ccBinary c) (ccConfigFile c) w of
                                               (w, Some e) \<Rightarrow> ccFail env e (c\<lparr>ccCmd := True\<rparr>) w
                                             | (w, None) \<Rightarrow> (c\<lparr>ccCmd := True\<rparr>, w, None)))))))))"

definition ccStop :: "'w e2e_env \<Rightarrow> carbon \<Rightarrow> 'w \<Rightarrow> 'w \<times> bytes option" where
  "ccStop env c w =
     (if \<not> ccCmd c then (w, None)
      else (case eeKill env w of
          (w, Some e) \<Rightarrow> (w, Some e)
        | (w, None) \<Rightarrow>
            (case eeWait env w of
               (w, None) \<Rightarrow> (w, None)
             | (w, Some (e, Some ec)) \<Rightarrow> (w, if ec = 0 \<or> ec = -1 then None else Some e)
             | (w, Some (e, None)) \<Rightarrow> (w, Some e))))"

subsection \<open>Handles are consistent\<close>

text \<open>Checking a configuration twice changes nothing, so the key of a container is stable.\<close>

lemma CheckConfig_idempotent:
  assumes "CheckConfig rootDir c = (c', True)" "HasPrefix rootDir (str ''/'')"
  shows "CheckConfig rootDir c' = (c', True)"
proof -
  have image: "defaultImage v \<noteq> []" for v
    by (simp add: defaultImage_def ClickhouseDefaultImage_def ClickhouseOldImage_def split: prod.splits option.splits)
  have prefix: "HasPrefix (rootDir @ x) (str ''/'')" for x
    using assms(2) by (cases rootDir) (simp_all add: HasPrefix_def)
  show ?thesis
    using assms(1) image prefix by (auto simp: CheckConfig_def Let_def split: if_splits)
qed

text \<open>
  The invariant of the daemon's handle: a process only with a store directory, and after an error
  neither.
\<close>

definition ccOk :: "carbon \<Rightarrow> bool" where
  "ccOk c \<longleftrightarrow> (ccCmd c \<longrightarrow> ccStoreDir c \<noteq> [])"

lemma ccCleanup_released: "ccOk c \<Longrightarrow> ccCleanup env c w = (c', w') \<Longrightarrow> \<not> ccCmd c' \<and> ccStoreDir c' = []"
  by (auto simp: ccCleanup_def ccOk_def split: if_splits)

lemma ccFail_released: "ccOk c \<Longrightarrow> ccFail env e c w = (c', w', r) \<Longrightarrow> \<not> ccCmd c' \<and> ccStoreDir c' = [] \<and> r \<noteq> None"
  by (auto simp: ccFail_def split: prod.splits dest: ccCleanup_released)

lemma ccStart_ok:
  assumes "\<not> ccCmd c" "ccStoreDir c = []" "ccStart env url tlsurl c w = (c', w', r)" "\<And>w w' d. eeTempDir env w = (w', Inr d) \<Longrightarrow> d \<noteq> []"
  shows "ccOk c' \<and> (r = None \<longleftrightarrow> ccCmd c') \<and> (r \<noteq> None \<longrightarrow> ccStoreDir c' = [])"
  using assms unfolding ccStart_def Let_def
  by (auto simp: ccOk_def split: if_splits prod.splits sum.splits option.splits dest!: ccFail_released [rotated])

end
