(* ===== verification/E2E_Suite.thy ===== *)
theory E2E_Suite
  imports E2E_Env
begin

text \<open>
  The end-to-end test driver, second part (\<^verbatim>\<open>cmd/e2e-test/e2etesting.go\<close>, \<^verbatim>\<open>main.go\<close>): loading test files, running a test
  against one ClickHouse version, comparing what ClickHouse returns with what is expected, and the
  verdict of the suite. Logging, which includes the flag \<open>verbose\<close>, and sleeping are left out.
\<close>

subsection \<open>Tests\<close>

datatype input_type = InputPlainTCP

definition inputString :: "input_type \<Rightarrow> bytes" where
  "inputString a = (case a of InputPlainTCP \<Rightarrow> str ''tcp_plain'')"

definition inputSet :: "bytes \<Rightarrow> input_type option" where
  "inputSet v = (if v = str ''plain_tcp'' then Some InputPlainTCP else None)"

record verify =
  vfQuery :: bytes
  vfOutput :: "bytes list"

record test_schema =
  tsInputTypes :: "input_type list"
  tsInput :: "bytes list"
  tsConfigTpl :: bytes
  tsClickhouse :: "clickhouse list"
  tsVerify :: "verify list"
  tsDir :: bytes
  tsName :: bytes
  tsChVersions :: "bytes list"

definition preSQL :: "bytes list" where
  "preSQL = map (\<lambda>t. str ''TRUNCATE TABLE IF EXISTS '' @ str t) [''graphite_reverse'', ''graphite'', ''graphite_index'', ''graphite_tags'']"

text \<open>\<open>strings.Contains(schema.dir, "tls")\<close>\<close>

fun containsText :: "bytes \<Rightarrow> bytes \<Rightarrow> bool" where
  "containsText [] sub = (sub = [])"
| "containsText (c # s) sub = (HasPrefix (c # s) sub \<or> containsText s sub)"

definition HasTLSSettings :: "test_schema \<Rightarrow> bool" where
  "HasTLSSettings t = containsText (tsDir t) (str ''tls'')"

subsection \<open>Sending the input\<close>

fun sendLines :: "'w e2e_env \<Rightarrow> bytes list \<Rightarrow> 'w \<Rightarrow> 'w \<times> bytes option" where
  "sendLines env [] w = eeCloseConn env w"
| "sendLines env (m # ms) w = (case eeSend env (m @ [cLF]) w of (w, Some e) \<Rightarrow> (w, Some e) | (w, None) \<Rightarrow> sendLines env ms w)"

definition sendPlain :: "'w e2e_env \<Rightarrow> bytes \<Rightarrow> bytes \<Rightarrow> bytes list \<Rightarrow> 'w \<Rightarrow> 'w \<times> bytes option" where
  "sendPlain env network address inp w =
     (case eeDial env network address w of (w, Some e) \<Rightarrow> (w, Some e) | (w, None) \<Rightarrow> sendLines env inp w)"

subsection \<open>Comparing the output\<close>

definition responseRows :: "bytes \<Rightarrow> bytes list" where
  "responseRows body =
     (let s = map (\<lambda>c. if c = 9 then cSpace else c) (TrimRight cLF body); ss = splitOn cLF s
      in if length ss = 1 \<and> hd ss = [] then [] else ss)"

definition diffLine :: "byte \<Rightarrow> nat \<Rightarrow> bytes \<Rightarrow> bytes" where
  "diffLine sign i l = sign # str '' ['' @ itoa i @ str '']: '' @ l"

definition diffAt :: "bytes list \<Rightarrow> bytes list \<Rightarrow> nat \<Rightarrow> bytes list" where
  "diffAt ss out i =
     (if length ss \<le> i then [diffLine cMinus i (out ! i)]
      else if length out \<le> i then [diffLine cPlus i (ss ! i)]
      else if ss ! i \<noteq> out ! i then [diffLine cMinus i (out ! i), diffLine cPlus i (ss ! i)]
      else [])"

definition verifyOut :: "'w e2e_env \<Rightarrow> clickhouse \<Rightarrow> verify \<Rightarrow> 'w \<Rightarrow> 'w \<times> bytes list" where
  "verifyOut env ch v w =
     (case eePost env (chUrl ch) (vfQuery v) w of
        (w, Inl e) \<Rightarrow> (w, [e])
      | (w, Inr (code, status, body)) \<Rightarrow>
          if code \<noteq> 200 then (w, [str ''response status is '' @ 39 # status @ 39 # str '', '' @ TrimRight cLF body])
          else (let ss = responseRows body
                in (w, fold (\<lambda>i errs. errs @ diffAt ss (vfOutput v) i) [0..<max (length ss) (length (vfOutput v))] [])))"

subsection \<open>Running one test\<close>

text \<open>
  The interactive loop of \<open>debug\<close>. At the end of the input \<open>Scan\<close> fails, the text is empty and the loop
  goes on for ever, so the loop is a partial function.
\<close>

partial_function (option) debugLoop :: "'w e2e_env \<Rightarrow> carbon \<Rightarrow> 'w \<Rightarrow> 'w option" where
  "debugLoop env cch w =
     (case eeStdin env w of
        (w, l) \<Rightarrow>
          if l = Some (str ''y'') \<or> l = Some (str ''Y'') then Some w
          else if l = Some (str ''k'') \<or> l = Some (str ''K'') then debugLoop env cch (fst (ccStop env cch w))
          else debugLoop env cch w)"

definition debugIf :: "'w e2e_env \<Rightarrow> bool \<Rightarrow> carbon \<Rightarrow> 'w \<Rightarrow> 'w option" where
  "debugIf env breakOnError cch w = (if breakOnError then debugLoop env cch w else Some w)"

text \<open>The loop over the queries, with the number of those that failed.\<close>

fun verifyLoop :: "'w e2e_env \<Rightarrow> bool \<Rightarrow> clickhouse \<Rightarrow> carbon \<Rightarrow> verify list \<Rightarrow> nat \<Rightarrow> 'w \<Rightarrow> ('w \<times> nat) option" where
  "verifyLoop env brk ch cch [] verifyFailed w = Some (w, verifyFailed)"
| "verifyLoop env brk ch cch (v # vs) verifyFailed w =
     (case verifyOut env ch v w of
        (w, errs) \<Rightarrow>
          if errs \<noteq> [] then do { w \<leftarrow> debugIf env brk cch w; verifyLoop env brk ch cch vs (verifyFailed + 1) w }
          else verifyLoop env brk ch cch vs verifyFailed w)"

text \<open>The part between starting and stopping the daemon.\<close>

definition exerciseTest :: "'w e2e_env \<Rightarrow> bool \<Rightarrow> input_type \<Rightarrow> test_schema \<Rightarrow> clickhouse \<Rightarrow> carbon \<Rightarrow> 'w \<Rightarrow> ('w \<times> bool) option" where
  "exerciseTest env brk inputType test ch cch w =
     (case (if tsInput test \<noteq> [] then (case inputType of InputPlainTCP \<Rightarrow> sendPlain env (str ''tcp'') (ccAddress cch) (tsInput test) w)
            else (w, None)) of
        (w, Some e) \<Rightarrow> do { w \<leftarrow> debugIf env brk cch w; Some (w, False) }
      | (w, None) \<Rightarrow> do {
          (w, verifyFailed) \<leftarrow> verifyLoop env brk ch cch (tsVerify test) 0 w;
          Some (w, verifyFailed = 0) })"

definition testCarbonClickhouse ::
  "'w e2e_env \<Rightarrow> bool \<Rightarrow> input_type \<Rightarrow> test_schema \<Rightarrow> bytes \<Rightarrow> bytes \<Rightarrow> clickhouse \<Rightarrow> 'w \<Rightarrow> (clickhouse \<times> 'w \<times> bool) option" where
  "testCarbonClickhouse env brk inputType test testDir rootDir ch w =
     (case CheckConfig rootDir ch of
        (ch, False) \<Rightarrow> Some (ch, w, False)
      | (ch, True) \<Rightarrow>
          (case eeAbs env (tsDir test) of
             None \<Rightarrow> Some (ch, w, False)
           | Some absoluteDir \<Rightarrow>
               (let cch = \<lparr>ccBinary = [], ccConfigTpl = testDir @ str ''/'' @ tsConfigTpl test, ccTestDir = absoluteDir, ccStoreDir = [],
                           ccConfigFile = [], ccAddress = [], ccCmd = False\<rparr>
                in if HasTLSSettings test \<and> chTlsurl ch = [] then Some (ch, w, False)
                   else do {
                     let (cch, w, err) = ccStart env (chUrl ch) (if HasTLSSettings test then chTlsurl ch else []) cch w;
                     (w, success) \<leftarrow> (if err = None then exerciseTest env brk inputType test ch cch w else Some (w, False));
                     let (w, stopErr) = ccStop env cch w;
                     let (cch, w) = ccCleanup env cch w;
                     Some (ch, w, success \<and> stopErr = None) })))"

fun preExec :: "'w e2e_env \<Rightarrow> clickhouse \<Rightarrow> bytes list \<Rightarrow> 'w \<Rightarrow> 'w \<times> bool" where
  "preExec env ch [] w = (w, True)"
| "preExec env ch (sql # sqls) w = (case chExec env ch sql w of (w, False, out) \<Rightarrow> (w, False) | (w, True, out) \<Rightarrow> preExec env ch sqls w)"

text \<open>The counters of the suite; \<open>suResults\<close> and \<open>suBroken\<close> are history: the results of the tests and the servers that were down or did not stop.\<close>

record suite =
  suFailed :: nat
  suTotal :: nat
  suResults :: "bool list"
  suBroken :: nat

fun inputLoop ::
  "'w e2e_env \<Rightarrow> bool \<Rightarrow> test_schema \<Rightarrow> bytes \<Rightarrow> input_type list \<Rightarrow> clickhouse \<Rightarrow> suite \<Rightarrow> 'w \<Rightarrow> (clickhouse \<times> suite \<times> 'w) option" where
  "inputLoop env brk test rootDir [] ch su w = Some (ch, su, w)"
| "inputLoop env brk test rootDir (i # is) ch su w = do {
     (ch, w, ok) \<leftarrow> testCarbonClickhouse env brk i test (tsDir test) rootDir ch w;
     inputLoop env brk test rootDir is ch
       (su\<lparr>suTotal := suTotal su + 1, suFailed := suFailed su + (if ok then 0 else 1), suResults := suResults su @ [ok]\<rparr>) w }"

definition runTest :: "'w e2e_env \<Rightarrow> bool \<Rightarrow> bytes \<Rightarrow> test_schema \<Rightarrow> clickhouse \<Rightarrow> suite \<Rightarrow> 'w \<Rightarrow> (clickhouse \<times> suite \<times> 'w) option" where
  "runTest env brk rootDir test ch su w =
     (case preExec env ch preSQL w of
        (w, False) \<Rightarrow> Some (ch, su, w)
      | (w, True) \<Rightarrow> inputLoop env brk test rootDir (tsInputTypes test) ch su w)"

subsection \<open>Servers\<close>

text \<open>The server is returned with whether it was started; \<open>None\<close> is the panic of \<open>Start\<close>.\<close>

definition clickhouseStart :: "'w e2e_env \<Rightarrow> clickhouse \<Rightarrow> 'w \<Rightarrow> (clickhouse \<times> 'w \<times> bool) option" where
  "clickhouseStart env ch w = do {
     (ch, w, out, err) \<leftarrow> chStart env ch w;
     Some (case err of
         None \<Rightarrow> (ch, w, True)
       | Some _ \<Rightarrow> (case chStop env True ch w of (ch, w, _, _) \<Rightarrow> (ch, w, False))) }"

definition clickhouseStop :: "'w e2e_env \<Rightarrow> bytes \<Rightarrow> clickhouse \<Rightarrow> 'w \<Rightarrow> clickhouse \<times> 'w \<times> bool" where
  "clickhouseStop env tempDir ch w =
     (let (w, alive) = Alive env ch w;
          w = (if alive then w else fst (CopyLog env ch tempDir w));
          (ch, w, out, err) = chStop env True ch w
      in (ch, w, alive \<and> err = None))"

fun waitAlive :: "'w e2e_env \<Rightarrow> clickhouse \<Rightarrow> nat \<Rightarrow> 'w \<Rightarrow> 'w" where
  "waitAlive env ch 0 w = w"
| "waitAlive env ch (Suc n) w = (case Alive env ch w of (w, True) \<Rightarrow> w | (w, False) \<Rightarrow> waitAlive env ch n w)"

subsection \<open>Test files\<close>

text \<open>A directory as \<open>ReadDir\<close> lists it; paths are clean, so that joining adds a slash.\<close>

datatype dir_tree = TFile | TUnreadable | TDir "(bytes \<times> dir_tree) list"

datatype lookup_result = NotExist | StatFailed bytes | Found dir_tree

definition joinPath :: "bytes \<Rightarrow> bytes \<Rightarrow> bytes" where
  "joinPath d n = d @ str ''/'' @ n"

fun expandDir :: "bytes \<Rightarrow> dir_tree \<Rightarrow> bytes list \<Rightarrow> bytes list \<times> bool"
and expandEntries :: "bytes \<Rightarrow> (bytes \<times> dir_tree) list \<Rightarrow> bytes list \<Rightarrow> bytes list \<times> bool" where
  "expandDir dirname (TDir es) paths = expandEntries dirname es paths"
| "expandDir dirname _ paths = (paths, False)"
| "expandEntries dirname [] paths = (paths, True)"
| "expandEntries dirname ((name, t) # es) paths =
     (if t = TFile then expandEntries dirname es (if HasSuffix name (str ''.toml'') then paths @ [joinPath dirname name] else paths)
      else (case expandDir (joinPath dirname name) t paths of
          (paths, False) \<Rightarrow> (paths, False)
        | (paths, True) \<Rightarrow> expandEntries dirname es paths))"

definition IsDir :: "(bytes \<Rightarrow> lookup_result) \<Rightarrow> bytes \<Rightarrow> bytes + bool" where
  "IsDir lookup filename =
     (case lookup filename of NotExist \<Rightarrow> Inr False | StatFailed e \<Rightarrow> Inl e | Found t \<Rightarrow> Inr (t \<noteq> TFile))"

definition expandFilename :: "(bytes \<Rightarrow> lookup_result) \<Rightarrow> bytes \<Rightarrow> bytes list \<Rightarrow> bytes list \<times> bool" where
  "expandFilename lookup filename paths =
     (if filename = [] then (paths, True)
      else (case IsDir lookup filename of
          Inl e \<Rightarrow> (paths, False)
        | Inr True \<Rightarrow> (case lookup filename of Found t \<Rightarrow> expandDir filename t paths | _ \<Rightarrow> (paths, False))
        | Inr False \<Rightarrow> (paths @ [filename], True)))"

text \<open>\<open>path.Dir\<close> of a clean path.\<close>

definition pathDir :: "bytes \<Rightarrow> bytes" where
  "pathDir p = (case LastIndexByte p 47 of None \<Rightarrow> str ''.'' | Some 0 \<Rightarrow> str ''/'' | Some i \<Rightarrow> take i p)"

datatype load_error = ReadError bytes | DecodeFailed bytes | ErrNoInput | NoSetDir nat

fun checkServers :: "bytes \<Rightarrow> nat \<Rightarrow> clickhouse list \<Rightarrow> load_error + clickhouse list" where
  "checkServers rootDir i [] = Inr []"
| "checkServers rootDir i (c # cs) =
     (case CheckConfig rootDir c of
        (c, False) \<Rightarrow> Inl (NoSetDir i)
      | (c, True) \<Rightarrow> map_sum id (Cons c) (checkServers rootDir (i + 1) cs))"

text \<open>
  \<open>loadConfig\<close>. A file without a test section leaves the pointer nil, which is then dereferenced: \<open>None\<close>
  is this panic.
\<close>

definition loadConfig ::
  "(bytes \<Rightarrow> bytes + bytes) \<Rightarrow> (bytes \<Rightarrow> bytes + test_schema option) \<Rightarrow> bytes \<Rightarrow> bytes \<Rightarrow> (load_error + test_schema) option" where
  "loadConfig readFile decode cfgFile rootDir =
     (case readFile cfgFile of
        Inl e \<Rightarrow> Some (Inl (ReadError e))
      | Inr d \<Rightarrow>
          (case decode d of
             Inl e \<Rightarrow> Some (Inl (DecodeFailed e))
           | Inr None \<Rightarrow> None
           | Inr (Some t) \<Rightarrow>
               (let t = t\<lparr>tsDir := pathDir cfgFile, tsName := replaceAll (rootDir @ str ''/'') [] cfgFile,
                          tsInputTypes := (if tsInputTypes t = [] then [InputPlainTCP] else tsInputTypes t)\<rparr>
                in if tsInput t = [] then Some (Inl ErrNoInput)
                   else Some (case checkServers rootDir 0 (tsClickhouse t) of
                       Inl e \<Rightarrow> Inl e
                     | Inr cs \<Rightarrow> Inr (t\<lparr>tsClickhouse := cs, tsChVersions := map Key cs\<rparr>)))))"

subsection \<open>The suite\<close>

record suite_flags =
  sfConfig :: bytes
  sfBreak :: bool
  sfAbort :: bool
  sfCleanup :: bool
  sfRmi :: bool

text \<open>Loading all files: those that cannot be loaded are logged and left out.\<close>

fun loadAll ::
  "(bytes \<Rightarrow> bytes + bytes) \<Rightarrow> (bytes \<Rightarrow> bytes + test_schema option) \<Rightarrow> bytes \<Rightarrow> bytes list \<Rightarrow> (bytes \<times> clickhouse) list \<Rightarrow>
   (test_schema list \<times> (bytes \<times> clickhouse) list) option" where
  "loadAll readFile decode rootDir [] vs = Some ([], vs)"
| "loadAll readFile decode rootDir (p # ps) vs =
     (case loadConfig readFile decode p rootDir of
        None \<Rightarrow> None
      | Some (Inl e) \<Rightarrow> loadAll readFile decode rootDir ps vs
      | Some (Inr t) \<Rightarrow>
          map_option (\<lambda>(ts, vs). (t # ts, vs))
            (loadAll readFile decode rootDir ps (fold (\<lambda>c. AList.update (Key c) c) (tsClickhouse t) vs)))"

fun configLoop :: "'w e2e_env \<Rightarrow> bool \<Rightarrow> bytes \<Rightarrow> bytes \<Rightarrow> test_schema list \<Rightarrow> clickhouse \<Rightarrow> suite \<Rightarrow> 'w \<Rightarrow> (clickhouse \<times> suite \<times> 'w) option" where
  "configLoop env brk rootDir ver [] ch su w = Some (ch, su, w)"
| "configLoop env brk rootDir ver (t # ts) ch su w =
     (if ver \<in> set (tsChVersions t) then do {
        (ch, su, w) \<leftarrow> runTest env brk rootDir t ch su w;
        configLoop env brk rootDir ver ts ch su w }
      else configLoop env brk rootDir ver ts ch su w)"

text \<open>One ClickHouse version; \<open>None\<close> is a panic or a debug loop that does not end.\<close>

definition aliveRun ::
  "'w e2e_env \<Rightarrow> suite_flags \<Rightarrow> bytes \<Rightarrow> test_schema list \<Rightarrow> bytes \<Rightarrow> clickhouse \<Rightarrow> suite \<Rightarrow> 'w \<Rightarrow> (clickhouse \<times> suite \<times> 'w) option" where
  "aliveRun env f rootDir configs ver ch su w =
     (case Alive env ch (waitAlive env ch 14 w) of
        (w, False) \<Rightarrow> Some (ch, su\<lparr>suFailed := suFailed su + 1, suTotal := suTotal su + 1, suBroken := suBroken su + 1\<rparr>, w)
      | (w, True) \<Rightarrow> configLoop env (sfBreak f) rootDir ver configs ch su w)"

definition startedRun ::
  "'w e2e_env \<Rightarrow> suite_flags \<Rightarrow> bytes \<Rightarrow> bytes \<Rightarrow> test_schema list \<Rightarrow> bytes \<Rightarrow> clickhouse \<Rightarrow> suite \<Rightarrow> 'w \<Rightarrow> (clickhouse \<times> suite \<times> 'w) option" where
  "startedRun env f rootDir tempDir configs ver ch su w = do {
     (ch, su, w) \<leftarrow> aliveRun env f rootDir configs ver ch su w;
     Some (case clickhouseStop env tempDir ch w of
         (ch, w, True) \<Rightarrow> (ch, su, w)
       | (ch, w, False) \<Rightarrow> (ch, su\<lparr>suFailed := suFailed su + 1, suBroken := suBroken su + 1\<rparr>, w)) }"

definition serverRun ::
  "'w e2e_env \<Rightarrow> suite_flags \<Rightarrow> bytes \<Rightarrow> bytes \<Rightarrow> test_schema list \<Rightarrow> bytes \<times> clickhouse \<Rightarrow> suite \<Rightarrow> 'w \<Rightarrow> (suite \<times> 'w) option" where
  "serverRun env f rootDir tempDir configs v su w = do {
     (ch, w, started) \<leftarrow> clickhouseStart env (snd v) w;
     (ch, su, w) \<leftarrow> (if started then startedRun env f rootDir tempDir configs (fst v) ch su w else Some (ch, su, w));
     Some (su, if sfRmi f then fst (imageDelete env (chDockerImage ch) (chVersion ch) w) else w) }"

datatype suite_end = SuiteOk | SuiteFailed | SuiteFatal | SuiteCleaned

fun versionLoop ::
  "'w e2e_env \<Rightarrow> suite_flags \<Rightarrow> bytes \<Rightarrow> bytes \<Rightarrow> test_schema list \<Rightarrow> (bytes \<times> clickhouse) list \<Rightarrow> suite \<Rightarrow> 'w \<Rightarrow> (suite_end \<times> suite \<times> 'w) option" where
  "versionLoop env f rootDir tempDir configs [] su w = Some (if 0 < suFailed su then SuiteFailed else SuiteOk, su, w)"
| "versionLoop env f rootDir tempDir configs (v # vs) su w =
     (case containerExist env ClickhouseContainerName w of
        (w, True, out) \<Rightarrow> Some (SuiteFatal, su, w)
      | (w, False, out) \<Rightarrow> do {
          (su, w) \<leftarrow> serverRun env f rootDir tempDir configs v su w;
          if sfAbort f \<and> 0 < suFailed su then Some (SuiteFailed, su, w)
          else versionLoop env f rootDir tempDir configs vs su w })"

definition newSuite :: suite where
  "newSuite = \<lparr>suFailed = 0, suTotal = 0, suResults = [], suBroken = 0\<rparr>"

text \<open>\<open>order\<close> is the order in which Go iterates over the map of versions.\<close>

definition e2eMain ::
  "'w e2e_env \<Rightarrow> (bytes \<Rightarrow> lookup_result) \<Rightarrow> (bytes \<Rightarrow> bytes + bytes) \<Rightarrow> (bytes \<Rightarrow> bytes + test_schema option) \<Rightarrow>
   ((bytes \<times> clickhouse) list \<Rightarrow> (bytes \<times> clickhouse) list) \<Rightarrow> bytes \<Rightarrow> bytes \<Rightarrow> suite_flags \<Rightarrow> 'w \<Rightarrow> (suite_end \<times> suite \<times> 'w) option" where
  "e2eMain env lookup readFile decode order rootDir tempDir f w =
     (case (if sfCleanup f
            then (case containerExist env ClickhouseContainerName w of
                    (w, False, _) \<Rightarrow> (w, True)
                  | (w, True, _) \<Rightarrow> (case containerRemove env ClickhouseContainerName w of (w, ok, _) \<Rightarrow> (w, ok)))
            else (w, True)) of
        (w, False) \<Rightarrow> Some (SuiteFatal, newSuite, w)
      | (w, True) \<Rightarrow>
          if sfCleanup f \<and> sfConfig f = [] then Some (SuiteCleaned, newSuite, w)
          else (case expandFilename lookup (sfConfig f) [] of
              (paths, False) \<Rightarrow> Some (SuiteFatal, newSuite, w)
            | (paths, True) \<Rightarrow>
                if paths = [] then Some (SuiteFatal, newSuite, w)
                else do {
                  (configs, versions) \<leftarrow> loadAll readFile decode rootDir paths [];
                  versionLoop env f rootDir tempDir configs (order versions) newSuite w }))"

subsection \<open>The comparison is exact\<close>

lemma diffAt_all: "(\<forall>i < max (length ss) (length out). diffAt ss out i = []) \<longleftrightarrow> ss = out"
proof
  assume d: "\<forall>i < max (length ss) (length out). diffAt ss out i = []"
  have "length ss = length out"
  proof (rule ccontr)
    assume "length ss \<noteq> length out"
    then have "min (length ss) (length out) < max (length ss) (length out)" by auto
    with d have "diffAt ss out (min (length ss) (length out)) = []" by blast
    moreover from \<open>length ss \<noteq> length out\<close> have "length ss \<le> min (length ss) (length out) \<or> length out \<le> min (length ss) (length out)" by linarith
    ultimately show False by (auto simp only: diffAt_def split: if_splits)
  qed
  moreover have "ss ! i = out ! i" if "i < length ss" for i
  proof -
    from that d have "diffAt ss out i = []" by simp
    with that calculation show ?thesis by (simp add: diffAt_def split: if_splits)
  qed
  ultimately show "ss = out" by (rule nth_equalityI)
qed (simp add: diffAt_def)

lemma fold_append: "fold (\<lambda>i errs. errs @ g i) is acc = acc @ concat (map g is)"
  by (induction "is" arbitrary: acc) simp_all

lemma concat_upt_Nil: "concat (map g [0..<n]) = [] \<longleftrightarrow> (\<forall>i < n. g i = [])"
  by auto

text \<open>
  The comparison of a query result with the expected output reports no difference exactly
  if the request succeeded and the rows returned are the expected ones.
\<close>

theorem verify_exact:
  "verifyOut env ch v w = (w', []) \<longleftrightarrow>
     (\<exists>status body. eePost env (chUrl ch) (vfQuery v) w = (w', Inr (200, status, body)) \<and> responseRows body = vfOutput v)"
proof -
  have "fold (\<lambda>i errs. errs @ diffAt ss out i) [0..<max (length ss) (length out)] [] = [] \<longleftrightarrow> ss = out" for ss out
    unfolding fold_append append_Nil concat_upt_Nil by (rule diffAt_all)
  note diff = this
  obtain w1 r where p: "eePost env (chUrl ch) (vfQuery v) w = (w1, r)" by fastforce
  show ?thesis
  proof (cases r)
    case (Inr x)
    obtain code status body where x: "x = (code, status, body)" by (cases x) blast
    show ?thesis
    proof (cases "code = 200")
      case True
      then show ?thesis using p Inr x diff [of "responseRows body" "vfOutput v"] by (auto simp: verifyOut_def Let_def)
    qed (use p Inr x in \<open>auto simp: verifyOut_def\<close>)
  qed (use p in \<open>auto simp: verifyOut_def\<close>)
qed

subsection \<open>The verdict\<close>

definition suiteInv :: "suite \<Rightarrow> bool" where
  "suiteInv su \<longleftrightarrow> suFailed su = length (filter Not (suResults su)) + suBroken su \<and> length (suResults su) \<le> suTotal su"

lemma inputLoop_inv: "inputLoop env brk t rootDir is ch su w = Some (ch', su', w') \<Longrightarrow> suiteInv su \<Longrightarrow> suiteInv su'"
  by (induction env brk t rootDir "is" ch su w rule: inputLoop.induct) (auto simp: suiteInv_def bind_eq_Some_conv split: if_splits)

lemma runTest_inv: "runTest env brk rootDir t ch su w = Some (ch', su', w') \<Longrightarrow> suiteInv su \<Longrightarrow> suiteInv su'"
  by (auto simp: runTest_def split: prod.splits bool.splits dest: inputLoop_inv)

lemma configLoop_inv: "configLoop env brk rootDir ver ts ch su w = Some (ch', su', w') \<Longrightarrow> suiteInv su \<Longrightarrow> suiteInv su'"
proof (induction ts arbitrary: ch su w)
  case (Cons t ts)
  show ?case
  proof (cases "ver \<in> set (tsChVersions t)")
    case True
    with Cons.prems(1) obtain ch1 su1 w1 where r: "runTest env brk rootDir t ch su w = Some (ch1, su1, w1)"
        "configLoop env brk rootDir ver ts ch1 su1 w1 = Some (ch', su', w')" by (auto simp: bind_eq_Some_conv)
    from Cons.IH [OF r(2) runTest_inv [OF r(1) Cons.prems(2)]] show ?thesis .
  next
    case False
    with Cons.prems(1) have "configLoop env brk rootDir ver ts ch su w = Some (ch', su', w')" by simp
    from Cons.IH [OF this Cons.prems(2)] show ?thesis .
  qed
qed simp

lemma suiteInv_broken:
  "suiteInv su \<Longrightarrow> suiteInv (su\<lparr>suFailed := suFailed su + 1, suBroken := suBroken su + 1\<rparr>)"
  "suiteInv su \<Longrightarrow> suiteInv (su\<lparr>suFailed := suFailed su + 1, suTotal := suTotal su + 1, suBroken := suBroken su + 1\<rparr>)"
  by (simp_all add: suiteInv_def)

lemma aliveRun_inv:
  assumes "aliveRun env f rootDir configs ver ch su w = Some (ch', su', w')" "suiteInv su"
  shows "suiteInv su'"
proof -
  obtain w1 alive where "Alive env ch (waitAlive env ch 14 w) = (w1, alive)" by fastforce
  with assms suiteInv_broken(2) [OF assms(2)] show ?thesis by (cases alive) (auto simp: aliveRun_def dest: configLoop_inv)
qed

lemma startedRun_inv:
  assumes "startedRun env f rootDir tempDir configs ver ch su w = Some (ch', su', w')" "suiteInv su"
  shows "suiteInv su'"
proof -
  from assms(1) obtain ch1 su1 w1 where a: "aliveRun env f rootDir configs ver ch su w = Some (ch1, su1, w1)"
    by (auto simp: startedRun_def bind_eq_Some_conv)
  obtain ch2 w2 ok where s: "clickhouseStop env tempDir ch1 w1 = (ch2, w2, ok)" using prod_cases3 by blast
  from aliveRun_inv [OF a assms(2)] suiteInv_broken(1) [of su1] assms(1) a s show ?thesis by (cases ok) (auto simp: startedRun_def)
qed

lemma serverRun_inv:
  assumes "serverRun env f rootDir tempDir configs v su w = Some (su', w')" "suiteInv su"
  shows "suiteInv su'"
proof -
  from assms(1) obtain ch w1 started where c: "clickhouseStart env (snd v) w = Some (ch, w1, started)"
    by (auto simp: serverRun_def bind_eq_Some_conv)
  show ?thesis
  proof (cases started)
    case True
    with assms c show ?thesis by (auto simp: serverRun_def bind_eq_Some_conv dest: startedRun_inv)
  qed (use assms c in \<open>simp add: serverRun_def\<close>)
qed

lemma versionLoop_verdict:
  "versionLoop env f rootDir tempDir configs vs su w = Some (e, su', w') \<Longrightarrow> suiteInv su \<Longrightarrow>
     suiteInv su' \<and> (e = SuiteOk \<longrightarrow> suFailed su' = 0) \<and> (e = SuiteFailed \<longrightarrow> 0 < suFailed su')"
proof (induction vs arbitrary: su w)
  case (Cons v vs)
  obtain w1 ex out where c: "containerExist env ClickhouseContainerName w = (w1, ex, out)" using prod_cases3 by blast
  show ?case
  proof (cases ex)
    case False
    with c Cons.prems(1) obtain su1 w2 where r: "serverRun env f rootDir tempDir configs v su w1 = Some (su1, w2)"
      by (auto simp: bind_eq_Some_conv)
    from serverRun_inv [OF r Cons.prems(2)] Cons.IH [of su1 w2] Cons.prems(1) c False r show ?thesis
      by (auto split: if_splits)
  qed (use c Cons.prems in auto)
qed (auto split: if_splits)

text \<open>
  When the test suite ends with a verdict, it is success exactly if every test that was run
  passed and every server that was started was alive and stopped.
\<close>

theorem suite_verdict:
  assumes "e2eMain env lookup readFile decode order rootDir tempDir f w = Some (e, su, w')" "e \<in> {SuiteOk, SuiteFailed}"
  shows "e = SuiteOk \<longleftrightarrow> list_all id (suResults su) \<and> suBroken su = 0"
proof -
  have new: "suiteInv newSuite" by (simp add: suiteInv_def newSuite_def)
  from assms obtain configs vs w1 where l: "versionLoop env f rootDir tempDir configs vs newSuite w1 = Some (e, su, w')"
    by (auto simp: e2eMain_def bind_eq_Some_conv split: prod.splits bool.splits if_splits)
  note v = versionLoop_verdict [OF l new, THEN conjunct1] versionLoop_verdict [OF l new, THEN conjunct2]
  have "suFailed su = 0 \<longleftrightarrow> list_all id (suResults su) \<and> suBroken su = 0"
    using v(1) by (auto simp: suiteInv_def list_all_iff filter_empty_conv)
  with v(2) assms(2) show ?thesis by auto
qed

text \<open>A system on which Docker fails, and one test file.\<close>

definition demoE2E :: "unit e2e_env" where
  "demoE2E =
     \<lparr>eeDocker = (\<lambda>_ w. (w, [], Some (str ''exit status 1''))), eePost = (\<lambda>_ _ w. (w, Inl [])), eeGet = (\<lambda>_ w. (w, None)),
      eeListen = (\<lambda>_ w. (w, Inr (str ''127.0.0.1:9''))), eeTempDir = (\<lambda>w. (w, Inr (str ''/tmp/x''))), eeParseTemplate = (\<lambda>_ w. (w, None)),
      eeOpenFile = (\<lambda>_ w. (w, None)), eeExecute = (\<lambda>_ w. (w, None)), eeSpawn = (\<lambda>_ _ w. (w, None)), eeKill = (\<lambda>w. (w, None)),
      eeWait = (\<lambda>w. (w, None)), eeRemoveAll = (\<lambda>_ w. w), eeDial = (\<lambda>_ _ w. (w, None)), eeSend = (\<lambda>_ w. (w, None)),
      eeCloseConn = (\<lambda>w. (w, None)), eeAbs = Some, eeStdin = (\<lambda>w. (w, None))\<rparr>"

definition demoServer :: clickhouse where
  "demoServer = \<lparr>chVersion = str ''21.3'', chDir = str ''/d'', chTLSEnabled = False, chDockerImage = [], chTZ = [], chHttpAddress = [],
     chHttpsAddress = [], chUrl = [], chTlsurl = [], chContainer = []\<rparr>"

definition demoTest :: test_schema where
  "demoTest = \<lparr>tsInputTypes = [], tsInput = [str ''a 1 2''], tsConfigTpl = str ''c'', tsClickhouse = [demoServer], tsVerify = [],
     tsDir = [], tsName = [], tsChVersions = []\<rparr>"

definition demoSuiteFlags :: suite_flags where
  "demoSuiteFlags = \<lparr>sfConfig = str ''t.toml'', sfBreak = False, sfAbort = False, sfCleanup = False, sfRmi = False\<rparr>"

abbreviation demoRun :: "(suite_end \<times> suite \<times> unit) option" where
  "demoRun \<equiv> e2eMain demoE2E (\<lambda>_. Found TFile) (\<lambda>_. Inr []) (\<lambda>_. Inr (Some demoTest)) id (str ''/r'') (str ''/tmp'') demoSuiteFlags ()"

text \<open>
  A server that cannot be started is not counted, nor is a test whose tables cannot be emptied, nor a file
  that cannot be loaded: without a working Docker the suite runs no test and ends with success.
\<close>

lemma start_fails: "\<not> chTLSEnabled ch \<Longrightarrow> \<exists>ch'. clickhouseStart demoE2E ch w = Some (ch', w, False)"
  by (simp add: clickhouseStart_def chStart_def getFreeTCPPort_def demoE2E_def portOf_def chStop_def Let_def ClickhouseContainerName_def)

lemma unstarted_not_counted:
  assumes "\<not> chTLSEnabled (snd v)"
  shows "\<exists>w'. serverRun demoE2E f rootDir tempDir configs v su w = Some (su, w')"
  using start_fails [OF assms, of w] by (auto simp: serverRun_def)

lemma suite_without_docker: "demoRun = Some (SuiteOk, newSuite, ())"
proof -
  have "\<exists>ch. CheckConfig (str ''/r'') demoServer = (ch, True) \<and> \<not> chTLSEnabled ch"
    by (simp add: CheckConfig_def demoServer_def Let_def HasPrefix_def)
  then obtain ch where ch: "CheckConfig (str ''/r'') demoServer = (ch, True)" "\<not> chTLSEnabled ch" by blast
  from ch(1) have load: "\<exists>t. loadAll (\<lambda>_. Inr []) (\<lambda>_. Inr (Some demoTest)) (str ''/r'') [str ''t.toml''] [] = Some ([t], [(Key ch, ch)])"
    by (simp add: loadConfig_def demoTest_def Let_def)
  have "containerExist demoE2E n w = (w, False, str ''exit status 1: '')" for n w
    by (simp add: containerExist_def dockerCall_def demoE2E_def Trim_def TrimRight_def)
  moreover from unstarted_not_counted [of "(Key ch, ch)"] ch(2)
  have "serverRun demoE2E demoSuiteFlags (str ''/r'') (str ''/tmp'') configs (Key ch, ch) newSuite () = Some (newSuite, ())" for configs
    by (metis (full_types) old.unit.exhaust snd_conv)
  ultimately show ?thesis
    using load by (auto simp: e2eMain_def demoSuiteFlags_def expandFilename_def IsDir_def newSuite_def)
qed

theorem suite_verdict_witness:
  "SuiteOk = SuiteOk \<longleftrightarrow> list_all id (suResults newSuite) \<and> suBroken newSuite = 0"
  by (rule suite_verdict [OF suite_without_docker]) simp

lemma pre_execute_not_counted:
  "preExec env ch preSQL w = (w', False) \<Longrightarrow> runTest env brk rootDir t ch su w = Some (ch, su, w')"
  by (simp add: runTest_def)

text \<open>What \<open>String\<close> prints is not what \<open>Set\<close> accepts.\<close>

lemma input_not_read_back: "inputSet (inputString t) = None"
  by (cases t) (simp add: inputSet_def inputString_def)

text \<open>At the end of its input the debug loop never returns.\<close>

lemma debug_at_eof:
  assumes "\<And>w. eeStdin env w = (w, None)"
  shows "debugLoop env cch w = None"
proof -
  have "debugLoop env cch w = Some w' \<Longrightarrow> \<exists>w. snd (eeStdin env w) \<noteq> None" for w'
    by (rule debugLoop.raw_induct [of "\<lambda>env cch w w'. \<exists>w. snd (eeStdin env w) \<noteq> None" env cch w w'])
      (auto split: prod.splits if_splits, metis snd_conv, metis snd_conv)
  with assms show ?thesis by (cases "debugLoop env cch w") auto
qed

text \<open>A file without a test section ends the driver with a nil dereference.\<close>

lemma no_test_section_panics: "readFile p = Inr d \<Longrightarrow> decode d = Inr None \<Longrightarrow> loadConfig readFile decode p rootDir = None"
  by (simp add: loadConfig_def)

subsection \<open>Which files are tests\<close>

text \<open>A readable directory gives the toml files below it, depth first.\<close>

fun tomlFiles :: "bytes \<Rightarrow> dir_tree \<Rightarrow> bytes list"
and tomlEntries :: "bytes \<Rightarrow> (bytes \<times> dir_tree) list \<Rightarrow> bytes list" where
  "tomlFiles d (TDir es) = tomlEntries d es"
| "tomlFiles d _ = []"
| "tomlEntries d [] = []"
| "tomlEntries d ((n, t) # es) =
     (if t = TFile then (if HasSuffix n (str ''.toml'') then [joinPath d n] else []) else tomlFiles (joinPath d n) t) @ tomlEntries d es"

fun readable :: "dir_tree \<Rightarrow> bool" where
  "readable (TDir es) = list_all (\<lambda>e. readable (snd e)) es"
| "readable TFile = True"
| "readable TUnreadable = False"

lemma expandDir_toml:
  "readable t \<Longrightarrow> t \<noteq> TFile \<Longrightarrow> expandDir d t paths = (paths @ tomlFiles d t, True)"
  "list_all (\<lambda>e. readable (snd e)) es \<Longrightarrow> expandEntries d es paths = (paths @ tomlEntries d es, True)"
  by (induction d t paths and d es paths rule: expandDir_expandEntries.induct) auto

end
