(* ===== verification/Spec2Isabelle.thy ===== *)
theory Spec2Isabelle
  imports Flow Proto_Read Stats Up_Extra RB_BufferOps RB_Client Recv_Listen Recv_Telegraf Recv_PromAgree Tools Up_Tree Up_TagsMap Lifecycle Modules Cmd E2E_Suite
begin

text \<open>
  \<^bold>\<open>carbon-clickhouse.\<close> The daemon receives metrics in several protocols, encodes them as ClickHouse RowBinary
  records, collects the records in chunk files, and uploads every chunk file to every configured
  table. This development models the daemon bottom up and proves the properties that make its parts
  and their composition correct. Paths below are relative to \<^verbatim>\<open>src/\<close>.

  \<^bold>\<open>How the parts interact.\<close> A receiver (\<^verbatim>\<open>receiver/*.go\<close>) turns input into points, normalises their names
  (\<^verbatim>\<open>helper/tags\<close>, \<^verbatim>\<open>helper/escape\<close>), drops those outside its time window, and encodes the rest into write
  buffers (\<^verbatim>\<open>helper/RowBinary\<close>) that it sends over one channel to the writer. The writer (\<^verbatim>\<open>writer/writer.go\<close>)
  appends the buffers to a chunk file, switches files by size or age, and hands a closed file to the
  linker (\<^verbatim>\<open>writer/link.go\<close>), which links it into one directory per table. Each table has an uploader
  (\<^verbatim>\<open>uploader/*.go\<close>): a scanner queues the linked files, workers read them back and send rows to ClickHouse,
  replace the link by a finished marker, and the cleanup (\<^verbatim>\<open>writer/cleanup.go\<close>) removes a file once every table
  has marked it. A supervisor (\<^verbatim>\<open>carbon/app.go\<close>) reads the configuration and starts and stops the modules; a
  collector (\<^verbatim>\<open>carbon/collector.go\<close>) sends their statistics as metrics.

  \<^bold>\<open>Conventions.\<close> A byte is an 8-bit word and Go's fixed-width integers are words of their width, so that
  wrap-around is that of the code; a float is its 64-bit pattern. A panic is the value \<open>None\<close> and an error a
  value of a sum or of an error datatype. A buffer is the list of the bytes used; its capacity is part of
  every operation that writes to it. A channel is the list of what was sent. Where Go's scheduler or
  map iteration decides, the choice is an argument (an order function, a list of events) or a step
  relation. Loops are recursive functions that terminate by structure or by a measure (bytes left,
  position); there is no fuel. Two loops need not end, the copy loop of the file dump and the wait of the
  test driver's debug mode: they are partial functions into \<open>option\<close>. Code that is not part of the
  repository (float parsing and formatting, regular expressions, snappy, gzip, the block functions of LZ4, pickle, JSON and TOML
  decoders, HTTP, city hash, the clock) is an argument; what a property needs of it is one of its premises.

  \<^bold>\<open>The theories.\<close>

  \<^item> \<open>Prelude\<close>: types, the collections of simplification rules, lists, splitting and joining, \<open>rangeLoop\<close> for
    loops that may panic. \<open>Strconv\<close>: decimal integers. \<open>Binary\<close>: little-endian integers and variable-length
    integers, with their round trips.
  \<^item> \<open>RB_Date\<close> (\<^verbatim>\<open>helper/RowBinary/date.go\<close>): day numbers; the table lookup agrees with the calendar.
    \<open>RB_Calendar\<close>: the civil calendar, printing and parsing of dates, and that a printed day parses back.
  \<^item> \<open>RB_Buffer\<close>, \<open>RB_Writer\<close> (\<^verbatim>\<open>write_buffer.go\<close>, \<^verbatim>\<open>writer.go\<close>): the write buffer and the point writer. The locale
    \<open>point_sink\<close> is the contract of everything that packs items into bounded buffers: the buffers sent and
    the one being filled are the encodings of the accepted items, whole records only. It is
    interpreted by the point writer, the pickle and gRPC receivers and both senders of the collector.
    \<open>RB_BufferOps\<close>: every sequence of buffer operations keeps the length within the capacity.
  \<^item> \<open>RB_Reverse\<close>, \<open>RB_Reader\<close> (\<^verbatim>\<open>reader.go\<close>): records of a data file and path reversal; a file that was cut off
    gives back exactly its complete records. \<open>RB_Client\<close> (\<^verbatim>\<open>reader/reader.go\<close>): the reader for clients.
  \<^item> \<open>Escape\<close> (\<^verbatim>\<open>helper/escape\<close>) and \<open>GraphiteTags\<close> (\<^verbatim>\<open>helper/tags\<close>): percent encoding, the canonical form of
    tagged names, templates and Prometheus labels; independence of the map order, equality of the
    buffered and the plain variant.
  \<^item> \<open>Recv_Base\<close>, \<open>Recv_Plain\<close>, \<open>Recv_Stream\<close> (\<^verbatim>\<open>base.go\<close>, \<^verbatim>\<open>plain.go\<close>, \<^verbatim>\<open>tcp.go\<close>, \<^verbatim>\<open>udp.go\<close>): drop rules, the line protocol,
    segmentation of a stream into buffers of whole lines. \<open>PB\<close>, \<open>Recv_Prometheus\<close> (\<^verbatim>\<open>helper/pb\<close>,
    \<^verbatim>\<open>prometheus.go\<close>, \<^verbatim>\<open>prometheus_metric.go\<close>): the hand-written decoder of remote-write requests is inverse to the
    encoding. \<open>Recv_Messages\<close> (\<^verbatim>\<open>pickle_parser.go\<close>, \<^verbatim>\<open>grpc.go\<close>) and \<open>Recv_Telegraf\<close> (\<^verbatim>\<open>telegraf_http_json.go\<close>).
  \<^item> \<open>Protobuf\<close> (the common part of \<^verbatim>\<open>helper/prompb/*.pb.go\<close> and \<^verbatim>\<open>grpc/carbon.pb.go\<close>): the wire format as the generated code
    writes and reads it, with 64-bit indices; the locale \<open>message_codec\<close> is the contract of a message type (\<open>Size\<close> is
    the number of bytes written, \<open>Unmarshal\<close> inverts \<open>Marshal\<close>) and gives it for repeated fields. \<open>Proto_Prom\<close> and
    \<open>Proto_Carbon\<close> interpret it for every message of remote writes and of the gRPC service, \<open>Proto_Read\<close> for the messages of
    remote reads. \<open>Recv_PromAgree\<close>: the
    hand-written and the generated decoder of the Prometheus receiver agree.
  \<^item> \<open>Recv_Listen\<close>: the goroutines of the TCP and pickle listeners and of the HTTP and gRPC servers as step
    relations: exactly when a stop can end, and that every buffer read is parsed once or still held.
  \<^item> \<open>Up_Filter\<close>, \<open>Up_Points\<close>, \<open>Up_Tree\<close>, \<open>Up_Index\<close>, \<open>Up_Tagged\<close> (\<^verbatim>\<open>uploader/filter.go\<close> and the files named after the
    tables): the rows made of a file. The locale \<open>keyed_rows\<close> is the contract of the uploaders that
    write once per new key. \<open>Up_TagsMap\<close> (\<^verbatim>\<open>tagged.go\<close>): the second parser of tagged names, against the first.
    \<open>Up_Cache\<close> (\<^verbatim>\<open>cmap.go\<close>, \<^verbatim>\<open>cached.go\<close>): the sharded map refines one map, and the cache
    is changed only by a successful upload. \<open>Up_Extra\<close>: compressed bodies, the printer of the pattern tree. \<open>Stats\<close>: the
    statistics of receivers and cached uploaders; counters are reported without loss.
  \<^item> \<open>Files\<close> (\<^verbatim>\<open>writer/link.go\<close>, \<^verbatim>\<open>writer/cleanup.go\<close>): a file system in which every call may fail. \<open>Lz4\<close>
    (\<^verbatim>\<open>vendor/github.com/pierrec/lz4\<close>): the frames of compressed files; what the writer's compressor produces, the file
    reader decodes. \<open>Wr_Worker\<close>
    (\<^verbatim>\<open>writer/writer.go\<close>): buffering, compression, rotation and confirmation. \<open>Wr_Durable\<close>: what a confirmed gRPC request
    may rely on, from the request through the channel to the file and back, also when files fail. \<open>Up_Base\<close> (\<^verbatim>\<open>base.go\<close>, \<^verbatim>\<open>uploader.go\<close>,
    \<^verbatim>\<open>config.go\<close>): the queue of a table as a step relation of scanner and workers. \<open>Lifecycle\<close>: the composition of
    these as a step relation with faults and crashes, and the property that no closed file is lost
    before every table has accepted it.
  \<^item> \<open>Conf\<close>, \<open>AppConfig\<close> (\<^verbatim>\<open>helper/config\<close>, \<^verbatim>\<open>carbon/config.go\<close>), \<open>Stop\<close> (\<^verbatim>\<open>helper/stop\<close>), \<open>Collector\<close> and \<open>App\<close>
    (\<^verbatim>\<open>carbon/collector.go\<close>, \<^verbatim>\<open>carbon/app.go\<close>): configuration values and defaults, the start and stop protocol,
    statistics, and the supervisor as operations on its handles with a log of the calls it makes.
    \<open>Modules\<close>: the start procedures of receivers, uploaders and writer; the locale \<open>module_start\<close> is their
    common protocol (all goroutines or none, a second start does nothing), interpreted by each of them.
  \<^item> \<open>Cmd\<close> (\<^verbatim>\<open>carbon-clickhouse.go\<close>): the main function with its modes (check and print the configuration, dump
    and recover a data file, run the daemon). \<open>E2E_Env\<close>, \<open>E2E_Suite\<close> (\<^verbatim>\<open>cmd/e2e-test\<close>): the end-to-end test
    driver; which answers of the database it accepts, and what its exit status says of the test cases.
    \<open>Tools\<close> (\<^verbatim>\<open>receiver/grpc_sender\<close>, \<^verbatim>\<open>uploader/tree\<close>): the load generator and the tree lister.
  \<^item> \<open>Flow\<close>: the composition of writer and points uploader for any buffers of whole records, and with it Prometheus and gRPC
    requests from their encoded form to the rows of the table. This theory: the same for lines of the plain-text receiver.

  \<^bold>\<open>What the properties assume.\<close> The composition below is about runs in which files can be written; failing
  writes, opens and system calls are in \<open>Wr_Worker\<close>, \<open>Files\<close> and \<open>Lifecycle\<close>. In \<open>Lifecycle\<close> a cleanup step
  is one in which asking for a finished marker does not fail with an error other than "not exist";
  \<open>cleanup_stat_error\<close> shows why. Many lemmas show behaviour that is not what the code means to do (a
  panic, a lost byte, a hang); they are stated where the operation is.

  \<^bold>\<open>Not modelled.\<close> Sockets, HTTP servers and clients, timers, logging and profiling (I/O around the modelled
  handlers); getters, text forms and the registration in the generated code; the block compression, the checksum and the
  concurrent mode of the LZ4 package, and its limit on reads that give no data. Data races
  are modelled only where the code has one on purpose or by mistake in a modelled operation (the
  shared error variables of the cached upload and of the writer).
\<close>

section \<open>From received lines to inserted rows\<close>

text \<open>
  The way of a plain-text metric through the daemon: a parser thread turns receive buffers into write
  buffers, the writer packs these into chunk files, and the points uploader reads each closed file
  and produces the rows it sends to ClickHouse.
\<close>

definition pointsOf :: "rcv_env \<Rightarrow> base \<Rightarrow> rcv_buffer \<Rightarrow> point list" where
  "pointsOf env base b = acceptedPoints env base (rbTime b) (bufferLines (rbBody b))"

definition parsable :: "rcv_env \<Rightarrow> base \<Rightarrow> rcv_buffer \<Rightarrow> bool" where
  "parsable env base b \<longleftrightarrow> linesSafe env base (rbTime b) (bufferLines (rbBody b))
     \<and> length (encPoints env (pointsOf env base b)) \<le> WriteBufferSize"

lemma PlainParser_sends:
  assumes "\<forall>b \<in> set inp. parsable env base b"
  shows "\<exists>base' buf'. PlainParser env inp buf base = Some (base', buf')
     \<and> writeChan base' = writeChan base @ map (\<lambda>ps. appendWb (encPoints env ps) newWriteBuffer)
         (filter (\<lambda>ps. ps \<noteq> []) (map (pointsOf env base) inp))"
  using assms
proof (induction inp arbitrary: base buf)
  case Nil
  then show ?case by (simp add: PlainParser_def)
next
  case (Cons b inp)
  from PlainParseBuffer_sends [of env base b buf] Cons.prems obtain base1 buf1 where
    b: "PlainParseBuffer env True b buf base = Some (base1, buf1)" "sameConfig base base1"
      "writeChan base1 = writeChan base
         @ (if pointsOf env base b = [] then [] else [appendWb (encPoints env (pointsOf env base b)) newWriteBuffer])"
    by (auto simp: parsable_def pointsOf_def)
  note same = config_lines [OF b(2)]
  have pts: "pointsOf env base1 = pointsOf env base" "parsable env base1 = parsable env base"
    by (simp_all add: fun_eq_iff pointsOf_def parsable_def same)
  from Cons.IH [of base1 buf1] Cons.prems show ?case
    by (auto simp: PlainParser_def b pts)
qed

definition pipeline ::
  "rcv_env \<Rightarrow> worker_conf \<Rightarrow> int \<Rightarrow> open_try list \<Rightarrow> wk_event list list \<Rightarrow> io_error sync_store \<Rightarrow>
   rcv_buffer list \<Rightarrow> graphite_buf \<Rightarrow> base \<Rightarrow> (bytes \<times> bytes) list option" where
  "pipeline env c now tries ts st inp buf base =
     (case PlainParser env inp buf base of
        None \<Rightarrow> None
      | Some (base', _) \<Rightarrow> map_option (\<lambda>(w, _). wkClosed w) (workerRun c now tries (feed ts (writeChan base')) st))"

abbreviation sentBuffer :: "rcv_env \<Rightarrow> point list \<Rightarrow> write_buffer" where
  "sentBuffer env ps \<equiv> appendWb (encPoints env ps) newWriteBuffer"

lemma sent_buffers:
  assumes "\<forall>b \<in> set inp. parsable env base b"
  defines "pss \<equiv> filter (\<lambda>ps. ps \<noteq> []) (map (pointsOf env base) inp)"
  shows "list_all (wholeBuffer (envDays env)) (map (sentBuffer env) pss)" "list_all (\<lambda>wb. wbWg wb = None) (map (sentBuffer env) pss)"
    and "concat (map wbBody (map (sentBuffer env) pss)) = encPoints env (concat (map (pointsOf env base) inp))"
    and "list_all smallName (concat (map (pointsOf env base) inp))"
proof -
  have cap: "length (encPoints env (pointsOf env base b)) \<le> WriteBufferSize" if "b \<in> set inp" for b
    using assms(1) that by (simp add: parsable_def)
  then have whole: "wholeBuffer (envDays env) (sentBuffer env (pointsOf env base b))" if "b \<in> set inp" for b
    using that by (auto simp: wholeBuffer_def wbUsed_def whole_def newWriteBuffer_def)
  then show "list_all (wholeBuffer (envDays env)) (map (sentBuffer env) pss)" by (auto simp: pss_def list_all_iff)
  show "list_all (\<lambda>wb. wbWg wb = None) (map (sentBuffer env) pss)" by (simp add: list_all_iff newWriteBuffer_def)
  show "concat (map wbBody (map (sentBuffer env) pss)) = encPoints env (concat (map (pointsOf env base) inp))"
    unfolding pss_def by (induction inp) (simp_all add: newWriteBuffer_def)
  have "smallName p" if p: "b \<in> set inp" "p \<in> set (pointsOf env base b)" for b p
  proof -
    from p(2) obtain xs ys where "pointsOf env base b = xs @ p # ys" by (meson split_list)
    with cap [OF p(1)] length_encPoint_name [of p "envDays env"] show ?thesis by (simp add: smallName_def WriteBufferSize_def)
  qed
  then show "list_all smallName (concat (map (pointsOf env base) inp))" by (auto simp: list_all_iff)
qed

text \<open>
  C1. Plain-text lines parsed by a receiver thread, packed by the writer into however many chunk
  files and read back by the points uploader become exactly the rows of the accepted points, in
  order, filtered and transformed as the table is configured; nothing is lost or duplicated on
  the way.
\<close>

theorem lines_reach_clickhouse:
  assumes "\<forall>b \<in> set inp. parsable env base b" "writeChan base = []" "goodTries tries" "quietTicks ts" "blockCodec (wcLz4 c)"
  shows "\<exists>files rows. pipeline env c now tries ts st inp buf base = Some files
     \<and> map (rowsOf (envDays env) (wcLz4 c) pats isReverse zero) files = map Some rows
     \<and> concat rows = concat (map (encPoint (envDays env) \<circ> stored isReverse zero)
         (filter (\<lambda>p. \<not> matchesPattern pats (pName p)) (concat (map (pointsOf env base) inp))))"
proof -
  from PlainParser_sends [OF assms(1), of buf] assms(2) obtain base' buf' where
    pp: "PlainParser env inp buf base = Some (base', buf')"
      "writeChan base' = map (sentBuffer env) (filter (\<lambda>ps. ps \<noteq> []) (map (pointsOf env base) inp))" by auto
  note sent = sent_buffers [OF assms(1), folded pp(2)]
  from buffers_reach [OF sent(1,3,4) assms(3,4) confirmsOk_quiet [OF sent(2), of st] assms(5), of now pats isReverse zero] pp(1)
  show ?thesis by (auto simp: pipeline_def tableRows_def)
qed

theorem lines_reach_clickhouse_witness:
  "\<exists>files rows. pipeline exampleEnv (exampleWkConf 1 CompAlgoLZ4) 0 [exampleTry 1]
         [[Tick 0 99 [exampleTry 6]], [IdleFlush]] exampleStore [exampleBuffer 2, exampleBuffer 1] \<lparr>gbKV = [], gbB = []\<rparr> zeroBase = Some files
     \<and> map (rowsOf (envDays exampleEnv) (wcLz4 (exampleWkConf 1 CompAlgoLZ4)) [str ''b.*''] True False) files = map Some rows
     \<and> concat rows = concat (map (encPoint (envDays exampleEnv) \<circ> stored True False)
         (filter (\<lambda>p. \<not> matchesPattern [str ''b.*''] (pName p)) (concat (map (pointsOf exampleEnv zeroBase) [exampleBuffer 2, exampleBuffer 1]))))"
proof (rule lines_reach_clickhouse)
  show "\<forall>b \<in> set [exampleBuffer 2, exampleBuffer 1]. parsable exampleEnv zeroBase b"
    using exampleSafe length_examplePoints [of 2] length_examplePoints [of 1]
    by (simp add: parsable_def pointsOf_def examplePoints WriteBufferSize_def)
qed (simp_all add: zeroBase_def exampleTry_def quietTicks_def exampleLz4_codec)

end
